(* ===== verification/EC_Prelude.thy ===== *)
theory EC_Prelude
  imports Main "HOL-Library.Word"
begin

text \<open>
  Shared vocabulary of the development: machine integers and byte strings, the fallible
  results of the Rust sources (\<open>Result\<close> as a sum with the error on the left), slices
  (\<open>slice.get(a..b)\<close>), little-endian integers and the arithmetic the sources spell
  \<open>checked_add\<close> and \<open>saturating_add\<close>. No component of the program is modelled here.

  Conventions. An integer whose wrap-around or width matters is a word (\<open>u8\<close> to
  \<open>u64\<close>). A \<open>usize\<close> that measures an in-memory buffer is a \<open>nat\<close>: Rust
  bounds every allocation by \<open>isize::MAX\<close>, so sums of buffer lengths never reach
  \<open>2 ^ 64\<close> and the saturating additions on them are exact. Counters that the sources
  saturate are \<open>nat\<close> with the bound written out (\<open>sat_add\<close>).
\<close>

section \<open>Collections of rewrite rules\<close>

named_theorems wire_simps \<open>little-endian fields, slices and their lengths\<close>
named_theorems result_simps \<open>sequencing of fallible computations\<close>

section \<open>Machine integers and bytes\<close>

type_synonym u8 = "8 word"
type_synonym u16 = "16 word"
type_synonym u32 = "32 word"
type_synonym u64 = "64 word"
type_synonym bytes = "u8 list"

text \<open>The bound of a \<open>w\<close>-bit unsigned counter kept as a natural number.\<close>

abbreviation umax :: "nat \<Rightarrow> nat" where
  "umax w \<equiv> 2 ^ w - 1"

text \<open>Rust's \<open>saturating_add\<close> and \<open>checked_add\<close> on a \<open>w\<close>-bit unsigned counter.\<close>

definition sat_add :: "nat \<Rightarrow> nat \<Rightarrow> nat \<Rightarrow> nat" where
  "sat_add w a b = min (umax w) (a + b)"

definition checked_add :: "nat \<Rightarrow> nat \<Rightarrow> nat \<Rightarrow> nat option" where
  "checked_add w a b = (if a + b \<le> umax w then Some (a + b) else None)"

lemma min_add_assoc: "min M (min M (a + b) + c) = min M (a + min M (b + c))" for M :: nat
  by arith

lemma sat_add_assoc: "sat_add w (sat_add w a b) c = sat_add w a (sat_add w b c)"
  unfolding sat_add_def by (rule min_add_assoc)

lemma sat_add_commute: "sat_add w a b = sat_add w b a"
  by (simp add: sat_add_def add.commute)

lemma sat_add_exact: "a + b \<le> umax w \<Longrightarrow> sat_add w a b = a + b"
  by (simp add: sat_add_def)

lemma sat_add_le: "sat_add w a b \<le> umax w"
  by (simp add: sat_add_def)

lemma checked_add_Some: "checked_add w a b = Some c \<longleftrightarrow> c = a + b \<and> a + b \<le> umax w"
  by (auto simp: checked_add_def)

text \<open>\<open>u32::try_from(usize)\<close>, and the widening reads of a word as a length.\<close>

definition u32_try_from :: "nat \<Rightarrow> u32 option" where
  "u32_try_from n = (if n < 2 ^ 32 then Some (word_of_nat n) else None)"

lemma u32_try_from_Some:
  "u32_try_from n = Some w \<longleftrightarrow> n < 2 ^ 32 \<and> w = word_of_nat n"
  by (auto simp: u32_try_from_def)

lemma unat_word_of_nat_u32 [simp]: "n < 2 ^ 32 \<Longrightarrow> unat (word_of_nat n :: u32) = n"
  by (simp add: unat_of_nat take_bit_nat_eq_self)

lemma unat_word_of_nat_u64 [simp]: "n < 2 ^ 64 \<Longrightarrow> unat (word_of_nat n :: u64) = n"
  by (simp add: unat_of_nat take_bit_nat_eq_self)

lemma unat_word_of_nat_u16 [simp]: "n < 2 ^ 16 \<Longrightarrow> unat (word_of_nat n :: u16) = n"
  by (simp add: unat_of_nat take_bit_nat_eq_self)

lemma unat_word_of_nat_u8 [simp]: "n < 256 \<Longrightarrow> unat (word_of_nat n :: u8) = n"
  by (simp add: unat_of_nat take_bit_nat_eq_self)

lemma unat_u8_bound: "unat (b :: u8) < 256"
  using unsigned_less [of b] by simp

lemma unat_u16_bound: "unat (b :: u16) < 2 ^ 16"
  using unsigned_less [of b] by simp

lemma unat_u32_bound: "unat (b :: u32) < 2 ^ 32"
  using unsigned_less [of b] by simp

lemma unat_u64_bound: "unat (b :: u64) < 2 ^ 64"
  using unsigned_less [of b] by simp

text \<open>\<open>saturating_add\<close> on words, for values kept at their width: a commutative monoid.\<close>

definition usat_add :: "'a::len word \<Rightarrow> 'a word \<Rightarrow> 'a word" where
  "usat_add a b = (if unat a + unat b < 2 ^ LENGTH('a) then a + b else - 1)"

lemma unat_usat_add: "unat (usat_add a b) = min (2 ^ LENGTH('a) - 1) (unat a + unat b)"
  for a b :: "'a::len word"
  by (auto simp: usat_add_def unat_add_lem [THEN iffD1] unsigned_minus_1_eq_mask mask_eq_exp_minus_1)

lemma usat_add_assoc: "usat_add (usat_add a b) c = usat_add a (usat_add b c)"
  by (simp only: word_unat_eq_iff unat_usat_add min_add_assoc)

lemma usat_add_commute: "usat_add a b = usat_add b a"
  by (simp only: word_unat_eq_iff unat_usat_add add.commute)

lemma usat_add_zero [simp]: "usat_add 0 a = a" "usat_add a 0 = a"
  using unsigned_less [of a, where ?'a = nat] by (simp_all add: usat_add_def)

lemma usat_add_mono: "a \<le> usat_add a b" for a b :: "'a::len word"
proof -
  have "unat a < 2 ^ LENGTH('a)" by (rule unsigned_less)
  then have "unat a \<le> 2 ^ LENGTH('a) - 1" by linarith
  then show ?thesis by (simp add: word_le_nat_alt unat_usat_add)
qed

section \<open>Little-endian integers\<close>

text \<open>\<open>to_le_bytes\<close> of an \<open>n\<close>-byte integer and its inverse \<open>from_le_bytes\<close>.\<close>

fun le_bytes :: "nat \<Rightarrow> nat \<Rightarrow> bytes" where
  "le_bytes 0 v = []"
| "le_bytes (Suc n) v = word_of_nat (v mod 256) # le_bytes n (v div 256)"

lemma le_bytes_numeral:
  "le_bytes (numeral k) v = word_of_nat (v mod 256) # le_bytes (pred_numeral k) (v div 256)"
  by (simp only: numeral_eq_Suc le_bytes.simps)

fun le_nat :: "bytes \<Rightarrow> nat" where
  "le_nat [] = 0"
| "le_nat (b # bs) = unat b + 256 * le_nat bs"

lemma length_le_bytes [simp, wire_simps]: "length (le_bytes n v) = n"
  by (induction n arbitrary: v) auto

lemma le_nat_le_bytes: "v < 256 ^ n \<Longrightarrow> le_nat (le_bytes n v) = v"
proof (induction n arbitrary: v)
  case 0
  then show ?case by simp
next
  case (Suc n)
  have "v div 256 < 256 ^ n"
    using Suc.prems by (simp add: less_mult_imp_div_less mult.commute)
  then have "le_nat (le_bytes n (v div 256)) = v div 256"
    by (rule Suc.IH)
  then show ?case by simp
qed

lemma le_nat_bound: "le_nat bs < 256 ^ length bs"
proof (induction bs)
  case Nil
  then show ?case by simp
next
  case (Cons b bs)
  have "unat b + 256 * le_nat bs < 256 + 256 * le_nat bs"
    using unat_u8_bound [of b] by simp
  also have "\<dots> \<le> 256 * 256 ^ length bs"
    using Cons.IH by (metis Suc_leI add.commute mult_Suc_right mult_le_mono2)
  finally show ?case by simp
qed

lemma le_bytes_le_nat: "le_bytes (length bs) (le_nat bs) = bs"
proof (induction bs)
  case Nil
  then show ?case by simp
next
  case (Cons b bs)
  have "(unat b + 256 * le_nat bs) mod 256 = unat b"
    using unat_u8_bound [of b] by simp
  moreover have "(unat b + 256 * le_nat bs) div 256 = le_nat bs"
    using unat_u8_bound [of b] by simp
  ultimately show ?case using Cons.IH by simp
qed

lemma le_nat_u32 [simp, wire_simps]: "le_nat (le_bytes 4 (unat (w :: u32))) = unat w"
  by (rule le_nat_le_bytes) (use unat_u32_bound [of w] in simp)

lemma le_nat_u16 [simp, wire_simps]: "le_nat (le_bytes 2 (unat (w :: u16))) = unat w"
  by (rule le_nat_le_bytes) (use unat_u16_bound [of w] in simp)

lemma le_nat_u64 [simp, wire_simps]: "le_nat (le_bytes 8 (unat (w :: u64))) = unat w"
  by (rule le_nat_le_bytes) (use unat_u64_bound [of w] in simp)

section \<open>Slices\<close>

text \<open>\<open>bytes.get(a..b)\<close>: absent when the range is reversed or runs past the end.\<close>

definition slice_get :: "'a list \<Rightarrow> nat \<Rightarrow> nat \<Rightarrow> 'a list option" where
  "slice_get xs a b = (if a \<le> b \<and> b \<le> length xs then Some (take (b - a) (drop a xs)) else None)"

text \<open>\<open>bytes.get(a..)\<close>: absent when the start is past the end.\<close>

definition slice_from :: "'a list \<Rightarrow> nat \<Rightarrow> 'a list option" where
  "slice_from xs a = (if a \<le> length xs then Some (drop a xs) else None)"

lemma slice_get_Some:
  "slice_get xs a b = Some ys \<longleftrightarrow> a \<le> b \<and> b \<le> length xs \<and> ys = take (b - a) (drop a xs)"
  by (auto simp: slice_get_def)

lemma slice_from_Some: "slice_from xs a = Some ys \<longleftrightarrow> a \<le> length xs \<and> ys = drop a xs"
  by (auto simp: slice_from_def)

lemma slice_get_length: "slice_get xs a b = Some ys \<Longrightarrow> length ys = b - a"
  by (auto simp: slice_get_def split: if_splits)

text \<open>A field laid out after a prefix of known length is what the slice returns.\<close>

lemma slice_get_field [wire_simps]:
  "length xs = a \<Longrightarrow> b = a + length ys \<Longrightarrow> slice_get (xs @ ys @ zs) a b = Some ys"
  by (simp add: slice_get_def)

lemma slice_get_field_end [wire_simps]:
  "length xs = a \<Longrightarrow> b = a + length ys \<Longrightarrow> slice_get (xs @ ys) a b = Some ys"
  by (simp add: slice_get_def)

lemma slice_get_prefix [wire_simps]:
  "b = length ys \<Longrightarrow> slice_get (ys @ zs) 0 b = Some ys"
  by (simp add: slice_get_def)

lemma slice_get_append_left: "b \<le> length xs \<Longrightarrow> slice_get (xs @ ys) a b = slice_get xs a b"
  by (auto simp: slice_get_def)

lemma slice_get_take: "b \<le> n \<Longrightarrow> n \<le> length xs \<Longrightarrow> slice_get (take n xs) a b = slice_get xs a b"
  by (simp add: slice_get_def drop_take)

section \<open>Fallible computations\<close>

text \<open>\<open>Result\<close> and the \<open>?\<close> operator: an error on the left stops the computation.\<close>

definition rbind :: "'e + 'a \<Rightarrow> ('a \<Rightarrow> 'e + 'b) \<Rightarrow> 'e + 'b" where
  "rbind r f = (case r of Inl e \<Rightarrow> Inl e | Inr x \<Rightarrow> f x)"

definition ok_or :: "'e \<Rightarrow> 'a option \<Rightarrow> 'e + 'a" where
  "ok_or e x = (case x of None \<Rightarrow> Inl e | Some v \<Rightarrow> Inr v)"

definition require_ok :: "bool \<Rightarrow> 'e \<Rightarrow> 'e + unit" where
  "require_ok b e = (if b then Inr () else Inl e)"

lemma rbind_simps [simp, result_simps]:
  "rbind (Inl e) f = Inl e"
  "rbind (Inr x) f = f x"
  by (simp_all add: rbind_def)

lemma rbind_Inr_iff: "rbind r f = Inr y \<longleftrightarrow> (\<exists>x. r = Inr x \<and> f x = Inr y)"
  by (cases r) auto

lemma rbind_Inl_iff: "rbind r f = Inl e \<longleftrightarrow> r = Inl e \<or> (\<exists>x. r = Inr x \<and> f x = Inl e)"
  by (cases r) auto

lemma rbind_assoc: "rbind (rbind r f) g = rbind r (\<lambda>x. rbind (f x) g)"
  by (cases r) auto

lemma rbind_cong [fundef_cong]:
  "r = r' \<Longrightarrow> (\<And>x. r' = Inr x \<Longrightarrow> f x = f' x) \<Longrightarrow> rbind r f = rbind r' f'"
  by (cases r') auto

lemma ok_or_simps [simp, result_simps]:
  "ok_or e None = Inl e"
  "ok_or e (Some v) = Inr v"
  by (simp_all add: ok_or_def)

lemma ok_or_Inr_iff: "ok_or e x = Inr v \<longleftrightarrow> x = Some v"
  by (cases x) auto

lemma ok_or_Inl_iff: "ok_or e x = Inl d \<longleftrightarrow> x = None \<and> d = e"
  by (cases x) auto

lemma require_ok_simps [simp, result_simps]:
  "require_ok True e = Inr ()"
  "require_ok False e = Inl e"
  by (simp_all add: require_ok_def)

lemma require_ok_Inr_iff: "require_ok b e = Inr u \<longleftrightarrow> b"
  by (cases b) auto

lemma require_ok_Inl_iff: "require_ok b e = Inl d \<longleftrightarrow> \<not> b \<and> d = e"
  by (cases b) auto

text \<open>Collecting an iterator of results (\<open>collect::<Result<Vec<_>, _>>()\<close>).\<close>

text \<open>\<open>Result::map_err\<close>.\<close>

definition map_err :: "('e \<Rightarrow> 'f) \<Rightarrow> 'e + 'a \<Rightarrow> 'f + 'a" where
  "map_err f r = (case r of Inl e \<Rightarrow> Inl (f e) | Inr x \<Rightarrow> Inr x)"

lemma map_err_Inr [simp]: "map_err f r = Inr x \<longleftrightarrow> r = Inr x" "map_err f (Inr x) = Inr x" "map_err f (Inl e) = Inl (f e)"
  by (cases r; simp add: map_err_def)+

fun traverse :: "('a \<Rightarrow> 'e + 'b) \<Rightarrow> 'a list \<Rightarrow> 'e + 'b list" where
  "traverse f [] = Inr []"
| "traverse f (x # xs) = rbind (f x) (\<lambda>y. rbind (traverse f xs) (\<lambda>ys. Inr (y # ys)))"

lemma traverse_length: "traverse f xs = Inr ys \<Longrightarrow> length ys = length xs"
  by (induction xs arbitrary: ys) (auto simp: rbind_Inr_iff)

lemma traverse_Inr_iff:
  "traverse f xs = Inr ys \<longleftrightarrow> list_all2 (\<lambda>x y. f x = Inr y) xs ys"
  by (induction xs arbitrary: ys) (auto simp: rbind_Inr_iff list_all2_Cons1)

lemmas result_iffs = rbind_Inr_iff rbind_Inl_iff ok_or_Inr_iff ok_or_Inl_iff
  require_ok_Inr_iff require_ok_Inl_iff

section \<open>Lists\<close>

lemma option_eqI: "(\<And>v. x = Some v \<longleftrightarrow> y = Some v) \<Longrightarrow> x = y"
  by (cases x; cases y) auto

lemma set_map_filter_iff: "y \<in> set (List.map_filter f xs) \<longleftrightarrow> (\<exists>x\<in>set xs. f x = Some y)"
  by (force simp: List.map_filter_def)

section \<open>Input and output errors\<close>

text \<open>\<open>std::io::ErrorKind\<close>, as far as the sources distinguish kinds, with the message.\<close>

datatype io_kind =
  InvalidData | InvalidInput | NotFound | WouldBlock | Unsupported | PermissionDenied | UnexpectedEof | Other

datatype io_error = IoError (io_error_kind: io_kind) (io_message: string)

type_synonym 'a io_result = "io_error + 'a"

text \<open>Sequencing of fallible operations that change a state: the state survives an error.\<close>

definition sbind :: "'a io_result \<times> 's \<Rightarrow> ('a \<Rightarrow> 's \<Rightarrow> 'b io_result \<times> 's) \<Rightarrow> 'b io_result \<times> 's" where
  "sbind m f = (case m of (Inl e, s) \<Rightarrow> (Inl e, s) | (Inr x, s) \<Rightarrow> f x s)"

end
