(* ===== verification/Containers.thy ===== *)
theory Containers
  imports EC_Prelude "HOL-Library.List_Lexorder"
begin

text \<open>
  The container interfaces of the program and the standard-library containers its sources use.
  \<^item> \<open>map_spec\<close>: what every keyed container promises (lookup after insertion and
    removal), with the lemmas its clients need proved once.
  \<^item> \<open>ordered_map_spec\<close>: a keyed container with an ordered traversal; two such maps with
    the same lookups have the same traversal.
  \<^item> \<open>BTreeMap\<close>/\<open>BTreeSet\<close> of the Rust standard library, as strictly increasing
    association lists, with the interpretation of both locales on them.
  The persistent containers of the program itself (\<open>OrderedMap\<close>, \<open>Map\<close>) interpret the
  same locales in their own theories.
\<close>

section \<open>The interface of a keyed container\<close>

locale map_spec =
  fixes empty :: "'m"
    and get :: "'m \<Rightarrow> 'k \<Rightarrow> 'v option"
    and ins :: "'k \<Rightarrow> 'v \<Rightarrow> 'm \<Rightarrow> 'm"
    and del :: "'k \<Rightarrow> 'm \<Rightarrow> 'm"
    and inv :: "'m \<Rightarrow> bool"
  assumes get_empty: "get empty = Map.empty"
    and get_ins: "inv m \<Longrightarrow> get (ins k v m) = (get m)(k \<mapsto> v)"
    and get_del: "inv m \<Longrightarrow> get (del k m) = (get m)(k := None)"
    and inv_empty: "inv empty"
    and inv_ins: "inv m \<Longrightarrow> inv (ins k v m)"
    and inv_del: "inv m \<Longrightarrow> inv (del k m)"
begin

text \<open>Collecting an iterator of pairs: the last binding of a key wins.\<close>

lemma inv_fold_ins: "inv m \<Longrightarrow> inv (fold (\<lambda>(k, v). ins k v) kvs m)"
  by (induction kvs arbitrary: m) (auto simp: inv_ins)

lemma get_fold_ins:
  "inv m \<Longrightarrow> get (fold (\<lambda>(k, v). ins k v) kvs m) = get m ++ map_of (rev kvs)"
  by (induction kvs arbitrary: m) (auto simp: get_ins inv_ins map_add_def fun_eq_iff split: option.splits)

lemma get_from_iter: "get (fold (\<lambda>(k, v). ins k v) kvs empty) = map_of (rev kvs)"
  by (simp add: get_fold_ins inv_empty get_empty)

lemma get_del_fold: "inv m \<Longrightarrow> get (fold del ks m) = (get m) |` (- set ks)"
  by (induction ks arbitrary: m) (auto simp: get_del inv_del restrict_map_def fun_eq_iff)

lemma inv_fold_del: "inv m \<Longrightarrow> inv (fold del ks m)"
  by (induction ks arbitrary: m) (auto simp: inv_del)

end

section \<open>Strictly increasing association lists\<close>

abbreviation increasing :: "'k::linorder list \<Rightarrow> bool" where
  "increasing \<equiv> sorted_wrt (<)"

lemma increasing_distinct: "increasing xs \<Longrightarrow> distinct xs"
  by (induction xs) auto

lemma increasing_unique:
  "increasing xs \<Longrightarrow> increasing ys \<Longrightarrow> set xs = set ys \<Longrightarrow> xs = ys"
  by (simp add: strict_sorted_equal)

lemma map_of_increasing_iff:
  "increasing (map fst m) \<Longrightarrow> map_of m k = Some v \<longleftrightarrow> (k, v) \<in> set m"
  by (simp add: increasing_distinct map_of_eq_Some_iff)

lemma increasing_map_unique:
  assumes "increasing (map fst m)" and "increasing (map fst m')" and "map_of m = map_of m'"
  shows "m = m'"
proof -
  have "fst ` set m = fst ` set m'"
    using assms(3) by (metis dom_map_of_conv_image_fst)
  then have keys: "map fst m = map fst m'"
    using assms(1,2) by (intro increasing_unique) auto
  have "set m = set m'"
    using assms by (metis map_of_increasing_iff surj_pair subsetI subset_antisym)
  then show ?thesis
    using assms(1) keys
    by (metis (no_types, lifting) increasing_distinct distinct_map inj_on_map_eq_map
        map_eq_imp_length_eq map_inj_on subset_Un_eq sup.idem)
qed

locale ordered_map_spec = map_spec empty get ins del inv
  for empty :: "'m" and get :: "'m \<Rightarrow> 'k::linorder \<Rightarrow> 'v option"
    and ins :: "'k \<Rightarrow> 'v \<Rightarrow> 'm \<Rightarrow> 'm" and del :: "'k \<Rightarrow> 'm \<Rightarrow> 'm" and inv :: "'m \<Rightarrow> bool" +
  fixes entries :: "'m \<Rightarrow> ('k \<times> 'v) list"
  assumes entries_increasing: "inv m \<Longrightarrow> increasing (map fst (entries m))"
    and entries_get: "inv m \<Longrightarrow> map_of (entries m) = get m"
begin

lemma mem_entries_iff: "inv m \<Longrightarrow> (k, v) \<in> set (entries m) \<longleftrightarrow> get m k = Some v"
  using entries_increasing [of m] entries_get [of m] by (metis map_of_increasing_iff)

lemma keys_entries: "inv m \<Longrightarrow> fst ` set (entries m) = dom (get m)"
  using entries_get [of m] by (metis dom_map_of_conv_image_fst)

lemma entries_unique: "inv m \<Longrightarrow> inv m' \<Longrightarrow> get m = get m' \<Longrightarrow> entries m = entries m'"
  by (rule increasing_map_unique) (simp_all add: entries_increasing entries_get)

lemma entries_empty_iff: "inv m \<Longrightarrow> entries m = [] \<longleftrightarrow> get m = Map.empty"
  using entries_get [of m] by (metis empty_eq_map_of_iff)

lemma entries_ins_absent:
  assumes "inv m" and "get m k = None"
  shows "length (entries (ins k v m)) = Suc (length (entries m))"
proof -
  have card_dom: "length (entries m') = card (dom (get m'))" if "inv m'" for m'
    using keys_entries [OF that] increasing_distinct [OF entries_increasing [OF that]]
    by (metis distinct_card length_map set_map)
  have "finite (dom (get m))"
    using keys_entries [OF assms(1)] by (metis List.finite_set finite_imageI)
  then show ?thesis
    using assms by (simp add: card_dom inv_ins get_ins domIff)
qed

end

section \<open>\<open>BTreeMap\<close>\<close>

type_synonym ('k, 'v) btree_map = "('k \<times> 'v) list"

abbreviation bm_wf :: "('k::linorder, 'v) btree_map \<Rightarrow> bool" where
  "bm_wf m \<equiv> increasing (map fst m)"

fun bm_insert :: "'k::linorder \<Rightarrow> 'v \<Rightarrow> ('k, 'v) btree_map \<Rightarrow> ('k, 'v) btree_map" where
  "bm_insert k v [] = [(k, v)]"
| "bm_insert k v ((k', v') # m) =
     (if k < k' then (k, v) # (k', v') # m
      else if k = k' then (k, v) # m
      else (k', v') # bm_insert k v m)"

definition bm_remove :: "'k \<Rightarrow> ('k, 'v) btree_map \<Rightarrow> ('k, 'v) btree_map" where
  "bm_remove k m = filter (\<lambda>e. fst e \<noteq> k) m"

lemma fst_set_bm_insert: "fst ` set (bm_insert k v m) = insert k (fst ` set m)"
proof (induction m)
  case Nil
  then show ?case by simp
next
  case (Cons e m)
  then show ?case by (cases e) (simp add: insert_commute)
qed

lemma set_bm_insert_subset: "set (bm_insert k v m) \<subseteq> insert (k, v) (set m)"
  by (induction m) (auto split: if_splits)

lemma bm_wf_insert: "bm_wf m \<Longrightarrow> bm_wf (bm_insert k v m)"
proof (induction m)
  case Nil
  then show ?case by simp
next
  case (Cons e m)
  then show ?case
    by (cases e) (use fst_set_bm_insert [of k v m] in \<open>fastforce simp: image_iff\<close>)
qed

lemma map_of_bm_insert: "bm_wf m \<Longrightarrow> map_of (bm_insert k v m) = (map_of m)(k \<mapsto> v)"
proof (induction m)
  case Nil
  then show ?case by simp
next
  case (Cons e m)
  then show ?case by (cases e) (auto simp: fun_eq_iff)
qed

lemma map_of_bm_remove: "map_of (bm_remove k m) = (map_of m)(k := None)"
  by (induction m) (auto simp: bm_remove_def fun_eq_iff)

lemma bm_wf_remove: "bm_wf m \<Longrightarrow> bm_wf (bm_remove k m)"
  by (induction m) (auto simp: bm_remove_def)

interpretation bm: ordered_map_spec "[]" map_of bm_insert bm_remove bm_wf "\<lambda>m. m"
  by unfold_locales (simp_all add: map_of_bm_insert map_of_bm_remove bm_wf_insert bm_wf_remove)

lemma bm_ext: "bm_wf m \<Longrightarrow> bm_wf m' \<Longrightarrow> map_of m = map_of m' \<Longrightarrow> m = m'"
  by (rule increasing_map_unique)

lemma bm_get_insert [simp]:
  "bm_wf m \<Longrightarrow> map_of (bm_insert k v m) k' = (if k' = k then Some v else map_of m k')"
  by (simp add: map_of_bm_insert)

lemma bm_get_remove [simp]: "map_of (bm_remove k m) k' = (if k' = k then None else map_of m k')"
  by (simp add: map_of_bm_remove)

section \<open>\<open>BTreeSet\<close>\<close>

type_synonym 'a btree_set = "'a list"

fun bs_insert :: "'a::linorder \<Rightarrow> 'a btree_set \<Rightarrow> 'a btree_set" where
  "bs_insert x [] = [x]"
| "bs_insert x (y # s) = (if x < y then x # y # s else if x = y then y # s else y # bs_insert x s)"

definition bs_remove :: "'a \<Rightarrow> 'a btree_set \<Rightarrow> 'a btree_set" where
  "bs_remove x s = filter (\<lambda>y. y \<noteq> x) s"

text \<open>\<open>BTreeSet::extend\<close> and collection from an iterator.\<close>

definition bs_extend :: "'a::linorder list \<Rightarrow> 'a btree_set \<Rightarrow> 'a btree_set" where
  "bs_extend xs s = fold bs_insert xs s"

lemma set_bs_insert [simp]: "set (bs_insert x s) = insert x (set s)"
  by (induction s) auto

lemma increasing_bs_insert: "increasing s \<Longrightarrow> increasing (bs_insert x s)"
  by (induction s) auto

lemma bs_insert_mem: "increasing s \<Longrightarrow> x \<in> set s \<Longrightarrow> bs_insert x s = s"
  by (simp add: increasing_bs_insert increasing_unique insert_absorb)

lemma length_bs_insert: "increasing s \<Longrightarrow> x \<notin> set s \<Longrightarrow> length (bs_insert x s) = Suc (length s)"
  by (induction s) auto

lemma set_bs_remove [simp]: "set (bs_remove x s) = set s - {x}"
  by (auto simp: bs_remove_def)

lemma increasing_bs_remove: "increasing s \<Longrightarrow> increasing (bs_remove x s)"
  by (simp add: bs_remove_def sorted_wrt_filter)

lemma set_bs_extend [simp]: "set (bs_extend xs s) = set s \<union> set xs"
  by (induction xs arbitrary: s) (auto simp: bs_extend_def)

lemma increasing_bs_extend: "increasing s \<Longrightarrow> increasing (bs_extend xs s)"
  by (induction xs arbitrary: s) (auto simp: bs_extend_def increasing_bs_insert)

end
