(* ===== verification/Ids.thy ===== *)
theory Ids
  imports Containers "HOL-Library.Product_Lexorder"
begin

text \<open>
  Identifiers (\<open>editchain-core/src/ids.rs\<close>) and query prefixes over them
  (\<open>id_query.rs\<close>): producer addresses \<open>SourceId\<close>, canonical operation identities
  \<open>OpId\<close>, their display and parsing, and \<open>IdQuery\<close>.

  BLAKE3 is third-party code: key derivation is the parameter \<open>dk\<close>, a function from the
  context string and the bytes fed to the hasher (streaming updates hash the concatenation).
  A Rust \<open>&str\<close> is a list of bytes here (\<open>string\<close>), so \<open>len\<close> counts bytes.
\<close>

section \<open>Identifier types\<close>

datatype node_id = NodeId (node_val: u64)
datatype actor_id = ActorId (actor_val: u64)
datatype chain_id = ChainId (chain_val: u64)
datatype session_id = SessionId (session_val: u64)
datatype turn_id = TurnId (turn_val: u64)
datatype path_id = PathId (path_val: u64)

datatype source_id = SourceId (src_node: node_id) (src_boot: u32) (src_seq: u64)

text \<open>\<open>OpId([u8; 32])\<close>; \<open>wf_op_id\<close> is the array length.\<close>

datatype op_id = OpId (op_bytes: bytes)

definition wf_op_id :: "op_id \<Rightarrow> bool" where
  "wf_op_id i \<longleftrightarrow> length (op_bytes i) = 32"

text \<open>The derived order of \<open>OpId\<close> is lexicographic on its bytes.\<close>

instantiation op_id :: linorder
begin
definition less_eq_op_id :: "op_id \<Rightarrow> op_id \<Rightarrow> bool" where
  "less_eq_op_id a b \<longleftrightarrow> op_bytes a \<le> op_bytes b"
definition less_op_id :: "op_id \<Rightarrow> op_id \<Rightarrow> bool" where
  "less_op_id a b \<longleftrightarrow> op_bytes a < op_bytes b"
instance
  by standard (auto simp: less_eq_op_id_def less_op_id_def op_id.expand)
end

text \<open>\<open>impl Ord for SourceId\<close>: node, then boot, then sequence.\<close>

definition source_key :: "source_id \<Rightarrow> u64 \<times> u32 \<times> u64" where
  "source_key s = (node_val (src_node s), src_boot s, src_seq s)"

lemma source_key_inject: "source_key a = source_key b \<Longrightarrow> a = b"
  by (cases a; cases b) (auto simp: source_key_def node_id.expand)

instantiation source_id :: linorder
begin
definition less_eq_source_id :: "source_id \<Rightarrow> source_id \<Rightarrow> bool" where
  "less_eq_source_id a b \<longleftrightarrow> source_key a \<le> source_key b"
definition less_source_id :: "source_id \<Rightarrow> source_id \<Rightarrow> bool" where
  "less_source_id a b \<longleftrightarrow> source_key a < source_key b"
instance
  by standard (auto simp: less_eq_source_id_def less_source_id_def source_key_inject)
end

section \<open>Integers as text\<close>

text \<open>\<open>Display\<close> of an unsigned integer, and \<open>char::to_digit\<close> on one byte.\<close>

definition hex_digit :: "nat \<Rightarrow> char" where
  "hex_digit d = (if d < 10 then char_of (48 + d) else char_of (87 + d))"

fun show_nat :: "nat \<Rightarrow> string" where
  "show_nat n = (if n < 10 then [hex_digit n] else show_nat (n div 10) @ [hex_digit (n mod 10)])"

declare show_nat.simps [simp del]

definition to_digit :: "nat \<Rightarrow> char \<Rightarrow> nat option" where
  "to_digit radix c =
     (let n = of_char c;
          d = (if 48 \<le> n \<and> n \<le> 57 then n - 48
               else if 97 \<le> n \<and> n \<le> 122 then n - 87
               else if 65 \<le> n \<and> n \<le> 90 then n - 55
               else radix)
      in if d < radix then Some d else None)"

text \<open>
  \<open>from_str_radix\<close> of an unsigned type with largest value \<open>mx\<close>: an optional plus
  sign, at least one digit, and no overflow.
\<close>

fun parse_digits :: "nat \<Rightarrow> nat \<Rightarrow> nat \<Rightarrow> string \<Rightarrow> nat option" where
  "parse_digits mx radix acc [] = Some acc"
| "parse_digits mx radix acc (c # cs) =
     (case to_digit radix c of
        None \<Rightarrow> None
      | Some d \<Rightarrow> if acc * radix + d \<le> mx then parse_digits mx radix (acc * radix + d) cs
                  else None)"

definition from_str_radix :: "nat \<Rightarrow> nat \<Rightarrow> string \<Rightarrow> nat option" where
  "from_str_radix mx radix s =
     (case s of
        [] \<Rightarrow> None
      | c # cs \<Rightarrow>
          if c = CHR ''+'' then (if cs = [] then None else parse_digits mx radix 0 cs)
          else parse_digits mx radix 0 s)"

lemma of_char_hex_digit: "d < 16 \<Longrightarrow> of_char (hex_digit d) = (if d < 10 then 48 + d else 87 + d)"
  by (simp add: hex_digit_def)

lemma to_digit_hex_digit: "d < radix \<Longrightarrow> radix \<le> 16 \<Longrightarrow> to_digit radix (hex_digit d) = Some d"
  by (simp add: to_digit_def of_char_hex_digit)

lemma hex_digit_not_plus: "d < 16 \<Longrightarrow> hex_digit d \<noteq> CHR ''+''"
proof
  assume "d < 16" and "hex_digit d = CHR ''+''"
  then have "of_char (hex_digit d) = (of_char (CHR ''+'') :: nat)" by simp
  with \<open>d < 16\<close> show False by (simp add: of_char_hex_digit split: if_splits)
qed

lemma hex_digit_inject: "d < 16 \<Longrightarrow> e < 16 \<Longrightarrow> hex_digit d = hex_digit e \<longleftrightarrow> d = e"
  by (metis of_char_hex_digit to_digit_hex_digit order_refl option.inject)

lemma parse_digits_append:
  "parse_digits mx radix acc (s @ t) =
     (case parse_digits mx radix acc s of None \<Rightarrow> None | Some v \<Rightarrow> parse_digits mx radix v t)"
  by (induction s arbitrary: acc) (auto split: option.splits)

lemma show_nat_nonempty: "show_nat n \<noteq> []"
  by (subst show_nat.simps) simp

lemma parse_show_nat: "n \<le> mx \<Longrightarrow> parse_digits mx 10 0 (show_nat n) = Some n"
proof (induction n rule: show_nat.induct)
  case (1 n)
  show ?case
  proof (cases "n < 10")
    case True
    with "1.prems" show ?thesis by (subst show_nat.simps) (simp add: to_digit_hex_digit)
  next
    case False
    then have "parse_digits mx 10 0 (show_nat (n div 10)) = Some (n div 10)"
      using "1.IH" "1.prems" by simp
    with False "1.prems" show ?thesis
      by (subst show_nat.simps) (simp add: parse_digits_append to_digit_hex_digit)
  qed
qed

lemma show_nat_digits: "set (show_nat n) \<subseteq> hex_digit ` {..<10}"
proof (induction n rule: show_nat.induct)
  case (1 n)
  then show ?case by (subst show_nat.simps) auto
qed

lemma hex_digit_not_colon: "d < 16 \<Longrightarrow> hex_digit d \<noteq> CHR '':''"
proof
  assume "d < 16" and "hex_digit d = CHR '':''"
  then have "of_char (hex_digit d) = (of_char (CHR '':'') :: nat)" by simp
  with \<open>d < 16\<close> show False by (simp add: of_char_hex_digit split: if_splits)
qed

lemma from_str_radix_show_nat: "n \<le> mx \<Longrightarrow> from_str_radix mx 10 (show_nat n) = Some n"
proof -
  assume n: "n \<le> mx"
  obtain c cs where s: "show_nat n = c # cs"
    using show_nat_nonempty [of n] by (cases "show_nat n") auto
  then have "c \<in> hex_digit ` {..<10}"
    using show_nat_digits [of n] by auto
  then have "c \<noteq> CHR ''+''"
    using hex_digit_not_plus by fastforce
  with s show ?thesis
    using parse_show_nat [OF n] by (simp add: from_str_radix_def)
qed

lemma parse_digits_bound: "acc \<le> mx \<Longrightarrow> parse_digits mx radix acc s = Some v \<Longrightarrow> v \<le> mx"
  by (induction s arbitrary: acc) (auto split: option.splits if_splits)

lemma from_str_radix_bound: "from_str_radix mx radix s = Some v \<Longrightarrow> v \<le> mx"
  using parse_digits_bound [of 0 mx radix]
  by (auto simp: from_str_radix_def simp del: parse_digits.simps split: list.splits if_splits)

section \<open>Producer addresses\<close>

text \<open>\<open>str::split(c)\<close>: always at least one part.\<close>

fun split_on :: "char \<Rightarrow> string \<Rightarrow> string list" where
  "split_on c [] = [[]]"
| "split_on c (x # xs) =
     (if x = c then [] # split_on c xs
      else case split_on c xs of p # ps \<Rightarrow> (x # p) # ps | [] \<Rightarrow> [[x]])"

lemma split_on_nonempty: "split_on c s \<noteq> []"
  by (cases s) (auto split: list.splits)

lemma split_on_absent: "c \<notin> set s \<Longrightarrow> split_on c s = [s]"
  by (induction s) auto

lemma split_on_append: "c \<notin> set s \<Longrightarrow> split_on c (s @ c # t) = s # split_on c t"
  by (induction s) auto

text \<open>\<open>impl Display for SourceId\<close> and \<open>SourceId::from_display_str\<close>.\<close>

definition source_display :: "source_id \<Rightarrow> string" where
  "source_display s =
     show_nat (unat (node_val (src_node s))) @ CHR '':'' #
     show_nat (unat (src_boot s)) @ CHR '':'' # show_nat (unat (src_seq s))"

definition source_from_display_str :: "string \<Rightarrow> source_id option" where
  "source_from_display_str s =
     (case split_on (CHR '':'') s of
        [a, b, c] \<Rightarrow>
          (case (from_str_radix (umax 64) 10 a, from_str_radix (umax 32) 10 b,
                 from_str_radix (umax 64) 10 c) of
             (Some node, Some boot, Some seq) \<Rightarrow>
               Some (SourceId (NodeId (word_of_nat node)) (word_of_nat boot) (word_of_nat seq))
           | _ \<Rightarrow> None)
      | _ \<Rightarrow> None)"

text \<open>\<open>SourceId::id\<close>: the canonical identity derived from an address.\<close>

type_synonym derive_key = "string \<Rightarrow> bytes \<Rightarrow> bytes"

definition source_id_id :: "derive_key \<Rightarrow> source_id \<Rightarrow> op_id" where
  "source_id_id dk s =
     OpId (dk ''editchain.operation-id.v1''
       (le_bytes 8 (unat (node_val (src_node s))) @ le_bytes 4 (unat (src_boot s))
        @ le_bytes 8 (unat (src_seq s))))"

section \<open>Canonical identities as text\<close>

text \<open>\<open>impl Display for OpId\<close>: two lower-case hexadecimal digits per byte.\<close>

fun hex_byte :: "u8 \<Rightarrow> string" where
  "hex_byte b = [hex_digit (unat b div 16), hex_digit (unat b mod 16)]"

definition op_display :: "op_id \<Rightarrow> string" where
  "op_display i = concat (map hex_byte (op_bytes i))"

text \<open>
  \<open>OpId::from_display_str\<close>. The loop parses each pair of bytes with
  \<open>u8::from_str_radix(_, 16)\<close>; the UTF-8 check before it rejects only pairs this parse
  rejects as well.
\<close>

fun parse_pairs :: "string \<Rightarrow> bytes option" where
  "parse_pairs (a # b # s) =
     (case from_str_radix 255 16 [a, b] of
        None \<Rightarrow> None
      | Some v \<Rightarrow> map_option (\<lambda>bs. word_of_nat v # bs) (parse_pairs s))"
| "parse_pairs _ = Some []"

definition op_from_display_str :: "derive_key \<Rightarrow> string \<Rightarrow> op_id option" where
  "op_from_display_str dk value =
     (if CHR '':'' \<in> set value then map_option (source_id_id dk) (source_from_display_str value)
      else if length value \<noteq> 64 then None
      else map_option OpId (parse_pairs value))"

section \<open>Query prefixes\<close>

record id_query =
  query_text :: string
  query_lower :: op_id
  query_upper :: op_id

definition to_ascii_lowercase :: "char \<Rightarrow> char" where
  "to_ascii_lowercase c =
     (let n = of_char c :: nat in if 65 \<le> n \<and> n \<le> 90 then char_of (n + 32) else c)"

definition is_ascii_hexdigit :: "char \<Rightarrow> bool" where
  "is_ascii_hexdigit c \<longleftrightarrow>
     (let n = of_char c :: nat
      in (48 \<le> n \<and> n \<le> 57) \<or> (97 \<le> n \<and> n \<le> 102) \<or> (65 \<le> n \<and> n \<le> 70))"

definition id_query_parse :: "derive_key \<Rightarrow> string \<Rightarrow> id_query option" where
  "id_query_parse dk value =
     (case (if CHR '':'' \<in> set value then map_option op_display (op_from_display_str dk value)
            else Some (map to_ascii_lowercase value)) of
        None \<Rightarrow> None
      | Some text \<Rightarrow>
          if length text < 4 \<or> 64 < length text \<or> \<not> list_all is_ascii_hexdigit text then None
          else
            let pad = 64 - length text in
            case (op_from_display_str dk (text @ replicate pad (CHR ''0'')),
                  op_from_display_str dk (text @ replicate pad (CHR ''f''))) of
              (Some lower, Some upper) \<Rightarrow>
                Some \<lparr>query_text = text, query_lower = lower, query_upper = upper\<rparr>
            | _ \<Rightarrow> None)"

definition id_query_bounds :: "id_query \<Rightarrow> op_id \<times> op_id" where
  "id_query_bounds q = (query_lower q, query_upper q)"

definition id_query_full :: "id_query \<Rightarrow> op_id option" where
  "id_query_full q = (if length (query_text q) = 64 then Some (query_lower q) else None)"

section \<open>Round trips\<close>

lemma show_nat_no_colon: "CHR '':'' \<notin> set (show_nat n)"
proof
  assume "CHR '':'' \<in> set (show_nat n)"
  then obtain d where "d < 10" and "CHR '':'' = hex_digit d"
    using show_nat_digits [of n] by auto
  then show False using hex_digit_not_colon [of d] by simp
qed

lemma source_display_split:
  "split_on (CHR '':'') (source_display s) =
     [show_nat (unat (node_val (src_node s))), show_nat (unat (src_boot s)),
      show_nat (unat (src_seq s))]"
  by (simp add: source_display_def split_on_append split_on_absent show_nat_no_colon)

lemma source_parse_display: "source_from_display_str (source_display s) = Some s"
proof -
  have "unat (node_val (src_node s)) \<le> umax 64" "unat (src_boot s) \<le> umax 32"
    "unat (src_seq s) \<le> umax 64"
    using unat_u64_bound [of "node_val (src_node s)"] unat_u32_bound [of "src_boot s"]
      unat_u64_bound [of "src_seq s"] by simp_all
  then show ?thesis
    by (simp add: source_from_display_str_def source_display_split from_str_radix_show_nat)
qed

lemma parse_pair_hex: "from_str_radix 255 16 (hex_byte b) = Some (unat b)"
proof -
  have lt: "unat b div 16 < 16" "unat b mod 16 < 16"
    using unat_u8_bound [of b] by auto
  then have "unat b div 16 * 16 + unat b mod 16 \<le> 255"
    using unat_u8_bound [of b] by simp
  with lt show ?thesis
    by (simp add: from_str_radix_def to_digit_hex_digit hex_digit_not_plus)
qed

lemma parse_pairs_display: "parse_pairs (concat (map hex_byte bs)) = Some bs"
proof (induction bs)
  case Nil
  then show ?case by simp
next
  case (Cons b bs)
  then show ?case using parse_pair_hex [of b] by simp
qed

lemma length_op_display: "length (op_display i) = 2 * length (op_bytes i)"
proof -
  have "length (concat (map hex_byte bs)) = 2 * length bs" for bs
    by (induction bs) auto
  then show ?thesis by (simp add: op_display_def)
qed

text \<open>Half-bytes: the digits an identity displays, and the order they induce.\<close>

fun nibbles :: "bytes \<Rightarrow> nat list" where
  "nibbles [] = []"
| "nibbles (b # bs) = (unat b div 16) # (unat b mod 16) # nibbles bs"

lemma nibbles_bound: "d \<in> set (nibbles bs) \<Longrightarrow> d < 16"
proof (induction bs)
  case Nil
  then show ?case by simp
next
  case (Cons b bs)
  then show ?case using unat_u8_bound [of b] by auto
qed

lemma length_nibbles [simp]: "length (nibbles bs) = 2 * length bs"
  by (induction bs) auto

lemma op_display_nibbles: "op_display i = map hex_digit (nibbles (op_bytes i))"
proof -
  have "concat (map hex_byte bs) = map hex_digit (nibbles bs)" for bs
    by (induction bs) auto
  then show ?thesis by (simp add: op_display_def)
qed

lemma op_display_no_colon: "CHR '':'' \<notin> set (op_display i)"
  using nibbles_bound hex_digit_not_colon by (fastforce simp: op_display_nibbles)

lemma u8_less_nibbles:
  "(a :: u8) < b \<longleftrightarrow>
     unat a div 16 < unat b div 16 \<or> unat a div 16 = unat b div 16 \<and> unat a mod 16 < unat b mod 16"
proof -
  have "x < y \<longleftrightarrow> x div 16 < y div 16 \<or> x div 16 = y div 16 \<and> x mod 16 < y mod 16" for x y :: nat
  proof -
    define p q r t where "p = x div 16" and "q = x mod 16" and "r = y div 16" and "t = y mod 16"
    then have "x = 16 * p + q" "y = 16 * r + t" "q < 16" "t < 16" by simp_all
    then show ?thesis unfolding p_def [symmetric] q_def [symmetric] r_def [symmetric] t_def [symmetric]
      by linarith
  qed
  then show ?thesis unfolding word_less_nat_alt by blast
qed

lemma u8_eq_nibbles:
  "(a :: u8) = b \<longleftrightarrow> unat a div 16 = unat b div 16 \<and> unat a mod 16 = unat b mod 16"
  by (metis div_mult_mod_eq unsigned_word_eqI)

lemma nibbles_le_iff: "length as = length bs \<Longrightarrow> as \<le> bs \<longleftrightarrow> nibbles as \<le> nibbles bs"
proof (induction as bs rule: list_induct2)
  case Nil
  then show ?case by simp
next
  case (Cons a as b bs)
  show ?case
    unfolding nibbles.simps Cons_le_Cons u8_less_nibbles [of a b] u8_eq_nibbles [of a b] Cons.IH
    by blast
qed

text \<open>Padding a prefix with the least and the greatest digit brackets its extensions.\<close>

lemma replicate_le_list: "\<forall>x\<in>set xs. z \<le> x \<Longrightarrow> replicate (length xs) z \<le> xs" for z :: "'a::linorder"
  by (induction xs) auto

lemma list_le_replicate: "\<forall>x\<in>set xs. x \<le> z \<Longrightarrow> xs \<le> replicate (length xs) z" for z :: "'a::linorder"
  by (induction xs) auto

lemma prefix_interval:
  fixes z :: "'a::linorder"
  assumes "length xs = length t + pad" and "\<forall>x\<in>set xs. z \<le> x \<and> x \<le> f"
  shows "t @ replicate pad z \<le> xs \<and> xs \<le> t @ replicate pad f \<longleftrightarrow> take (length t) xs = t"
  using assms
proof (induction t arbitrary: xs)
  case Nil
  then show ?case
    using replicate_le_list [of xs z] list_le_replicate [of xs f] by auto
next
  case (Cons c t)
  then obtain y ys where xs: "xs = y # ys"
    by (cases xs) auto
  have "t @ replicate pad z \<le> ys \<and> ys \<le> t @ replicate pad f \<longleftrightarrow> take (length t) ys = t"
    using Cons.prems xs by (intro Cons.IH) auto
  then show ?case by (auto simp: xs)
qed

text \<open>Parsing a string of hexadecimal digits recovers the digits.\<close>

definition lower_hex :: "char \<Rightarrow> bool" where
  "lower_hex c \<longleftrightarrow> (\<exists>d<16. c = hex_digit d)"

abbreviation digit_of :: "char \<Rightarrow> nat" where
  "digit_of c \<equiv> the (to_digit 16 c)"

lemma lower_hexE:
  assumes "lower_hex c"
  obtains d where "to_digit 16 c = Some d" and "d < 16" and "c \<noteq> CHR ''+''"
  using assms hex_digit_not_plus by (auto simp: lower_hex_def to_digit_hex_digit)

lemma digit_of_bound: "lower_hex c \<Longrightarrow> digit_of c < 16"
  by (metis lower_hexE option.sel)

lemma hex_digit_digit_of: "lower_hex c \<Longrightarrow> hex_digit (digit_of c) = c"
  by (auto simp: lower_hex_def to_digit_hex_digit)

lemma lower_hex_lowercase:
  assumes "is_ascii_hexdigit (to_ascii_lowercase c)"
  shows "lower_hex (to_ascii_lowercase c)"
proof -
  let ?c = "to_ascii_lowercase c"
  have "of_char ?c < (65 :: nat) \<or> 90 < (of_char ?c :: nat)"
    by (auto simp: to_ascii_lowercase_def Let_def)
  with assms have n: "(48 :: nat) \<le> of_char ?c \<and> of_char ?c \<le> (57 :: nat)
      \<or> (97 :: nat) \<le> of_char ?c \<and> of_char ?c \<le> (102 :: nat)"
    by (auto simp: is_ascii_hexdigit_def Let_def)
  define d where "d = (if of_char ?c \<le> (57 :: nat) then of_char ?c - 48 else of_char ?c - 87 :: nat)"
  have "d < 16" and "of_char (hex_digit d) = (of_char ?c :: nat)"
    using n by (auto simp: d_def hex_digit_def)
  then have "?c = hex_digit d" by simp
  with \<open>d < 16\<close> show ?thesis by (auto simp: lower_hex_def)
qed

lemma parse_pairs_lower_hex:
  "list_all lower_hex s \<Longrightarrow> even (length s) \<Longrightarrow>
     \<exists>bs. parse_pairs s = Some bs \<and> nibbles bs = map digit_of s"
proof (induction s rule: parse_pairs.induct)
  case (1 a b s)
  obtain d e where ab: "to_digit 16 a = Some d" "d < 16" "a \<noteq> CHR ''+''"
    "to_digit 16 b = Some e" "e < 16"
    using "1.prems" lower_hexE [of a] lower_hexE [of b] by (metis list.pred_inject(2))
  then have v: "from_str_radix 255 16 [a, b] = Some (d * 16 + e)"
    by (simp add: from_str_radix_def)
  obtain bs where bs: "parse_pairs s = Some bs" "nibbles bs = map digit_of s"
    using "1.IH" [OF v] "1.prems" by auto
  have "d * 16 + e < 256"
    using ab by simp
  then have "unat (word_of_nat (d * 16 + e) :: u8) = d * 16 + e"
    by (rule unat_word_of_nat_u8)
  with bs ab v show ?case by (simp del: of_nat_add of_nat_mult)
qed auto

lemma lower_hex_op_display: "list_all lower_hex (op_display i)"
  using nibbles_bound by (fastforce simp: op_display_nibbles list_all_iff lower_hex_def)

lemma lower_hex_no_colon: "list_all lower_hex s \<Longrightarrow> CHR '':'' \<notin> set s"
  using hex_digit_not_colon by (fastforce simp: list_all_iff lower_hex_def)

lemma op_from_display_lower_hex:
  assumes "list_all lower_hex s" and "length s = 64"
  shows "\<exists>i. op_from_display_str dk s = Some i \<and> wf_op_id i \<and> nibbles (op_bytes i) = map digit_of s"
proof -
  obtain bs where bs: "parse_pairs s = Some bs" "nibbles bs = map digit_of s"
    using parse_pairs_lower_hex [OF assms(1)] assms(2) by auto
  then have "length bs = 32"
    using assms(2) length_nibbles [of bs] by simp
  with bs show ?thesis
    using assms lower_hex_no_colon by (simp add: op_from_display_str_def wf_op_id_def)
qed

lemma id_query_text_lower_hex:
  assumes "id_query_parse dk v = Some q"
  shows "list_all lower_hex (query_text q) \<and> length (query_text q) \<le> 64"
  using assms lower_hex_op_display lower_hex_lowercase
  by (auto simp: id_query_parse_def list_all_iff Let_def split: option.splits if_splits)

lemma digit_of_zero_f: "digit_of (CHR ''0'') = 0" "digit_of (CHR ''f'') = 15"
  by (simp_all add: to_digit_def)

lemma lower_hex_zero_f: "lower_hex (CHR ''0'')" "lower_hex (CHR ''f'')"
proof -
  have "CHR ''0'' = hex_digit 0" "CHR ''f'' = hex_digit 15"
    by code_simp+
  then show "lower_hex (CHR ''0'')" "lower_hex (CHR ''f'')"
    unfolding lower_hex_def by force+
qed

lemma id_query_bound_nibbles:
  assumes "id_query_parse dk v = Some q"
  shows "wf_op_id (query_lower q) \<and> wf_op_id (query_upper q)
    \<and> nibbles (op_bytes (query_lower q)) =
        map digit_of (query_text q) @ replicate (64 - length (query_text q)) 0
    \<and> nibbles (op_bytes (query_upper q)) =
        map digit_of (query_text q) @ replicate (64 - length (query_text q)) 15"
proof -
  let ?t = "query_text q"
  have t: "list_all lower_hex ?t" "length ?t \<le> 64"
    using id_query_text_lower_hex [OF assms] by auto
  have parsed: "op_from_display_str dk (?t @ replicate (64 - length ?t) (CHR ''0'')) = Some (query_lower q)"
    "op_from_display_str dk (?t @ replicate (64 - length ?t) (CHR ''f'')) = Some (query_upper q)"
    using assms by (auto simp: id_query_parse_def Let_def split: option.splits if_splits)
  have hex: "list_all lower_hex (?t @ replicate n (CHR ''0''))"
    "list_all lower_hex (?t @ replicate n (CHR ''f''))" for n
    using t(1) lower_hex_zero_f by (auto simp: list_all_iff)
  show ?thesis
    using op_from_display_lower_hex [OF hex(1), of "64 - length ?t" dk]
      op_from_display_lower_hex [OF hex(2), of "64 - length ?t" dk] parsed t(2)
    by (simp add: digit_of_zero_f)
qed

text \<open>
  C17. The inclusive bounds of a parsed query select exactly the identities whose full
  hexadecimal spelling starts with the query text, for every accepted text, including
  prefixes of odd length that end inside a byte.
\<close>

theorem id_query_bounds_prefix:
  assumes "id_query_parse dk v = Some q" and "wf_op_id i"
  shows "fst (id_query_bounds q) \<le> i \<and> i \<le> snd (id_query_bounds q)
    \<longleftrightarrow> take (length (query_text q)) (op_display i) = query_text q"
proof -
  let ?t = "query_text q" and ?n = "nibbles (op_bytes i)"
  have t: "list_all lower_hex ?t" "length ?t \<le> 64"
    using id_query_text_lower_hex [OF assms(1)] by auto
  have len: "length ?n = length (map digit_of ?t) + (64 - length ?t)"
    using assms(2) t(2) by (simp add: wf_op_id_def)
  have bound: "\<forall>x\<in>set ?n. 0 \<le> x \<and> x \<le> 15"
    using nibbles_bound by fastforce
  have "fst (id_query_bounds q) \<le> i \<and> i \<le> snd (id_query_bounds q)
      \<longleftrightarrow> take (length ?t) ?n = map digit_of ?t"
    using id_query_bound_nibbles [OF assms(1)] prefix_interval [OF len bound] assms(2)
    by (simp add: id_query_bounds_def less_eq_op_id_def nibbles_le_iff wf_op_id_def)
  also have "\<dots> \<longleftrightarrow> map hex_digit (take (length ?t) ?n) = map hex_digit (map digit_of ?t)"
  proof -
    have "inj_on hex_digit {..<16}"
      by (auto intro!: inj_onI simp: hex_digit_inject)
    moreover have "set (take (length ?t) ?n) \<union> set (map digit_of ?t) \<subseteq> {..<16}"
      using t(1) digit_of_bound nibbles_bound by (auto simp: list_all_iff dest!: in_set_takeD)
    ultimately show ?thesis
      by (metis inj_on_map_eq_map inj_on_subset)
  qed
  also have "map hex_digit (map digit_of ?t) = ?t"
    using t(1) by (induction ?t) (auto simp: list_all_iff hex_digit_digit_of map_idI)
  finally show ?thesis by (simp add: op_display_nibbles take_map)
qed

theorem id_query_bounds_prefix_witness:
  "\<exists>q. id_query_parse (\<lambda>_ _. []) ''DEADB'' = Some q \<and> query_text q = ''deadb''
     \<and> wf_op_id (OpId (0xDE # 0xAD # 0xBE # replicate 29 7))
     \<and> fst (id_query_bounds q) \<le> OpId (0xDE # 0xAD # 0xBE # replicate 29 7)
     \<and> OpId (0xDE # 0xAD # 0xBE # replicate 29 7) \<le> snd (id_query_bounds q)"
proof -
  let ?i = "OpId (0xDE # 0xAD # 0xBE # replicate 29 7)"
  have "map_option query_text (id_query_parse (\<lambda>_ _. []) ''DEADB'') = Some ''deadb''"
    by code_simp
  then obtain q where q: "id_query_parse (\<lambda>_ _. []) ''DEADB'' = Some q" "query_text q = ''deadb''"
    by auto
  have i: "wf_op_id ?i" by (simp add: wf_op_id_def)
  have "take (length (query_text q)) (op_display ?i) = query_text q"
    unfolding q(2) by code_simp
  then show ?thesis
    using id_query_bounds_prefix [OF q(1) i] q i by blast
qed

text \<open>
  C18. Every canonical identity is recovered from its 64-digit display form, and every
  producer address from its \<open>node:boot:seq\<close> form.
\<close>

theorem id_display_roundtrip:
  "(wf_op_id i \<longrightarrow> op_from_display_str dk (op_display i) = Some i)
   \<and> source_from_display_str (source_display s) = Some s"
  using op_display_no_colon [of i] parse_pairs_display [of "op_bytes i"] length_op_display [of i]
  by (simp add: op_from_display_str_def wf_op_id_def op_display_def source_parse_display)

theorem id_display_roundtrip_witness:
  "wf_op_id (OpId (replicate 32 0xA5))
   \<and> op_from_display_str (\<lambda>_ _. []) (op_display (OpId (replicate 32 0xA5)))
       = Some (OpId (replicate 32 0xA5))
   \<and> source_from_display_str (source_display (SourceId (NodeId 7) 3 18446744073709551615))
       = Some (SourceId (NodeId 7) 3 18446744073709551615)"
proof -
  have "wf_op_id (OpId (replicate 32 0xA5))"
    by (simp add: wf_op_id_def)
  with id_display_roundtrip show ?thesis by blast
qed

text \<open>
  C19. The pair parser accepts a plus sign in front of a single digit, because
  \<open>u8::from_str_radix\<close> does: a 64-byte text that is not made of hexadecimal digits is
  accepted as a full operation identity, and names the same operation as its canonical
  spelling. \<open>IdQuery::parse\<close> rejects the same text.
\<close>

theorem op_from_display_str_plus_sign:
  "op_from_display_str dk (concat (replicate 32 ''+a'')) = Some (OpId (replicate 32 10))
   \<and> op_from_display_str dk (concat (replicate 32 ''0a'')) = Some (OpId (replicate 32 10))
   \<and> \<not> list_all is_ascii_hexdigit (concat (replicate 32 ''+a''))
   \<and> id_query_parse dk (concat (replicate 32 ''+a'')) = None"
proof -
  have plus: "parse_pairs (concat (replicate n ''+a'')) = Some (replicate n 10)"
    and zero: "parse_pairs (concat (replicate n ''0a'')) = Some (replicate n 10)" for n
    by (induction n) (auto simp: from_str_radix_def to_digit_def)
  have "\<not> list_all is_ascii_hexdigit (concat (replicate 32 ''+a''))"
    "\<not> list_all is_ascii_hexdigit (map to_ascii_lowercase (concat (replicate 32 ''+a'')))"
    by code_simp+
  moreover have "CHR '':'' \<notin> set (concat (replicate 32 ''+a''))"
    "CHR '':'' \<notin> set (concat (replicate 32 ''0a''))" by auto
  moreover have "length (concat (replicate 32 ''+a'')) = 64" "length (concat (replicate 32 ''0a'')) = 64"
    by (simp_all add: length_concat sum_list_replicate)
  ultimately show ?thesis
    by (simp add: op_from_display_str_def id_query_parse_def plus zero)
qed

end
