(* ===== verification/RankTree.thy ===== *)
theory RankTree
  imports Containers "HOL-Library.Multiset"
begin

text \<open>
  The copy-on-write AVL sequence with two subtree weights
  (\<open>editchain-index-pages/src/rank.rs\<close>). A \<open>Page\<close> is transparent here: loading and
  writing back a page is not observable in the value of a link. \<open>Measure\<close> keeps its two
  saturating \<open>u64\<close> counters as words; the saturating \<open>u32\<close> height is a natural
  number with the bound written out, and the balance invariant shows the bound is never reached
  for fewer than \<open>2 ^ 64\<close> keys.

  The specification is the in-order list of keys with value and weight: edits are the
  operations of a \<open>BTreeMap\<close> on it, and the rank queries are sums over its prefixes.
\<close>

section \<open>Measures\<close>

datatype meas = Measure (expanded: u64) (visible: u64)

datatype axis = Expanded | Visible

definition meas_zero :: meas where
  "meas_zero = Measure 0 0"

definition plus_meas :: "meas \<Rightarrow> meas \<Rightarrow> meas" where
  "plus_meas a b = Measure (usat_add (expanded a) (expanded b)) (usat_add (visible a) (visible b))"

definition along :: "meas \<Rightarrow> axis \<Rightarrow> u64" where
  "along m ax = (case ax of Expanded \<Rightarrow> expanded m | Visible \<Rightarrow> visible m)"

lemma plus_meas_assoc: "plus_meas (plus_meas a b) c = plus_meas a (plus_meas b c)"
  by (simp add: plus_meas_def usat_add_assoc)

lemma plus_meas_zero [simp]: "plus_meas meas_zero a = a" "plus_meas a meas_zero = a"
  by (simp_all add: plus_meas_def meas_zero_def)

lemma along_mono: "along a ax \<le> along (plus_meas a b) ax"
  by (cases ax) (simp_all add: along_def plus_meas_def usat_add_mono)

section \<open>The tree\<close>

datatype ('k, 'v) link =
  Empty
| Node (node_key: 'k) (node_value: 'v) (node_weight: meas) (node_sum: meas) (node_height: nat)
    (node_left: "('k, 'v) link") (node_right: "('k, 'v) link")

fun height :: "('k, 'v) link \<Rightarrow> nat" where
  "height Empty = 0"
| "height (Node k v w s h l r) = h"

fun link_measure :: "('k, 'v) link \<Rightarrow> meas" where
  "link_measure Empty = meas_zero"
| "link_measure (Node k v w s h l r) = s"

fun fix_node :: "('k, 'v) link \<Rightarrow> ('k, 'v) link" where
  "fix_node Empty = Empty"
| "fix_node (Node k v w s h l r) =
     Node k v w (plus_meas (plus_meas (link_measure l) w) (link_measure r))
       (sat_add 32 (max (height l) (height r)) 1) l r"

text \<open>\<open>left\<close> and \<open>right\<close>: the rotations, which leave a root without a pivot alone.\<close>

fun rotate_left :: "('k, 'v) link \<Rightarrow> ('k, 'v) link" where
  "rotate_left (Node k v w s h l (Node pk pv pw ps ph pl pr)) =
     fix_node (Node pk pv pw ps ph (fix_node (Node k v w s h l pl)) pr)"
| "rotate_left root = root"

fun rotate_right :: "('k, 'v) link \<Rightarrow> ('k, 'v) link" where
  "rotate_right (Node k v w s h (Node pk pv pw ps ph pl pr) r) =
     fix_node (Node pk pv pw ps ph pl (fix_node (Node k v w s h pr r)))"
| "rotate_right root = root"

fun lean_left :: "('k, 'v) link \<Rightarrow> ('k, 'v) link" where
  "lean_left Empty = Empty"
| "lean_left (Node k v w s h l r) =
     (if height l < height r then rotate_left (Node k v w s h l r) else Node k v w s h l r)"

fun lean_right :: "('k, 'v) link \<Rightarrow> ('k, 'v) link" where
  "lean_right Empty = Empty"
| "lean_right (Node k v w s h l r) =
     (if height r < height l then rotate_right (Node k v w s h l r) else Node k v w s h l r)"

fun balance_fixed :: "('k, 'v) link \<Rightarrow> ('k, 'v) link" where
  "balance_fixed Empty = Empty"
| "balance_fixed (Node k v w s h l r) =
     (if sat_add 32 (height r) 1 < height l then rotate_right (Node k v w s h (lean_left l) r)
      else if sat_add 32 (height l) 1 < height r then rotate_left (Node k v w s h l (lean_right r))
      else Node k v w s h l r)"

definition balance :: "('k, 'v) link \<Rightarrow> ('k, 'v) link" where
  "balance root = balance_fixed (fix_node root)"

section \<open>Edits\<close>

fun rt_insert :: "('k::linorder, 'v) link \<Rightarrow> 'k \<Rightarrow> 'v \<Rightarrow> meas \<Rightarrow> ('k, 'v) link \<times> 'v option" where
  "rt_insert Empty key v' w' = (Node key v' w' w' 1 Empty Empty, None)"
| "rt_insert (Node k v w s h l r) key v' w' =
     (if key < k then (case rt_insert l key v' w' of (child, previous) \<Rightarrow>
                        (balance (Node k v w s h child r), previous))
      else if k < key then (case rt_insert r key v' w' of (child, previous) \<Rightarrow>
                        (balance (Node k v w s h l child), previous))
      else (balance (Node k v' w' s h l r), Some v))"

text \<open>
  \<open>pop_min\<close> returns the rest and the smallest node, whose children have been taken. It is
  only called on a node.
\<close>

fun pop_min :: "('k, 'v) link \<Rightarrow> ('k, 'v) link \<times> ('k, 'v) link" where
  "pop_min Empty = (Empty, Empty)"
| "pop_min (Node k v w s h Empty r) = (r, Node k v w s h Empty Empty)"
| "pop_min (Node k v w s h l r) =
     (case pop_min l of (child, smallest) \<Rightarrow> (balance (Node k v w s h child r), smallest))"

fun with_children :: "('k, 'v) link \<Rightarrow> ('k, 'v) link \<Rightarrow> ('k, 'v) link \<Rightarrow> ('k, 'v) link" where
  "with_children Empty l r = Empty"
| "with_children (Node k v w s h _ _) l r = Node k v w s h l r"

fun rt_remove :: "('k::linorder, 'v) link \<Rightarrow> 'k \<Rightarrow> ('k, 'v) link \<times> 'v option" where
  "rt_remove Empty key = (Empty, None)"
| "rt_remove (Node k v w s h l r) key =
     (if key < k then (case rt_remove l key of (child, old) \<Rightarrow> (balance (Node k v w s h child r), old))
      else if k < key then (case rt_remove r key of (child, old) \<Rightarrow> (balance (Node k v w s h l child), old))
      else if r = Empty then (l, Some v)
      else (case pop_min r of (child, successor) \<Rightarrow>
              (balance (with_children successor l child), Some v)))"

section \<open>Queries\<close>

fun rt_get :: "('k::linorder, 'v) link \<Rightarrow> 'k \<Rightarrow> 'v option" where
  "rt_get Empty key = None"
| "rt_get (Node k v w s h l r) key =
     (if key < k then rt_get l key else if k < key then rt_get r key else Some v)"

text \<open>\<open>get_mut\<close> with the client's update of the value it found.\<close>

fun rt_get_mut :: "('k::linorder, 'v) link \<Rightarrow> 'k \<Rightarrow> ('v \<Rightarrow> 'v) \<Rightarrow> ('k, 'v) link" where
  "rt_get_mut Empty key f = Empty"
| "rt_get_mut (Node k v w s h l r) key f =
     (if key < k then Node k v w s h (rt_get_mut l key f) r
      else if k < key then Node k v w s h l (rt_get_mut r key f)
      else Node k (f v) w s h l r)"

datatype 'k bound = Unbounded | Included 'k | Excluded 'k

definition accepts :: "bool \<Rightarrow> 'k::linorder bound \<Rightarrow> 'k \<Rightarrow> bool" where
  "accepts reverse b key = (case b of
       Unbounded \<Rightarrow> True
     | Included k \<Rightarrow> if reverse then key \<le> k else k \<le> key
     | Excluded k \<Rightarrow> if reverse then key < k else k < key)"

primrec bound_loop ::
  "('k::linorder, 'v) link \<Rightarrow> 'k bound \<Rightarrow> bool \<Rightarrow> ('k \<times> 'v) option \<Rightarrow> ('k \<times> 'v) option" where
  "bound_loop Empty b reverse result = result"
| "bound_loop (Node k v w s h l r) b reverse result =
     (if accepts reverse b k = reverse
      then bound_loop r b reverse (if accepts reverse b k then Some (k, v) else result)
      else bound_loop l b reverse (if accepts reverse b k then Some (k, v) else result))"

definition rt_bound :: "('k::linorder, 'v) link \<Rightarrow> 'k bound \<Rightarrow> bool \<Rightarrow> ('k \<times> 'v) option" where
  "rt_bound t b reverse = bound_loop t b reverse None"

fun rank_loop :: "('k::linorder, 'v) link \<Rightarrow> 'k \<Rightarrow> meas \<Rightarrow> meas option" where
  "rank_loop Empty key sm = None"
| "rank_loop (Node k v w s h l r) key sm =
     (if key < k then rank_loop l key sm
      else if k < key then rank_loop r key (plus_meas (plus_meas sm (link_measure l)) w)
      else Some (plus_meas sm (link_measure l)))"

definition rt_rank :: "('k::linorder, 'v) link \<Rightarrow> 'k \<Rightarrow> meas option" where
  "rt_rank t key = rank_loop t key meas_zero"

fun prefix_loop :: "('k::linorder, 'v) link \<Rightarrow> 'k \<Rightarrow> meas \<Rightarrow> meas" where
  "prefix_loop Empty key sm = sm"
| "prefix_loop (Node k v w s h l r) key sm =
     (if key \<le> k then prefix_loop l key sm
      else prefix_loop r key (plus_meas (plus_meas sm (link_measure l)) w))"

definition rt_prefix :: "('k::linorder, 'v) link \<Rightarrow> 'k \<Rightarrow> meas" where
  "rt_prefix t key = prefix_loop t key meas_zero"

text \<open>
  \<open>prefix_batch\<close> writes the prefix of each query at its index. The partition point of the
  sorted queries is the length of the leading run that satisfies the test.
\<close>

definition set_at :: "'a \<Rightarrow> nat \<Rightarrow> 'a list \<Rightarrow> 'a list" where
  "set_at x i out = (if i < length out then out[i := x] else out)"

fun prefix_batch :: "('k::linorder, 'v) link \<Rightarrow> ('k \<times> nat) list \<Rightarrow> meas \<Rightarrow> meas list \<Rightarrow> meas list" where
  "prefix_batch Empty queries sm output =
     (if queries = [] then output else fold (\<lambda>(_, i). set_at sm i) queries output)"
| "prefix_batch (Node k v w s h l r) queries sm output =
     (if queries = [] then output
      else let split = length (takeWhile (\<lambda>q. fst q \<le> k) queries);
               output' = prefix_batch l (take split queries) sm output
           in prefix_batch r (drop split queries) (plus_meas (plus_meas sm (link_measure l)) w) output')"

text \<open>
  The order of equal keys after \<open>sort_unstable_by\<close> is unspecified, so the sorting function
  \<open>srt\<close> is a parameter.
\<close>

definition rt_prefixes ::
  "(('k::linorder \<times> nat) list \<Rightarrow> ('k \<times> nat) list) \<Rightarrow> ('k, 'v) link \<Rightarrow> 'k list \<Rightarrow> meas list" where
  "rt_prefixes srt t ks =
     prefix_batch t (srt (zip ks [0..<length ks])) meas_zero (replicate (length ks) meas_zero)"

fun select_loop ::
  "('k, 'v) link \<Rightarrow> u64 \<Rightarrow> axis \<Rightarrow> meas \<Rightarrow> ('k \<times> 'v \<times> meas) option" where
  "select_loop Empty offset ax sm = None"
| "select_loop (Node k v w s h l r) offset ax sm =
     (let start = plus_meas sm (link_measure l)
      in if offset < along start ax then select_loop l offset ax sm
         else if offset < along (plus_meas start w) ax then Some (k, v, start)
         else select_loop r offset ax (plus_meas start w))"

definition rt_select :: "('k, 'v) link \<Rightarrow> u64 \<Rightarrow> axis \<Rightarrow> ('k \<times> 'v \<times> meas) option" where
  "rt_select t offset ax = select_loop t offset ax meas_zero"

text \<open>The traversal of \<open>iter\<close>: its stack of nodes and its next link.\<close>

fun iter_cost :: "('k, 'v) link \<Rightarrow> nat" where
  "iter_cost Empty = 1"
| "iter_cost (Node k v w s h l r) = Suc (2 * size r)"

function iter_loop :: "('k, 'v) link list \<Rightarrow> ('k, 'v) link \<Rightarrow> ('k \<times> 'v) list" where
  "iter_loop stack (Node k v w s h l r) = iter_loop (Node k v w s h l r # stack) l"
| "iter_loop [] Empty = []"
| "iter_loop (Empty # stack) Empty = iter_loop stack Empty"
| "iter_loop (Node k v w s h l r # stack) Empty = (k, v) # iter_loop stack r"
  by pat_completeness auto
termination
  by (relation "measure (\<lambda>(stack, next). sum_list (map iter_cost stack) + 2 * size next)") auto

definition rt_iter :: "('k, 'v) link \<Rightarrow> ('k \<times> 'v) list" where
  "rt_iter t = iter_loop [] t"

section \<open>The in-order view\<close>

fun inorder :: "('k, 'v) link \<Rightarrow> ('k \<times> 'v \<times> meas) list" where
  "inorder Empty = []"
| "inorder (Node k v w s h l r) = inorder l @ (k, v, w) # inorder r"

definition rt_entries :: "('k, 'v) link \<Rightarrow> ('k \<times> 'v) list" where
  "rt_entries t = map (\<lambda>(k, v, w). (k, v)) (inorder t)"

text \<open>The total of a list of blocks.\<close>

definition weight_sum :: "('k \<times> 'v \<times> meas) list \<Rightarrow> meas" where
  "weight_sum xs = foldr (\<lambda>(_, _, w). plus_meas w) xs meas_zero"

lemma weight_sum_simps [simp]:
  "weight_sum [] = meas_zero"
  "weight_sum ((k, v, w) # xs) = plus_meas w (weight_sum xs)"
  by (simp_all add: weight_sum_def)

lemma weight_sum_append [simp]: "weight_sum (xs @ ys) = plus_meas (weight_sum xs) (weight_sum ys)"
  by (induction xs) (auto simp: plus_meas_assoc)

text \<open>Every node stores the total of its subtree.\<close>

fun sums_ok :: "('k, 'v) link \<Rightarrow> bool" where
  "sums_ok Empty = True"
| "sums_ok (Node k v w s h l r) \<longleftrightarrow>
     sums_ok l \<and> sums_ok r \<and> s = weight_sum (inorder (Node k v w s h l r))"

lemma link_measure_sum: "sums_ok t \<Longrightarrow> link_measure t = weight_sum (inorder t)"
  by (cases t) simp_all

lemma inorder_fix [simp]: "inorder (fix_node t) = inorder t"
  by (cases t) simp_all

lemma inorder_rotate [simp]:
  "inorder (rotate_left t) = inorder t" "inorder (rotate_right t) = inorder t"
  by (cases t rule: rotate_left.cases, simp_all) (cases t rule: rotate_right.cases, simp_all)

lemma inorder_lean [simp]:
  "inorder (lean_left t) = inorder t" "inorder (lean_right t) = inorder t"
  by (cases t; simp)+

lemma inorder_balance_fixed [simp]: "inorder (balance_fixed t) = inorder t"
  by (cases t) simp_all

lemma inorder_balance [simp]: "inorder (balance t) = inorder t"
  by (simp add: balance_def)

text \<open>\<open>fix\<close> restores the sum of a node whose children are right.\<close>

fun children_ok :: "(('k, 'v) link \<Rightarrow> bool) \<Rightarrow> ('k, 'v) link \<Rightarrow> bool" where
  "children_ok P Empty = True"
| "children_ok P (Node k v w s h l r) = (P l \<and> P r)"

lemma sums_ok_fix: "children_ok sums_ok t \<Longrightarrow> sums_ok (fix_node t)"
  by (cases t) (auto simp: link_measure_sum plus_meas_assoc)

lemma sums_ok_children: "sums_ok t \<Longrightarrow> children_ok sums_ok t"
  by (cases t) auto

lemma sums_ok_rotate:
  "sums_ok t \<Longrightarrow> sums_ok (rotate_left t)" "sums_ok t \<Longrightarrow> sums_ok (rotate_right t)"
  by (cases t rule: rotate_left.cases; auto simp: link_measure_sum plus_meas_assoc)
     (cases t rule: rotate_right.cases; auto simp: link_measure_sum plus_meas_assoc)

lemma sums_ok_lean:
  "sums_ok t \<Longrightarrow> sums_ok (lean_left t)" "sums_ok t \<Longrightarrow> sums_ok (lean_right t)"
  by (cases t; simp only: lean_left.simps lean_right.simps; simp add: sums_ok_rotate del: sums_ok.simps)+

lemma sums_ok_balance_fixed:
  assumes "sums_ok t"
  shows "sums_ok (balance_fixed t)"
proof (cases t)
  case (Node k v w s h l r)
  have "sums_ok (Node k v w s h (lean_left l) r)" "sums_ok (Node k v w s h l (lean_right r))"
    using assms by (simp_all add: Node sums_ok_lean)
  then show ?thesis
    using assms unfolding Node balance_fixed.simps by (simp add: sums_ok_rotate del: sums_ok.simps)
qed simp

lemma sums_ok_balance: "children_ok sums_ok t \<Longrightarrow> sums_ok (balance t)"
  by (simp add: balance_def sums_ok_balance_fixed sums_ok_fix)

lemma sums_ok_insert: "sums_ok t \<Longrightarrow> sums_ok (fst (rt_insert t key v' w'))"
  by (induction t) (auto simp: sums_ok_balance split: prod.splits)

lemma sums_ok_pop_min: "sums_ok t \<Longrightarrow> sums_ok (fst (pop_min t))"
  by (induction t rule: pop_min.induct) (auto simp: sums_ok_balance split: prod.splits)

lemma sums_ok_remove: "sums_ok t \<Longrightarrow> sums_ok (fst (rt_remove t key))"
proof (induction t)
  case (Node k v w s h l r)
  have "children_ok sums_ok (with_children m l (fst (pop_min r)))" for m
    using Node.prems by (cases m) (auto simp: sums_ok_pop_min)
  then show ?case
    using Node by (auto simp: sums_ok_balance case_prod_beta)
qed simp

section \<open>Edits refine the operations of an ordered map\<close>

abbreviation ordered :: "('k::linorder, 'v) link \<Rightarrow> bool" where
  "ordered t \<equiv> bm_wf (inorder t)"

lemma bm_insert_append:
  assumes "bm_wf (xs @ (k', y) # ys)"
  shows "bm_insert k x (xs @ (k', y) # ys) =
    (if k < k' then bm_insert k x xs @ (k', y) # ys
     else if k' < k then xs @ (k', y) # bm_insert k x ys
     else xs @ (k', x) # ys)"
  using assms by (induction xs) (auto simp: sorted_wrt_append)

lemma ordered_Node:
  "ordered (Node k v w s h l r) \<longleftrightarrow> ordered l \<and> ordered r
     \<and> (\<forall>x\<in>set (inorder l). fst x < k) \<and> (\<forall>x\<in>set (inorder r). k < fst x)"
proof -
  have "(\<forall>x\<in>set (inorder l). fst x < k) \<and> (\<forall>x\<in>set (inorder r). k < fst x) \<Longrightarrow>
      \<forall>x\<in>set (inorder l). \<forall>y\<in>set (inorder r). fst x < fst y"
    by (meson less_trans)
  then show ?thesis by (auto simp: sorted_wrt_append)
qed

lemma inorder_insert:
  "ordered t \<Longrightarrow> inorder (fst (rt_insert t key v' w')) = bm_insert key (v', w') (inorder t)"
proof (induction t)
  case (Node k v w s h l r)
  then have "ordered l" "ordered r" by (simp_all add: sorted_wrt_append)
  with Node show ?case
    by (auto simp: case_prod_beta bm_insert_append [OF Node.prems [unfolded inorder.simps]])
qed simp

text \<open>Removing an absent key changes nothing; keys beyond the node stay.\<close>

lemma bm_remove_absent: "(\<And>x. x \<in> set m \<Longrightarrow> fst x \<noteq> k) \<Longrightarrow> bm_remove k m = m"
  by (simp add: bm_remove_def)

lemma bm_remove_append: "bm_remove k (xs @ ys) = bm_remove k xs @ bm_remove k ys"
  by (simp add: bm_remove_def)

lemma bm_remove_Cons: "bm_remove k (x # xs) = (if fst x = k then bm_remove k xs else x # bm_remove k xs)"
  by (simp add: bm_remove_def)

lemma pop_min_inorder:
  "t \<noteq> Empty \<Longrightarrow> pop_min t = (rest, m) \<Longrightarrow>
     m \<noteq> Empty \<and> inorder t = (node_key m, node_value m, node_weight m) # inorder rest"
  by (induction t arbitrary: rest rule: pop_min.induct) (auto split: prod.splits)

lemma inorder_remove:
  "ordered t \<Longrightarrow> inorder (fst (rt_remove t key)) = bm_remove key (inorder t)"
proof (induction t)
  case (Node k v w s h l r)
  note ord = Node.prems [unfolded ordered_Node]
  have l: "bm_remove key (inorder l) = inorder l" if "k \<le> key"
    using ord that by (intro bm_remove_absent) force
  have r: "bm_remove key (inorder r) = inorder r" if "key \<le> k"
    using ord that by (intro bm_remove_absent) force
  obtain rest m where pop: "pop_min r = (rest, m)" by fastforce
  have succ: "inorder (with_children m l rest) = inorder l @ inorder r" if "r \<noteq> Empty"
    using pop_min_inorder [OF that pop] by (cases m) auto
  show ?case
    using Node ord l r succ pop
    by (auto simp: case_prod_beta bm_remove_append bm_remove_Cons)
qed (simp add: bm_remove_def)

lemma get_inorder: "ordered t \<Longrightarrow> rt_get t key = map_option fst (map_of (inorder t) key)"
proof (induction t)
  case (Node k v w s h l r)
  note ord = Node.prems [unfolded ordered_Node]
  have l: "map_of (inorder l) key = None" if "k \<le> key"
    using ord that by (force simp: map_of_eq_None_iff)
  have r: "map_of (inorder r) key = None" if "key \<le> k"
    using ord that by (force simp: map_of_eq_None_iff)
  show ?case
    using Node ord l r by (auto simp: map_add_def split: option.splits)
qed simp

lemma insert_previous: "snd (rt_insert t key v' w') = rt_get t key"
  by (induction t) (auto simp: case_prod_beta)

lemma remove_previous: "snd (rt_remove t key) = rt_get t key"
  by (induction t) (auto simp: case_prod_beta)

lemma get_mut_inorder:
  "ordered t \<Longrightarrow> inorder (rt_get_mut t key f) =
     map (\<lambda>(k, v, w). (k, if k = key then f v else v, w)) (inorder t)"
proof (induction t)
  case (Node k v w s h l r)
  note ord = Node.prems [unfolded ordered_Node]
  have idle: "map (\<lambda>(k, v, w). (k, if k = key then f v else v, w)) xs = xs"
    if "\<And>x. x \<in> set xs \<Longrightarrow> fst x \<noteq> key" for xs :: "('a \<times> 'b \<times> meas) list"
    using that by (intro map_idI) auto
  have l: "map (\<lambda>(k, v, w). (k, if k = key then f v else v, w)) (inorder l) = inorder l" if "k \<le> key"
    using ord that by (intro idle) force
  have r: "map (\<lambda>(k, v, w). (k, if k = key then f v else v, w)) (inorder r) = inorder r" if "key \<le> k"
    using ord that by (intro idle) force
  show ?case using Node ord l r by auto
qed simp

section \<open>Balance\<close>

text \<open>The stored heights are the heights, and siblings differ by at most one.\<close>

fun avl :: "('k, 'v) link \<Rightarrow> bool" where
  "avl Empty = True"
| "avl (Node k v w s h l r) \<longleftrightarrow> avl l \<and> avl r \<and> h = Suc (max (height l) (height r))
     \<and> height l \<le> Suc (height r) \<and> height r \<le> Suc (height l)"

text \<open>The number of keys grows exponentially with the height.\<close>

lemma avl_size: "avl t \<Longrightarrow> 2 ^ (height t div 2) \<le> Suc (length (inorder t))"
proof (induction t)
  case (Node k v w s h l r)
  define m where "m = min (height l) (height r)"
  have h: "height (Node k v w s h l r) div 2 \<le> Suc (m div 2)"
    using Node.prems by (auto simp: m_def)
  have pow: "(2::nat) ^ (m div 2) \<le> 2 ^ (height l div 2)" "(2::nat) ^ (m div 2) \<le> 2 ^ (height r div 2)"
    by (auto simp: m_def intro!: power_increasing div_le_mono)
  have "(2::nat) ^ (height (Node k v w s h l r) div 2) \<le> 2 ^ Suc (m div 2)"
    using h by (intro power_increasing) simp_all
  also have "\<dots> = 2 ^ (m div 2) + 2 ^ (m div 2)" by simp
  also have "\<dots> \<le> Suc (length (inorder l)) + Suc (length (inorder r))"
    using Node.IH Node.prems by (intro add_mono order_trans [OF pow(1)] order_trans [OF pow(2)]) auto
  finally show ?case by simp
qed simp

text \<open>A bound on the heights under which the height counter does not saturate.\<close>

abbreviation low :: "('k, 'v) link \<Rightarrow> bool" where
  "low t \<equiv> height t < 2 ^ 31"

lemma sat_succ: "n < 2 ^ 31 + 4 \<Longrightarrow> sat_add 32 n (Suc 0) = Suc n"
  by (simp add: sat_add_def)

lemma avl_fix:
  "avl l \<Longrightarrow> avl r \<Longrightarrow> height l \<le> Suc (height r) \<Longrightarrow> height r \<le> Suc (height l) \<Longrightarrow>
     height l < 2 ^ 31 + 4 \<Longrightarrow> height r < 2 ^ 31 + 4 \<Longrightarrow>
     avl (fix_node (Node k v w s h l r)) \<and> height (fix_node (Node k v w s h l r)) = Suc (max (height l) (height r))"
  by (simp add: sat_succ)

lemma balance_even:
  "avl l \<Longrightarrow> avl r \<Longrightarrow> height l \<le> Suc (height r) \<Longrightarrow> height r \<le> Suc (height l) \<Longrightarrow> low l \<Longrightarrow> low r \<Longrightarrow>
     avl (balance (Node k v w s h l r)) \<and> height (balance (Node k v w s h l r)) = Suc (max (height l) (height r))"
  by (simp add: balance_def sat_succ)

lemma balance_left_heavy:
  assumes "avl l" and "avl r" and "height l = Suc (Suc (height r))" and "low l"
  shows "avl (balance (Node k v w s h l r)) \<and> height l \<le> height (balance (Node k v w s h l r))
    \<and> height (balance (Node k v w s h l r)) \<le> Suc (height l)"
proof -
  obtain lk lv lw ls lh ll lr where l: "l = Node lk lv lw ls lh ll lr"
    using assms(3) by (cases l) auto
  show ?thesis
  proof (cases "height ll < height lr")
    case False
    then show ?thesis
      using assms by (auto simp: l balance_def sat_succ max_def)
  next
    case True
    then obtain mk mv mw ms mh ml mr where lr: "lr = Node mk mv mw ms mh ml mr"
      by (cases lr) auto
    define n where "n = height r"
    have av: "avl ll" "avl ml" "avl mr" and hs: "height ll = n" "max (height ml) (height mr) = n"
        "height ml \<le> Suc (height mr)" "height mr \<le> Suc (height ml)" "n < 2 ^ 31" "height l = Suc (Suc n)"
      using assms True by (auto simp: l lr n_def max_def split: if_splits)
    let ?a = "fix_node (Node lk lv lw ls lh ll ml)"
    have "balance (Node k v w s h l r) = fix_node (Node mk mv mw ms mh ?a (fix_node
        (Node k v w (plus_meas (plus_meas (link_measure l) w) (link_measure r))
           (sat_add 32 (max (height l) (height r)) 1) mr r)))"
      using True assms by (simp add: l lr balance_def sat_succ)
    moreover have "avl ?a \<and> height ?a = Suc n"
      using av hs avl_fix [of ll ml lk lv lw ls lh] by auto
    moreover have "avl (fix_node (Node k v w s' h' mr r)) \<and> height (fix_node (Node k v w s' h' mr r)) = Suc n" for s' h'
      using av hs avl_fix [of mr r k v w s' h'] assms(2) by (auto simp: n_def)
    ultimately show ?thesis
      using hs avl_fix by (auto simp: sat_succ)
  qed
qed

lemma balance_right_heavy:
  assumes "avl l" and "avl r" and "height r = Suc (Suc (height l))" and "low r"
  shows "avl (balance (Node k v w s h l r)) \<and> height r \<le> height (balance (Node k v w s h l r))
    \<and> height (balance (Node k v w s h l r)) \<le> Suc (height r)"
proof -
  obtain rk rv rw rs rh rl rr where r: "r = Node rk rv rw rs rh rl rr"
    using assms(3) by (cases r) auto
  show ?thesis
  proof (cases "height rr < height rl")
    case False
    then show ?thesis
      using assms by (auto simp: r balance_def sat_succ max_def)
  next
    case True
    then obtain mk mv mw ms mh ml mr where rl: "rl = Node mk mv mw ms mh ml mr"
      by (cases rl) auto
    define n where "n = height l"
    have av: "avl rr" "avl ml" "avl mr" and hs: "height rr = n" "max (height ml) (height mr) = n"
        "height ml \<le> Suc (height mr)" "height mr \<le> Suc (height ml)" "n < 2 ^ 31" "height r = Suc (Suc n)"
      using assms True by (auto simp: r rl n_def max_def split: if_splits)
    let ?a = "fix_node (Node rk rv rw rs rh mr rr)"
    have "balance (Node k v w s h l r) = fix_node (Node mk mv mw ms mh (fix_node
        (Node k v w (plus_meas (plus_meas (link_measure l) w) (link_measure r))
           (sat_add 32 (max (height l) (height r)) 1) l ml)) ?a)"
      using True assms by (simp add: r rl balance_def sat_succ)
    moreover have "avl ?a \<and> height ?a = Suc n"
      using av hs avl_fix [of mr rr rk rv rw rs rh] by auto
    moreover have "avl (fix_node (Node k v w s' h' l ml)) \<and> height (fix_node (Node k v w s' h' l ml)) = Suc n" for s' h'
      using av hs avl_fix [of l ml k v w s' h'] assms(1) by (auto simp: n_def)
    ultimately show ?thesis
      using hs avl_fix by (auto simp: sat_succ)
  qed
qed

lemma balance_avl:
  assumes "avl l" and "avl r" and "height l \<le> height r + 2" and "height r \<le> height l + 2"
    and "low l" and "low r"
  shows "avl (balance (Node k v w s h l r))"
    and "max (height l) (height r) \<le> height (balance (Node k v w s h l r))"
    and "height (balance (Node k v w s h l r)) \<le> Suc (max (height l) (height r))"
    and "height l \<le> Suc (height r) \<Longrightarrow> height r \<le> Suc (height l) \<Longrightarrow>
      height (balance (Node k v w s h l r)) = Suc (max (height l) (height r))"
proof -
  consider "height l = Suc (Suc (height r))" | "height r = Suc (Suc (height l))"
    | "height l \<le> Suc (height r)" "height r \<le> Suc (height l)"
    using assms by linarith
  then have "avl (balance (Node k v w s h l r))
      \<and> max (height l) (height r) \<le> height (balance (Node k v w s h l r))
      \<and> height (balance (Node k v w s h l r)) \<le> Suc (max (height l) (height r))
      \<and> (height l \<le> Suc (height r) \<and> height r \<le> Suc (height l) \<longrightarrow>
        height (balance (Node k v w s h l r)) = Suc (max (height l) (height r)))"
  proof cases
    case 1
    then show ?thesis using balance_left_heavy [OF assms(1,2) 1 assms(5), of k v w s h] by simp
  next
    case 2
    then show ?thesis using balance_right_heavy [OF assms(1,2) 2 assms(6), of k v w s h] by simp
  next
    case 3
    then show ?thesis using balance_even [OF assms(1,2) 3 assms(5,6), of k v w s h] by (simp add: le_SucI)
  qed
  then show "avl (balance (Node k v w s h l r))"
    and "max (height l) (height r) \<le> height (balance (Node k v w s h l r))"
    and "height (balance (Node k v w s h l r)) \<le> Suc (max (height l) (height r))"
    and "height l \<le> Suc (height r) \<Longrightarrow> height r \<le> Suc (height l) \<Longrightarrow>
      height (balance (Node k v w s h l r)) = Suc (max (height l) (height r))"
    by blast+
qed

text \<open>One child of a balanced node grew or shrank by at most one level.\<close>

lemma balance_grow:
  assumes "avl l" and "avl r" and "a \<le> Suc b" and "b \<le> Suc a" and "low l" and "low r"
    and "height l = a \<and> (height r = b \<or> height r = Suc b) \<or> height r = b \<and> (height l = a \<or> height l = Suc a)"
  shows "avl (balance (Node k v w s h l r)) \<and> Suc (max a b) \<le> height (balance (Node k v w s h l r))
    \<and> height (balance (Node k v w s h l r)) \<le> Suc (Suc (max a b))"
proof -
  define t where "t = balance (Node k v w s h l r)"
  have "height l \<le> height r + 2" "height r \<le> height l + 2" using assms by auto
  note b = balance_avl [OF assms(1,2) this assms(5,6), of k v w s h, folded t_def]
  have "Suc (max a b) \<le> height t \<and> height t \<le> Suc (Suc (max a b))"
  proof (cases "height l \<le> Suc (height r) \<and> height r \<le> Suc (height l)")
    case True
    then show ?thesis using b(4) assms(7) by auto
  next
    case False
    then show ?thesis using b(2,3) assms(3,4,7) by auto
  qed
  then show ?thesis using b(1) by (simp add: t_def)
qed

lemma balance_shrink:
  assumes "avl l" and "avl r" and "a \<le> Suc b" and "b \<le> Suc a" and "low l" and "low r"
    and "height l = a \<and> (height r = b \<or> Suc (height r) = b) \<or> height r = b \<and> (height l = a \<or> Suc (height l) = a)"
  shows "avl (balance (Node k v w s h l r)) \<and> height (balance (Node k v w s h l r)) \<le> Suc (max a b)
    \<and> max a b \<le> height (balance (Node k v w s h l r))"
proof -
  define t where "t = balance (Node k v w s h l r)"
  have "height l \<le> height r + 2" "height r \<le> height l + 2" using assms by auto
  note b = balance_avl [OF assms(1,2) this assms(5,6), of k v w s h, folded t_def]
  have "height t \<le> Suc (max a b) \<and> max a b \<le> height t"
  proof (cases "height l \<le> Suc (height r) \<and> height r \<le> Suc (height l)")
    case True
    then show ?thesis using b(4) assms(7) by auto
  next
    case False
    then show ?thesis using b(2,3) assms(3,4,7) by auto
  qed
  then show ?thesis using b(1) by (simp add: t_def)
qed

lemma within_grow: "a \<le> x \<Longrightarrow> x \<le> Suc a \<Longrightarrow> x = a \<or> x = Suc a" for a x :: nat
  by linarith

lemma avl_insert:
  "avl t \<Longrightarrow> height t < 2 ^ 30 \<Longrightarrow> avl (fst (rt_insert t key v' w'))
     \<and> height t \<le> height (fst (rt_insert t key v' w')) \<and> height (fst (rt_insert t key v' w')) \<le> Suc (height t)"
proof (induction t)
  case Empty
  then show ?case by simp
next
  case (Node k v w s h l r)
  have sub: "avl l" "avl r" "height l \<le> Suc (height r)" "height r \<le> Suc (height l)"
      "height l < 2 ^ 30" "height r < 2 ^ 30" and h: "h = Suc (max (height l) (height r))"
    using Node.prems by auto
  let ?l = "fst (rt_insert l key v' w')" and ?r = "fst (rt_insert r key v' w')"
  have l: "avl ?l" "height ?l = height l \<or> height ?l = Suc (height l)"
    and r: "avl ?r" "height ?r = height r \<or> height ?r = Suc (height r)"
    using Node.IH sub by (auto dest: within_grow)
  have "low ?l" "low ?r" using l(2) r(2) sub(5,6) by auto
  then show ?case
    using balance_grow [OF l(1) sub(2-4), of k v w s h] balance_grow [OF sub(1) r(1) sub(3,4), of k v w s h]
      balance_grow [OF sub(1-4), of k v' w' s h] sub(5,6) l(2) r(2) h
    by (simp add: case_prod_beta)
qed

lemma avl_pop_min:
  "avl t \<Longrightarrow> height t < 2 ^ 30 \<Longrightarrow> t \<noteq> Empty \<Longrightarrow> avl (fst (pop_min t))
     \<and> height (fst (pop_min t)) \<le> height t \<and> height t \<le> Suc (height (fst (pop_min t)))"
proof (induction t rule: pop_min.induct)
  case (3 k v w s h k1 v1 w1 s1 h1 l1 r1 r)
  define L where "L = Node k1 v1 w1 s1 h1 l1 r1"
  define l where "l = fst (pop_min L)"
  have sub: "avl L" "avl r" "height L \<le> Suc (height r)" "height r \<le> Suc (height L)"
      "height L < 2 ^ 30" "height r < 2 ^ 30" and h: "h = Suc (max (height L) (height r))"
    using 3 by (auto simp: L_def)
  have l: "avl l" "height l = height L \<or> Suc (height l) = height L"
    using "3.IH" sub within_grow [of "height l" "height L"]
    by (auto simp: L_def l_def simp del: pop_min.simps avl.simps height.simps)
  have "fst (pop_min (Node k v w s h L r)) = balance (Node k v w s h l r)"
    by (simp add: case_prod_beta l_def L_def)
  moreover have "low l" "low r" using l(2) sub(5,6) by auto
  ultimately show ?case
    using balance_shrink [OF l(1) sub(2-4), of k v w s h] l(2) h unfolding L_def [symmetric] by simp
qed auto

lemma avl_remove:
  "avl t \<Longrightarrow> height t < 2 ^ 30 \<Longrightarrow> avl (fst (rt_remove t key))
     \<and> height (fst (rt_remove t key)) \<le> height t \<and> height t \<le> Suc (height (fst (rt_remove t key)))"
proof (induction t)
  case Empty
  then show ?case by simp
next
  case (Node k v w s h l r)
  have sub: "avl l" "avl r" "height l \<le> Suc (height r)" "height r \<le> Suc (height l)"
      "height l < 2 ^ 30" "height r < 2 ^ 30" and h: "h = Suc (max (height l) (height r))"
    using Node.prems by auto
  let ?l = "fst (rt_remove l key)" and ?r = "fst (rt_remove r key)" and ?p = "fst (pop_min r)"
  have l: "avl ?l" "height ?l = height l \<or> Suc (height ?l) = height l"
    and r: "avl ?r" "height ?r = height r \<or> Suc (height ?r) = height r"
    using Node.IH sub by (auto dest: within_grow)
  have succ: "avl (balance (with_children m l ?p)) \<and> height (balance (with_children m l ?p)) \<le> h
      \<and> h \<le> Suc (height (balance (with_children m l ?p)))" if "r \<noteq> Empty" "m \<noteq> Empty" for m
  proof (cases m)
    case (Node mk mv mw ms mh ml mr)
    have p: "avl ?p" "height ?p = height r \<or> Suc (height ?p) = height r"
      using avl_pop_min [of r] sub that by (auto dest: within_grow)
    have "low ?p" using p(2) sub(6) by auto
    then show ?thesis
      using balance_shrink [OF sub(1) p(1) sub(3,4), of mk mv mw ms mh] p(2) sub(5) h by (simp add: Node)
  qed (use that in simp)
  have "snd (pop_min r) \<noteq> Empty" if "r \<noteq> Empty"
    using pop_min_inorder [OF that] by (metis prod.collapse)
  moreover have "low ?l" "low ?r" using l(2) r(2) sub(5,6) by auto
  ultimately show ?case
    using balance_shrink [OF l(1) sub(2-4), of k v w s h] balance_shrink [OF sub(1) r(1) sub(3,4), of k v w s h]
      sub(1,5,6) l(2) r(2) h succ
    by (simp add: case_prod_beta)
qed

section \<open>Queries are functions of the in-order list\<close>

text \<open>The blocks before a key, on either side of a node.\<close>

definition before :: "'k::linorder \<Rightarrow> ('k \<times> 'v \<times> meas) list \<Rightarrow> ('k \<times> 'v \<times> meas) list" where
  "before key xs = filter (\<lambda>e. fst e < key) xs"

lemma before_Node:
  assumes "ordered (Node k v w s h l r)"
  shows "before key (inorder (Node k v w s h l r)) =
    (if key < k then before key (inorder l)
     else if key = k then inorder l
     else inorder l @ (k, v, w) # before key (inorder r))"
proof -
  note ord = assms [unfolded ordered_Node]
  have "filter (\<lambda>e. fst e < key) (inorder r) = []" if "key \<le> k"
    using ord that by (force simp: filter_empty_conv)
  moreover have "filter (\<lambda>e. fst e < key) (inorder l) = inorder l" if "k \<le> key"
    using ord that by (force intro: filter_True)
  ultimately show ?thesis by (auto simp: before_def)
qed

lemma before_all: "(\<And>x. x \<in> set xs \<Longrightarrow> fst x < key) \<Longrightarrow> before key xs = xs"
  by (simp add: before_def)

lemma prefix_loop_inorder:
  "ordered t \<Longrightarrow> sums_ok t \<Longrightarrow>
     prefix_loop t key acc = plus_meas acc (weight_sum (before key (inorder t)))"
proof (induction t arbitrary: acc)
  case (Node k v w s h l r)
  note ord = Node.prems(1) [unfolded ordered_Node]
  have "before k (inorder l) = inorder l"
    using ord by (intro before_all) auto
  then show ?case
    unfolding before_Node [OF Node.prems(1)]
    using Node.IH Node.prems(2) ord by (auto simp: link_measure_sum plus_meas_assoc)
qed (simp add: before_def)

lemma rank_loop_inorder:
  "ordered t \<Longrightarrow> sums_ok t \<Longrightarrow> rank_loop t key acc =
     (if key \<in> fst ` set (inorder t)
      then Some (plus_meas acc (weight_sum (before key (inorder t)))) else None)"
proof (induction t arbitrary: acc)
  case (Node k v w s h l r)
  note ord = Node.prems(1) [unfolded ordered_Node]
  have mem: "key \<in> fst ` set (inorder (Node k v w s h l r)) \<longleftrightarrow>
      (if key < k then key \<in> fst ` set (inorder l) else if key = k then True else key \<in> fst ` set (inorder r))"
    using ord by force
  show ?case
    unfolding before_Node [OF Node.prems(1)] mem
    using Node.IH Node.prems(2) ord by (auto simp: link_measure_sum plus_meas_assoc)
qed simp

text \<open>Batched prefixes: the queries are split at each key, and every index is written once.\<close>

lemma takeWhile_sorted:
  "sorted (map fst qs) \<Longrightarrow> takeWhile (\<lambda>q. fst q \<le> k) qs = filter (\<lambda>q. fst q \<le> k) qs"
  by (induction qs) (auto simp: filter_empty_conv, metis filter_False not_less order_trans)

lemma dropWhile_sorted:
  "sorted (map fst qs) \<Longrightarrow> dropWhile (\<lambda>q. fst q \<le> k) qs = filter (\<lambda>q. k < fst q) qs"
  by (induction qs) (auto simp: not_le, metis filter_True less_le_trans)

lemma length_fold_set_at: "length (fold (\<lambda>(_, i). set_at x i) qs out) = length out"
  by (induction qs arbitrary: out) (auto simp: set_at_def)

lemma length_prefix_batch: "length (prefix_batch t qs acc out) = length out"
  by (induction t arbitrary: qs acc out) (auto simp: length_fold_set_at Let_def)

lemma nth_fold_set_at:
  "i < length out \<Longrightarrow> fold (\<lambda>(_, j). set_at x j) qs out ! i = (if i \<in> snd ` set qs then x else out ! i)"
  by (induction qs arbitrary: out) (auto simp: set_at_def nth_list_update, force)

lemma nth_prefix_batch:
  assumes "ordered t" and "sums_ok t" and "sorted (map fst qs)" and "distinct (map snd qs)"
    and "i < length out"
  shows "prefix_batch t qs acc out ! i =
    (case map_of (map prod.swap qs) i of None \<Rightarrow> out ! i | Some key \<Rightarrow> prefix_loop t key acc)"
  using assms
proof (induction t arbitrary: qs acc out)
  case Empty
  have "i \<in> snd ` set qs \<longleftrightarrow> map_of (map prod.swap qs) i \<noteq> None"
    by (force simp: map_of_eq_None_iff)
  then show ?case
    using Empty by (auto simp: nth_fold_set_at split: option.splits)
next
  case (Node k v w s h l r)
  let ?lo = "filter (\<lambda>q. fst q \<le> k) qs" and ?hi = "filter (\<lambda>q. k < fst q) qs"
  let ?acc = "plus_meas (plus_meas acc (link_measure l)) w"
  let ?out = "prefix_batch l ?lo acc out"
  have eq: "prefix_batch (Node k v w s h l r) qs acc out = prefix_batch r ?hi ?acc ?out" if "qs \<noteq> []"
  proof -
    have "take (length (takeWhile (\<lambda>q. fst q \<le> k) qs)) qs = ?lo" "drop (length (takeWhile (\<lambda>q. fst q \<le> k) qs)) qs = ?hi"
      using takeWhile_sorted [OF Node.prems(3), of k] dropWhile_sorted [OF Node.prems(3), of k]
      by (metis takeWhile_eq_take) (metis \<open>dropWhile _ _ = _\<close> dropWhile_eq_drop)
    then show ?thesis using that by (simp only: prefix_batch.simps Let_def if_False)
  qed
  have split: "sorted (map fst ?lo)" "sorted (map fst ?hi)" "distinct (map snd ?lo)" "distinct (map snd ?hi)"
    using Node.prems(3,4) by (auto simp: sorted_filter distinct_map_filter)
  have sub: "ordered l" "sums_ok l" "ordered r" "sums_ok r"
    using Node.prems(1,2) by (auto simp: sorted_wrt_append)
  have mem: "map_of (map prod.swap xs) i = Some key \<longleftrightarrow> (key, i) \<in> set xs" if "distinct (map snd xs)" for xs key
    using that by (subst map_of_eq_Some_iff) (force simp: comp_def)+
  have IH: "prefix_batch r ?hi ?acc ?out ! i =
      (case map_of (map prod.swap ?hi) i of None \<Rightarrow> ?out ! i | Some key \<Rightarrow> prefix_loop r key ?acc)"
      "?out ! i = (case map_of (map prod.swap ?lo) i of None \<Rightarrow> out ! i | Some key \<Rightarrow> prefix_loop l key acc)"
    using Node.IH sub split Node.prems(5) by (simp_all add: length_prefix_batch)
  show ?case
  proof (cases "qs = []")
    case False
    show ?thesis
    proof (cases "map_of (map prod.swap qs) i")
      case None
      then have "map_of (map prod.swap ?lo) i = None" "map_of (map prod.swap ?hi) i = None"
        by (force simp: map_of_eq_None_iff)+
      then show ?thesis unfolding eq [OF False] IH None by simp
    next
      case (Some key)
      have at: "(key', i) \<in> set qs \<longleftrightarrow> key' = key" for key'
        using mem [OF Node.prems(4)] Some by (metis option.inject)
      have lo: "map_of (map prod.swap ?lo) i = (if key \<le> k then Some key else None)"
        using mem [OF split(3)] at
        by (cases "map_of (map prod.swap ?lo) i") (auto simp del: map_of_eq_None_iff)
      have hi: "map_of (map prod.swap ?hi) i = (if key \<le> k then None else Some key)"
        using mem [OF split(4)] at
        by (cases "map_of (map prod.swap ?hi) i") (force simp: not_le simp del: map_of_eq_None_iff)+
      show ?thesis unfolding eq [OF False] IH lo hi Some by simp
    qed
  qed simp
qed

lemma rt_prefixes_eq:
  assumes "ordered t" and "sums_ok t"
    and "mset (srt (zip ks [0..<length ks])) = mset (zip ks [0..<length ks])"
    and "sorted (map fst (srt (zip ks [0..<length ks])))"
  shows "rt_prefixes srt t ks = map (rt_prefix t) ks"
proof (rule nth_equalityI)
  let ?qs = "srt (zip ks [0..<length ks])"
  show len: "length (rt_prefixes srt t ks) = length (map (rt_prefix t) ks)"
    by (simp add: rt_prefixes_def length_prefix_batch)
  fix i
  assume "i < length (rt_prefixes srt t ks)"
  then have i: "i < length ks" using len by simp
  have set: "set ?qs = set (zip ks [0..<length ks])"
    using assms(3) by (rule mset_eq_setD)
  have "mset (map snd ?qs) = mset (map snd (zip ks [0..<length ks]))"
    by (metis assms(3) mset_map)
  then have dist: "distinct (map snd ?qs)"
    by (metis distinct_upt length_map map_nth map_snd_zip mset_eq_imp_distinct_iff)
  have "(ks ! i, i) \<in> set ?qs"
    unfolding set using i by (force simp: set_zip)
  then have "map_of (map prod.swap ?qs) i = Some (ks ! i)"
    using dist by (intro map_of_is_SomeI) (force simp: comp_def)+
  then show "rt_prefixes srt t ks ! i = map (rt_prefix t) ks ! i"
    using nth_prefix_batch [OF assms(1,2,4) dist, of i "replicate (length ks) meas_zero" meas_zero] i
    by (simp add: rt_prefixes_def rt_prefix_def)
qed

text \<open>Selection over the list: the first block whose running total passes the offset.\<close>

fun select_list :: "('k \<times> 'v \<times> meas) list \<Rightarrow> u64 \<Rightarrow> axis \<Rightarrow> meas \<Rightarrow> ('k \<times> 'v \<times> meas) option" where
  "select_list [] offset ax acc = None"
| "select_list ((k, v, w) # xs) offset ax acc =
     (if offset < along (plus_meas acc w) ax then Some (k, v, acc)
      else select_list xs offset ax (plus_meas acc w))"

lemma select_list_append:
  "\<not> offset < along acc ax \<Longrightarrow> select_list (xs @ ys) offset ax acc =
     (if offset < along (plus_meas acc (weight_sum xs)) ax then select_list xs offset ax acc
      else select_list ys offset ax (plus_meas acc (weight_sum xs)))"
proof (induction xs arbitrary: acc)
  case (Cons x xs)
  obtain k v w where x: "x = (k, v, w)" by (cases x)
  show ?case
  proof (cases "offset < along (plus_meas acc w) ax")
    case True
    then have "offset < along (plus_meas (plus_meas acc w) (weight_sum xs)) ax"
      using along_mono by (meson less_le_trans)
    then show ?thesis using True by (simp add: x plus_meas_assoc)
  next
    case False
    then show ?thesis using Cons.IH [OF False] by (simp add: x plus_meas_assoc)
  qed
qed simp

lemma select_loop_inorder:
  "sums_ok t \<Longrightarrow> \<not> offset < along acc ax \<Longrightarrow> select_loop t offset ax acc = select_list (inorder t) offset ax acc"
proof (induction t arbitrary: acc)
  case (Node k v w s h l r)
  have l: "link_measure l = weight_sum (inorder l)" using Node.prems(1) by (simp add: link_measure_sum)
  show ?case
    using Node.IH Node.prems by (simp add: select_list_append l Let_def)
qed simp

lemma select_list_Some:
  "select_list xs offset ax acc = Some (k, v, start) \<Longrightarrow> \<not> offset < along acc ax \<Longrightarrow>
     \<exists>pre w post. xs = pre @ (k, v, w) # post \<and> start = plus_meas acc (weight_sum pre)
       \<and> along start ax \<le> offset \<and> offset < along (plus_meas start w) ax"
proof (induction xs arbitrary: acc)
  case (Cons x xs)
  obtain k1 v1 w1 where x: "x = (k1, v1, w1)" by (cases x)
  show ?case
  proof (cases "offset < along (plus_meas acc w1) ax")
    case True
    then show ?thesis using Cons.prems by (intro exI [of _ "[]"]) (auto simp: x)
  next
    case False
    then obtain pre w post where "xs = pre @ (k, v, w) # post"
        "start = plus_meas (plus_meas acc w1) (weight_sum pre)"
        "along start ax \<le> offset" "offset < along (plus_meas start w) ax"
      using Cons.IH [of "plus_meas acc w1"] Cons.prems by (auto simp: x)
    then show ?thesis
      by (intro exI [of _ "x # pre"] exI [of _ w] exI [of _ post]) (simp add: x plus_meas_assoc)
  qed
qed simp

lemma select_list_None:
  "\<not> offset < along acc ax \<Longrightarrow>
     select_list xs offset ax acc = None \<longleftrightarrow> along (plus_meas acc (weight_sum xs)) ax \<le> offset"
proof (induction xs arbitrary: acc)
  case (Cons x xs)
  obtain k v w where x: "x = (k, v, w)" by (cases x)
  show ?case
  proof (cases "offset < along (plus_meas acc w) ax")
    case True
    then have "offset < along (plus_meas (plus_meas acc w) (weight_sum xs)) ax"
      using along_mono by (meson less_le_trans)
    then show ?thesis using True by (simp add: x plus_meas_assoc not_le)
  next
    case False
    then show ?thesis using Cons.IH [OF False] by (simp add: x plus_meas_assoc)
  qed
qed simp

lemma not_before_zero: "\<not> offset < along meas_zero ax"
  by (cases ax) (simp_all add: along_def meas_zero_def)

text \<open>Traversal and bounds.\<close>

fun node_rest :: "('k, 'v) link \<Rightarrow> ('k \<times> 'v) list" where
  "node_rest Empty = []"
| "node_rest (Node k v w s h l r) = (k, v) # rt_entries r"

lemma iter_loop_inorder: "iter_loop stack t = rt_entries t @ concat (map node_rest stack)"
  by (induction stack t rule: iter_loop.induct) (auto simp: rt_entries_def)

lemma rt_iter_entries: "rt_iter t = rt_entries t"
  by (simp add: rt_iter_def iter_loop_inorder)

lemma accepts_up: "accepts False b k \<Longrightarrow> k \<le> k' \<Longrightarrow> accepts False b k'"
  by (auto simp: accepts_def split: bound.splits)

lemma accepts_down: "accepts True b k \<Longrightarrow> k' \<le> k \<Longrightarrow> accepts True b k'"
  by (auto simp: accepts_def split: bound.splits)

lemma find_append: "find P (xs @ ys) = (case find P xs of None \<Rightarrow> find P ys | Some x \<Rightarrow> Some x)"
  by (induction xs) auto

lemma find_none: "(\<And>x. x \<in> set xs \<Longrightarrow> \<not> P x) \<Longrightarrow> find P xs = None"
  by (simp add: find_None_iff)

lemma entries_Node: "rt_entries (Node k v w s h l r) = rt_entries l @ (k, v) # rt_entries r"
  by (simp add: rt_entries_def)

lemma keys_entries_inorder: "map fst (rt_entries t) = map fst (inorder t)"
  by (simp add: rt_entries_def comp_def case_prod_beta)

lemma ordered_entries:
  "ordered (Node k v w s h l r) \<longleftrightarrow> ordered l \<and> ordered r
     \<and> (\<forall>x\<in>set (rt_entries l). fst x < k) \<and> (\<forall>x\<in>set (rt_entries r). k < fst x)"
  unfolding ordered_Node by (simp add: rt_entries_def case_prod_beta)

lemma bound_loop_forward:
  "ordered t \<Longrightarrow> bound_loop t b False result =
     (case find (\<lambda>e. accepts False b (fst e)) (rt_entries t) of None \<Rightarrow> result | Some e \<Rightarrow> Some e)"
proof (induction t arbitrary: result)
  case (Node k v w s h l r)
  note ord = Node.prems [unfolded ordered_entries]
  have "find (\<lambda>e. accepts False b (fst e)) (rt_entries l) = None" if "\<not> accepts False b k"
    using ord that by (intro find_none) (meson accepts_up less_imp_le)
  then show ?case
    using Node.IH ord by (auto simp: entries_Node find_append split: option.splits)
qed (simp add: rt_entries_def)

lemma bound_loop_backward:
  "ordered t \<Longrightarrow> bound_loop t b True result =
     (case find (\<lambda>e. accepts True b (fst e)) (rev (rt_entries t)) of None \<Rightarrow> result | Some e \<Rightarrow> Some e)"
proof (induction t arbitrary: result)
  case (Node k v w s h l r)
  note ord = Node.prems [unfolded ordered_entries]
  have "find (\<lambda>e. accepts True b (fst e)) (rev (rt_entries r)) = None" if "\<not> accepts True b k"
    using ord that by (intro find_none) (metis accepts_down less_imp_le set_rev)
  then show ?case
    using Node.IH ord by (auto simp: entries_Node find_append split: option.splits)
qed (simp add: rt_entries_def)

lemma rt_bound_entries:
  "ordered t \<Longrightarrow> rt_bound t b rv =
     find (\<lambda>e. accepts rv b (fst e)) (if rv then rev (rt_entries t) else rt_entries t)"
  by (cases rv) (auto simp: rt_bound_def bound_loop_forward bound_loop_backward split: option.splits)

lemma avl_height_bound:
  assumes "avl t" and "length (inorder t) < 2 ^ 64"
  shows "height t < 2 ^ 30"
proof (rule ccontr)
  assume "\<not> height t < 2 ^ 30"
  then have "(2::nat) ^ 65 \<le> 2 ^ (height t div 2)"
    by (intro power_increasing) auto
  also have "\<dots> \<le> Suc (length (inorder t))" by (rule avl_size [OF assms(1)])
  also have "\<dots> \<le> 2 ^ 64" using assms(2) by simp
  finally show False by simp
qed

section \<open>Properties\<close>

text \<open>
  C15. Edits and lookups of the tree are those of an ordered map on its in-order list of keys
  with value and weight: insertion replaces or adds in order and returns the old value, removal
  deletes the key and returns it, and the key order is an invariant of both.
\<close>

theorem rank_tree_refines_map:
  assumes "ordered t"
  shows "inorder (fst (rt_insert t key v w)) = bm_insert key (v, w) (inorder t)
    \<and> snd (rt_insert t key v w) = map_option fst (map_of (inorder t) key)
    \<and> inorder (fst (rt_remove t key)) = bm_remove key (inorder t)
    \<and> snd (rt_remove t key) = map_option fst (map_of (inorder t) key)
    \<and> rt_get t key = map_option fst (map_of (inorder t) key)
    \<and> rt_iter t = map (\<lambda>(k, v, w). (k, v)) (inorder t)
    \<and> ordered (fst (rt_insert t key v w)) \<and> ordered (fst (rt_remove t key))"
  using assms
  by (simp add: inorder_insert inorder_remove insert_previous remove_previous get_inorder
      rt_iter_entries rt_entries_def bm_wf_insert bm_wf_remove)

theorem rank_tree_refines_map_witness:
  "inorder (fst (rt_insert (fst (rt_insert Empty (2::nat) ''b'' meas_zero)) 1 ''a'' meas_zero))
     = [(1, ''a'', meas_zero), (2, ''b'', meas_zero)]"
proof -
  let ?t = "fst (rt_insert Empty (2::nat) ''b'' meas_zero)"
  have "ordered ?t" by simp
  from rank_tree_refines_map [OF this, of 1 "''a''" meas_zero] show ?thesis by simp
qed

text \<open>
  C23. Every edit keeps the tree height balanced, with the stored heights exact: below
  \<open>2 ^ 64\<close> keys the saturating height counter never saturates, and the height is
  logarithmic, \<open>2 ^ (height div 2) \<le> keys + 1\<close>.
\<close>

theorem rank_tree_balanced:
  assumes "avl t" and "length (inorder t) < 2 ^ 64"
  shows "avl (fst (rt_insert t key v w)) \<and> avl (fst (rt_remove t key))
    \<and> 2 ^ (height t div 2) \<le> length (inorder t) + 1 \<and> height t \<le> 129"
proof -
  note low = avl_height_bound [OF assms]
  have size: "2 ^ (height t div 2) \<le> length (inorder t) + 1"
    using avl_size [OF assms(1)] by simp
  then have "(2::nat) ^ (height t div 2) \<le> 2 ^ 64"
    using assms(2) by linarith
  then have "height t div 2 \<le> 64"
    by (rule power_le_imp_le_exp [rotated]) simp
  then show ?thesis
    using avl_insert [OF assms(1) low] avl_remove [OF assms(1) low] size by auto
qed

theorem rank_tree_balanced_witness:
  "avl (fst (rt_remove (fst (rt_insert (Empty :: (nat, string) link) 2 ''b'' meas_zero)) 2))"
proof -
  have "avl (fst (rt_insert (Empty :: (nat, string) link) 2 ''b'' meas_zero))"
    "length (inorder (fst (rt_insert (Empty :: (nat, string) link) 2 ''b'' meas_zero))) < 2 ^ 64"
    by simp_all
  from rank_tree_balanced [OF this] show ?thesis by simp
qed

text \<open>
  The rank queries are exact: the stored total is the saturating sum of all weights,
  \<open>prefix\<close> and \<open>rank\<close> are the total of the blocks before a key, and the batched
  \<open>prefixes\<close> returns, for any order the unstable sort leaves equal keys in, what a
  separate \<open>prefix\<close> of each key returns in the order given. The sums stay exact under
  edits.
\<close>

theorem rank_tree_prefixes:
  assumes "ordered t" and "sums_ok t"
    and "mset (srt (zip ks [0..<length ks])) = mset (zip ks [0..<length ks])"
    and "sorted (map fst (srt (zip ks [0..<length ks])))"
  shows "link_measure t = weight_sum (inorder t)
    \<and> rt_prefix t key = weight_sum (filter (\<lambda>e. fst e < key) (inorder t))
    \<and> rt_rank t key = (if key \<in> fst ` set (inorder t)
        then Some (weight_sum (filter (\<lambda>e. fst e < key) (inorder t))) else None)
    \<and> rt_prefixes srt t ks = map (\<lambda>k. weight_sum (filter (\<lambda>e. fst e < k) (inorder t))) ks
    \<and> sums_ok (fst (rt_insert t key v w)) \<and> sums_ok (fst (rt_remove t key))"
  using assms(1,2) rt_prefixes_eq [OF assms(1,2), of srt ks] assms(3,4)
  by (simp add: link_measure_sum rt_prefix_def prefix_loop_inorder rt_rank_def rank_loop_inorder
      before_def sums_ok_insert sums_ok_remove)

theorem rank_tree_prefixes_witness:
  "rt_prefixes (sort_key fst) (fst (rt_insert Empty (2::nat) ''b'' (Measure 3 1))) [9, 2, 5]
     = [Measure 3 1, meas_zero, Measure 3 1]"
proof -
  let ?t = "fst (rt_insert Empty (2::nat) ''b'' (Measure 3 1))"
  have "ordered ?t" "sums_ok ?t" by simp_all
  from rank_tree_prefixes [OF this, of "sort_key fst" "[9, 2, 5]"] show ?thesis by simp
qed

text \<open>
  \<open>select\<close> finds the block that covers an offset on either axis, together with the
  prefix totals before it, and finds none exactly when the offset is at or past the total.
\<close>

theorem rank_tree_select:
  assumes "sums_ok t"
  shows "case rt_select t offset ax of
      None \<Rightarrow> along (weight_sum (inorder t)) ax \<le> offset
    | Some (k, v, start) \<Rightarrow> \<exists>pre w post. inorder t = pre @ (k, v, w) # post
        \<and> start = weight_sum pre \<and> along start ax \<le> offset \<and> offset < along (plus_meas start w) ax"
proof -
  have sel: "rt_select t offset ax = select_list (inorder t) offset ax meas_zero"
    using assms by (simp add: rt_select_def select_loop_inorder not_before_zero)
  show ?thesis
  proof (cases "rt_select t offset ax")
    case None
    then show ?thesis
      using select_list_None [OF not_before_zero, where offset = offset and ax = ax and xs = "inorder t"] by (simp add: sel)
  next
    case (Some x)
    then show ?thesis
      using select_list_Some [OF _ not_before_zero, where offset = offset and ax = ax and xs = "inorder t"] by (auto simp: sel)
  qed
qed

theorem rank_tree_select_witness:
  "rt_select (fst (rt_insert Empty (2::nat) ''b'' (Measure 3 1))) 2 Expanded = Some (2, ''b'', meas_zero)
   \<and> along (weight_sum (inorder (fst (rt_insert Empty (2::nat) ''b'' (Measure 3 1))))) Expanded \<le> 3"
proof -
  let ?t = "fst (rt_insert Empty (2::nat) ''b'' (Measure 3 1))"
  have ok: "sums_ok ?t" by simp
  have "rt_select ?t 2 Expanded = Some (2, ''b'', meas_zero)" "rt_select ?t 3 Expanded = None"
    by (simp_all add: rt_select_def along_def plus_meas_def meas_zero_def)
  then show ?thesis using rank_tree_select [OF ok, where offset = 3 and ax = Expanded] by simp
qed

end
