(* ===== verification/Ordered.thy ===== *)
theory Ordered
  imports RankTree
begin

text \<open>
  The ordered index adapters over the rank tree
  (\<open>editchain-index-pages/src/ordered.rs\<close>): \<open>OrderedMap\<close>, its range cursor and
  \<open>OrderedSet\<close>. A map is a rank tree whose blocks all weigh one. The map interprets
  \<open>ordered_map_spec\<close>, and the range cursor refines a double-ended queue of the entries
  within its bounds.
\<close>

section \<open>The map\<close>

type_synonym ('k, 'v) ordered_map = "('k, 'v) link"

definition om_new :: "('k, 'v) ordered_map" where
  "om_new = Empty"

text \<open>On 64-bit targets \<open>usize::try_from\<close> of the \<open>u64\<close> count always succeeds.\<close>

definition om_len :: "('k, 'v) ordered_map \<Rightarrow> nat" where
  "om_len m = unat (expanded (link_measure m))"

definition om_is_empty :: "('k, 'v) ordered_map \<Rightarrow> bool" where
  "om_is_empty m \<longleftrightarrow> om_len m = 0"

definition om_count_before :: "('k::linorder, 'v) ordered_map \<Rightarrow> 'k \<Rightarrow> u64" where
  "om_count_before m key = expanded (rt_prefix m key)"

definition om_get :: "('k::linorder, 'v) ordered_map \<Rightarrow> 'k \<Rightarrow> 'v option" where
  "om_get m key = rt_get m key"

definition om_contains_key :: "('k::linorder, 'v) ordered_map \<Rightarrow> 'k \<Rightarrow> bool" where
  "om_contains_key m key \<longleftrightarrow> om_get m key \<noteq> None"

definition om_insert :: "'k::linorder \<Rightarrow> 'v \<Rightarrow> ('k, 'v) ordered_map \<Rightarrow> ('k, 'v) ordered_map \<times> 'v option" where
  "om_insert key v m = rt_insert m key v (Measure 1 1)"

definition om_remove :: "'k::linorder \<Rightarrow> ('k, 'v) ordered_map \<Rightarrow> ('k, 'v) ordered_map \<times> 'v option" where
  "om_remove key m = rt_remove m key"

definition om_first_key_value :: "('k::linorder, 'v) ordered_map \<Rightarrow> ('k \<times> 'v) option" where
  "om_first_key_value m = rt_bound m Unbounded False"

definition om_last_key_value :: "('k::linorder, 'v) ordered_map \<Rightarrow> ('k \<times> 'v) option" where
  "om_last_key_value m = rt_bound m Unbounded True"

text \<open>
  \<open>entry(key).or_insert_with(make)\<close>, with the client's update \<open>f\<close> of the slot it
  returns.
\<close>

definition om_or_insert_with ::
  "'k::linorder \<Rightarrow> 'v \<Rightarrow> ('v \<Rightarrow> 'v) \<Rightarrow> ('k, 'v) ordered_map \<Rightarrow> ('k, 'v) ordered_map" where
  "om_or_insert_with key make f m =
     (let m' = (if \<not> om_contains_key m key then fst (om_insert key make m) else m)
      in rt_get_mut m' key f)"

section \<open>The range cursor\<close>

record ('k, 'v) range =
  rg_tree :: "('k, 'v) link"
  rg_start :: "'k bound"
  rg_end :: "'k bound"

definition below :: "'k::linorder \<Rightarrow> 'k bound \<Rightarrow> bool" where
  "below key b = (case b of Unbounded \<Rightarrow> True | Included e \<Rightarrow> key \<le> e | Excluded e \<Rightarrow> key < e)"

definition om_range :: "('k, 'v) ordered_map \<Rightarrow> 'k bound \<Rightarrow> 'k bound \<Rightarrow> ('k, 'v) range" where
  "om_range m s e = \<lparr>rg_tree = m, rg_start = s, rg_end = e\<rparr>"

definition range_next :: "('k::linorder, 'v) range \<Rightarrow> ('k \<times> 'v) option \<times> ('k, 'v) range" where
  "range_next r =
     (case rt_bound (rg_tree r) (rg_start r) False of
        None \<Rightarrow> (None, r)
      | Some pair \<Rightarrow>
          if \<not> below (fst pair) (rg_end r) then (None, r)
          else (Some pair, r\<lparr>rg_start := Excluded (fst pair)\<rparr>))"

definition range_next_back :: "('k::linorder, 'v) range \<Rightarrow> ('k \<times> 'v) option \<times> ('k, 'v) range" where
  "range_next_back r =
     (case rt_bound (rg_tree r) (rg_end r) True of
        None \<Rightarrow> (None, r)
      | Some pair \<Rightarrow>
          if \<not> (case rg_start r of Unbounded \<Rightarrow> True | Included k \<Rightarrow> k \<le> fst pair | Excluded k \<Rightarrow> k < fst pair)
          then (None, r)
          else (Some pair, r\<lparr>rg_end := Excluded (fst pair)\<rparr>))"

lemma bound_loop_mem:
  "bound_loop t b rv result = Some e \<Longrightarrow>
     result = Some e \<or> e \<in> set (rt_entries t) \<and> accepts rv b (fst e)"
proof (induction t arbitrary: result)
  case (Node k v w s h l r)
  let ?result = "if accepts rv b k then Some (k, v) else result"
  have "?result = Some e \<or> (e \<in> set (rt_entries l) \<or> e \<in> set (rt_entries r)) \<and> accepts rv b (fst e)"
    using Node.prems Node.IH [of ?result] unfolding bound_loop.simps by (metis (full_types))
  then show ?case by (auto simp: entries_Node split: if_splits)
qed simp

lemma rt_bound_mem: "rt_bound t b rv = Some e \<Longrightarrow> e \<in> set (rt_entries t) \<and> accepts rv b (fst e)"
  using bound_loop_mem [of t b rv None e] by (simp add: rt_bound_def)

text \<open>Draining the cursor forwards; each step strictly shrinks the keys at or past the start.\<close>

definition ahead :: "('k::linorder, 'v) range \<Rightarrow> 'k set" where
  "ahead r = {k \<in> fst ` set (rt_entries (rg_tree r)). accepts False (rg_start r) k}"

lemma ahead_next:
  assumes "range_next r = (Some e, r')"
  shows "card (ahead r') < card (ahead r)"
proof -
  have e: "rt_bound (rg_tree r) (rg_start r) False = Some e" and r': "r' = r\<lparr>rg_start := Excluded (fst e)\<rparr>"
    using assms by (auto simp: range_next_def split: option.splits if_splits)
  have acc: "fst e \<in> ahead r"
    using rt_bound_mem [OF e] by (auto simp: ahead_def)
  have "ahead r' \<subseteq> ahead r - {fst e}"
    using acc accepts_up [of "rg_start r" "fst e"]
    by (auto simp: ahead_def r' accepts_def [of False "Excluded _"])
  then have "ahead r' \<subset> ahead r" using acc by blast
  moreover have "finite (ahead r)" by (simp add: ahead_def)
  ultimately show ?thesis by (simp add: psubset_card_mono)
qed

function range_collect :: "('k::linorder, 'v) range \<Rightarrow> ('k \<times> 'v) list" where
  "range_collect r = (case range_next r of (None, _) \<Rightarrow> [] | (Some e, r') \<Rightarrow> e # range_collect r')"
  by pat_completeness auto
termination
  by (relation "measure (\<lambda>r. card (ahead r))") (auto dest: ahead_next [OF sym])

declare range_collect.simps [simp del]

definition om_iter :: "('k::linorder, 'v) ordered_map \<Rightarrow> ('k \<times> 'v) list" where
  "om_iter m = range_collect (om_range m Unbounded Unbounded)"

section \<open>The set\<close>

type_synonym 'k ordered_set = "('k, unit) ordered_map"

definition os_len :: "'k ordered_set \<Rightarrow> nat" where
  "os_len s = om_len s"

definition os_insert :: "'k::linorder \<Rightarrow> 'k ordered_set \<Rightarrow> 'k ordered_set \<times> bool" where
  "os_insert key s = (case om_insert key () s of (s', old) \<Rightarrow> (s', old = None))"

definition os_remove :: "'k::linorder \<Rightarrow> 'k ordered_set \<Rightarrow> 'k ordered_set \<times> bool" where
  "os_remove key s = (case om_remove key s of (s', old) \<Rightarrow> (s', old \<noteq> None))"

definition os_contains :: "'k::linorder ordered_set \<Rightarrow> 'k \<Rightarrow> bool" where
  "os_contains s key \<longleftrightarrow> om_contains_key s key"

definition os_first :: "'k::linorder ordered_set \<Rightarrow> 'k option" where
  "os_first s = map_option fst (om_first_key_value s)"

definition os_last :: "'k::linorder ordered_set \<Rightarrow> 'k option" where
  "os_last s = map_option fst (om_last_key_value s)"

definition os_iter :: "'k::linorder ordered_set \<Rightarrow> 'k list" where
  "os_iter s = map fst (om_iter s)"

definition os_range :: "'k::linorder ordered_set \<Rightarrow> 'k bound \<Rightarrow> 'k bound \<Rightarrow> 'k list" where
  "os_range s a b = map fst (range_collect (om_range s a b))"

definition os_extend :: "'k::linorder list \<Rightarrow> 'k ordered_set \<Rightarrow> 'k ordered_set" where
  "os_extend ks s = fold (\<lambda>k s. fst (os_insert k s)) ks s"

definition os_from_iter :: "'k::linorder list \<Rightarrow> 'k ordered_set" where
  "os_from_iter ks = os_extend ks om_new"

definition os_split_off :: "'k::linorder \<Rightarrow> 'k ordered_set \<Rightarrow> 'k ordered_set \<times> 'k ordered_set" where
  "os_split_off at s =
     (let ks = os_range s (Included at) Unbounded
      in (fold (\<lambda>k s. fst (os_remove k s)) ks s, os_from_iter ks))"

section \<open>The invariant and the refinement of the map\<close>

definition unit_weights :: "('k, 'v) ordered_map \<Rightarrow> bool" where
  "unit_weights m \<longleftrightarrow> (\<forall>(k, v, w) \<in> set (inorder m). w = Measure 1 1)"

definition om_inv :: "('k::linorder, 'v) ordered_map \<Rightarrow> bool" where
  "om_inv m \<longleftrightarrow> ordered m \<and> sums_ok m \<and> unit_weights m"

lemma om_inv_new: "om_inv om_new"
  by (simp add: om_inv_def om_new_def unit_weights_def)

lemma om_inv_insert: "om_inv m \<Longrightarrow> om_inv (fst (om_insert k v m))"
  using set_bm_insert_subset [of k "(v, Measure 1 1)" "inorder m"]
  by (auto simp: om_inv_def om_insert_def inorder_insert bm_wf_insert sums_ok_insert unit_weights_def)

lemma set_bm_remove: "set (bm_remove k m) = {e \<in> set m. fst e \<noteq> k}"
  by (simp add: bm_remove_def)

lemma om_inv_remove: "om_inv m \<Longrightarrow> om_inv (fst (om_remove k m))"
  by (auto simp: om_inv_def om_remove_def inorder_remove bm_wf_remove sums_ok_remove unit_weights_def
      set_bm_remove)

lemma map_of_rt_entries: "map_of (rt_entries m) = (\<lambda>k. map_option fst (map_of (inorder m) k))"
proof -
  have "map_of (map (\<lambda>(k, v, w). (k, v)) xs) = (\<lambda>k. map_option fst (map_of xs k))"
    for xs :: "('a \<times> 'b \<times> meas) list"
    by (induction xs) auto
  then show ?thesis by (simp add: rt_entries_def)
qed

lemma om_get_entries: "om_inv m \<Longrightarrow> om_get m = map_of (rt_entries m)"
  by (simp add: om_inv_def om_get_def map_of_rt_entries get_inorder fun_eq_iff)

lemma om_get_insert: "om_inv m \<Longrightarrow> om_get (fst (om_insert k v m)) = (om_get m)(k \<mapsto> v)"
  by (simp add: om_get_entries om_inv_insert map_of_rt_entries)
     (simp add: om_inv_def om_insert_def inorder_insert fun_eq_iff)

lemma om_get_remove: "om_inv m \<Longrightarrow> om_get (fst (om_remove k m)) = (om_get m)(k := None)"
  by (simp add: om_get_entries om_inv_remove map_of_rt_entries)
     (simp add: om_inv_def om_remove_def inorder_remove fun_eq_iff)

interpretation om: ordered_map_spec om_new om_get "\<lambda>k v m. fst (om_insert k v m)"
    "\<lambda>k m. fst (om_remove k m)" om_inv rt_entries
proof unfold_locales
  show "om_get om_new = Map.empty"
    by (simp add: om_get_def om_new_def fun_eq_iff)
  show "increasing (map fst (rt_entries m))" if "om_inv m" for m
    using that by (simp add: om_inv_def keys_entries_inorder)
qed (auto intro: om_inv_new om_inv_insert om_inv_remove
      simp: om_get_insert om_get_remove simp flip: om_get_entries)

lemma unit_weight_sum:
  "\<forall>(k, v, w) \<in> set xs. w = Measure 1 1 \<Longrightarrow> unat (expanded (weight_sum xs)) = min (umax 64) (length xs)"
proof (induction xs)
  case Nil
  then show ?case by (simp add: meas_zero_def)
next
  case (Cons x xs)
  then show ?case by (cases x) (simp add: plus_meas_def unat_usat_add)
qed

lemma om_len_entries: "om_inv m \<Longrightarrow> om_len m = min (umax 64) (length (rt_entries m))"
  by (simp add: om_inv_def om_len_def link_measure_sum unit_weights_def unit_weight_sum rt_entries_def)

lemma om_count_before_entries:
  assumes "om_inv m"
  shows "unat (om_count_before m key) = min (umax 64) (length (filter (\<lambda>e. fst e < key) (rt_entries m)))"
proof -
  have "unat (expanded (weight_sum (before key (inorder m)))) = min (umax 64) (length (before key (inorder m)))"
    using assms by (intro unit_weight_sum) (auto simp: om_inv_def unit_weights_def before_def)
  moreover have "length (before key (inorder m)) = length (filter (\<lambda>e. fst e < key) (rt_entries m))"
    by (simp add: before_def rt_entries_def filter_map comp_def case_prod_beta)
  ultimately show ?thesis
    using assms by (simp add: om_count_before_def rt_prefix_def om_inv_def prefix_loop_inorder)
qed

section \<open>The cursor is a deque\<close>

text \<open>The entries a cursor has still to yield.\<close>

definition range_remaining :: "('k::linorder, 'v) range \<Rightarrow> ('k \<times> 'v) list" where
  "range_remaining r = filter (\<lambda>e. accepts False (rg_start r) (fst e) \<and> below (fst e) (rg_end r))
     (rt_entries (rg_tree r))"

lemma accepts_below: "accepts True b k \<longleftrightarrow> below k b"
  by (simp add: accepts_def below_def split: bound.splits)

lemma find_hd_filter: "find P xs = (case filter P xs of [] \<Rightarrow> None | x # _ \<Rightarrow> Some x)"
  by (induction xs) auto

lemma accepts_trans: "accepts False b k \<Longrightarrow> k < k' \<Longrightarrow> accepts False b k'"
  using accepts_up [of b k k'] by simp

lemma below_trans: "below k b \<Longrightarrow> k' < k \<Longrightarrow> below k' b"
  using accepts_down [of b k k'] by (simp add: accepts_below)

lemma increasing_filter_keys: "increasing (map fst xs) \<Longrightarrow> increasing (map fst (filter P xs))"
  by (induction xs) auto

text \<open>The first accepted entry of an ordered list and what follows it.\<close>

lemma filter_split_first:
  assumes "increasing (map fst xs)" and "filter (\<lambda>e. accepts False b (fst e)) xs = p # ps"
  shows "filter (\<lambda>e. fst p < fst e) xs = ps"
proof -
  have acc: "accepts False b (fst p)"
    using filter_eq_ConsD [OF assms(2)] by auto
  have "increasing (map fst (p # ps))"
    using increasing_filter_keys [OF assms(1)] assms(2) by metis
  then have "filter (\<lambda>e. fst p < fst e) (p # ps) = ps"
    by (auto intro!: filter_True)
  moreover have "filter (\<lambda>e. fst p < fst e) (filter (\<lambda>e. accepts False b (fst e)) xs) = filter (\<lambda>e. fst p < fst e) xs"
    using accepts_trans [OF acc] by (auto intro!: filter_cong)
  ultimately show ?thesis using assms(2) by simp
qed

lemma range_next_remaining:
  assumes "ordered (rg_tree r)"
  shows "case range_next r of
      (None, r') \<Rightarrow> r' = r \<and> range_remaining r = []
    | (Some e, r') \<Rightarrow> range_remaining r = e # range_remaining r' \<and> rg_tree r' = rg_tree r"
proof -
  let ?xs = "rt_entries (rg_tree r)" and ?acc = "\<lambda>e. accepts False (rg_start r) (fst e)"
  have inc: "increasing (map fst ?xs)" using assms by (simp add: keys_entries_inorder)
  have bd: "rt_bound (rg_tree r) (rg_start r) False = find ?acc ?xs"
    using rt_bound_entries [OF assms] by simp
  have rem: "range_remaining r = filter (\<lambda>e. below (fst e) (rg_end r)) (filter ?acc ?xs)"
    by (simp add: range_remaining_def conj_commute)
  show ?thesis
  proof (cases "filter ?acc ?xs")
    case Nil
    then show ?thesis by (simp add: range_next_def bd find_hd_filter rem)
  next
    case (Cons p ps)
    note rest = filter_split_first [OF inc Cons]
    have after: "range_remaining (r\<lparr>rg_start := Excluded (fst p)\<rparr>) = filter (\<lambda>e. below (fst e) (rg_end r)) ps"
      by (simp add: range_remaining_def accepts_def conj_commute flip: rest)
    have "\<forall>e\<in>set ps. fst p < fst e" by (simp flip: rest)
    then have "filter (\<lambda>e. below (fst e) (rg_end r)) ps = []" if "\<not> below (fst p) (rg_end r)"
      using that below_trans by (force simp: filter_empty_conv)
    then show ?thesis
      using after by (simp add: range_next_def bd find_hd_filter rem Cons)
  qed
qed

lemma filter_split_last:
  assumes "increasing (map fst xs)" and "rev (filter (\<lambda>e. below (fst e) b) xs) = p # ps"
  shows "filter (\<lambda>e. fst e < fst p) xs = rev ps"
proof -
  have bs: "filter (\<lambda>e. below (fst e) b) xs = rev ps @ [p]"
    using assms(2) by (metis rev.simps(2) rev_rev_ident)
  have "p \<in> set (filter (\<lambda>e. below (fst e) b) xs)" by (simp add: bs)
  then have bel: "below (fst p) b" by simp
  have "increasing (map fst (rev ps @ [p]))"
    using increasing_filter_keys [OF assms(1)] bs by metis
  then have "filter (\<lambda>e. fst e < fst p) (rev ps @ [p]) = rev ps"
    by (auto intro!: filter_True simp: sorted_wrt_append)
  moreover have "filter (\<lambda>e. fst e < fst p) (filter (\<lambda>e. below (fst e) b) xs) = filter (\<lambda>e. fst e < fst p) xs"
    using below_trans [OF bel] by (auto intro!: filter_cong)
  ultimately show ?thesis using bs by simp
qed

lemma range_next_back_remaining:
  assumes "ordered (rg_tree r)"
  shows "case range_next_back r of
      (None, r') \<Rightarrow> r' = r \<and> range_remaining r = []
    | (Some e, r') \<Rightarrow> range_remaining r = range_remaining r' @ [e] \<and> rg_tree r' = rg_tree r"
proof -
  let ?xs = "rt_entries (rg_tree r)" and ?bel = "\<lambda>e. below (fst e) (rg_end r)"
  have inc: "increasing (map fst ?xs)" using assms by (simp add: keys_entries_inorder)
  have bd: "rt_bound (rg_tree r) (rg_end r) True = find ?bel (rev ?xs)"
    using rt_bound_entries [OF assms, of "rg_end r" True] by (simp add: accepts_below)
  have rem: "range_remaining r = filter (\<lambda>e. accepts False (rg_start r) (fst e)) (filter ?bel ?xs)"
    by (simp add: range_remaining_def conj_commute)
  have acc: "(case rg_start r of Unbounded \<Rightarrow> True | Included k \<Rightarrow> k \<le> q | Excluded k \<Rightarrow> k < q)
      = accepts False (rg_start r) q" for q
    by (simp add: accepts_def split: bound.splits)
  show ?thesis
  proof (cases "rev (filter ?bel ?xs)")
    case Nil
    then show ?thesis by (auto simp: range_next_back_def bd find_hd_filter rem rev_filter filter_empty_conv)
  next
    case (Cons p ps)
    note rest = filter_split_last [OF inc Cons]
    have eq: "filter ?bel ?xs = rev ps @ [p]" using Cons by (metis rev.simps(2) rev_rev_ident)
    have after: "range_remaining (r\<lparr>rg_end := Excluded (fst p)\<rparr>)
        = filter (\<lambda>e. accepts False (rg_start r) (fst e)) (rev ps)"
      by (simp add: range_remaining_def below_def conj_commute flip: rest)
    have "\<forall>e\<in>set (rev ps). fst e < fst p" unfolding rest [symmetric] by simp
    then have "filter (\<lambda>e. accepts False (rg_start r) (fst e)) (rev ps) = []"
      if "\<not> accepts False (rg_start r) (fst p)"
      using that accepts_trans by (force simp: filter_empty_conv)
    moreover have "find ?bel (rev ?xs) = Some p"
      using Cons by (simp add: find_hd_filter rev_filter)
    ultimately show ?thesis
      using after by (simp add: range_next_back_def bd acc rem eq)
  qed
qed

lemma range_collect_remaining: "ordered (rg_tree r) \<Longrightarrow> range_collect r = range_remaining r"
proof (induction r rule: range_collect.induct)
  case (1 r)
  obtain x r' where nx: "range_next r = (x, r')" by fastforce
  show ?case
  proof (cases x)
    case None
    then show ?thesis
      using range_next_remaining [OF 1(2)] nx by (simp add: range_collect.simps)
  next
    case (Some e)
    then have "range_remaining r = e # range_remaining r'" "rg_tree r' = rg_tree r"
      using range_next_remaining [OF 1(2)] nx by simp_all
    then show ?thesis
      using 1 nx Some by (simp add: range_collect.simps [of r])
  qed
qed

lemma om_iter_entries: "ordered m \<Longrightarrow> om_iter m = rt_entries m"
  by (simp add: om_iter_def range_collect_remaining om_range_def range_remaining_def accepts_def below_def)

text \<open>A client that takes entries from either end, \<open>True\<close> for the front.\<close>

fun range_run ::
  "bool list \<Rightarrow> ('k::linorder, 'v) range \<Rightarrow> ('k \<times> 'v) list \<times> ('k \<times> 'v) list \<times> ('k, 'v) range" where
  "range_run [] r = ([], [], r)"
| "range_run (front # calls) r =
     (case if front then range_next r else range_next_back r of (x, r') \<Rightarrow>
        case range_run calls r' of (fs, bs, r'') \<Rightarrow>
          if front then ((case x of None \<Rightarrow> [] | Some e \<Rightarrow> [e]) @ fs, bs, r'')
          else (fs, (case x of None \<Rightarrow> [] | Some e \<Rightarrow> [e]) @ bs, r''))"

lemma range_run_remaining:
  "ordered (rg_tree r) \<Longrightarrow> range_run calls r = (fs, bs, r') \<Longrightarrow>
     range_remaining r = fs @ range_remaining r' @ rev bs"
proof (induction calls arbitrary: r fs bs r')
  case (Cons front calls)
  obtain x r1 where step: "(if front then range_next r else range_next_back r) = (x, r1)" by fastforce
  obtain fs1 bs1 r2 where run: "range_run calls r1 = (fs1, bs1, r2)" by (metis prod_cases3)
  have tree: "rg_tree r1 = rg_tree r" and rem: "range_remaining r =
      (if front then (case x of None \<Rightarrow> [] | Some e \<Rightarrow> [e]) @ range_remaining r1
       else range_remaining r1 @ (case x of None \<Rightarrow> [] | Some e \<Rightarrow> [e]))"
    using step range_next_remaining [OF Cons.prems(1)] range_next_back_remaining [OF Cons.prems(1)]
    by (auto split: if_splits option.splits)
  have "range_remaining r1 = fs1 @ range_remaining r2 @ rev bs1"
    using Cons.IH [OF _ run] Cons.prems(1) tree by simp
  then show ?case
    using Cons.prems(2) rem step run by (cases x) (auto split: if_splits)
qed simp

text \<open>
  The specification of such a client: a double-ended queue over a list, whose every call takes
  the entry at its end while there is one.
\<close>

fun deque_run :: "bool list \<Rightarrow> 'a list \<Rightarrow> 'a list \<times> 'a list \<times> 'a list" where
  "deque_run [] xs = ([], [], xs)"
| "deque_run (front # calls) xs =
     (if xs = [] then ([], [], [])
      else if front then (case deque_run calls (tl xs) of (fs, bs, ys) \<Rightarrow> (hd xs # fs, bs, ys))
      else (case deque_run calls (butlast xs) of (fs, bs, ys) \<Rightarrow> (fs, last xs # bs, ys)))"

lemma deque_run_Nil [simp]: "deque_run calls [] = ([], [], [])"
  by (cases calls) simp_all

lemma deque_run_length:
  "deque_run calls xs = (fs, bs, ys) \<Longrightarrow> length fs + length bs = min (length calls) (length xs)"
proof (induction calls arbitrary: xs fs bs ys)
  case (Cons front calls)
  then show ?case by (cases xs) (auto split: if_splits prod.splits)
qed auto

text \<open>The cursor refines the queue of the entries it still has to visit.\<close>

lemma range_run_deque:
  "ordered (rg_tree r) \<Longrightarrow> range_run calls r = (fs, bs, r') \<Longrightarrow>
     deque_run calls (range_remaining r) = (fs, bs, range_remaining r')"
proof (induction calls arbitrary: r fs bs r')
  case (Cons front calls)
  obtain x r1 where step: "(if front then range_next r else range_next_back r) = (x, r1)" by fastforce
  obtain fs1 bs1 r2 where run: "range_run calls r1 = (fs1, bs1, r2)" by (metis prod_cases3)
  have rem: "case x of None \<Rightarrow> r1 = r \<and> range_remaining r = []
      | Some e \<Rightarrow> rg_tree r1 = rg_tree r \<and>
          range_remaining r = (if front then e # range_remaining r1 else range_remaining r1 @ [e])"
    using step range_next_remaining [OF Cons.prems(1)] range_next_back_remaining [OF Cons.prems(1)]
    by (auto split: if_splits option.splits)
  then have "ordered (rg_tree r1)" using Cons.prems(1) by (auto split: option.splits)
  note IH = Cons.IH [OF this run]
  show ?case using Cons.prems(2) rem IH step run by (cases x) (auto split: if_splits)
qed simp

section \<open>The set\<close>

definition os_elems :: "'k::linorder ordered_set \<Rightarrow> 'k set" where
  "os_elems s = dom (om_get s)"

lemma os_elems_insert: "om_inv s \<Longrightarrow> os_elems (fst (os_insert k s)) = insert k (os_elems s)"
  by (simp add: os_elems_def os_insert_def case_prod_beta om_get_insert)

lemma os_elems_remove: "om_inv s \<Longrightarrow> os_elems (fst (os_remove k s)) = os_elems s - {k}"
  by (simp add: os_elems_def os_remove_def case_prod_beta om_get_remove)

lemma om_inv_os_insert: "om_inv s \<Longrightarrow> om_inv (fst (os_insert k s))"
  by (simp add: os_insert_def case_prod_beta om_inv_insert)

lemma om_inv_os_remove: "om_inv s \<Longrightarrow> om_inv (fst (os_remove k s))"
  by (simp add: os_remove_def case_prod_beta om_inv_remove)

lemma os_extend_elems:
  "om_inv s \<Longrightarrow> om_inv (os_extend ks s) \<and> os_elems (os_extend ks s) = os_elems s \<union> set ks"
  by (induction ks arbitrary: s) (auto simp: os_extend_def om_inv_os_insert os_elems_insert)

lemma os_remove_all_elems:
  "om_inv s \<Longrightarrow> om_inv (fold (\<lambda>k s. fst (os_remove k s)) ks s)
     \<and> os_elems (fold (\<lambda>k s. fst (os_remove k s)) ks s) = os_elems s - set ks"
  by (induction ks arbitrary: s) (auto simp: om_inv_os_remove os_elems_remove)

lemma os_elems_entries: "om_inv s \<Longrightarrow> fst ` set (rt_entries s) = os_elems s"
  by (simp add: os_elems_def om.keys_entries)

lemma os_range_elems:
  assumes "om_inv s"
  shows "increasing (os_range s a b)"
    and "set (os_range s a b) = {k \<in> os_elems s. accepts False a k \<and> below k b}"
proof -
  have eq: "os_range s a b = map fst (filter (\<lambda>e. accepts False a (fst e) \<and> below (fst e) b) (rt_entries s))"
    using assms by (simp add: os_range_def range_collect_remaining om_range_def om_inv_def range_remaining_def)
  show "increasing (os_range s a b)"
    unfolding eq by (rule increasing_filter_keys [OF om.entries_increasing [OF assms]])
  show "set (os_range s a b) = {k \<in> os_elems s. accepts False a k \<and> below k b}"
    unfolding eq os_elems_entries [OF assms, symmetric] by auto
qed

lemma rt_get_get_mut: "rt_get (rt_get_mut t k f) j = (if j = k then map_option f (rt_get t k) else rt_get t j)"
  by (induction t) auto

lemma om_or_insert_with_get:
  assumes "om_inv m"
  shows "om_get (om_or_insert_with k v f m) = (om_get m)(k \<mapsto> f (case om_get m k of None \<Rightarrow> v | Some x \<Rightarrow> x))"
proof (cases "om_get m k")
  case None
  then show ?thesis
    using om_get_insert [OF assms, of k v]
    by (auto simp: om_or_insert_with_def om_contains_key_def Let_def om_get_def rt_get_get_mut fun_eq_iff)
next
  case (Some x)
  then show ?thesis
    by (auto simp: om_or_insert_with_def om_contains_key_def Let_def om_get_def rt_get_get_mut fun_eq_iff)
qed

lemma image_Collect_fst: "fst ` {e \<in> set xs. P (fst e)} = {j \<in> fst ` set xs. P j}"
  by auto

section \<open>Properties\<close>

text \<open>
  C24. \<open>OrderedMap\<close> is a map with an exact cardinality and order statistics: lookups after
  edits, the length and the number of keys before a boundary (saturating at \<open>2 ^ 64 - 1\<close>),
  the ordered traversal and its ends, and the entry initializer. The invariant holds of the
  empty map and is kept by every edit.
\<close>

theorem ordered_map_correct:
  assumes "om_inv m"
  shows "om_inv (fst (om_insert k v m)) \<and> om_inv (fst (om_remove k m)) \<and> om_inv om_new
    \<and> om_get (fst (om_insert k v m)) = (om_get m)(k \<mapsto> v) \<and> snd (om_insert k v m) = om_get m k
    \<and> om_get (fst (om_remove k m)) = (om_get m)(k := None) \<and> snd (om_remove k m) = om_get m k
    \<and> om_len m = min (umax 64) (card (dom (om_get m)))
    \<and> unat (om_count_before m k) = min (umax 64) (card {j \<in> dom (om_get m). j < k})
    \<and> increasing (map fst (om_iter m)) \<and> map_of (om_iter m) = om_get m
    \<and> om_get (om_or_insert_with k v f m)
        = (om_get m)(k \<mapsto> f (case om_get m k of None \<Rightarrow> v | Some x \<Rightarrow> x))"
proof -
  have ord: "ordered m" using assms by (simp add: om_inv_def)
  note keys = om.keys_entries [OF assms] and inc = om.entries_increasing [OF assms]
  have len: "length (rt_entries m) = card (dom (om_get m))"
    using keys increasing_distinct [OF inc] by (metis distinct_card length_map set_map)
  have "distinct (map fst (filter (\<lambda>e. fst e < k) (rt_entries m)))"
    using increasing_distinct [OF inc] by (rule distinct_map_filter)
  then have cnt: "length (filter (\<lambda>e. fst e < k) (rt_entries m)) = card {j \<in> dom (om_get m). j < k}"
    using distinct_card [of "map fst (filter (\<lambda>e. fst e < k) (rt_entries m))"]
    by (simp add: image_Collect_fst [of "rt_entries m" "\<lambda>j. j < k"] flip: keys)
  show ?thesis
    using assms om_get_insert [OF assms, of k v] om.entries_get [OF assms] inc
    by (simp add: om_inv_insert om_inv_remove om_inv_new om_get_remove om_len_entries len
        om_count_before_entries cnt om_iter_entries ord om_or_insert_with_get)
       (simp add: om_insert_def om_remove_def om_get_def insert_previous remove_previous)
qed

theorem ordered_map_correct_witness:
  "om_len (fst (om_insert (3::nat) ''c'' (fst (om_insert 1 ''a'' om_new)))) = 2
   \<and> om_get (fst (om_insert (3::nat) ''c'' (fst (om_insert 1 ''a'' om_new)))) 1 = Some ''a''"
proof -
  have m: "om_inv (fst (om_insert (1::nat) ''a'' om_new))"
    by (simp add: om_inv_insert om_inv_new)
  have "om_inv (fst (om_insert (3::nat) ''c'' (fst (om_insert 1 ''a'' om_new))))"
    using ordered_map_correct [OF m] by blast
  from ordered_map_correct [OF m, of 3 "''c''"] ordered_map_correct [OF this]
  show ?thesis by (simp add: om.get_ins om.get_empty om_inv_new)
qed

text \<open>
  C25. The range cursor is a double-ended queue over the entries of the map within the initial
  bounds: for any interleaving of \<open>next\<close> and \<open>next_back\<close>, every call takes the first or the last
  entry that is left while there is one, so what the two ends yield and what is still to come are
  those of the queue. Hence no call yields nothing while entries are left, the entries taken from
  the front, those to come and those taken from the back, reversed, are the entries in order, and
  none is lost, duplicated or visited from both ends.
\<close>

theorem range_cursor_deque:
  assumes "om_inv m" and "range_run calls (om_range m a b) = (fs, bs, r)"
  defines "within \<equiv> filter (\<lambda>e. accepts False a (fst e) \<and> below (fst e) b) (om_iter m)"
  shows "deque_run calls within = (fs, bs, range_remaining r)
    \<and> length fs + length bs = min (length calls) (length within)
    \<and> fs @ range_remaining r @ rev bs = within
    \<and> range_collect (om_range m a b) = within"
proof -
  have ord: "ordered (rg_tree (om_range m a b))" using assms(1) by (simp add: om_range_def om_inv_def)
  have "range_remaining (om_range m a b) = within"
    using assms(1) by (simp add: within_def range_remaining_def om_range_def om_iter_entries om_inv_def)
  then have within: "within = range_remaining (om_range m a b)" by simp
  note run = range_run_deque [OF ord assms(2)]
  show ?thesis unfolding within
    using run deque_run_length [OF run] range_run_remaining [OF ord assms(2)] range_collect_remaining [OF ord]
    by simp
qed

theorem range_cursor_deque_witness:
  "case range_run [True, False, True]
      (om_range (fst (om_insert (4::nat) ''d'' (fst (om_insert 2 ''b'' om_new)))) Unbounded (Included 5)) of
     (fs, bs, r) \<Rightarrow> fs = [(2, ''b'')] \<and> bs = [(4, ''d'')] \<and> range_remaining r = []"
proof -
  let ?m = "fst (om_insert (4::nat) ''d'' (fst (om_insert 2 ''b'' om_new)))"
  have m: "om_inv ?m" by (simp add: om_inv_insert om_inv_new)
  obtain fs bs r where run: "range_run [True, False, True] (om_range ?m Unbounded (Included 5)) = (fs, bs, r)"
    by (metis prod_cases3)
  have "rt_entries ?m = [(2, ''b''), (4, ''d'')]"
    by (simp add: om_insert_def om_new_def rt_entries_def)
  then have "om_iter ?m = [(2, ''b''), (4, ''d'')]" using m by (simp add: om_iter_entries om_inv_def)
  then show ?thesis
    using range_cursor_deque [OF m run] by (simp add: run accepts_def below_def del: range_run.simps)
qed

text \<open>
  \<open>OrderedSet::split_off\<close> partitions the set at a key: the elements below it stay, the
  others move to the new set, and both are well-formed sets.
\<close>

theorem ordered_set_split_off:
  assumes "om_inv s"
  shows "case os_split_off at s of (lo, hi) \<Rightarrow>
    om_inv lo \<and> om_inv hi \<and> os_elems lo = {k \<in> os_elems s. k < at}
    \<and> os_elems hi = {k \<in> os_elems s. at \<le> k}"
proof -
  let ?ks = "os_range s (Included at) Unbounded"
  have ks: "set ?ks = {k \<in> os_elems s. at \<le> k}"
    using os_range_elems(2) [OF assms, of "Included at" Unbounded] by (simp add: accepts_def below_def)
  have "os_elems om_new = ({} :: 'a set)" by (simp add: os_elems_def om.get_empty)
  then show ?thesis
    using os_remove_all_elems [OF assms, of ?ks] os_extend_elems [OF om_inv_new, of ?ks] ks
    by (auto simp: os_split_off_def Let_def os_from_iter_def)
qed

theorem ordered_set_split_off_witness:
  "case os_split_off 2 (os_from_iter [1::nat, 2, 3]) of (lo, hi) \<Rightarrow>
     os_elems lo = {1} \<and> os_elems hi = {2, 3}"
proof -
  have s: "om_inv (os_from_iter [1::nat, 2, 3])" "os_elems (os_from_iter [1::nat, 2, 3]) = {1, 2, 3}"
    using os_extend_elems [OF om_inv_new, of "[1::nat, 2, 3]"]
    by (simp_all add: os_from_iter_def os_elems_def om.get_empty)
  then show ?thesis
    using ordered_set_split_off [OF s(1), of 2] by (auto split: prod.splits)
qed

end
