(* ===== verification/HashTrie.thy ===== *)
theory HashTrie
  imports Containers "HOL-Library.AList"
begin

unbundle bit_operations_syntax

text \<open>
  The persistent hash trie (\<open>editchain-index-pages/src/map.rs\<close>): buckets that split into
  sixteen children once they hold 64 entries, routed by successive nibbles of a fixed FNV-1a
  hash. A \<open>HashMap\<close> bucket is an association list with distinct keys; its order stands for
  the unspecified iteration order and no property depends on it. The bytes a key's \<open>Hash\<close>
  implementation feeds to the hasher are the parameter \<open>hb\<close>; nothing is assumed of it, so
  the results hold for colliding keys too. A branch with a missing child, which the sources
  report through \<open>page::fail\<close>, is the error value of every path operation.
\<close>

section \<open>Routing\<close>

definition fnv_step :: "u8 \<Rightarrow> u64 \<Rightarrow> u64" where
  "fnv_step b h = (h XOR ucast b) * 0x00000100000001b3"

definition stable_hash :: "bytes \<Rightarrow> u64" where
  "stable_hash bs = fold fnv_step bs 0xcbf29ce484222325"

definition slot :: "u64 \<Rightarrow> nat \<Rightarrow> nat" where
  "slot h depth = unat ((if depth * 4 < 64 then drop_bit (depth * 4) h else 0) AND 15)"

section \<open>Nodes\<close>

type_synonym ('k, 'v) hash_map = "('k \<times> 'v) list"

datatype ('k, 'v) trie = Bucket "('k, 'v) hash_map" | Branch "('k, 'v) trie list"

definition invalid_branch :: io_error where
  "invalid_branch = IoError Other ''invalid index trie branch''"

lemma nth_size_less [termination_simp]: "i < length cs \<Longrightarrow> size (cs ! i) < Suc (size_list size cs)"
  by (meson nth_mem order_less_le_trans size_list_estimation' less_Suc_eq_le order_refl)

fun bucket :: "('k, 'v) trie \<Rightarrow> u64 \<Rightarrow> nat \<Rightarrow> ('k, 'v) hash_map io_result" where
  "bucket (Bucket vs) h depth = Inr vs"
| "bucket (Branch cs) h depth =
     (if slot h depth < length cs then bucket (cs ! slot h depth) h (depth + 1) else Inl invalid_branch)"

text \<open>The redistribution of a full bucket.\<close>

definition route :: "('k \<Rightarrow> bytes) \<Rightarrow> nat \<Rightarrow> 'k \<times> 'v \<Rightarrow> ('k, 'v) hash_map list \<Rightarrow> ('k, 'v) hash_map list" where
  "route hb depth kv bs =
     (let i = slot (stable_hash (hb (fst kv))) depth
      in if i < length bs then bs[i := AList.update (fst kv) (snd kv) (bs ! i)] else bs)"

definition split_bucket :: "('k \<Rightarrow> bytes) \<Rightarrow> nat \<Rightarrow> ('k, 'v) hash_map \<Rightarrow> ('k, 'v) trie" where
  "split_bucket hb depth vs = Branch (map Bucket (fold (route hb depth) vs (replicate 16 [])))"

definition split_full :: "('k \<Rightarrow> bytes) \<Rightarrow> nat \<Rightarrow> ('k, 'v) trie \<Rightarrow> ('k, 'v) trie" where
  "split_full hb depth t = (case t of
       Bucket vs \<Rightarrow> if depth < 16 \<and> 64 \<le> length vs then split_bucket hb depth vs else t
     | Branch cs \<Rightarrow> t)"

text \<open>\<open>bucket_mut\<close>, with the operation \<open>f\<close> the caller performs on the bucket it gets.\<close>

function bucket_mut ::
  "('k \<Rightarrow> bytes) \<Rightarrow> (('k, 'v) hash_map \<Rightarrow> ('k, 'v) hash_map \<times> 'r) \<Rightarrow> ('k, 'v) trie \<Rightarrow> u64 \<Rightarrow> nat
     \<Rightarrow> (('k, 'v) trie \<times> 'r) io_result" where
  "bucket_mut hb f t h depth =
     (case split_full hb depth t of
        Bucket vs \<Rightarrow> (case f vs of (vs', r) \<Rightarrow> Inr (Bucket vs', r))
      | Branch cs \<Rightarrow>
          if slot h depth < length cs then
            rbind (bucket_mut hb f (cs ! slot h depth) h (depth + 1)) (\<lambda>(c, r).
              Inr (Branch (cs[slot h depth := c]), r))
          else Inl invalid_branch)"
  by pat_completeness auto
termination
  by (relation "measures [\<lambda>(hb, f, t, h, d). 16 - d, \<lambda>(hb, f, t, h, d). size t]")
     (auto simp: split_full_def nth_size_less split: trie.splits if_splits)

declare bucket_mut.simps [simp del]

section \<open>The map\<close>

record ('k, 'v) trie_map =
  tm_root :: "('k, 'v) trie"
  tm_len :: nat

definition tm_new :: "('k, 'v) trie_map" where
  "tm_new = \<lparr>tm_root = Bucket [], tm_len = 0\<rparr>"

definition tm_is_empty :: "('k, 'v) trie_map \<Rightarrow> bool" where
  "tm_is_empty m \<longleftrightarrow> tm_len m = 0"

definition tm_get :: "('k \<Rightarrow> bytes) \<Rightarrow> ('k, 'v) trie_map \<Rightarrow> 'k \<Rightarrow> 'v option io_result" where
  "tm_get hb m k = rbind (bucket (tm_root m) (stable_hash (hb k)) 0) (\<lambda>vs. Inr (map_of vs k))"

definition tm_contains_key :: "('k \<Rightarrow> bytes) \<Rightarrow> ('k, 'v) trie_map \<Rightarrow> 'k \<Rightarrow> bool io_result" where
  "tm_contains_key hb m k = rbind (tm_get hb m k) (\<lambda>r. Inr (r \<noteq> None))"

text \<open>The bucket operations of \<open>std::collections::HashMap\<close>, each with its result.\<close>

definition hash_map_insert :: "'k \<Rightarrow> 'v \<Rightarrow> ('k, 'v) hash_map \<Rightarrow> ('k, 'v) hash_map \<times> 'v option" where
  "hash_map_insert k v vs = (AList.update k v vs, map_of vs k)"

definition hash_map_remove :: "'k \<Rightarrow> ('k, 'v) hash_map \<Rightarrow> ('k, 'v) hash_map \<times> 'v option" where
  "hash_map_remove k vs = (AList.delete k vs, map_of vs k)"

definition hash_map_modify :: "'k \<Rightarrow> ('v \<Rightarrow> 'v) \<Rightarrow> ('k, 'v) hash_map \<Rightarrow> ('k, 'v) hash_map \<times> 'v option" where
  "hash_map_modify k f vs =
     (case map_of vs k of None \<Rightarrow> (vs, None) | Some v \<Rightarrow> (AList.update k (f v) vs, Some v))"

definition tm_insert ::
  "('k \<Rightarrow> bytes) \<Rightarrow> 'k \<Rightarrow> 'v \<Rightarrow> ('k, 'v) trie_map \<Rightarrow> (('k, 'v) trie_map \<times> 'v option) io_result" where
  "tm_insert hb k v m =
     rbind (bucket_mut hb (hash_map_insert k v) (tm_root m) (stable_hash (hb k)) 0) (\<lambda>(root, old).
       Inr (\<lparr>tm_root = root, tm_len = (if old = None then sat_add 64 (tm_len m) 1 else tm_len m)\<rparr>, old))"

definition tm_remove ::
  "('k \<Rightarrow> bytes) \<Rightarrow> 'k \<Rightarrow> ('k, 'v) trie_map \<Rightarrow> (('k, 'v) trie_map \<times> 'v option) io_result" where
  "tm_remove hb k m =
     rbind (bucket_mut hb (hash_map_remove k) (tm_root m) (stable_hash (hb k)) 0) (\<lambda>(root, old).
       Inr (\<lparr>tm_root = root, tm_len = (if old \<noteq> None then tm_len m - 1 else tm_len m)\<rparr>, old))"

definition tm_get_mut ::
  "('k \<Rightarrow> bytes) \<Rightarrow> 'k \<Rightarrow> ('v \<Rightarrow> 'v) \<Rightarrow> ('k, 'v) trie_map \<Rightarrow> (('k, 'v) trie_map \<times> 'v option) io_result" where
  "tm_get_mut hb k f m =
     rbind (bucket_mut hb (hash_map_modify k f) (tm_root m) (stable_hash (hb k)) 0) (\<lambda>(root, old).
       Inr (\<lparr>tm_root = root, tm_len = tm_len m\<rparr>, old))"

text \<open>
  \<open>entry(key).and_modify(g).or_insert_with(make)\<close>, then the client's update \<open>f\<close> of the
  slot: the whole chain works on one bucket, and a vacant slot counts once.
\<close>

definition hash_map_entry ::
  "'k \<Rightarrow> ('v \<Rightarrow> 'v) \<Rightarrow> 'v \<Rightarrow> ('v \<Rightarrow> 'v) \<Rightarrow> ('k, 'v) hash_map \<Rightarrow> ('k, 'v) hash_map \<times> 'v option" where
  "hash_map_entry k g mk f vs =
     (case map_of vs k of
        None \<Rightarrow> (AList.update k (f mk) vs, None)
      | Some v \<Rightarrow> (AList.update k (f (g v)) vs, Some v))"

definition tm_entry ::
  "('k \<Rightarrow> bytes) \<Rightarrow> 'k \<Rightarrow> ('v \<Rightarrow> 'v) \<Rightarrow> 'v \<Rightarrow> ('v \<Rightarrow> 'v) \<Rightarrow> ('k, 'v) trie_map
     \<Rightarrow> (('k, 'v) trie_map \<times> 'v option) io_result" where
  "tm_entry hb k g mk f m =
     rbind (bucket_mut hb (hash_map_entry k g mk f) (tm_root m) (stable_hash (hb k)) 0) (\<lambda>(root, old).
       Inr (\<lparr>tm_root = root, tm_len = (if old = None then sat_add 64 (tm_len m) 1 else tm_len m)\<rparr>, old))"

text \<open>\<open>iter\<close>: the stack of nodes still to visit, its top first.\<close>

function iter_stack :: "('k, 'v) trie list \<Rightarrow> ('k \<times> 'v) list" where
  "iter_stack [] = []"
| "iter_stack (Bucket vs # stack) = vs @ iter_stack stack"
| "iter_stack (Branch cs # stack) = iter_stack (cs @ stack)"
  by pat_completeness auto
termination
  by (relation "measure (\<lambda>ts. sum_list (map (\<lambda>t. Suc (size t)) ts))") (auto simp: size_list_conv_sum_list sum_list_Suc)

definition tm_iter :: "('k, 'v) trie_map \<Rightarrow> ('k \<times> 'v) list" where
  "tm_iter m = iter_stack [tm_root m]"

definition tm_from_iter :: "('k \<Rightarrow> bytes) \<Rightarrow> ('k \<times> 'v) list \<Rightarrow> ('k, 'v) trie_map io_result" where
  "tm_from_iter hb kvs =
     fold (\<lambda>(k, v) r. rbind r (\<lambda>m. rbind (tm_insert hb k v m) (\<lambda>(m', old). Inr m'))) kvs (Inr tm_new)"

section \<open>Well-formed tries\<close>

text \<open>All entries of a trie, in traversal order.\<close>

fun trie_entries :: "('k, 'v) trie \<Rightarrow> ('k \<times> 'v) list" where
  "trie_entries (Bucket vs) = vs"
| "trie_entries (Branch cs) = concat (map trie_entries cs)"

lemma iter_stack_entries: "iter_stack ts = concat (map trie_entries ts)"
  by (induction ts rule: iter_stack.induct) auto

text \<open>
  A branch has sixteen children and every key lies on the path of its hash; a bucket binds a
  key once.
\<close>

fun trie_wf :: "('k \<Rightarrow> bytes) \<Rightarrow> nat \<Rightarrow> ('k, 'v) trie \<Rightarrow> bool" where
  "trie_wf hb depth (Bucket vs) \<longleftrightarrow> distinct (map fst vs)"
| "trie_wf hb depth (Branch cs) \<longleftrightarrow> length cs = 16
     \<and> (\<forall>i\<in>{0..<length cs}. trie_wf hb (depth + 1) (cs ! i)
          \<and> (\<forall>k\<in>dom (map_of (trie_entries (cs ! i))). slot (stable_hash (hb k)) depth = i))"

lemma slot_less: "slot h depth < 16"
proof -
  have "unat (x AND 15 :: u64) \<le> 15" for x
    using word_and_le1 [of x 15] by (simp add: word_le_nat_alt)
  then show ?thesis unfolding slot_def by (meson le_less_trans numeral_less_iff semiring_norm)
qed

text \<open>The binding of a key in the whole trie.\<close>

abbreviation trie_get :: "('k, 'v) trie \<Rightarrow> 'k \<Rightarrow> 'v option" where
  "trie_get t \<equiv> map_of (trie_entries t)"

lemma trie_wf_Branch:
  "trie_wf hb depth (Branch cs) \<longleftrightarrow> length cs = 16 \<and> (\<forall>i<16. trie_wf hb (depth + 1) (cs ! i)
     \<and> (\<forall>k. trie_get (cs ! i) k \<noteq> None \<longrightarrow> slot (stable_hash (hb k)) depth = i))"
proof -
  have "{0..<length cs} = {..<length cs}" by auto
  then show ?thesis by (auto simp: domIff)
qed

declare trie_wf.simps(2) [simp del]

lemma trie_wf_child: "trie_wf hb depth (Branch cs) \<Longrightarrow> i < 16 \<Longrightarrow> trie_wf hb (depth + 1) (cs ! i)"
  by (simp add: trie_wf_Branch)

lemma trie_wf_length: "trie_wf hb depth (Branch cs) \<Longrightarrow> length cs = 16"
  by (simp add: trie_wf_Branch)

lemma trie_wf_slot:
  "trie_wf hb depth (Branch cs) \<Longrightarrow> i < 16 \<Longrightarrow> i \<noteq> slot (stable_hash (hb k)) depth \<Longrightarrow> trie_get (cs ! i) k = None"
  unfolding trie_wf_Branch by metis

text \<open>Replacing one child by a well-formed one with keys on its path.\<close>

lemma trie_wf_update:
  assumes "trie_wf hb depth (Branch cs)" and "trie_wf hb (depth + 1) c"
    and "\<And>k. trie_get c k \<noteq> None \<Longrightarrow> trie_get (cs ! i) k \<noteq> None \<or> slot (stable_hash (hb k)) depth = i"
  shows "trie_wf hb depth (Branch (cs[i := c]))"
  unfolding trie_wf_Branch
proof (intro conjI allI impI)
  show "length (cs[i := c]) = 16" using trie_wf_length [OF assms(1)] by simp
  fix j :: nat
  assume j: "j < 16"
  show "trie_wf hb (depth + 1) (cs[i := c] ! j)"
    using j trie_wf_child [OF assms(1) j] trie_wf_length [OF assms(1)] assms(2) by (cases "j = i") simp_all
  fix k
  assume bound: "trie_get (cs[i := c] ! j) k \<noteq> None"
  have old: "trie_get (cs ! j) k \<noteq> None \<Longrightarrow> slot (stable_hash (hb k)) depth = j"
    using trie_wf_slot [OF assms(1) j, of k] by metis
  show "slot (stable_hash (hb k)) depth = j"
  proof (cases "j = i")
    case True
    then have "trie_get c k \<noteq> None" using bound j trie_wf_length [OF assms(1)] by simp
    then show ?thesis using assms(3) [of k] old True by blast
  next
    case False
    then show ?thesis using bound old by simp
  qed
qed

lemma map_of_concat_route:
  assumes "i < length xss" and "\<And>j. j < length xss \<Longrightarrow> j \<noteq> i \<Longrightarrow> map_of (xss ! j) k = None"
  shows "map_of (concat xss) k = map_of (xss ! i) k"
  using assms
proof (induction xss arbitrary: i)
  case (Cons xs xss)
  show ?case
  proof (cases i)
    case 0
    have "map_of (concat xss) k = None"
    proof -
      have "map_of ys k = None" if "ys \<in> set xss" for ys
        using that Cons.prems(2) [of "Suc _"] 0 by (metis Suc_less_eq in_set_conv_nth length_Cons nat.simps(3) nth_Cons_Suc)
      then show ?thesis by (auto simp: map_of_eq_None_iff)
    qed
    then show ?thesis using 0 by (simp add: map_add_def split: option.splits)
  next
    case (Suc j)
    have "map_of xs k = None" using Cons.prems(2) [of 0] Suc by simp
    moreover have "map_of (concat xss) k = map_of (xss ! j) k"
    proof (rule Cons.IH)
      show "j < length xss" using Cons.prems(1) Suc by simp
      show "map_of (xss ! n) k = None" if "n < length xss" "n \<noteq> j" for n
        using Cons.prems(2) [of "Suc n"] that Suc by simp
    qed
    ultimately show ?thesis using Suc by (simp add: map_add_def split: option.splits)
  qed
qed simp

lemma trie_get_Branch:
  assumes "trie_wf hb depth (Branch cs)"
  shows "trie_get (Branch cs) k = trie_get (cs ! slot (stable_hash (hb k)) depth) k"
proof -
  let ?i = "slot (stable_hash (hb k)) depth"
  have i: "?i < length cs" using trie_wf_length [OF assms] slot_less by simp
  have "map_of (trie_entries (cs ! j)) k = None" if "j < length cs" "j \<noteq> ?i" for j
    using trie_wf_slot [OF assms] trie_wf_length [OF assms] that by simp
  then show ?thesis
    using map_of_concat_route [of ?i "map trie_entries cs" k] i by simp
qed

lemma bucket_wf:
  "trie_wf hb depth t \<Longrightarrow> \<exists>vs. bucket t (stable_hash (hb k)) depth = Inr vs \<and> map_of vs k = trie_get t k"
proof (induction t "stable_hash (hb k)" depth rule: bucket.induct)
  case (2 cs depth)
  let ?i = "slot (stable_hash (hb k)) depth"
  have i: "?i < length cs" "trie_wf hb (depth + 1) (cs ! ?i)"
    using trie_wf_length [OF 2(2)] trie_wf_child [OF 2(2)] slot_less [of "stable_hash (hb k)" depth] by simp_all
  show ?case
    using 2(1) [OF i] i(1) trie_get_Branch [OF 2(2)] by simp
qed simp

subsection \<open>Splitting a bucket\<close>

abbreviation flat :: "('k, 'v) hash_map list \<Rightarrow> ('k, 'v) trie" where
  "flat bs \<equiv> Branch (map Bucket bs)"

lemma route_wf:
  assumes "trie_wf hb depth (flat bs)"
  shows "trie_wf hb depth (flat (route hb depth (k, v) bs))"
    and "trie_get (flat (route hb depth (k, v) bs)) = (trie_get (flat bs))(k \<mapsto> v)"
proof -
  let ?i = "slot (stable_hash (hb k)) depth"
  have len: "length bs = 16" and i: "?i < length bs"
    using trie_wf_length [OF assms] slot_less [of "stable_hash (hb k)" depth] by simp_all
  have r: "route hb depth (k, v) bs = bs[?i := AList.update k v (bs ! ?i)]"
    using i by (simp add: route_def Let_def)
  show wf: "trie_wf hb depth (flat (route hb depth (k, v) bs))"
  proof -
    have "trie_wf hb (depth + 1) (map Bucket bs ! ?i)" by (rule trie_wf_child [OF assms slot_less])
    then have "trie_wf hb (depth + 1) (Bucket (AList.update k v (bs ! ?i)))"
      using i by (simp add: distinct_update)
    then have "trie_wf hb depth (Branch ((map Bucket bs)[?i := Bucket (AList.update k v (bs ! ?i))]))"
      using i by (intro trie_wf_update [OF assms]) (auto simp: update_conv' split: if_splits)
    then show ?thesis by (simp add: r map_update)
  qed
  show "trie_get (flat (route hb depth (k, v) bs)) = (trie_get (flat bs))(k \<mapsto> v)"
  proof
    fix j
    let ?j = "slot (stable_hash (hb j)) depth"
    have j: "?j < length bs" using slot_less [of "stable_hash (hb j)" depth] len by simp
    have "map_of (bs[?i := AList.update k v (bs ! ?i)] ! ?j) j = ((map_of (bs ! ?j))(k := if ?j = ?i then Some v else map_of (bs ! ?j) k)) j"
      using i by (auto simp: nth_list_update update_conv)
    then show "trie_get (flat (route hb depth (k, v) bs)) j = ((trie_get (flat bs))(k \<mapsto> v)) j"
      unfolding trie_get_Branch [OF wf] trie_get_Branch [OF assms] fun_upd_apply using j len by (auto simp: r)
  qed
qed

lemma fold_route_wf:
  "trie_wf hb depth (flat bs) \<Longrightarrow> trie_wf hb depth (flat (fold (route hb depth) vs bs))
     \<and> trie_get (flat (fold (route hb depth) vs bs)) = trie_get (flat bs) ++ map_of (rev vs)"
proof (induction vs arbitrary: bs)
  case (Cons kv vs)
  obtain k v where kv: "kv = (k, v)" by (cases kv)
  show ?case
    using Cons.IH [OF route_wf(1) [OF Cons.prems, of k v]] route_wf(2) [OF Cons.prems, of k v]
    by (auto simp: kv map_add_def fun_eq_iff split: option.splits)
qed simp

lemma map_of_rev_distinct: "distinct (map fst vs) \<Longrightarrow> map_of (rev vs) = map_of vs"
  by (metis distinct_rev map_of_inject_set rev_map set_rev)

lemma split_bucket_wf:
  assumes "distinct (map fst vs)"
  shows "trie_wf hb depth (split_bucket hb depth vs)" and "trie_get (split_bucket hb depth vs) = map_of vs"
proof -
  have wf: "trie_wf hb depth (flat (replicate 16 [] :: ('a, 'b) hash_map list))"
    by (auto simp: trie_wf_Branch)
  have "trie_get (flat (replicate 16 [])) = (Map.empty :: 'a \<Rightarrow> 'b option)"
    by (auto simp: fun_eq_iff map_of_eq_None_iff)
  moreover have "map_of (rev vs) = map_of vs"
    using assms by (intro map_of_rev_distinct)
  ultimately show "trie_wf hb depth (split_bucket hb depth vs)" "trie_get (split_bucket hb depth vs) = map_of vs"
    using fold_route_wf [OF wf, of vs] unfolding split_bucket_def by auto
qed

lemma split_full_wf:
  "trie_wf hb depth t \<Longrightarrow> trie_wf hb depth (split_full hb depth t)"
  "trie_wf hb depth t \<Longrightarrow> trie_get (split_full hb depth t) = trie_get t"
  by (auto simp: split_full_def split_bucket_wf split: trie.splits)

section \<open>Bucket operations\<close>

text \<open>
  What the path operations rely on: an operation on one bucket rebinds one key as a function of
  its old binding, keeps keys distinct and answers from the old binding.
\<close>

locale bucket_op =
  fixes key :: 'k
    and f :: "('k, 'v) hash_map \<Rightarrow> ('k, 'v) hash_map \<times> 'r"
    and rebind :: "'v option \<Rightarrow> 'v option"
    and answer :: "'v option \<Rightarrow> 'r"
  assumes distinct_op: "distinct (map fst vs) \<Longrightarrow> distinct (map fst (fst (f vs)))"
    and get_op: "distinct (map fst vs) \<Longrightarrow> map_of (fst (f vs)) = (map_of vs)(key := rebind (map_of vs key))"
    and answer_op: "snd (f vs) = answer (map_of vs key)"
begin

lemma bucket_mut_op:
  "trie_wf hb depth t \<Longrightarrow> \<exists>t'. bucket_mut hb f t (stable_hash (hb key)) depth = Inr (t', answer (trie_get t key))
     \<and> trie_wf hb depth t' \<and> trie_get t' = (trie_get t)(key := rebind (trie_get t key))"
proof (induction "(t, depth)" arbitrary: t depth
    rule: wf_induct_rule [OF wf_measures [of "[\<lambda>(t, d). 16 - d, \<lambda>(t, d). size t]"]])
  case (1 t depth)
  let ?s = "split_full hb depth t" and ?i = "slot (stable_hash (hb key)) depth"
  have wf: "trie_wf hb depth ?s" and get: "trie_get ?s = trie_get t"
    using 1(2) by (simp_all add: split_full_wf)
  show ?case
  proof (cases ?s)
    case (Bucket vs)
    then have "distinct (map fst vs)" "map_of vs = trie_get t" using wf get by simp_all
    then show ?thesis
      using distinct_op get_op answer_op [of vs]
      by (simp add: bucket_mut.simps Bucket case_prod_beta)
  next
    case (Branch cs)
    have i: "?i < length cs" and child: "trie_wf hb (depth + 1) (cs ! ?i)"
      using trie_wf_length [OF wf [unfolded Branch]] trie_wf_child [OF wf [unfolded Branch]]
        slot_less [of "stable_hash (hb key)" depth] by simp_all
    have less: "((cs ! ?i, depth + 1), t, depth) \<in> measures [\<lambda>(t, d). 16 - d, \<lambda>(t, d). size t]"
      using Branch i by (auto simp: split_full_def nth_size_less split: trie.splits if_splits)
    from 1(1) [OF less child] obtain c where
      c: "bucket_mut hb f (cs ! ?i) (stable_hash (hb key)) (depth + 1) = Inr (c, answer (trie_get (cs ! ?i) key))"
        "trie_wf hb (depth + 1) c" "trie_get c = (trie_get (cs ! ?i))(key := rebind (trie_get (cs ! ?i) key))"
      by auto
    have here: "trie_get (cs ! ?i) key = trie_get t key"
      using trie_get_Branch [OF wf [unfolded Branch], of key] get by (simp add: Branch)
    let ?t' = "Branch (cs[?i := c])"
    have wf': "trie_wf hb depth ?t'"
      by (rule trie_wf_update [OF wf [unfolded Branch] c(2)]) (auto simp: c(3) split: if_splits)
    have "trie_get ?t' j = ((trie_get t)(key := rebind (trie_get t key))) j" for j
    proof -
      have "trie_get t j = trie_get (cs ! slot (stable_hash (hb j)) depth) j"
        using trie_get_Branch [OF wf [unfolded Branch], of j] get Branch by simp
      then show ?thesis
        unfolding trie_get_Branch [OF wf', of j] using c(3) here i
        by (cases "slot (stable_hash (hb j)) depth = ?i") auto
    qed
    then show ?thesis
      using wf' c(1) i here by (auto simp: bucket_mut.simps [of hb f t] Branch)
  qed
qed

end

interpretation hm_insert: bucket_op k "hash_map_insert k v" "\<lambda>_. Some v" "\<lambda>old. old" for k v
  by unfold_locales (simp_all add: hash_map_insert_def distinct_update update_conv')

interpretation hm_remove: bucket_op k "hash_map_remove k" "\<lambda>_. None" "\<lambda>old. old" for k
  by unfold_locales (simp_all add: hash_map_remove_def distinct_delete delete_conv')

interpretation hm_modify: bucket_op k "hash_map_modify k f" "map_option f" "\<lambda>old. old" for k f
  by unfold_locales
     (auto simp: hash_map_modify_def distinct_update update_conv' fun_eq_iff split: option.splits)

interpretation hm_entry: bucket_op k "hash_map_entry k g mk f"
    "\<lambda>old. Some (f (case old of None \<Rightarrow> mk | Some v \<Rightarrow> g v))" "\<lambda>old. old" for k g mk f
  by unfold_locales
     (auto simp: hash_map_entry_def distinct_update update_conv' split: option.splits)

section \<open>The map refines a finite map\<close>

lemma distinct_concat_tagged:
  "(\<And>i. i < length xss \<Longrightarrow> distinct (xss ! i) \<and> (\<forall>x\<in>set (xss ! i). g x = off + i)) \<Longrightarrow> distinct (concat xss)"
proof (induction xss arbitrary: off)
  case (Cons xs xss)
  have here: "distinct xs" "\<And>x. x \<in> set xs \<Longrightarrow> g x = off"
    using Cons.prems [of 0] by auto
  have rest: "distinct (xss ! i) \<and> (\<forall>x\<in>set (xss ! i). g x = Suc off + i)" if "i < length xss" for i
    using Cons.prems [of "Suc i"] that by auto
  have "distinct (concat xss)" using Cons.IH [of "Suc off"] rest by auto
  moreover have "g x \<noteq> off" if mem: "x \<in> set (concat xss)" for x
  proof -
    obtain ys where ys: "ys \<in> set xss" "x \<in> set ys" using mem by auto
    then obtain i where "i < length xss" "ys = xss ! i" by (metis in_set_conv_nth)
    then show ?thesis using rest [of i] ys(2) by simp
  qed
  ultimately show ?case using here by auto
qed simp

lemma trie_entries_distinct: "trie_wf hb depth t \<Longrightarrow> distinct (map fst (trie_entries t))"
proof (induction t arbitrary: depth)
  case (Branch cs)
  note len = trie_wf_length [OF Branch.prems]
  have "distinct (concat (map (\<lambda>c. map fst (trie_entries c)) cs))"
  proof (rule distinct_concat_tagged [where g = "\<lambda>k. slot (stable_hash (hb k)) depth" and off = 0])
    fix i
    assume "i < length (map (\<lambda>c. map fst (trie_entries c)) cs)"
    then have i: "i < length cs" "i < 16" using len by simp_all
    have "slot (stable_hash (hb k)) depth = i" if "k \<in> fst ` set (trie_entries (cs ! i))" for k
      using trie_wf_slot [OF Branch.prems i(2), of k] that by (auto simp: map_of_eq_None_iff)
    then show "distinct (map (\<lambda>c. map fst (trie_entries c)) cs ! i)
        \<and> (\<forall>k\<in>set (map (\<lambda>c. map fst (trie_entries c)) cs ! i). slot (stable_hash (hb k)) depth = 0 + i)"
      using Branch.IH [OF nth_mem [OF i(1)] trie_wf_child [OF Branch.prems i(2)]] i(1) by simp
  qed
  then show ?case by (simp add: map_concat comp_def)
qed simp

lemma trie_entries_card: "trie_wf hb depth t \<Longrightarrow> length (trie_entries t) = card (dom (trie_get t))"
  using trie_entries_distinct [of hb depth t]
  by (metis distinct_card dom_map_of_conv_image_fst length_map set_map)

definition tm_inv :: "('k \<Rightarrow> bytes) \<Rightarrow> ('k, 'v) trie_map \<Rightarrow> bool" where
  "tm_inv hb m \<longleftrightarrow> trie_wf hb 0 (tm_root m)"

text \<open>The abstraction: the bindings of the map.\<close>

definition tm_abs :: "('k, 'v) trie_map \<Rightarrow> 'k \<Rightarrow> 'v option" where
  "tm_abs m = map_of (tm_iter m)"

text \<open>The stored cardinality is exact.\<close>

definition tm_len_ok :: "('k, 'v) trie_map \<Rightarrow> bool" where
  "tm_len_ok m \<longleftrightarrow> tm_len m = card (dom (tm_abs m))"

lemma tm_abs_root: "tm_abs m = trie_get (tm_root m)"
  by (simp add: tm_abs_def tm_iter_def iter_stack_entries)

lemma finite_tm_abs: "finite (dom (tm_abs m))"
  by (simp add: tm_abs_def finite_dom_map_of)

lemma tm_inv_new: "tm_inv hb tm_new" "tm_abs tm_new = Map.empty" "tm_len_ok tm_new"
  by (simp_all add: tm_inv_def tm_new_def tm_abs_root tm_len_ok_def)

lemma tm_get_abs: "tm_inv hb m \<Longrightarrow> tm_get hb m k = Inr (tm_abs m k)"
  using bucket_wf [of hb 0 "tm_root m" k] by (auto simp: tm_inv_def tm_get_def tm_abs_root)

lemma tm_insert_abs:
  assumes "tm_inv hb m"
  obtains m' where "tm_insert hb k v m = Inr (m', tm_abs m k)" and "tm_inv hb m'"
    and "tm_abs m' = (tm_abs m)(k \<mapsto> v)"
    and "tm_len m' = (if tm_abs m k = None then sat_add 64 (tm_len m) 1 else tm_len m)"
  using hm_insert.bucket_mut_op [of hb 0 "tm_root m" k v] assms that
  by (auto simp: tm_inv_def tm_insert_def tm_abs_root)

lemma tm_remove_abs:
  assumes "tm_inv hb m"
  obtains m' where "tm_remove hb k m = Inr (m', tm_abs m k)" and "tm_inv hb m'"
    and "tm_abs m' = (tm_abs m)(k := None)"
    and "tm_len m' = (if tm_abs m k \<noteq> None then tm_len m - 1 else tm_len m)"
  using hm_remove.bucket_mut_op [of hb 0 "tm_root m" k] assms that
  by (auto simp: tm_inv_def tm_remove_def tm_abs_root)

lemma tm_get_mut_abs:
  assumes "tm_inv hb m"
  obtains m' where "tm_get_mut hb k f m = Inr (m', tm_abs m k)" and "tm_inv hb m'"
    and "tm_abs m' = (tm_abs m)(k := map_option f (tm_abs m k))" and "tm_len m' = tm_len m"
  using hm_modify.bucket_mut_op [of hb 0 "tm_root m" k f] assms that
  by (auto simp: tm_inv_def tm_get_mut_def tm_abs_root)

lemma tm_entry_abs:
  assumes "tm_inv hb m"
  obtains m' where "tm_entry hb k g mk f m = Inr (m', tm_abs m k)" and "tm_inv hb m'"
    and "tm_abs m' = (tm_abs m)(k \<mapsto> f (case tm_abs m k of None \<Rightarrow> mk | Some v \<Rightarrow> g v))"
    and "tm_len m' = (if tm_abs m k = None then sat_add 64 (tm_len m) 1 else tm_len m)"
  using hm_entry.bucket_mut_op [of hb 0 "tm_root m" k g mk f] assms that
  by (auto simp: tm_inv_def tm_entry_def tm_abs_root)

lemma card_dom_upd:
  "finite (dom m) \<Longrightarrow> card (dom (m(k \<mapsto> v))) = (if m k = None then Suc (card (dom m)) else card (dom m))"
  "finite (dom m) \<Longrightarrow> card (dom (m(k := None))) = (if m k = None then card (dom m) else card (dom m) - 1)"
  by (auto simp: card_Diff_singleton_if domIff card_insert_if)

text \<open>The map as an instance of the keyed-container interface; on well-formed maps no step fails.\<close>

definition tm_ins :: "('k \<Rightarrow> bytes) \<Rightarrow> 'k \<Rightarrow> 'v \<Rightarrow> ('k, 'v) trie_map \<Rightarrow> ('k, 'v) trie_map" where
  "tm_ins hb k v m = (case tm_insert hb k v m of Inr (m', _) \<Rightarrow> m' | Inl _ \<Rightarrow> m)"

definition tm_del :: "('k \<Rightarrow> bytes) \<Rightarrow> 'k \<Rightarrow> ('k, 'v) trie_map \<Rightarrow> ('k, 'v) trie_map" where
  "tm_del hb k m = (case tm_remove hb k m of Inr (m', _) \<Rightarrow> m' | Inl _ \<Rightarrow> m)"

definition tm_lookup :: "('k \<Rightarrow> bytes) \<Rightarrow> ('k, 'v) trie_map \<Rightarrow> 'k \<Rightarrow> 'v option" where
  "tm_lookup hb m k = (case tm_get hb m k of Inr r \<Rightarrow> r | Inl _ \<Rightarrow> None)"

lemma tm_ins_abs: "tm_inv hb m \<Longrightarrow> tm_inv hb (tm_ins hb k v m) \<and> tm_abs (tm_ins hb k v m) = (tm_abs m)(k \<mapsto> v)"
  by (rule tm_insert_abs [of hb m k v]) (auto simp: tm_ins_def)

lemma tm_del_abs: "tm_inv hb m \<Longrightarrow> tm_inv hb (tm_del hb k m) \<and> tm_abs (tm_del hb k m) = (tm_abs m)(k := None)"
  by (rule tm_remove_abs [of hb m k]) (auto simp: tm_del_def)

lemma tm_lookup_abs: "tm_inv hb m \<Longrightarrow> tm_lookup hb m = tm_abs m"
  by (simp add: tm_lookup_def tm_get_abs fun_eq_iff)

interpretation tm: map_spec tm_new "tm_lookup hb" "tm_ins hb" "tm_del hb" "tm_inv hb" for hb
  by unfold_locales (simp_all add: tm_lookup_abs tm_inv_new tm_ins_abs tm_del_abs)

lemma tm_from_iter_fold:
  "tm_inv hb m \<Longrightarrow> fold (\<lambda>(k, v) r. rbind r (\<lambda>m. rbind (tm_insert hb k v m) (\<lambda>(m', old). Inr m'))) kvs (Inr m)
     = Inr (fold (\<lambda>(k, v). tm_ins hb k v) kvs m)"
proof (induction kvs arbitrary: m)
  case (Cons kv kvs)
  obtain k v where kv: "kv = (k, v)" by (cases kv)
  obtain m' where "tm_insert hb k v m = Inr (m', tm_abs m k)" "tm_inv hb m'"
    by (rule tm_insert_abs [OF Cons.prems, of k v])
  then show ?case using Cons.IH [of m'] by (simp add: kv tm_ins_def)
qed simp

section \<open>Properties\<close>

text \<open>
  C26. The hash trie is a map with an exact cardinality, whatever the hash of the keys, colliding
  ones included: no operation meets an invalid branch, lookups after each operation are those of
  the abstract map, each operation answers with the old binding, and below \<open>2 ^ 64\<close>
  entries the stored length is the number of keys. Splitting a full bucket is invisible.
\<close>

theorem hash_trie_refines_map:
  assumes "tm_inv hb m" and "tm_len_ok m" and "card (dom (tm_abs m)) < umax 64"
  shows "tm_get hb m j = Inr (tm_abs m j)
    \<and> (\<exists>m'. tm_insert hb k v m = Inr (m', tm_abs m k) \<and> tm_inv hb m' \<and> tm_len_ok m'
          \<and> tm_abs m' = (tm_abs m)(k \<mapsto> v))
    \<and> (\<exists>m'. tm_remove hb k m = Inr (m', tm_abs m k) \<and> tm_inv hb m' \<and> tm_len_ok m'
          \<and> tm_abs m' = (tm_abs m)(k := None))
    \<and> (\<exists>m'. tm_get_mut hb k f m = Inr (m', tm_abs m k) \<and> tm_inv hb m' \<and> tm_len_ok m'
          \<and> tm_abs m' = (tm_abs m)(k := map_option f (tm_abs m k)))
    \<and> (\<exists>m'. tm_entry hb k g mk f m = Inr (m', tm_abs m k) \<and> tm_inv hb m' \<and> tm_len_ok m'
          \<and> tm_abs m' = (tm_abs m)(k \<mapsto> f (case tm_abs m k of None \<Rightarrow> mk | Some v \<Rightarrow> g v)))"
proof (intro conjI)
  have n: "tm_len m = card (dom (tm_abs m))" using assms(2) by (simp add: tm_len_ok_def)
  have succ: "sat_add 64 (tm_len m) 1 = Suc (card (dom (tm_abs m)))"
    using assms(3) by (simp add: n sat_add_def)
  note card = card_dom_upd [OF finite_tm_abs [of m]]
  show "tm_get hb m j = Inr (tm_abs m j)" by (rule tm_get_abs [OF assms(1)])
  show "\<exists>m'. tm_insert hb k v m = Inr (m', tm_abs m k) \<and> tm_inv hb m' \<and> tm_len_ok m'
      \<and> tm_abs m' = (tm_abs m)(k \<mapsto> v)"
    by (rule tm_insert_abs [OF assms(1), of k v]) (use succ n card in \<open>auto simp: tm_len_ok_def\<close>)
  show "\<exists>m'. tm_remove hb k m = Inr (m', tm_abs m k) \<and> tm_inv hb m' \<and> tm_len_ok m'
      \<and> tm_abs m' = (tm_abs m)(k := None)"
    by (rule tm_remove_abs [OF assms(1), of k]) (use n card in \<open>auto simp: tm_len_ok_def\<close>)
  show "\<exists>m'. tm_get_mut hb k f m = Inr (m', tm_abs m k) \<and> tm_inv hb m' \<and> tm_len_ok m'
      \<and> tm_abs m' = (tm_abs m)(k := map_option f (tm_abs m k))"
    by (rule tm_get_mut_abs [OF assms(1), of k f])
       (use n card in \<open>cases "tm_abs m k"; auto simp: tm_len_ok_def\<close>)
  show "\<exists>m'. tm_entry hb k g mk f m = Inr (m', tm_abs m k) \<and> tm_inv hb m' \<and> tm_len_ok m'
      \<and> tm_abs m' = (tm_abs m)(k \<mapsto> f (case tm_abs m k of None \<Rightarrow> mk | Some v \<Rightarrow> g v))"
    by (rule tm_entry_abs [OF assms(1), of k g mk f]) (use succ n card in \<open>auto simp: tm_len_ok_def\<close>)
qed

theorem hash_trie_refines_map_witness:
  "tm_get (\<lambda>_. []) (tm_new :: (nat, nat) trie_map) 5 = Inr None
   \<and> (\<exists>m'. tm_insert (\<lambda>_. []) (5::nat) (7::nat) tm_new = Inr (m', None) \<and> tm_abs m' = [5 \<mapsto> 7])"
  using hash_trie_refines_map [OF tm_inv_new(1,3), where j = "5::nat" and k = "5::nat" and v = "7::nat"
      and hb = "\<lambda>_. []" and f = id and g = id and mk = 0]
  by (auto simp: tm_inv_new)

text \<open>
  Building a map from pairs keeps the last value of each key, and the traversal of a
  well-formed map visits each binding exactly once.
\<close>

theorem hash_trie_traversal:
  "\<exists>m. tm_from_iter hb kvs = Inr m \<and> tm_abs m = map_of (rev kvs)
     \<and> distinct (map fst (tm_iter m)) \<and> set (tm_iter m) = {(k, v). tm_abs m k = Some v}"
proof -
  let ?m = "fold (\<lambda>(k, v). tm_ins hb k v) kvs tm_new"
  have eq: "tm_from_iter hb kvs = Inr ?m"
    unfolding tm_from_iter_def by (rule tm_from_iter_fold [OF tm_inv_new(1)])
  have inv: "tm_inv hb ?m" by (rule tm.inv_fold_ins [OF tm_inv_new(1)])
  have dist: "distinct (map fst (tm_iter ?m))"
    using inv by (simp add: tm_inv_def tm_iter_def iter_stack_entries trie_entries_distinct)
  then have "set (tm_iter ?m) = {(k, v). tm_abs ?m k = Some v}"
    by (auto simp: tm_abs_def map_of_eq_Some_iff)
  then show ?thesis
    using eq dist tm.get_from_iter [of hb kvs] tm_lookup_abs [OF inv] by auto
qed

end
