(* ===== verification/OpModel.thy ===== *)
theory OpModel
  imports Ids
begin

unbundle bit_operations_syntax

text \<open>
  The operation envelope and its payloads (\<open>editchain-core/src/op.rs\<close>,
  \<open>payload.rs\<close>, \<open>clock.rs\<close>, \<open>tags.rs\<close>, \<open>parents.rs\<close>, \<open>scope.rs\<close>,
  \<open>git.rs\<close>). Each struct is a record and each enum a datatype with the constructors of
  the source; record kinds that the schema-three model embeds (\<open>Operation\<close>) are a type
  parameter \<open>'a\<close> of \<open>op_kind\<close>, closed in the theory of activities. \<open>'i\<close> is the
  identity type, as in the sources, which share the layout between legacy addresses and
  canonical identities.
\<close>

section \<open>Payloads\<close>

datatype content_id = LocalContent node_id u64 | Hash128 bytes | Hash256 bytes

record blob_ref =
  blob_id :: content_id
  blob_len :: u32

datatype payload = EmptyPayload | Inline bytes | BlobPayload blob_ref

definition payload_is_empty :: "payload \<Rightarrow> bool" where
  "payload_is_empty p \<longleftrightarrow> p = EmptyPayload"

definition payload_len :: "payload \<Rightarrow> nat option" where
  "payload_len p = (case p of
       EmptyPayload \<Rightarrow> Some 0
     | Inline b \<Rightarrow> Some (length b)
     | BlobPayload r \<Rightarrow> Some (unat (blob_len r)))"

section \<open>Clocks\<close>

datatype clock = NoClock | Lamport u64 | UnixMs u64 | Hybrid (hybrid_ms: u64) (hybrid_ctr: u16)

definition clock_observed_unix_ms :: "clock \<Rightarrow> u64 option" where
  "clock_observed_unix_ms c = (case c of
       NoClock \<Rightarrow> None
     | Lamport _ \<Rightarrow> None
     | UnixMs ms \<Rightarrow> if ms = 0 then None else Some ms
     | Hybrid ms _ \<Rightarrow> if ms = 0 then None else Some ms)"

definition clock_as_u64 :: "clock \<Rightarrow> u64" where
  "clock_as_u64 c = (case c of NoClock \<Rightarrow> 0 | Lamport v \<Rightarrow> v | UnixMs v \<Rightarrow> v | Hybrid ms _ \<Rightarrow> ms)"

definition clock_sub :: "clock \<Rightarrow> u16" where
  "clock_sub c = (case c of Hybrid _ ctr \<Rightarrow> ctr | _ \<Rightarrow> 0)"

section \<open>Tags\<close>

datatype tags = Tags (tag_bits: u64)

definition tag_bit :: "nat \<Rightarrow> tags" where
  "tag_bit n = Tags (push_bit n 1)"

definition tags_none :: tags where "tags_none = Tags 0"
definition tags_import :: tags where "tags_import = tag_bit 6"
definition tags_private :: tags where "tags_private = tag_bit 10"
definition tags_source_time_unknown :: tags where "tags_source_time_unknown = tag_bit 15"

definition matches_any :: "tags \<Rightarrow> tags \<Rightarrow> bool" where
  "matches_any t f \<longleftrightarrow> tag_bits t AND tag_bits f \<noteq> 0"

definition matches_all :: "tags \<Rightarrow> tags \<Rightarrow> bool" where
  "matches_all t f \<longleftrightarrow> tag_bits t AND tag_bits f = tag_bits f"

definition tags_bitor :: "tags \<Rightarrow> tags \<Rightarrow> tags" where
  "tags_bitor a b = Tags (tag_bits a OR tag_bits b)"

text \<open>\<open>impl Display for Tags\<close>: the names of the set bits, joined by a bar.\<close>

definition tag_names :: "(nat \<times> string) list" where
  "tag_names = zip [0..<17] [''agent'', ''human'', ''file'', ''message'', ''tool'', ''command'',
     ''import'', ''reflection'', ''note'', ''error'', ''private'', ''large_payload'', ''meta'',
     ''structural'', ''diagnostic'', ''source_time_unknown'', ''inferred'']"

fun join_names :: "string list \<Rightarrow> string" where
  "join_names [] = ''none''"
| "join_names [n] = n"
| "join_names (n # ns) = n @ CHR ''|'' # join_names ns"

definition tags_display :: "tags \<Rightarrow> string" where
  "tags_display t = join_names (map snd (filter (\<lambda>(b, _). matches_any t (tag_bit b)) tag_names))"

section \<open>Parents and scopes\<close>

datatype 'i parent_set = NoParent | OneParent 'i | TwoParents 'i 'i

text \<open>\<open>ParentIter::next\<close>: the element at the iterator's index and the index after it.\<close>

definition parent_next :: "'i parent_set \<Rightarrow> nat \<Rightarrow> 'i option \<times> nat" where
  "parent_next ps index = (case ps of
       NoParent \<Rightarrow> (None, index)
     | OneParent a \<Rightarrow> if index = 0 then (Some a, 1) else (None, index)
     | TwoParents a b \<Rightarrow> if index = 0 then (Some a, 1) else if index = 1 then (Some b, 2) else (None, index))"

definition parent_list :: "'i parent_set \<Rightarrow> 'i list" where
  "parent_list ps = (case ps of NoParent \<Rightarrow> [] | OneParent a \<Rightarrow> [a] | TwoParents a b \<Rightarrow> [a, b])"

text \<open>The list is what draining the iterator yields.\<close>

lemma parent_next_list:
  "i \<le> length (parent_list ps) \<Longrightarrow> parent_next ps i =
     (if i < length (parent_list ps) then (Some (parent_list ps ! i), Suc i) else (None, i))"
  by (cases ps) (auto simp: parent_next_def parent_list_def numeral_2_eq_2 less_Suc_eq_0_disj)

datatype scope_ref =
  NoScope | ChainScope chain_id | SessionScope session_id | TurnScope turn_id | FileScope path_id

definition scope_discriminant :: "scope_ref \<Rightarrow> u8" where
  "scope_discriminant s = (case s of
     NoScope \<Rightarrow> 0 | ChainScope _ \<Rightarrow> 1 | SessionScope _ \<Rightarrow> 2 | TurnScope _ \<Rightarrow> 3 | FileScope _ \<Rightarrow> 4)"

section \<open>Git identities\<close>

datatype repository_id = RepositoryId (repo_val: u64)

datatype git_object_format = Sha1 | Sha256

text \<open>\<open>GitOid\<close>: 32 bytes, of which SHA-1 uses twenty; the rest are zero (\<open>wf_git_oid\<close>).\<close>

datatype git_oid = GitOid (oid_format: git_object_format) (oid_bytes: bytes)

definition digest_len :: "git_object_format \<Rightarrow> nat" where
  "digest_len f = (case f of Sha1 \<Rightarrow> 20 | Sha256 \<Rightarrow> 32)"

definition git_oid_new :: "git_object_format \<Rightarrow> bytes \<Rightarrow> git_oid option" where
  "git_oid_new f bs = (if f = Sha1 \<and> list_ex (\<lambda>b. b \<noteq> 0) (drop 20 bs) then None else Some (GitOid f bs))"

definition git_oid_from_sha1 :: "bytes \<Rightarrow> git_oid" where
  "git_oid_from_sha1 bs = GitOid Sha1 (bs @ replicate (32 - length bs) 0)"

definition git_oid_from_sha256 :: "bytes \<Rightarrow> git_oid" where
  "git_oid_from_sha256 bs = GitOid Sha256 bs"

definition git_oid_to_hex :: "git_oid \<Rightarrow> string" where
  "git_oid_to_hex oid = concat (map hex_byte (take (digest_len (oid_format oid)) (oid_bytes oid)))"

text \<open>
  \<open>hex_nibble\<close> on one byte of the text; nibbles are below sixteen, so the shift and the
  disjunction that join two of them are \<open>hi * 16 + lo\<close>.
\<close>

definition hex_nibble :: "char \<Rightarrow> nat option" where
  "hex_nibble c =
     (let n = of_char c :: nat in
      if 48 \<le> n \<and> n \<le> 57 then Some (n - 48)
      else if 97 \<le> n \<and> n \<le> 102 then Some (n - 97 + 10)
      else if 65 \<le> n \<and> n \<le> 70 then Some (n - 65 + 10)
      else None)"

fun parse_nibbles :: "string \<Rightarrow> bytes option" where
  "parse_nibbles (a # b # s) =
     (case (hex_nibble a, hex_nibble b) of
        (Some hi, Some lo) \<Rightarrow> map_option (\<lambda>bs. word_of_nat (hi * 16 + lo) # bs) (parse_nibbles s)
      | _ \<Rightarrow> None)"
| "parse_nibbles _ = Some []"

definition git_oid_from_hex :: "string \<Rightarrow> git_oid option" where
  "git_oid_from_hex hex =
     (if length hex = 40 then map_option (\<lambda>bs. GitOid Sha1 (bs @ replicate (32 - length bs) 0)) (parse_nibbles hex)
      else if length hex = 64 then map_option (GitOid Sha256) (parse_nibbles hex)
      else None)"

record git_commit_key =
  key_repository :: repository_id
  key_oid :: git_oid

definition git_key_display :: "git_commit_key \<Rightarrow> string" where
  "git_key_display k = ''git:'' @ show_nat (unat (repo_val (key_repository k))) @ CHR '':'' # git_oid_to_hex (key_oid k)"

text \<open>\<open>str::strip_prefix\<close> and \<open>str::split_once\<close> on one byte.\<close>

definition strip_prefix :: "string \<Rightarrow> string \<Rightarrow> string option" where
  "strip_prefix p s = (if take (length p) s = p then Some (drop (length p) s) else None)"

definition split_once :: "char \<Rightarrow> string \<Rightarrow> (string \<times> string) option" where
  "split_once c s = (if c \<in> set s
     then Some (takeWhile (\<lambda>x. x \<noteq> c) s, tl (dropWhile (\<lambda>x. x \<noteq> c) s)) else None)"

definition git_key_from_display_str :: "string \<Rightarrow> git_commit_key option" where
  "git_key_from_display_str value =
     Option.bind (strip_prefix ''git:'' value) (\<lambda>rest.
     Option.bind (split_once (CHR '':'') rest) (\<lambda>(repository, oid).
     Option.bind (from_str_radix (umax 64) 10 repository) (\<lambda>r.
     Option.bind (git_oid_from_hex oid) (\<lambda>d.
       Some \<lparr>key_repository = RepositoryId (word_of_nat r), key_oid = d\<rparr>))))"

record git_signature =
  sig_name :: payload
  sig_email :: payload
  sig_when :: "64 word"

datatype git_availability = Resolved | ImportedOnly | LiveOnly | MissingFromObjectDatabase

record 'i git_commit_entity =
  gc_repository :: repository_id
  gc_object_format :: git_object_format
  gc_oid :: git_oid
  gc_imported_record :: "'i option"
  gc_availability :: git_availability
  gc_tree :: git_oid
  gc_parents :: "git_oid list"
  gc_author :: git_signature
  gc_committer :: git_signature
  gc_authored_at :: "64 word"
  gc_committed_at :: "64 word"
  gc_message :: payload
  gc_imported_refs :: "payload list"
  gc_live_refs :: "payload list"
  gc_changed_paths :: "path_id list"

definition git_commit_key_of :: "'i git_commit_entity \<Rightarrow> git_commit_key" where
  "git_commit_key_of c = \<lparr>key_repository = gc_repository c, key_oid = gc_oid c\<rparr>"

datatype git_link_kind = BasedOn | Checkpoint | CommittedAs | ProducedBy | Mentions | CustomLink payload

record 'i git_link =
  gl_source :: 'i
  gl_target_repo :: repository_id
  gl_target_oid :: git_oid
  gl_kind :: git_link_kind

section \<open>Operation kinds\<close>

record chain_start =
  cs_name :: bytes
  cs_version :: u16

record actor_op =
  ao_label :: payload
  ao_role :: payload

record session_op =
  so_id :: session_id
  so_parent :: "session_id option"
  so_label :: payload
  so_metadata :: payload

record message_op =
  mo_content :: payload
  mo_content_type :: payload

datatype tool_stage = ToolStart | ToolDelta | ToolFinish

record tool_op =
  to_tool_call_id :: payload
  to_tool_name :: payload
  to_stage :: tool_stage
  to_content :: payload

datatype command_stage = CommandStart | CommandOutput | CommandFinish

record command_op =
  co_command_id :: payload
  co_content :: payload
  co_stage :: command_stage

datatype file_stage = Observed | ProposedStage | AppliedStage | Saved | Deleted

record byte_range =
  br_start :: u64
  br_end :: u64

datatype file_edit = NoEdit | ReplaceBytes byte_range payload | UnifiedDiff payload | BlobEdit blob_ref

record file_op =
  fo_path :: path_id
  fo_stage :: file_stage
  fo_base :: "content_id option"
  fo_after :: "content_id option"
  fo_edit :: file_edit

record frontier =
  fr_node :: node_id
  fr_boot :: u32
  fr_max_seq :: u64

type_synonym frontier_set = "frontier list"

record window_ref =
  wr_start_seq :: u64
  wr_end_seq :: u64

record reflection_op =
  ro_scope :: scope_ref
  ro_covers :: frontier_set
  ro_window :: window_ref
  ro_summary :: payload
  ro_anchors :: payload

record import_op =
  io_raw_ref :: payload
  io_raw_hash :: "bytes option"

datatype note_relationship =
  Corrects | Supersedes | Rejects | Redacts | Explains | ForkOf | SubagentOf | ReconnectsTo
| OccurrenceOf | ProviderParent | LogicalParent | ForkedFrom | SpawnedBy | Contains | ToolResultOf
| ProviderEvidence

record 'i note_op =
  no_target_ids :: "'i list"
  no_relationship :: note_relationship
  no_content :: payload

record error_op =
  eo_code :: payload
  eo_message :: payload

record unknown_op =
  uo_kind_discriminant :: u8
  uo_raw_bytes :: payload

datatype ('i, 'a) op_kind =
  ChainStart chain_start
| Actor actor_op
| Message message_op
| Tool tool_op
| Command command_op
| File file_op
| Reflection reflection_op
| Import import_op
| Note "'i note_op"
| Error error_op
| GitCommit "'i git_commit_entity"
| GitLink "'i git_link"
| Unknown unknown_op
| Session session_op
| Activity 'a

record 'a gen_op =
  op_id :: op_id
  op_source :: "source_id option"
  op_parents :: "op_id parent_set"
  op_actor :: actor_id
  op_clock :: clock
  op_scope :: scope_ref
  op_tags :: tags
  op_op_kind :: "(op_id, 'a) op_kind"

definition gen_op_new ::
  "op_id \<Rightarrow> op_id parent_set \<Rightarrow> actor_id \<Rightarrow> clock \<Rightarrow> scope_ref \<Rightarrow> tags \<Rightarrow> (op_id, 'a) op_kind \<Rightarrow> 'a gen_op" where
  "gen_op_new i ps ac cl sc tg k = \<lparr>op_id = i, op_source = None, op_parents = ps, op_actor = ac,
     op_clock = cl, op_scope = sc, op_tags = tg, op_op_kind = k\<rparr>"

section \<open>Git identities as text\<close>

definition wf_git_oid :: "git_oid \<Rightarrow> bool" where
  "wf_git_oid oid \<longleftrightarrow> length (oid_bytes oid) = 32
     \<and> (oid_format oid = Sha1 \<longrightarrow> drop 20 (oid_bytes oid) = replicate 12 0)"

lemma hex_nibble_hex_digit: "d < 16 \<Longrightarrow> hex_nibble (hex_digit d) = Some d"
  by (simp add: hex_nibble_def of_char_hex_digit Let_def)

lemma parse_nibbles_hex: "parse_nibbles (concat (map hex_byte bs)) = Some bs"
proof (induction bs)
  case (Cons b bs)
  have "unat b div 16 < 16" "unat b mod 16 < 16"
    using unat_u8_bound [of b] by auto
  then show ?case using Cons by (simp add: hex_nibble_hex_digit)
qed simp

lemma length_hex_bytes: "length (concat (map hex_byte bs)) = 2 * length bs"
  by (induction bs) auto

lemma git_oid_hex_roundtrip:
  assumes "wf_git_oid oid"
  shows "git_oid_from_hex (git_oid_to_hex oid) = Some oid"
proof (cases "oid_format oid")
  case Sha1
  let ?bs = "take 20 (oid_bytes oid)"
  have "length ?bs = 20" "oid_bytes oid = ?bs @ replicate 12 0"
    using assms Sha1 append_take_drop_id [of 20 "oid_bytes oid"] by (simp_all add: wf_git_oid_def)
  then show ?thesis
    using Sha1 parse_nibbles_hex [of ?bs] length_hex_bytes [of ?bs]
    by (cases oid) (simp add: git_oid_from_hex_def git_oid_to_hex_def digest_len_def)
next
  case Sha256
  then show ?thesis
    using assms parse_nibbles_hex [of "oid_bytes oid"] length_hex_bytes [of "oid_bytes oid"]
    by (cases oid) (simp add: git_oid_from_hex_def git_oid_to_hex_def digest_len_def wf_git_oid_def)
qed

lemma parse_nibbles_length: "parse_nibbles s = Some bs \<Longrightarrow> length bs = length s div 2"
  by (induction s arbitrary: bs rule: parse_nibbles.induct) (auto split: option.splits)

lemma git_oid_from_hex_wf: "git_oid_from_hex s = Some oid \<Longrightarrow> wf_git_oid oid"
  by (auto simp: git_oid_from_hex_def wf_git_oid_def dest!: parse_nibbles_length split: if_splits)

lemma takeWhile_colon: "c \<notin> set a \<Longrightarrow> takeWhile (\<lambda>x. x \<noteq> c) (a @ c # b) = a"
  by (induction a) auto

lemma dropWhile_colon: "c \<notin> set a \<Longrightarrow> dropWhile (\<lambda>x. x \<noteq> c) (a @ c # b) = c # b"
  by (induction a) auto

section \<open>Properties\<close>

text \<open>
  Repository-qualified commit keys survive display and parsing, and every object
  identifier parsed from hexadecimal is canonical: 32 bytes with a zero tail for SHA-1, so equal
  displays are equal keys.
\<close>

theorem git_key_roundtrip:
  assumes "wf_git_oid (key_oid k)"
  shows "git_key_from_display_str (git_key_display k) = Some k
    \<and> (git_oid_from_hex s = Some oid \<longrightarrow> wf_git_oid oid \<and> git_oid_new (oid_format oid) (oid_bytes oid) = Some oid)"
proof -
  let ?r = "show_nat (unat (repo_val (key_repository k)))"
  have r: "unat (repo_val (key_repository k)) \<le> umax 64"
    using unat_u64_bound [of "repo_val (key_repository k)"] by simp
  have "split_once (CHR '':'') (?r @ CHR '':'' # git_oid_to_hex (key_oid k)) = Some (?r, git_oid_to_hex (key_oid k))"
    using show_nat_no_colon by (simp add: split_once_def takeWhile_colon dropWhile_colon)
  then have "git_key_from_display_str (git_key_display k) = Some k"
    using r by (simp add: git_key_from_display_str_def git_key_display_def strip_prefix_def
        from_str_radix_show_nat git_oid_hex_roundtrip [OF assms])
  moreover have "git_oid_new (oid_format oid) (oid_bytes oid) = Some oid" if "wf_git_oid oid" for oid
    using that by (auto simp: git_oid_new_def wf_git_oid_def list_ex_iff)
  ultimately show ?thesis using git_oid_from_hex_wf by auto
qed

theorem git_key_roundtrip_witness:
  "git_key_from_display_str (git_key_display \<lparr>key_repository = RepositoryId 7,
     key_oid = git_oid_from_sha1 (replicate 20 0xab)\<rparr>)
   = Some \<lparr>key_repository = RepositoryId 7, key_oid = git_oid_from_sha1 (replicate 20 0xab)\<rparr>"
proof -
  have "wf_git_oid (key_oid \<lparr>key_repository = RepositoryId 7, key_oid = git_oid_from_sha1 (replicate 20 0xab)\<rparr>)"
    by (simp add: wf_git_oid_def git_oid_from_sha1_def)
  from git_key_roundtrip [OF this] show ?thesis by simp
qed

end
