(* ===== verification/ActivityModel.thy ===== *)
theory ActivityModel
  imports OpModel
begin

text \<open>
  Schema three (\<open>editchain-core/src/activity.rs\<close>, \<open>activity/model.rs\<close>,
  \<open>activity/validation.rs\<close>, \<open>activity/fields.rs\<close>): the ten operation types, the
  immutable envelope, structural validation, the store wrapper \<open>Op\<close> and the inventory of
  payloads and content addresses.
\<close>

section \<open>Logical identities\<close>

datatype item_id = ItemId (item_op: op_id)

instantiation item_id :: linorder
begin
definition less_eq_item_id :: "item_id \<Rightarrow> item_id \<Rightarrow> bool" where
  "less_eq_item_id a b \<longleftrightarrow> item_op a \<le> item_op b"
definition less_item_id :: "item_id \<Rightarrow> item_id \<Rightarrow> bool" where
  "less_item_id a b \<longleftrightarrow> item_op a < item_op b"
instance
  by standard (auto simp: less_eq_item_id_def less_item_id_def item_id.expand)
end

text \<open>\<open>ItemId::derive\<close>; a \<open>&str\<close> is the list of its bytes.\<close>

definition str_bytes :: "string \<Rightarrow> bytes" where
  "str_bytes s = map (\<lambda>c. word_of_nat (of_char c)) s"

definition item_derive :: "derive_key \<Rightarrow> string \<Rightarrow> bytes \<Rightarrow> item_id" where
  "item_derive dk namespace native =
     ItemId (OpId (dk ''editchain.logical-item.v1''
       (le_bytes 8 (length namespace) @ str_bytes namespace @ native)))"

definition item_legacy :: "derive_key \<Rightarrow> string \<Rightarrow> u64 \<Rightarrow> item_id" where
  "item_legacy dk kind i = item_derive dk kind (le_bytes 8 (unat i))"

section \<open>The ten operation types\<close>

datatype session_action = SessionStarted | SessionChanged | SessionEnded | SessionSnapshot

record session =
  se_action :: session_action
  se_label :: payload
  se_settings :: payload
  se_participants :: "item_id list"
  se_parent :: "item_id option"
  se_initiated_by :: "op_id option"

datatype turn_action =
  Queued | TurnStarted | Waiting | Resumed | TurnFinished | TurnSnapshot | Removed

datatype status = Success | Failure | Cancelled | UnknownStatus

record completion =
  cp_status :: status
  cp_detail :: payload

record turn =
  tu_action :: turn_action
  tu_triggers :: "op_id list"
  tu_attempt :: item_id
  tu_outcome :: "completion option"

datatype stage = Started | Updated | Finished | Snapshot

datatype update_mode = Append | Replace

record content_update =
  cu_block :: item_id
  cu_position :: "u32 option"
  cu_mode :: update_mode
  cu_previous :: "op_id option"
  cu_media_type :: payload
  cu_content :: payload

datatype message_kind = TextMessage | Reasoning | PlanMessage | Summary

record coverage =
  cv_operations :: "op_id list"
  cv_frontiers :: frontier_set
  cv_window :: "window_ref option"
  cv_anchors :: payload

record message =
  ms_category :: message_kind
  ms_stage :: stage
  ms_audience :: "item_id list"
  ms_blocks :: "content_update list"
  ms_coverage :: "coverage option"
  ms_outcome :: "completion option"

datatype output_channel = ResultChannel | Stdout | Stderr | Combined

record terminal =
  te_command :: payload
  te_cwd :: payload
  te_exit_code :: "32 word option"

record tool =
  tl_native_call :: payload
  tl_name :: payload
  tl_stage :: stage
  tl_attempt :: item_id
  tl_parent_call :: "item_id option"
  tl_arguments :: payload
  tl_channel :: output_channel
  tl_output :: "content_update option"
  tl_terminal :: "terminal option"
  tl_outcome :: "completion option"

record text_edit =
  ed_offset_utf16 :: u64
  ed_length_utf16 :: u64
  ed_text :: payload

text \<open>A position is a line and a UTF-16 column, compared in that order.\<close>

record text_range =
  tr_start :: "u32 \<times> u32"
  tr_end :: "u32 \<times> u32"

datatype file_action =
  OpenFile | CloseFile | ViewFile | ReadFile | CreateFile | ChangeFile | SaveFile | RenameFile
| DeleteFile | SnapshotFile

datatype change_state = ProposedChange | AppliedChange

record file_record =
  fi_action :: file_action
  fi_path :: path_id
  fi_name :: payload
  fi_renamed_to :: "payload option"
  fi_revision :: "item_id option"
  fi_before :: "content_id option"
  fi_after :: "content_id option"
  fi_edit :: file_edit
  fi_text_edits :: "text_edit list"
  fi_change :: "change_state option"
  fi_caused_by :: "item_id option"
  fi_ranges :: "byte_range list"
  fi_text_ranges :: "text_range list"
  fi_duration_ms :: "u64 option"

datatype note_kind = Comment | LabelNote | Correction | ErrorNote | Gap

record note_record =
  nt_category :: note_kind
  nt_targets :: "op_id list"
  nt_items :: "item_id list"
  nt_version :: u32
  nt_content :: payload
  nt_code :: payload

datatype author_role = Person | AgentRole | ToolRole | SystemRole | UnknownRole

record author =
  au_label :: payload
  au_role :: author_role
  au_native_role :: payload
  au_metadata :: payload

datatype entity = OperationEntity op_id | ItemEntity item_id | GitEntity repository_id git_oid

record link_record =
  lk_from :: entity
  lk_relation :: string
  lk_to :: "entity list"
  lk_content :: payload

record native_id =
  nv_kind :: string
  nv_value :: string

record location =
  lo_path :: string
  lo_record :: "u64 option"
  lo_offset :: "u64 option"

record original =
  og_provider :: string
  og_format :: "string option"
  og_native :: "native_id list"
  og_location :: "location option"
  og_bytes :: payload
  og_hash :: "bytes option"

datatype kind =
  KSession session
| KTurn turn
| KMessage message
| KTool tool
| KFile file_record
| KCommit "op_id git_commit_entity"
| KNote note_record
| KAuthor author
| KLink link_record
| KOriginal original

datatype kind_name =
  SessionKind | TurnKind | MessageKind | ToolKind | FileKind | CommitKind | NoteKind | AuthorKind
| LinkKind | OriginalKind

definition kind_name :: "kind \<Rightarrow> kind_name" where
  "kind_name k = (case k of KSession _ \<Rightarrow> SessionKind | KTurn _ \<Rightarrow> TurnKind | KMessage _ \<Rightarrow> MessageKind
     | KTool _ \<Rightarrow> ToolKind | KFile _ \<Rightarrow> FileKind | KCommit _ \<Rightarrow> CommitKind | KNote _ \<Rightarrow> NoteKind
     | KAuthor _ \<Rightarrow> AuthorKind | KLink _ \<Rightarrow> LinkKind | KOriginal _ \<Rightarrow> OriginalKind)"

section \<open>The envelope\<close>

record original_ref =
  or_operation :: op_id
  or_converter :: string

record legacy_mapping =
  lm_operation :: op_id
  lm_folded :: "op_id list"
  lm_source :: "source_id option"
  lm_actor :: actor_id
  lm_clock :: clock
  lm_scope :: scope_ref
  lm_tags :: tags

record operation =
  oid :: op_id
  item :: item_id
  author_id :: "item_id option"
  recorder :: item_id
  session_id :: "item_id option"
  turn_id :: "item_id option"
  time_ms :: "u64 option"
  sequence :: "u64 option"
  parents :: "op_id list"
  causes :: "item_id list"
  original_of :: "original_ref option"
  legacy :: "legacy_mapping option"
  op_kind :: kind

type_synonym op = "operation gen_op"

definition operation_new :: "op_id \<Rightarrow> item_id \<Rightarrow> item_id \<Rightarrow> kind \<Rightarrow> operation" where
  "operation_new i it rc k = \<lparr>oid = i, item = it, author_id = None, recorder = rc, session_id = None,
     turn_id = None, time_ms = None, sequence = None, parents = [], causes = [],
     original_of = None, legacy = None, op_kind = k\<rparr>"

end
