(* ===== verification/ActivityOps.thy ===== *)
theory ActivityOps
  imports ActivityModel
begin

text \<open>
  Operations on schema-three records: structural validation
  (\<open>activity/validation.rs\<close>), the store wrapper and the remapping of physical references
  (\<open>activity.rs\<close>), the causal view of an \<open>Op\<close> (\<open>op.rs\<close>) and the payload
  inventory (\<open>activity/fields.rs\<close>).
\<close>

section \<open>Validation\<close>

datatype validation_error = ValidationError string

definition require :: "bool \<Rightarrow> string \<Rightarrow> validation_error + unit" where
  "require valid msg = require_ok valid (ValidationError msg)"

definition validate_block :: "operation \<Rightarrow> content_update \<Rightarrow> validation_error + unit" where
  "validate_block r b = require (cu_previous b \<noteq> Some (oid r))
     ''content cannot reference itself as its predecessor''"

fun validate_blocks ::
  "operation \<Rightarrow> item_id btree_set \<Rightarrow> content_update list \<Rightarrow> validation_error + unit" where
  "validate_blocks r seen [] = Inr ()"
| "validate_blocks r seen (b # bs) =
     rbind (require (cu_block b \<notin> set seen) ''duplicate message block in one event'') (\<lambda>_.
     rbind (validate_block r b) (\<lambda>_. validate_blocks r (bs_insert (cu_block b) seen) bs))"

definition validate_legacy :: "derive_key \<Rightarrow> operation \<Rightarrow> validation_error + unit" where
  "validate_legacy dk r = (case legacy r of
       None \<Rightarrow> Inr ()
     | Some l \<Rightarrow>
         rbind (require (lm_operation l \<noteq> oid r) ''converted bytes require a new operation ID'') (\<lambda>_.
         require (case lm_source l of None \<Rightarrow> True | Some s \<Rightarrow> source_id_id dk s = lm_operation l)
           ''legacy tuple does not match the old ID''))"

definition validate_turn :: "operation \<Rightarrow> turn \<Rightarrow> validation_error + unit" where
  "validate_turn r t =
     rbind (require (session_id r \<noteq> None) ''turn requires a session'') (\<lambda>_.
     rbind (require (turn_id r = Some (item r)) ''turn envelope must identify the same logical turn'') (\<lambda>_.
     require ((tu_action t = TurnFinished) = (tu_outcome t \<noteq> None))
       ''only finished turns carry completion outcomes''))"

definition validate_message :: "operation \<Rightarrow> message \<Rightarrow> validation_error + unit" where
  "validate_message r m =
     rbind (require (ms_outcome m = None \<or> ms_stage m = Finished) ''message outcome requires finished stage'') (\<lambda>_.
     validate_blocks r [] (ms_blocks m))"

definition validate_tool :: "operation \<Rightarrow> tool \<Rightarrow> validation_error + unit" where
  "validate_tool r t =
     rbind (require ((tl_stage t = Finished) = (tl_outcome t \<noteq> None))
       ''finished tool requires an explicit outcome'') (\<lambda>_.
     rbind (require (tl_parent_call t \<noteq> Some (item r)) ''tool cannot be its own parent call'') (\<lambda>_.
     rbind (case tl_output t of None \<Rightarrow> Inr () | Some b \<Rightarrow> validate_block r b) (\<lambda>_.
     require (case tl_terminal t of None \<Rightarrow> True
              | Some x \<Rightarrow> te_exit_code x = None \<or> tl_stage t = Finished)
       ''exit code requires a finished tool'')))"

definition validate_file :: "file_record \<Rightarrow> validation_error + unit" where
  "validate_file f =
     rbind (require (list_all (\<lambda>x. br_start x \<le> br_end x) (fi_ranges f)) ''reversed byte range'') (\<lambda>_.
     rbind (require (list_all (\<lambda>x. tr_start x \<le> tr_end x) (fi_text_ranges f)) ''reversed UTF-16 range'') (\<lambda>_.
     rbind (case fi_edit f of ReplaceBytes x _ \<Rightarrow> require (br_start x \<le> br_end x) ''reversed replacement range''
            | _ \<Rightarrow> Inr ()) (\<lambda>_.
     rbind (require (fi_action f \<noteq> RenameFile \<or> fi_renamed_to f \<noteq> None) ''rename requires a destination'') (\<lambda>_.
     require (fi_change f = None \<or> fi_action f \<in> {CreateFile, ChangeFile, RenameFile, DeleteFile})
       ''proposed/applied state belongs to a file modification''))))"

definition validate_kind :: "operation \<Rightarrow> validation_error + unit" where
  "validate_kind r = (case op_kind r of
       KTurn t \<Rightarrow> validate_turn r t
     | KMessage m \<Rightarrow> validate_message r m
     | KTool t \<Rightarrow> validate_tool r t
     | KFile f \<Rightarrow> validate_file f
     | KNote n \<Rightarrow> require (0 < nt_version n) ''note content version must be positive''
     | KOriginal o' \<Rightarrow> require (og_provider o' \<noteq> []) ''original provider must be explicit or unknown''
     | KLink l \<Rightarrow> require (lk_relation l \<noteq> []) ''link relation cannot be empty''
     | KSession _ \<Rightarrow> Inr () | KCommit _ \<Rightarrow> Inr () | KAuthor _ \<Rightarrow> Inr ())"

definition validate :: "derive_key \<Rightarrow> operation \<Rightarrow> validation_error + unit" where
  "validate dk r =
     rbind (require (oid r \<notin> set (parents r)) ''operation cannot parent itself'') (\<lambda>_.
     rbind (require (length (bs_extend (parents r) []) = length (parents r)) ''duplicate causal parent'') (\<lambda>_.
     rbind (require (case original_of r of None \<Rightarrow> True
                     | Some o' \<Rightarrow> or_operation o' \<noteq> oid r \<and> or_converter o' \<noteq> [])
              ''invalid original reference'') (\<lambda>_.
     rbind (validate_legacy dk r) (\<lambda>_. validate_kind r))))"

section \<open>The store wrapper\<close>

definition envelope_actor :: "operation \<Rightarrow> actor_id" where
  "envelope_actor r = (case legacy r of None \<Rightarrow> ActorId 0 | Some l \<Rightarrow> lm_actor l)"

definition envelope_clock :: "operation \<Rightarrow> clock" where
  "envelope_clock r = (case legacy r of
       None \<Rightarrow> (case time_ms r of None \<Rightarrow> NoClock | Some t \<Rightarrow> UnixMs t) | Some l \<Rightarrow> lm_clock l)"

definition envelope_scope :: "operation \<Rightarrow> scope_ref" where
  "envelope_scope r = (case legacy r of None \<Rightarrow> NoScope | Some l \<Rightarrow> lm_scope l)"

definition envelope_tags :: "operation \<Rightarrow> tags" where
  "envelope_tags r = (case legacy r of None \<Rightarrow> tags_none | Some l \<Rightarrow> lm_tags l)"

definition matches_envelope :: "operation \<Rightarrow> op \<Rightarrow> bool" where
  "matches_envelope r p \<longleftrightarrow>
     op_id p = oid r \<and> op_source p = None \<and> op_actor p = envelope_actor r
     \<and> op_clock p = envelope_clock r \<and> op_scope p = envelope_scope r \<and> op_tags p = envelope_tags r
     \<and> parent_list (op_parents p) = take 2 (parents r)"

definition parents_of_list :: "op_id list \<Rightarrow> op_id parent_set" where
  "parents_of_list ps = (case ps of [] \<Rightarrow> NoParent | [a] \<Rightarrow> OneParent a | a # b # _ \<Rightarrow> TwoParents a b)"

definition into_op :: "derive_key \<Rightarrow> operation \<Rightarrow> validation_error + op" where
  "into_op dk r = rbind (validate dk r) (\<lambda>_.
     Inr \<lparr>op_id = oid r, op_source = None, op_parents = parents_of_list (parents r),
          op_actor = envelope_actor r, op_clock = envelope_clock r, op_scope = envelope_scope r,
          op_tags = envelope_tags r, op_op_kind = Activity r\<rparr>)"

text \<open>\<open>Op::observed_unix_ms\<close>, \<open>Op::parent_ids\<close> and \<open>Op::causal_parents\<close>.\<close>

definition observed_unix_ms :: "op \<Rightarrow> u64 option" where
  "observed_unix_ms p = (case op_op_kind p of
       Activity r \<Rightarrow> time_ms r
     | _ \<Rightarrow> if matches_any (op_tags p) tags_source_time_unknown then None
            else clock_observed_unix_ms (op_clock p))"

definition causal_parents :: "op \<Rightarrow> op_id list" where
  "causal_parents p = (case op_op_kind p of Activity r \<Rightarrow> parents r | _ \<Rightarrow> parent_list (op_parents p))"

section \<open>Remapping physical references\<close>

definition map_update :: "(op_id \<Rightarrow> op_id) \<Rightarrow> content_update \<Rightarrow> content_update" where
  "map_update f u = u\<lparr>cu_previous := map_option f (cu_previous u)\<rparr>"

definition map_entity :: "(op_id \<Rightarrow> op_id) \<Rightarrow> entity \<Rightarrow> entity" where
  "map_entity f e = (case e of OperationEntity i \<Rightarrow> OperationEntity (f i) | _ \<Rightarrow> e)"

definition map_kind_ids :: "(op_id \<Rightarrow> op_id) \<Rightarrow> kind \<Rightarrow> kind" where
  "map_kind_ids f k = (case k of
       KSession s \<Rightarrow> KSession (s\<lparr>se_initiated_by := map_option f (se_initiated_by s)\<rparr>)
     | KTurn t \<Rightarrow> KTurn (t\<lparr>tu_triggers := map f (tu_triggers t)\<rparr>)
     | KMessage m \<Rightarrow> KMessage (m\<lparr>ms_blocks := map (map_update f) (ms_blocks m),
         ms_coverage := map_option (\<lambda>c. c\<lparr>cv_operations := map f (cv_operations c)\<rparr>) (ms_coverage m)\<rparr>)
     | KTool t \<Rightarrow> KTool (t\<lparr>tl_output := map_option (map_update f) (tl_output t)\<rparr>)
     | KCommit c \<Rightarrow> KCommit (c\<lparr>gc_imported_record := map_option f (gc_imported_record c)\<rparr>)
     | KNote n \<Rightarrow> KNote (n\<lparr>nt_targets := map f (nt_targets n)\<rparr>)
     | KLink l \<Rightarrow> KLink (l\<lparr>lk_from := map_entity f (lk_from l), lk_to := map (map_entity f) (lk_to l)\<rparr>)
     | KFile _ \<Rightarrow> k | KAuthor _ \<Rightarrow> k | KOriginal _ \<Rightarrow> k)"

definition map_operation_ids :: "(op_id \<Rightarrow> op_id) \<Rightarrow> operation \<Rightarrow> operation" where
  "map_operation_ids f r = r\<lparr>oid := f (oid r), parents := map f (parents r),
     original_of := map_option (\<lambda>x. x\<lparr>or_operation := f (or_operation x)\<rparr>) (original_of r),
     op_kind := map_kind_ids f (op_kind r)\<rparr>"

section \<open>Payload inventory\<close>

datatype field =
  LabelField | MetadataField | MessageBlock nat | MediaType nat | SummaryAnchors | CallId | ToolName
| Arguments | OutputField | OutputType | CommandField | Cwd | OutcomeField | PathField | RenamedTo
| EditField | TextEdit nat | ContentField | CodeField | RoleField | GitName bool | GitEmail bool
| GitImportedRef nat | GitLiveRef nat

definition indexed :: "(nat \<Rightarrow> field) \<Rightarrow> payload list \<Rightarrow> (field \<times> payload) list" where
  "indexed f ps = map (\<lambda>(i, p). (f i, p)) (zip [0..<length ps] ps)"

definition outcome_fields :: "completion option \<Rightarrow> (field \<times> payload) list" where
  "outcome_fields c = (case c of None \<Rightarrow> [] | Some r \<Rightarrow> [(OutcomeField, cp_detail r)])"

definition block_fields :: "content_update list \<Rightarrow> (field \<times> payload) list" where
  "block_fields bs = concat (map (\<lambda>(i, b). [(MessageBlock i, cu_content b), (MediaType i, cu_media_type b)])
     (zip [0..<length bs] bs))"

definition edit_fields :: "file_edit \<Rightarrow> (field \<times> payload) list" where
  "edit_fields e = (case e of ReplaceBytes _ p \<Rightarrow> [(EditField, p)] | UnifiedDiff p \<Rightarrow> [(EditField, p)]
     | NoEdit \<Rightarrow> [] | BlobEdit _ \<Rightarrow> [])"

definition fields :: "kind \<Rightarrow> (field \<times> payload) list" where
  "fields k = (case k of
       KSession s \<Rightarrow> [(LabelField, se_label s), (MetadataField, se_settings s)]
     | KTurn t \<Rightarrow> outcome_fields (tu_outcome t)
     | KMessage m \<Rightarrow> block_fields (ms_blocks m)
         @ (case ms_coverage m of None \<Rightarrow> [] | Some c \<Rightarrow> [(SummaryAnchors, cv_anchors c)])
         @ outcome_fields (ms_outcome m)
     | KTool t \<Rightarrow> [(CallId, tl_native_call t), (ToolName, tl_name t), (Arguments, tl_arguments t)]
         @ (case tl_output t of None \<Rightarrow> [] | Some x \<Rightarrow> [(OutputField, cu_content x), (OutputType, cu_media_type x)])
         @ (case tl_terminal t of None \<Rightarrow> [] | Some x \<Rightarrow> [(CommandField, te_command x), (Cwd, te_cwd x)])
         @ outcome_fields (tl_outcome t)
     | KFile f \<Rightarrow> [(PathField, fi_name f)]
         @ (case fi_renamed_to f of None \<Rightarrow> [] | Some p \<Rightarrow> [(RenamedTo, p)])
         @ indexed TextEdit (map ed_text (fi_text_edits f))
         @ edit_fields (fi_edit f)
     | KCommit c \<Rightarrow> [(ContentField, gc_message c), (GitName False, sig_name (gc_author c)),
           (GitEmail False, sig_email (gc_author c)), (GitName True, sig_name (gc_committer c)),
           (GitEmail True, sig_email (gc_committer c))]
         @ indexed GitImportedRef (gc_imported_refs c) @ indexed GitLiveRef (gc_live_refs c)
     | KNote n \<Rightarrow> [(ContentField, nt_content n), (CodeField, nt_code n)]
     | KAuthor a \<Rightarrow> [(LabelField, au_label a), (RoleField, au_native_role a), (MetadataField, au_metadata a)]
     | KLink l \<Rightarrow> [(ContentField, lk_content l)]
     | KOriginal x \<Rightarrow> [(ContentField, og_bytes x)])"

text \<open>
  \<open>fields_mut\<close>, with the client's update \<open>g\<close> applied to every payload it hands out.
\<close>

definition upd_outcome :: "(field \<Rightarrow> payload \<Rightarrow> payload) \<Rightarrow> completion option \<Rightarrow> completion option" where
  "upd_outcome g = map_option (\<lambda>r. r\<lparr>cp_detail := g OutcomeField (cp_detail r)\<rparr>)"

definition upd_indexed :: "(nat \<Rightarrow> field) \<Rightarrow> (field \<Rightarrow> payload \<Rightarrow> payload) \<Rightarrow> payload list \<Rightarrow> payload list" where
  "upd_indexed f g ps = map (\<lambda>(i, p). g (f i) p) (zip [0..<length ps] ps)"

definition upd_blocks :: "(field \<Rightarrow> payload \<Rightarrow> payload) \<Rightarrow> content_update list \<Rightarrow> content_update list" where
  "upd_blocks g bs = map (\<lambda>(i, b). b\<lparr>cu_content := g (MessageBlock i) (cu_content b),
      cu_media_type := g (MediaType i) (cu_media_type b)\<rparr>) (zip [0..<length bs] bs)"

definition upd_edits :: "(field \<Rightarrow> payload \<Rightarrow> payload) \<Rightarrow> text_edit list \<Rightarrow> text_edit list" where
  "upd_edits g es = map (\<lambda>(i, e). e\<lparr>ed_text := g (TextEdit i) (ed_text e)\<rparr>) (zip [0..<length es] es)"

definition fields_mut :: "(field \<Rightarrow> payload \<Rightarrow> payload) \<Rightarrow> kind \<Rightarrow> kind" where
  "fields_mut g k = (case k of
       KSession s \<Rightarrow> KSession (s\<lparr>se_label := g LabelField (se_label s), se_settings := g MetadataField (se_settings s)\<rparr>)
     | KTurn t \<Rightarrow> KTurn (t\<lparr>tu_outcome := upd_outcome g (tu_outcome t)\<rparr>)
     | KMessage m \<Rightarrow> KMessage (m\<lparr>ms_blocks := upd_blocks g (ms_blocks m),
         ms_coverage := map_option (\<lambda>c. c\<lparr>cv_anchors := g SummaryAnchors (cv_anchors c)\<rparr>) (ms_coverage m),
         ms_outcome := upd_outcome g (ms_outcome m)\<rparr>)
     | KTool t \<Rightarrow> KTool (t\<lparr>tl_native_call := g CallId (tl_native_call t), tl_name := g ToolName (tl_name t),
         tl_arguments := g Arguments (tl_arguments t),
         tl_output := map_option (\<lambda>x. x\<lparr>cu_content := g OutputField (cu_content x),
            cu_media_type := g OutputType (cu_media_type x)\<rparr>) (tl_output t),
         tl_terminal := map_option (\<lambda>x. x\<lparr>te_command := g CommandField (te_command x), te_cwd := g Cwd (te_cwd x)\<rparr>) (tl_terminal t),
         tl_outcome := upd_outcome g (tl_outcome t)\<rparr>)
     | KFile f \<Rightarrow> KFile (f\<lparr>fi_name := g PathField (fi_name f), fi_renamed_to := map_option (g RenamedTo) (fi_renamed_to f),
         fi_text_edits := upd_edits g (fi_text_edits f),
         fi_edit := (case fi_edit f of ReplaceBytes x p \<Rightarrow> ReplaceBytes x (g EditField p)
            | UnifiedDiff p \<Rightarrow> UnifiedDiff (g EditField p) | NoEdit \<Rightarrow> NoEdit | BlobEdit b \<Rightarrow> BlobEdit b)\<rparr>)
     | KCommit c \<Rightarrow> KCommit (c\<lparr>gc_message := g ContentField (gc_message c),
         gc_author := (gc_author c)\<lparr>sig_name := g (GitName False) (sig_name (gc_author c)),
           sig_email := g (GitEmail False) (sig_email (gc_author c))\<rparr>,
         gc_committer := (gc_committer c)\<lparr>sig_name := g (GitName True) (sig_name (gc_committer c)),
           sig_email := g (GitEmail True) (sig_email (gc_committer c))\<rparr>,
         gc_imported_refs := upd_indexed GitImportedRef g (gc_imported_refs c),
         gc_live_refs := upd_indexed GitLiveRef g (gc_live_refs c)\<rparr>)
     | KNote n \<Rightarrow> KNote (n\<lparr>nt_content := g ContentField (nt_content n), nt_code := g CodeField (nt_code n)\<rparr>)
     | KAuthor a \<Rightarrow> KAuthor (a\<lparr>au_label := g LabelField (au_label a), au_native_role := g RoleField (au_native_role a),
         au_metadata := g MetadataField (au_metadata a)\<rparr>)
     | KLink l \<Rightarrow> KLink (l\<lparr>lk_content := g ContentField (lk_content l)\<rparr>)
     | KOriginal x \<Rightarrow> KOriginal (x\<lparr>og_bytes := g ContentField (og_bytes x)\<rparr>))"

definition payload_address :: "field \<times> payload \<Rightarrow> (content_id \<times> u32 option) option" where
  "payload_address fp = (case snd fp of BlobPayload b \<Rightarrow> Some (blob_id b, Some (blob_len b)) | _ \<Rightarrow> None)"

definition option_list :: "'a option \<Rightarrow> 'a list" where
  "option_list x = (case x of None \<Rightarrow> [] | Some v \<Rightarrow> [v])"

definition content_addresses :: "kind \<Rightarrow> (content_id \<times> u32 option) list" where
  "content_addresses k =
     List.map_filter payload_address (fields k)
     @ (case k of
          KFile f \<Rightarrow> map (\<lambda>i. (i, None)) (option_list (fi_before f) @ option_list (fi_after f))
            @ (case fi_edit f of BlobEdit b \<Rightarrow> [(blob_id b, Some (blob_len b))] | _ \<Rightarrow> [])
        | _ \<Rightarrow> [])"

text \<open>
  The physical references of a record, in order: its own identity, its causal parents, the
  original it was converted from, and those of its kind. Logical item identities and the old
  address are not among them.
\<close>

definition update_refs :: "content_update \<Rightarrow> op_id list" where
  "update_refs u = option_list (cu_previous u)"

definition entity_refs :: "entity \<Rightarrow> op_id list" where
  "entity_refs e = (case e of OperationEntity i \<Rightarrow> [i] | _ \<Rightarrow> [])"

definition activity_refs :: "kind \<Rightarrow> op_id list" where
  "activity_refs k = (case k of
       KSession s \<Rightarrow> option_list (se_initiated_by s)
     | KTurn t \<Rightarrow> tu_triggers t
     | KMessage m \<Rightarrow> concat (map update_refs (ms_blocks m))
         @ (case ms_coverage m of None \<Rightarrow> [] | Some c \<Rightarrow> cv_operations c)
     | KTool t \<Rightarrow> concat (map update_refs (option_list (tl_output t)))
     | KCommit c \<Rightarrow> option_list (gc_imported_record c)
     | KNote n \<Rightarrow> nt_targets n
     | KLink l \<Rightarrow> concat (map entity_refs (lk_from l # lk_to l))
     | KFile _ \<Rightarrow> [] | KAuthor _ \<Rightarrow> [] | KOriginal _ \<Rightarrow> [])"

definition operation_refs :: "operation \<Rightarrow> op_id list" where
  "operation_refs r = oid r # parents r @ map or_operation (option_list (original_of r)) @ activity_refs (op_kind r)"

section \<open>Lemmas\<close>

lemma length_bs_extend: "length (bs_extend xs []) = card (set xs)"
proof -
  have "increasing (bs_extend xs [])" by (rule increasing_bs_extend) simp
  then have "distinct (bs_extend xs [])" by (rule increasing_distinct)
  then show ?thesis using distinct_card [of "bs_extend xs []"] by simp
qed

lemma unique_iff_distinct: "length (bs_extend xs []) = length xs \<longleftrightarrow> distinct xs"
  using length_bs_extend [of xs] card_distinct [of xs] distinct_card [of xs] by metis

lemma require_Inr: "require b msg = Inr u \<longleftrightarrow> b"
  by (simp add: require_def require_ok_Inr_iff)

lemma parent_list_of_list [simp]: "parent_list (parents_of_list ps) = take 2 ps"
  by (cases ps; cases "tl ps") (auto simp: parents_of_list_def parent_list_def split: list.splits)

lemma parent_list_inject: "parent_list a = parent_list b \<Longrightarrow> a = b"
  by (cases a; cases b) (auto simp: parent_list_def)

text \<open>A valid record neither parents itself nor repeats a parent.\<close>

lemma validate_parents: "validate dk r = Inr u \<Longrightarrow> oid r \<notin> set (parents r) \<and> distinct (parents r)"
  by (auto simp: validate_def rbind_Inr_iff require_Inr unique_iff_distinct)

subsection \<open>Remapping\<close>

lemma map_update_comp: "map_update g (map_update f u) = map_update (g \<circ> f) u"
  by (simp add: map_update_def option.map_comp)

lemma map_entity_comp: "map_entity g (map_entity f e) = map_entity (g \<circ> f) e"
  by (cases e) (simp_all add: map_entity_def)

lemma map_kind_ids_comp: "map_kind_ids g (map_kind_ids f k) = map_kind_ids (g \<circ> f) k"
  by (cases k)
     (simp_all add: map_kind_ids_def option.map_comp comp_def
       map_update_comp [unfolded comp_def] map_entity_comp [unfolded comp_def])

lemma map_update_id: "map_update (\<lambda>x. x) = (\<lambda>u. u)"
  by (simp add: map_update_def option.map_ident fun_eq_iff)

lemma map_entity_id: "map_entity (\<lambda>x. x) = (\<lambda>e. e)"
  by (auto simp: map_entity_def fun_eq_iff split: entity.splits)

lemma map_kind_ids_id: "map_kind_ids (\<lambda>x. x) k = k"
  by (cases k)
     (simp_all add: map_kind_ids_def option.map_ident map_update_id map_entity_id)

lemma map_operation_ids_sel [simp]:
  "oid (map_operation_ids f r) = f (oid r)" "item (map_operation_ids f r) = item r"
  "session_id (map_operation_ids f r) = session_id r" "turn_id (map_operation_ids f r) = turn_id r"
  "parents (map_operation_ids f r) = map f (parents r)" "legacy (map_operation_ids f r) = legacy r"
  "op_kind (map_operation_ids f r) = map_kind_ids f (op_kind r)"
  by (simp_all add: map_operation_ids_def)

lemma set_option_list [simp]: "set (option_list x) = set_option x"
  by (cases x) (simp_all add: option_list_def)

lemma map_option_list: "option_list (map_option f x) = map f (option_list x)"
  by (cases x) (simp_all add: option_list_def)

lemma update_refs_map [simp]: "update_refs (map_update f u) = map f (update_refs u)"
  by (simp add: update_refs_def map_update_def map_option_list)

lemma entity_refs_map [simp]: "entity_refs (map_entity f e) = map f (entity_refs e)"
  by (cases e) (simp_all add: entity_refs_def map_entity_def)

lemma activity_refs_map: "activity_refs (map_kind_ids f k) = map f (activity_refs k)"
  by (cases k)
     (simp_all add: activity_refs_def map_kind_ids_def map_option_list map_concat comp_def split: option.split)

lemma operation_refs_map: "operation_refs (map_operation_ids f r) = map f (operation_refs r)"
  by (simp add: operation_refs_def activity_refs_map)
     (simp add: map_operation_ids_def map_option_list)

text \<open>Nothing but the references is read from the mapping.\<close>

lemma map_update_cong: "(\<And>i. i \<in> set (update_refs u) \<Longrightarrow> f i = g i) \<Longrightarrow> map_update f u = map_update g u"
  by (cases "cu_previous u") (simp_all add: map_update_def update_refs_def)

lemma map_entity_cong: "(\<And>i. i \<in> set (entity_refs e) \<Longrightarrow> f i = g i) \<Longrightarrow> map_entity f e = map_entity g e"
  by (cases e) (simp_all add: map_entity_def entity_refs_def)

lemma map_kind_ids_cong:
  assumes "\<And>i. i \<in> set (activity_refs k) \<Longrightarrow> f i = g i"
  shows "map_kind_ids f k = map_kind_ids g k"
proof (cases k)
  case (KMessage m)
  have "map_update f u = map_update g u" if "u \<in> set (ms_blocks m)" for u
    using assms that by (intro map_update_cong) (auto simp: KMessage activity_refs_def)
  moreover have "map f (cv_operations c) = map g (cv_operations c)" if "ms_coverage m = Some c" for c
    using assms that by (auto simp: KMessage activity_refs_def)
  ultimately show ?thesis
    by (cases "ms_coverage m") (simp_all add: KMessage map_kind_ids_def cong: map_cong)
next
  case (KTool t)
  then have "map_update f u = map_update g u" if "tl_output t = Some u" for u
    using assms that by (intro map_update_cong) (auto simp: activity_refs_def)
  then show ?thesis by (cases "tl_output t") (simp_all add: KTool map_kind_ids_def)
next
  case (KLink l)
  have "map_entity f e = map_entity g e" if "e \<in> set (lk_from l # lk_to l)" for e
    using assms that by (intro map_entity_cong) (auto simp: KLink activity_refs_def)
  then show ?thesis by (simp add: KLink map_kind_ids_def cong: map_cong)
next
  case (KSession x)
  then show ?thesis using assms by (cases "se_initiated_by x") (simp_all add: activity_refs_def map_kind_ids_def)
next
  case (KTurn t)
  then have "map f (tu_triggers t) = map g (tu_triggers t)" using assms by (simp add: activity_refs_def)
  then show ?thesis by (simp add: KTurn map_kind_ids_def)
next
  case (KCommit c)
  then show ?thesis using assms by (cases "gc_imported_record c") (simp_all add: activity_refs_def map_kind_ids_def)
next
  case (KNote n)
  then have "map f (nt_targets n) = map g (nt_targets n)" using assms by (simp add: activity_refs_def)
  then show ?thesis by (simp add: KNote map_kind_ids_def)
qed (simp_all add: map_kind_ids_def)

lemma map_operation_ids_eq_iff:
  "map_operation_ids f r = map_operation_ids g r \<longleftrightarrow> (\<forall>i\<in>set (operation_refs r). f i = g i)"
proof
  assume "map_operation_ids f r = map_operation_ids g r"
  then have "map f (operation_refs r) = map g (operation_refs r)" by (metis operation_refs_map)
  then show "\<forall>i\<in>set (operation_refs r). f i = g i" by simp
next
  assume eq: "\<forall>i\<in>set (operation_refs r). f i = g i"
  then have "map_kind_ids f (op_kind r) = map_kind_ids g (op_kind r)"
    by (intro map_kind_ids_cong) (simp add: operation_refs_def)
  moreover have "map f (parents r) = map g (parents r)" "f (oid r) = g (oid r)"
    using eq by (simp_all add: operation_refs_def)
  moreover have "f (or_operation x) = g (or_operation x)" if "original_of r = Some x" for x
    using eq that by (simp add: operation_refs_def)
  ultimately show "map_operation_ids f r = map_operation_ids g r"
    by (cases "original_of r") (simp_all add: map_operation_ids_def)
qed

text \<open>A mapping that is injective on the references keeps every comparison of validation.\<close>

lemma validate_block_map:
  "inj_on f S \<Longrightarrow> oid r \<in> S \<Longrightarrow> set (update_refs b) \<subseteq> S \<Longrightarrow>
     validate_block (map_operation_ids f r) (map_update f b) = validate_block r b"
  by (cases "cu_previous b") (auto simp: validate_block_def map_update_def update_refs_def inj_on_eq_iff)

lemma cu_block_map [simp]: "cu_block (map_update f b) = cu_block b"
  by (simp add: map_update_def)

lemma validate_blocks_map:
  "inj_on f S \<Longrightarrow> oid r \<in> S \<Longrightarrow> (\<And>b. b \<in> set bs \<Longrightarrow> set (update_refs b) \<subseteq> S) \<Longrightarrow>
     validate_blocks (map_operation_ids f r) seen (map (map_update f) bs) = validate_blocks r seen bs"
  by (induction bs arbitrary: seen) (simp_all add: validate_block_map)

lemma validate_tool_map:
  assumes "inj_on f S" and "oid r \<in> S" and "\<And>b. tl_output t = Some b \<Longrightarrow> set (update_refs b) \<subseteq> S"
  shows "validate_tool (map_operation_ids f r) (t\<lparr>tl_output := map_option (map_update f) (tl_output t)\<rparr>)
    = validate_tool r t"
proof -
  have "(case map_option (map_update f) (tl_output t) of None \<Rightarrow> Inr ()
      | Some b \<Rightarrow> validate_block (map_operation_ids f r) b)
    = (case tl_output t of None \<Rightarrow> Inr () | Some b \<Rightarrow> validate_block r b)"
    using validate_block_map [OF assms(1,2)] assms(3) by (cases "tl_output t") auto
  then show ?thesis by (simp add: validate_tool_def cong: option.case_cong)
qed

lemma validate_kind_map:
  assumes "inj_on f (set (operation_refs r))"
  shows "validate_kind (map_operation_ids f r) = validate_kind r"
proof (cases "op_kind r")
  case (KMessage m)
  have "set (update_refs b) \<subseteq> set (operation_refs r)" if "b \<in> set (ms_blocks m)" for b
    using that by (auto simp: operation_refs_def activity_refs_def KMessage)
  with validate_blocks_map [OF assms] show ?thesis
    by (simp add: KMessage validate_kind_def map_kind_ids_def validate_message_def operation_refs_def)
next
  case (KTool t)
  have "set (update_refs b) \<subseteq> set (operation_refs r)" if "tl_output t = Some b" for b
    using that by (auto simp: operation_refs_def activity_refs_def KTool)
  with validate_tool_map [OF assms, of r t] show ?thesis
    by (simp add: KTool validate_kind_def map_kind_ids_def operation_refs_def)
qed (simp_all add: validate_kind_def map_kind_ids_def validate_turn_def)

lemma fields_map_kind_ids: "fields (map_kind_ids f k) = fields k \<and> kind_name (map_kind_ids f k) = kind_name k"
proof (cases k)
  case (KMessage m)
  have "block_fields (map (map_update f) bs) = block_fields bs" for bs
    unfolding block_fields_def zip_map2 length_map by (simp add: comp_def case_prod_beta' map_update_def)
  then show ?thesis
    by (simp add: KMessage fields_def kind_name_def map_kind_ids_def split: option.split)
next
  case (KTool t)
  then show ?thesis
    by (simp add: fields_def kind_name_def map_kind_ids_def map_update_def split: option.split)
qed (simp_all add: fields_def kind_name_def map_kind_ids_def)

subsection \<open>Payload inventory\<close>

lemma zip_map_index: "zip [0..<n] (map f xs) = map (\<lambda>(i, x). (i, f x)) (zip [0..<n] xs)"
  by (simp add: zip_map2)

lemma zip_upt_map_zip:
  "zip [0..<length xs] (map h (zip [0..<length xs] xs)) = map (\<lambda>(i, x). (i, h (i, x))) (zip [0..<length xs] xs)"
  by (rule nth_equalityI) auto

lemma indexed_upd: "indexed f (upd_indexed f g ps) = map (\<lambda>(a, p). (a, g a p)) (indexed f ps)"
  by (simp add: indexed_def upd_indexed_def zip_upt_map_zip comp_def case_prod_beta)

lemma outcome_upd: "outcome_fields (upd_outcome g c) = map (\<lambda>(a, p). (a, g a p)) (outcome_fields c)"
  by (cases c) (simp_all add: outcome_fields_def upd_outcome_def)

lemma blocks_upd: "block_fields (upd_blocks g bs) = map (\<lambda>(a, p). (a, g a p)) (block_fields bs)"
  by (simp add: block_fields_def upd_blocks_def zip_upt_map_zip map_concat comp_def case_prod_beta)

lemma edits_upd: "map ed_text (upd_edits g es) = upd_indexed TextEdit g (map ed_text es)"
  by (simp add: upd_edits_def upd_indexed_def zip_map_index comp_def case_prod_beta)

lemma fst_indexed: "map fst (indexed f ps) = map f [0..<length ps]"
  by (simp add: indexed_def comp_def case_prod_beta flip: map_map [of f fst, unfolded comp_def])

lemma map2_const_snd: "length xs = length ys \<Longrightarrow> map2 (\<lambda>i b. g i) xs ys = map g xs"
  by (induction xs ys rule: list_induct2) auto

lemma fst_blocks:
  "map fst (block_fields bs) = concat (map (\<lambda>i. [MessageBlock i, MediaType i]) [0..<length bs])"
  by (simp add: block_fields_def map_concat comp_def case_prod_beta
      map2_const_snd [unfolded case_prod_beta, of _ _ "\<lambda>i. [MessageBlock i, MediaType i]"])

lemma distinct_blocks: "distinct (concat (map (\<lambda>i. [MessageBlock i, MediaType i]) [0..<n]))"
  by (induction n) auto

lemma distinct_index:
  "distinct (map TextEdit [0..<n])" "distinct (map GitImportedRef [0..<n])" "distinct (map GitLiveRef [0..<n])"
  by (simp_all add: distinct_map inj_on_def)

lemma fields_distinct: "distinct (map fst (fields k))"
proof (cases k)
  case (KMessage m)
  have "set (concat (map (\<lambda>i. [MessageBlock i, MediaType i]) [0..<n])) \<inter> {SummaryAnchors, OutcomeField} = {}" for n
    by auto
  then show ?thesis
    using distinct_blocks
    by (auto simp: KMessage fields_def fst_blocks outcome_fields_def split: option.splits)
next
  case (KFile f)
  then show ?thesis
    by (auto simp: fields_def fst_indexed edit_fields_def distinct_index split: option.splits file_edit.splits)
next
  case (KCommit c)
  then show ?thesis by (auto simp: fields_def fst_indexed distinct_index)
qed (auto simp: fields_def outcome_fields_def split: option.splits)

lemma fields_mut_fields: "fields (fields_mut g k) = map (\<lambda>(a, p). (a, g a p)) (fields k)"
proof (cases k)
  case (KFile f)
  then show ?thesis
    by (cases "fi_edit f"; cases "fi_renamed_to f")
       (simp_all add: fields_def fields_mut_def edits_upd indexed_upd edit_fields_def)
next
  case (KMessage m)
  then show ?thesis
    by (cases "ms_coverage m") (simp_all add: fields_def fields_mut_def blocks_upd outcome_upd)
next
  case (KTool t)
  then show ?thesis
    by (cases "tl_output t"; cases "tl_terminal t") (simp_all add: fields_def fields_mut_def outcome_upd)
qed (simp_all add: fields_def fields_mut_def outcome_upd indexed_upd)

lemma into_op_Inr:
  assumes "into_op dk r = Inr p"
  shows "validate dk r = Inr () \<and> p = \<lparr>op_id = oid r, op_source = None,
      op_parents = parents_of_list (parents r), op_actor = envelope_actor r, op_clock = envelope_clock r,
      op_scope = envelope_scope r, op_tags = envelope_tags r, op_op_kind = Activity r\<rparr>"
  using assms by (auto simp: into_op_def rbind_Inr_iff)

text \<open>The wrapper of a record is determined by the envelope check.\<close>

lemma envelope_unique:
  assumes "into_op dk r = Inr p" and q: "op_op_kind q = Activity r" "matches_envelope r q"
  shows "q = p"
proof -
  have "parent_list (op_parents q) = parent_list (parents_of_list (parents r))"
    using q(2) by (simp add: matches_envelope_def)
  then have "op_parents q = parents_of_list (parents r)" by (rule parent_list_inject)
  then show ?thesis using q into_op_Inr [OF assms(1)] by (simp add: matches_envelope_def)
qed

lemma validate_map:
  assumes "inj_on f (set (operation_refs r))"
    and "\<forall>l. legacy r = Some l \<longrightarrow> (lm_operation l = f (oid r) \<longleftrightarrow> lm_operation l = oid r)"
  shows "validate dk (map_operation_ids f r) = validate dk r"
proof -
  let ?S = "set (operation_refs r)"
  have mem: "oid r \<in> ?S" "set (parents r) \<subseteq> ?S" "\<And>x. original_of r = Some x \<Longrightarrow> or_operation x \<in> ?S"
    by (auto simp: operation_refs_def)
  have "f (or_operation x) = f (oid r) \<longleftrightarrow> or_operation x = oid r" if "original_of r = Some x" for x
    using inj_on_eq_iff [OF assms(1) mem(3) [OF that] mem(1)] .
  then have original: "(case original_of (map_operation_ids f r) of None \<Rightarrow> True
        | Some x \<Rightarrow> or_operation x \<noteq> f (oid r) \<and> or_converter x \<noteq> [])
      = (case original_of r of None \<Rightarrow> True | Some x \<Rightarrow> or_operation x \<noteq> oid r \<and> or_converter x \<noteq> [])"
    by (cases "original_of r") (auto simp: map_operation_ids_def)
  have self: "f (oid r) \<in> set (map f (parents r)) \<longleftrightarrow> oid r \<in> set (parents r)"
    using inj_on_image_mem_iff [OF assms(1) mem(1,2)] by simp
  have unique: "length (bs_extend (map f (parents r)) []) = length (map f (parents r))
      \<longleftrightarrow> length (bs_extend (parents r) []) = length (parents r)"
    unfolding unique_iff_distinct using inj_on_subset [OF assms(1) mem(2)] by (simp add: distinct_map)
  have "validate_legacy dk (map_operation_ids f r) = validate_legacy dk r"
    using assms(2) by (cases "legacy r") (simp_all add: validate_legacy_def)
  then show ?thesis
    unfolding validate_def map_operation_ids_sel original self unique validate_kind_map [OF assms(1)] by simp
qed

section \<open>Properties\<close>

text \<open>
  C27. The store wrapper of a valid schema-three record is faithful: it passes the envelope
  check, its causal parents and observed time are the record's own (more than two parents are
  not truncated), and it is the only wrapper of that record that passes the check.
\<close>

theorem into_op_envelope:
  assumes "into_op dk r = Inr p"
  shows "matches_envelope r p \<and> op_op_kind p = Activity r \<and> causal_parents p = parents r
    \<and> observed_unix_ms p = time_ms r \<and> distinct (causal_parents p) \<and> op_id p \<notin> set (causal_parents p)
    \<and> (\<forall>q. op_op_kind q = Activity r \<and> matches_envelope r q \<longrightarrow> q = p)"
  using into_op_Inr [OF assms] validate_parents [of dk r "()"] envelope_unique [OF assms]
  by (simp add: matches_envelope_def causal_parents_def observed_unix_ms_def)

theorem into_op_envelope_witness:
  "\<exists>p. into_op (\<lambda>_ b. b) (operation_new (OpId [1]) (ItemId (OpId [2])) (ItemId (OpId [3]))
       (KSession \<lparr>se_action = SessionSnapshot, se_label = EmptyPayload, se_settings = EmptyPayload,
          se_participants = [], se_parent = None, se_initiated_by = None\<rparr>)) = Inr p
     \<and> causal_parents p = [] \<and> observed_unix_ms p = None"
proof -
  let ?r = "operation_new (OpId [1]) (ItemId (OpId [2])) (ItemId (OpId [3]))
       (KSession \<lparr>se_action = SessionSnapshot, se_label = EmptyPayload, se_settings = EmptyPayload,
          se_participants = [], se_parent = None, se_initiated_by = None\<rparr>)"
  obtain p where p: "into_op (\<lambda>_ b. b) ?r = Inr p"
    by (simp add: into_op_def validate_def operation_new_def require_def validate_legacy_def validate_kind_def
        bs_extend_def)
  from into_op_envelope [OF p] show ?thesis
    using p by (auto simp: operation_new_def)
qed

text \<open>
  C28. Remapping applies the mapping to every physical reference of a record, in order, and to
  nothing else: two mappings give the same record exactly when they agree on its references, and
  every other field of the envelope, every payload and the kind are kept. It is functorial, so
  staged conversions compose. A mapping that is injective on the references, and that does not
  move the record onto or away from the old address its legacy mapping names (a record without
  one always qualifies), keeps the verdict of validation, error message included.
\<close>

theorem map_operation_ids_functor:
  "operation_refs (map_operation_ids f r) = map f (operation_refs r)
   \<and> (map_operation_ids f r = map_operation_ids g r \<longleftrightarrow> (\<forall>i\<in>set (operation_refs r). f i = g i))
   \<and> (map_operation_ids f r)\<lparr>oid := oid r, parents := parents r, original_of := original_of r, op_kind := op_kind r\<rparr> = r
   \<and> map_option or_converter (original_of (map_operation_ids f r)) = map_option or_converter (original_of r)
   \<and> fields (op_kind (map_operation_ids f r)) = fields (op_kind r)
   \<and> kind_name (op_kind (map_operation_ids f r)) = kind_name (op_kind r)
   \<and> map_operation_ids (\<lambda>x. x) r = r
   \<and> map_operation_ids g (map_operation_ids f r) = map_operation_ids (g \<circ> f) r
   \<and> (inj_on f (set (operation_refs r))
       \<and> (\<forall>l. legacy r = Some l \<longrightarrow> (lm_operation l = f (oid r) \<longleftrightarrow> lm_operation l = oid r))
      \<longrightarrow> validate dk (map_operation_ids f r) = validate dk r)"
proof -
  have laws: "map_operation_ids (\<lambda>x. x) r = r"
    "map_operation_ids g (map_operation_ids f r) = map_operation_ids (g \<circ> f) r"
    "(map_operation_ids f r)\<lparr>oid := oid r, parents := parents r, original_of := original_of r, op_kind := op_kind r\<rparr> = r"
    "map_option or_converter (original_of (map_operation_ids f r)) = map_option or_converter (original_of r)"
    by (cases "original_of r";
        simp add: map_operation_ids_def map_kind_ids_id map_kind_ids_comp option.map_ident)+
  show ?thesis
    using laws operation_refs_map [of f r] map_operation_ids_eq_iff [of f r g] fields_map_kind_ids [of f "op_kind r"]
      validate_map [of f r dk] by simp
qed

theorem map_operation_ids_functor_witness:
  "validate (\<lambda>_ b. b) (map_operation_ids (\<lambda>i. OpId (0 # op_bytes i))
     ((operation_new (OpId [1]) (ItemId (OpId [2])) (ItemId (OpId [3])) (KLink \<lparr>lk_from = OperationEntity (OpId [1]),
        lk_relation = [], lk_to = [], lk_content = EmptyPayload\<rparr>))\<lparr>parents := [OpId [4]]\<rparr>))
   = Inl (ValidationError ''link relation cannot be empty'')
   \<and> operation_refs (map_operation_ids (\<lambda>i. OpId (0 # op_bytes i))
     ((operation_new (OpId [1]) (ItemId (OpId [2])) (ItemId (OpId [3])) (KLink \<lparr>lk_from = OperationEntity (OpId [1]),
        lk_relation = [], lk_to = [], lk_content = EmptyPayload\<rparr>))\<lparr>parents := [OpId [4]]\<rparr>))
   = [OpId [0, 1], OpId [0, 4], OpId [0, 1]]"
proof -
  let ?f = "\<lambda>i. OpId (0 # op_bytes i)"
  let ?r = "(operation_new (OpId [1]) (ItemId (OpId [2])) (ItemId (OpId [3])) (KLink \<lparr>lk_from = OperationEntity (OpId [1]),
        lk_relation = [], lk_to = [], lk_content = EmptyPayload\<rparr>))\<lparr>parents := [OpId [4]]\<rparr>"
  have "inj_on ?f (set (operation_refs ?r))" by (auto intro!: inj_onI simp: op_id.expand)
  moreover have "legacy ?r = None" by (simp add: operation_new_def)
  moreover have "validate (\<lambda>_ b. b) ?r = Inl (ValidationError ''link relation cannot be empty'')"
    by (simp add: validate_def operation_new_def require_def validate_legacy_def validate_kind_def bs_extend_def)
  moreover have "operation_refs ?r = [OpId [1], OpId [4], OpId [1]]"
    by (simp add: operation_refs_def activity_refs_def entity_refs_def option_list_def operation_new_def)
  ultimately show ?thesis
    using map_operation_ids_functor [of ?f ?r "\<lambda>i. i" "\<lambda>_ b. b"] by simp
qed

text \<open>
  The two payload inventories agree: \<open>fields_mut\<close> visits exactly the payloads that
  \<open>fields\<close> lists, each once and under the same address, whatever the client writes; and
  no two payloads of a record share an address.
\<close>

theorem fields_mut_agrees:
  "fields (fields_mut g k) = map (\<lambda>(a, p). (a, g a p)) (fields k)
   \<and> distinct (map fst (fields k)) \<and> kind_name (fields_mut g k) = kind_name k"
  using fields_mut_fields [of g k] fields_distinct [of k]
  by (cases k) (simp_all add: kind_name_def fields_mut_def)

end
