(* ===== verification/Replay.thy ===== *)
theory Replay
  imports ActivityOps "HOL-Library.Option_ord"
begin

text \<open>
  Replay of linked content updates (\<open>editchain-core/src/activity/replay.rs\<close>):
  \<open>StreamState\<close> accepts records in any order and rebuilds one block of one item on demand.
  The walk over predecessors stops because its path grows inside the finite set of updates; the
  walk that collects the parts is a loop without such a guard, so it is a partial function whose
  value is \<open>None\<close> when it does not return, and the theorems show that it does.
  The client's \<open>resolve\<close> is a function from payloads to bytes.
\<close>

section \<open>State\<close>

record content_state =
  st_bytes :: bytes
  st_complete :: bool
  st_finished :: bool
  st_head :: op_id

datatype replay_error =
  InvalidRecord validation_error
| ConflictId op_id
| Ambiguous "op_id list"
| WrongPredecessor op_id
| CycleAt op_id
| Unavailable op_id

type_synonym quarantine_key = "item_id \<times> item_id option"

record stream_state =
  ss_records :: "(op_id, operation) btree_map"
  ss_items :: "(item_id, op_id btree_set) btree_map"
  ss_conflicts :: "op_id btree_set"
  ss_quarantined :: "(quarantine_key, op_id btree_set) btree_map"

definition stream_default :: stream_state where
  "stream_default = \<lparr>ss_records = [], ss_items = [], ss_conflicts = [], ss_quarantined = []\<rparr>"

text \<open>\<open>map.entry(k).or_default().insert(x)\<close> and \<open>map.get(k).into_iter().flatten()\<close>.\<close>

definition entry_insert :: "'k::linorder \<Rightarrow> 'a::linorder \<Rightarrow> ('k, 'a btree_set) btree_map \<Rightarrow> ('k, 'a btree_set) btree_map" where
  "entry_insert k x m = bm_insert k (bs_insert x (case map_of m k of None \<Rightarrow> [] | Some s \<Rightarrow> s)) m"

definition get_flat :: "('k, 'a btree_set) btree_map \<Rightarrow> 'k \<Rightarrow> 'a list" where
  "get_flat m k = (case map_of m k of None \<Rightarrow> [] | Some s \<Rightarrow> s)"

definition quarantine_key :: "operation \<Rightarrow> quarantine_key" where
  "quarantine_key r = (item r, case op_kind r of KTool t \<Rightarrow> Some (tl_attempt t) | _ \<Rightarrow> None)"

definition quarantine :: "operation \<Rightarrow> stream_state \<Rightarrow> stream_state" where
  "quarantine r st = st\<lparr>ss_quarantined := entry_insert (quarantine_key r) (oid r) (ss_quarantined st)\<rparr>"

definition stream_insert :: "derive_key \<Rightarrow> operation \<Rightarrow> stream_state \<Rightarrow> (replay_error + bool) \<times> stream_state" where
  "stream_insert dk r st = (case validate dk r of
       Inl e \<Rightarrow> (Inl (InvalidRecord e), st)
     | Inr _ \<Rightarrow>
         if oid r \<in> set (ss_conflicts st) then (Inl (ConflictId (oid r)), quarantine r st)
         else (case map_of (ss_records st) (oid r) of
             Some existing \<Rightarrow>
               if existing = r then (Inr False, st)
               else
                 let st1 = quarantine existing (st\<lparr>ss_records := bm_remove (oid r) (ss_records st)\<rparr>);
                     st2 = quarantine r st1
                 in (Inl (ConflictId (oid r)), st2\<lparr>ss_conflicts := bs_insert (oid r) (ss_conflicts st2)\<rparr>)
           | None \<Rightarrow>
               (Inr True, st\<lparr>ss_items := entry_insert (item r) (oid r) (ss_items st),
                  ss_records := bm_insert (oid r) r (ss_records st)\<rparr>)))"

section \<open>Reading one block\<close>

definition update :: "operation \<Rightarrow> item_id \<Rightarrow> item_id option \<Rightarrow> content_update option" where
  "update r block attempt = (case op_kind r of
       KMessage m \<Rightarrow> if attempt = None then List.find (\<lambda>u. cu_block u = block) (ms_blocks m) else None
     | KTool t \<Rightarrow> if attempt = Some (tl_attempt t)
         then (case tl_output t of None \<Rightarrow> None | Some u \<Rightarrow> if cu_block u = block then Some u else None)
         else None
     | _ \<Rightarrow> None)"

definition finished :: "operation \<Rightarrow> item_id option \<Rightarrow> bool" where
  "finished r attempt = (case op_kind r of
       KMessage m \<Rightarrow> attempt = None \<and> ms_stage m = Finished
     | KTool t \<Rightarrow> attempt = Some (tl_attempt t) \<and> tl_stage t = Finished
     | _ \<Rightarrow> False)"

type_synonym updates = "(op_id, operation \<times> content_update) btree_map"

definition item_records :: "stream_state \<Rightarrow> item_id \<Rightarrow> operation list" where
  "item_records st it = List.map_filter (map_of (ss_records st)) (get_flat (ss_items st) it)"

definition collect_updates :: "operation list \<Rightarrow> item_id \<Rightarrow> item_id option \<Rightarrow> updates" where
  "collect_updates rs block attempt =
     fold (\<lambda>(k, v). bm_insert k v)
       (List.map_filter (\<lambda>r. map_option (\<lambda>u. (oid r, (r, u))) (update r block attempt)) rs) []"

text \<open>The inner loop of \<open>validate_predecessors\<close>; the result is the path it walked.\<close>

function walk ::
  "op_id btree_set \<Rightarrow> (op_id, operation) btree_map \<Rightarrow> updates \<Rightarrow> op_id btree_set \<Rightarrow> op_id btree_set \<Rightarrow> op_id option
   \<Rightarrow> replay_error + op_id btree_set" where
  "walk conflicts rs us visited path None = Inr path"
| "walk conflicts rs us visited path (Some i) =
     (if i \<in> set conflicts then Inl (ConflictId i)
      else if i \<in> set visited then Inr path
      else case map_of us i of
          None \<Rightarrow> if map_of rs i \<noteq> None then Inl (WrongPredecessor i) else Inr path
        | Some (_, u) \<Rightarrow>
            if i \<in> set path then Inl (CycleAt i)
            else walk conflicts rs us visited (bs_insert i path) (cu_previous u))"
  by pat_completeness auto
termination
proof (relation "measure (\<lambda>(conflicts, rs, us, visited, path, c). card (fst ` set us - set path))", goal_cases)
  case (2 conflicts rs us visited path i v r u)
  then have "i \<in> fst ` set us - set path"
    by (auto dest!: map_of_SomeD intro: rev_image_eqI)
  then have "fst ` set us - insert i (set path) \<subset> fst ` set us - set path" by blast
  then show ?case by (simp add: psubset_card_mono)
qed simp

fun validate_starts ::
  "op_id btree_set \<Rightarrow> (op_id, operation) btree_map \<Rightarrow> updates \<Rightarrow> op_id btree_set \<Rightarrow> op_id list
   \<Rightarrow> replay_error + unit" where
  "validate_starts conflicts rs us visited [] = Inr ()"
| "validate_starts conflicts rs us visited (s # ss) =
     rbind (walk conflicts rs us visited [] (Some s)) (\<lambda>path.
       validate_starts conflicts rs us (bs_extend path visited) ss)"

definition validate_predecessors :: "stream_state \<Rightarrow> updates \<Rightarrow> replay_error + unit" where
  "validate_predecessors st us = validate_starts (ss_conflicts st) (ss_records st) us [] (map fst us)"

fun order_heads ::
  "updates \<Rightarrow> item_id \<Rightarrow> (u64, op_id) btree_map \<Rightarrow> op_id list \<Rightarrow> (u64, op_id) btree_map option" where
  "order_heads us rec ordered [] = Some ordered"
| "order_heads us rec ordered (i # is) = (case map_of us i of
       None \<Rightarrow> None
     | Some (r, u) \<Rightarrow>
         if recorder r \<noteq> rec \<or> cu_mode u \<noteq> Replace \<or> cu_previous u \<noteq> None then None
         else (case sequence r of
             None \<Rightarrow> None
           | Some s \<Rightarrow> if map_of ordered s \<noteq> None then None else order_heads us rec (bm_insert s i ordered) is))"

definition ordered_snapshot :: "updates \<Rightarrow> op_id list \<Rightarrow> op_id option" where
  "ordered_snapshot us heads = (case heads of
       [] \<Rightarrow> None
     | h # _ \<Rightarrow>
         Option.bind (map_of us h) (\<lambda>(r, _).
         Option.bind (order_heads us (recorder r) [] heads) (\<lambda>ordered.
           if ordered = [] then None else Some (snd (last ordered)))))"

partial_function (option) collect_parts ::
  "(payload \<Rightarrow> bytes option) \<Rightarrow> updates \<Rightarrow> op_id option \<Rightarrow> bytes list \<Rightarrow> (replay_error + bytes list \<times> bool) option" where
  "collect_parts resolve us cursor parts = (case cursor of
       None \<Rightarrow> Some (Inr (parts, False))
     | Some i \<Rightarrow> (case map_of us i of
         None \<Rightarrow> Some (Inr (parts, False))
       | Some (_, u) \<Rightarrow>
           if cu_content u = EmptyPayload then Some (Inl (Unavailable i))
           else (case resolve (cu_content u) of
               None \<Rightarrow> Some (Inl (Unavailable i))
             | Some bs \<Rightarrow>
                 if cu_mode u = Replace then Some (Inr (parts @ [bs], True))
                 else collect_parts resolve us (cu_previous u) (parts @ [bs]))))"

declare collect_parts.simps [code]

definition referenced :: "updates \<Rightarrow> op_id btree_set" where
  "referenced us = bs_extend (List.map_filter (\<lambda>(_, _, u). cu_previous u) us) []"

definition heads_of :: "updates \<Rightarrow> op_id list" where
  "heads_of us = filter (\<lambda>i. i \<notin> set (referenced us)) (map fst us)"

text \<open>The head: \<open>None\<close> when there is no update at all.\<close>

definition select_head :: "item_id \<Rightarrow> updates \<Rightarrow> replay_error + op_id option" where
  "select_head it us = (case heads_of us of
       [] \<Rightarrow> if us = [] then Inr None
             else Inl (CycleAt (case us of [] \<Rightarrow> item_op it | e # _ \<Rightarrow> fst e))
     | [h] \<Rightarrow> Inr (Some h)
     | hs \<Rightarrow> (case ordered_snapshot us hs of None \<Rightarrow> Inl (Ambiguous hs) | Some h \<Rightarrow> Inr (Some h)))"

definition content ::
  "stream_state \<Rightarrow> item_id \<Rightarrow> item_id \<Rightarrow> item_id option \<Rightarrow> (payload \<Rightarrow> bytes option)
   \<Rightarrow> (replay_error + content_state option) option" where
  "content st it block attempt resolve =
     (case get_flat (ss_quarantined st) (it, attempt) of
        i # _ \<Rightarrow> Some (Inl (ConflictId i))
      | [] \<Rightarrow>
          let us = collect_updates (item_records st it) block attempt in
          (case rbind (validate_predecessors st us) (\<lambda>_. select_head it us) of
             Inl e \<Rightarrow> Some (Inl e)
           | Inr None \<Rightarrow> Some (Inr None)
           | Inr (Some h) \<Rightarrow>
               map_option (\<lambda>res. rbind res (\<lambda>(parts, complete).
                   Inr (Some \<lparr>st_bytes = concat (rev parts), st_complete = complete,
                     st_finished = list_ex (\<lambda>r. finished r attempt) (item_records st it), st_head = h\<rparr>)))
                 (collect_parts resolve us (Some h) [])))"

section \<open>What the state says of the delivered records\<close>

text \<open>The state after delivering a list of records, whatever each delivery answered.\<close>

definition deliver :: "derive_key \<Rightarrow> operation list \<Rightarrow> stream_state" where
  "deliver dk rs = fold (\<lambda>r st. snd (stream_insert dk r st)) rs stream_default"

abbreviation flat_in :: "'a \<Rightarrow> ('k, 'a btree_set) btree_map \<Rightarrow> 'k \<Rightarrow> bool" where
  "flat_in x m k \<equiv> x \<in> set (get_flat m k)"

definition flat_wf :: "('k::linorder, 'a::linorder btree_set) btree_map \<Rightarrow> bool" where
  "flat_wf m \<longleftrightarrow> bm_wf m \<and> (\<forall>k. increasing (get_flat m k))"

lemma flat_wf_insert: "flat_wf m \<Longrightarrow> flat_wf (entry_insert k x m)"
  by (auto simp: flat_wf_def entry_insert_def get_flat_def bm_wf_insert increasing_bs_insert split: option.splits)

lemma set_get_flat_insert:
  "flat_wf m \<Longrightarrow> set (get_flat (entry_insert k x m) k') = (if k' = k then insert x (set (get_flat m k')) else set (get_flat m k'))"
proof -
  assume "flat_wf m"
  then have "bm_wf m" by (simp add: flat_wf_def)
  then show ?thesis
    unfolding get_flat_def entry_insert_def map_of_bm_insert [OF \<open>bm_wf m\<close>] fun_upd_apply if_distrib
    by simp
qed

lemma flat_wf_empty [simp]: "flat_wf []" "get_flat [] k = []"
  by (simp_all add: flat_wf_def get_flat_def)

lemma get_flat_ext:
  "flat_wf m \<Longrightarrow> flat_wf m' \<Longrightarrow> (\<And>x. flat_in x m k \<longleftrightarrow> flat_in x m' k) \<Longrightarrow> get_flat m k = get_flat m' k"
  by (rule increasing_unique) (auto simp: flat_wf_def)

text \<open>
  The contract of a delivered set \<open>V\<close> of valid records: an identity with one record is live,
  one with several is a conflict, whose records are quarantined under every item and attempt
  they name.
\<close>

definition alone :: "operation set \<Rightarrow> operation \<Rightarrow> bool" where
  "alone V r \<longleftrightarrow> r \<in> V \<and> (\<forall>r'\<in>V. oid r' = oid r \<longrightarrow> r' = r)"

definition clash :: "operation set \<Rightarrow> op_id \<Rightarrow> bool" where
  "clash V i \<longleftrightarrow> (\<exists>r\<in>V. \<exists>r'\<in>V. r \<noteq> r' \<and> oid r = i \<and> oid r' = i)"

definition stream_inv :: "operation set \<Rightarrow> stream_state \<Rightarrow> bool" where
  "stream_inv V st \<longleftrightarrow>
     bm_wf (ss_records st) \<and> flat_wf (ss_items st) \<and> increasing (ss_conflicts st) \<and> flat_wf (ss_quarantined st)
     \<and> (\<forall>i r. map_of (ss_records st) i = Some r \<longleftrightarrow> oid r = i \<and> alone V r)
     \<and> (\<forall>i. i \<in> set (ss_conflicts st) \<longleftrightarrow> clash V i)
     \<and> (\<forall>i k. flat_in i (ss_quarantined st) k \<longleftrightarrow> clash V i \<and> (\<exists>r\<in>V. oid r = i \<and> quarantine_key r = k))
     \<and> (\<forall>r. alone V r \<longrightarrow> flat_in (oid r) (ss_items st) (item r))
     \<and> (\<forall>i it. flat_in i (ss_items st) it \<longrightarrow> (\<exists>r\<in>V. oid r = i \<and> item r = it))"

lemma stream_inv_default: "stream_inv {} stream_default"
  by (simp add: stream_inv_def stream_default_def alone_def clash_def)

lemma stream_invD:
  assumes "stream_inv V st"
  shows "bm_wf (ss_records st)" "flat_wf (ss_items st)" "increasing (ss_conflicts st)" "flat_wf (ss_quarantined st)"
    and "map_of (ss_records st) i = Some r \<longleftrightarrow> oid r = i \<and> alone V r"
    and "i \<in> set (ss_conflicts st) \<longleftrightarrow> clash V i"
    and "flat_in i (ss_quarantined st) k \<longleftrightarrow> clash V i \<and> (\<exists>r\<in>V. oid r = i \<and> quarantine_key r = k)"
    and "alone V r \<Longrightarrow> flat_in (oid r) (ss_items st) (item r)"
    and "flat_in i (ss_items st) it \<Longrightarrow> \<exists>r\<in>V. oid r = i \<and> item r = it"
  using assms unfolding stream_inv_def by blast+

lemma stream_invI:
  assumes "bm_wf (ss_records st)" "flat_wf (ss_items st)" "increasing (ss_conflicts st)" "flat_wf (ss_quarantined st)"
    and "\<And>i r. map_of (ss_records st) i = Some r \<longleftrightarrow> oid r = i \<and> alone V r"
    and "\<And>i. i \<in> set (ss_conflicts st) \<longleftrightarrow> clash V i"
    and "\<And>i k. flat_in i (ss_quarantined st) k \<longleftrightarrow> clash V i \<and> (\<exists>r\<in>V. oid r = i \<and> quarantine_key r = k)"
    and "\<And>r. alone V r \<Longrightarrow> flat_in (oid r) (ss_items st) (item r)"
    and "\<And>i it. flat_in i (ss_items st) it \<Longrightarrow> \<exists>r\<in>V. oid r = i \<and> item r = it"
  shows "stream_inv V st"
  using assms unfolding stream_inv_def by blast

lemma clash_not_alone: "clash V (oid r) \<Longrightarrow> oid a = oid r \<Longrightarrow> \<not> alone V a"
  by (metis alone_def clash_def)

lemma known_id:
  assumes "r \<in> V"
  shows "clash V (oid r) \<or> alone V r"
  using assms by (auto simp: clash_def alone_def)

lemma stream_inv_new:
  assumes inv: "stream_inv V st" and new: "map_of (ss_records st) (oid r) = None" "oid r \<notin> set (ss_conflicts st)"
  shows "stream_inv (insert r V) (st\<lparr>ss_items := entry_insert (item r) (oid r) (ss_items st),
      ss_records := bm_insert (oid r) r (ss_records st)\<rparr>)"
proof -
  note [simp] = stream_invD(1-7) [OF inv]
  have fresh: "oid r' \<noteq> oid r" if mem: "r' \<in> V" for r'
    using known_id [OF mem] new by (metis option.distinct(1) stream_invD(5,6) [OF inv])
  have al: "alone (insert r V) r' \<longleftrightarrow> r' = r \<or> alone V r'" for r'
    using fresh by (auto simp: alone_def dest: sym)
  have cl: "clash (insert r V) i \<longleftrightarrow> clash V i" for i
    using fresh unfolding clash_def by (metis insert_iff)
  have live: "map_of (bm_insert (oid r) r (ss_records st)) i = Some r' \<longleftrightarrow> oid r' = i \<and> alone (insert r V) r'" for i r'
    using fresh by (auto simp: al alone_def)
  have quar: "clash V i \<and> (\<exists>r'\<in>insert r V. oid r' = i \<and> quarantine_key r' = k)
      \<longleftrightarrow> clash V i \<and> (\<exists>r'\<in>V. oid r' = i \<and> quarantine_key r' = k)" for i k
    using fresh by (auto simp: clash_def)
  have items: "flat_in i (entry_insert (item r) (oid r) (ss_items st)) it \<longrightarrow> (\<exists>r'\<in>insert r V. oid r' = i \<and> item r' = it)" for i it
    using stream_invD(9) [OF inv] by (auto simp: set_get_flat_insert)
  show ?thesis
  proof (rule stream_invI, goal_cases)
    case (5 i r')
    then show ?case using live by simp
  next
    case (7 i k)
    then show ?case using quar [of i k] by (simp add: cl)
  next
    case (8 r')
    then show ?case using stream_invD(8) [OF inv, of r']
      by (cases "r' = r"; cases "item r' = item r") (simp_all add: al set_get_flat_insert)
  next
    case (9 i it)
    then show ?case using items [of i it] by simp
  qed (simp_all add: bm_wf_insert flat_wf_insert cl)
qed

lemma stream_inv_again:
  assumes inv: "stream_inv V st" and "oid r \<in> set (ss_conflicts st)"
  shows "stream_inv (insert r V) (quarantine r st)"
proof -
  have c: "clash V (oid r)" using assms(2) stream_invD(6) [OF inv] by simp
  then obtain a b where ab: "a \<in> V" "b \<in> V" "a \<noteq> b" "oid a = oid r" "oid b = oid r"
    by (auto simp: clash_def)
  have al: "alone (insert r V) r' \<longleftrightarrow> alone V r'" for r'
    using ab unfolding alone_def by (metis insert_iff)
  have cl: "clash (insert r V) i \<longleftrightarrow> clash V i" for i
    using ab unfolding clash_def by (metis insert_iff)
  show ?thesis
  proof (rule stream_invI, goal_cases)
    case (7 i k)
    then show ?case
      using stream_invD(7) [OF inv, of i k] c
      by (auto simp: quarantine_def cl set_get_flat_insert stream_invD(4) [OF inv])
  next
    case (9 i it)
    then show ?case using stream_invD(9) [OF inv, of i it] by (auto simp: quarantine_def)
  qed (use stream_invD [OF inv] in \<open>simp_all add: quarantine_def flat_wf_insert al cl\<close>)
qed

lemma stream_inv_clash:
  assumes inv: "stream_inv V st" and e: "map_of (ss_records st) (oid r) = Some e" "e \<noteq> r"
  shows "stream_inv (insert r V) ((quarantine r (quarantine e (st\<lparr>ss_records := bm_remove (oid r) (ss_records st)\<rparr>)))
    \<lparr>ss_conflicts := bs_insert (oid r) (ss_conflicts st)\<rparr>)"
proof -
  have ae: "alone V e" and ie: "oid e = oid r" using e(1) stream_invD(5) [OF inv] by auto
  have al: "alone (insert r V) r' \<longleftrightarrow> oid r' \<noteq> oid r \<and> alone V r'" for r'
    using ae ie e(2) unfolding alone_def by (metis insert_iff)
  have cl: "clash (insert r V) i \<longleftrightarrow> i = oid r \<or> clash V i" for i
    using ae ie e(2) unfolding clash_def alone_def by (metis insert_iff)
  have nc: "\<not> clash V (oid r)" using ae ie unfolding clash_def alone_def by metis
  have only: "r' \<in> V \<Longrightarrow> oid r' = oid r \<Longrightarrow> r' = e" for r' using ae ie unfolding alone_def by metis
  have eV: "e \<in> V" using ae by (simp add: alone_def)
  show ?thesis
  proof (rule stream_invI, goal_cases)
    case (7 i k)
    have q: "flat_in i (entry_insert (quarantine_key r) (oid r) (entry_insert (quarantine_key e) (oid e) (ss_quarantined st))) k
      \<longleftrightarrow> i = oid r \<and> (k = quarantine_key r \<or> k = quarantine_key e) \<or> flat_in i (ss_quarantined st) k"
      by (auto simp: set_get_flat_insert flat_wf_insert stream_invD(4) [OF inv] ie)
    show ?case
    proof (cases "i = oid r")
      case True
      then have "(\<exists>r'\<in>insert r V. oid r' = i \<and> quarantine_key r' = k) \<longleftrightarrow> k = quarantine_key r \<or> k = quarantine_key e"
        using eV ie by (auto dest: only)
      then show ?thesis using True q nc stream_invD(7) [OF inv, of i k] by (simp add: quarantine_def cl)
    next
      case False
      then show ?thesis using q stream_invD(7) [OF inv, of i k] by (simp add: quarantine_def cl)
    qed
  next
    case (5 i r')
    then show ?case using stream_invD(5) [OF inv, of i r'] by (auto simp: quarantine_def al)
  next
    case (9 i it)
    then show ?case using stream_invD(9) [OF inv, of i it] by (auto simp: quarantine_def)
  qed (use stream_invD [OF inv] in
      \<open>simp_all add: quarantine_def flat_wf_insert al cl bm_wf_remove increasing_bs_insert\<close>)
qed

lemma stream_inv_insert:
  assumes "stream_inv V st"
  shows "stream_inv (if validate dk r = Inr () then insert r V else V) (snd (stream_insert dk r st))"
proof (cases "validate dk r")
  case (Inr u)
  show ?thesis
  proof (cases "oid r \<in> set (ss_conflicts st)")
    case True
    then show ?thesis using stream_inv_again [OF assms] by (simp add: Inr stream_insert_def)
  next
    case nc: False
    show ?thesis
    proof (cases "map_of (ss_records st) (oid r)")
      case None
      then show ?thesis using stream_inv_new [OF assms None nc] nc by (simp add: Inr stream_insert_def)
    next
      case (Some e)
      have "e = r \<Longrightarrow> insert r V = V" using Some stream_invD(5) [OF assms] by (auto simp: alone_def)
      then show ?thesis
        using stream_inv_clash [OF assms Some] assms nc Some
        by (auto simp: Inr stream_insert_def Let_def quarantine_def)
    qed
  qed
qed (simp add: stream_insert_def assms)

lemma stream_inv_deliver: "stream_inv {r \<in> set rs. validate dk r = Inr ()} (deliver dk rs)"
proof (induction rs rule: rev_induct)
  case Nil
  then show ?case by (simp add: deliver_def stream_inv_default)
next
  case (snoc r rs)
  have "{r' \<in> set (rs @ [r]). validate dk r' = Inr ()}
    = (if validate dk r = Inr () then insert r {r \<in> set rs. validate dk r = Inr ()}
       else {r \<in> set rs. validate dk r = Inr ()})" by auto
  then show ?case using stream_inv_insert [OF snoc, of dk r] by (simp add: deliver_def)
qed

section \<open>Order independence of reads\<close>

lemma set_item_records:
  assumes inv: "stream_inv V st"
  shows "set (item_records st it) = {r. alone V r \<and> item r = it}"
proof (intro equalityI subsetI)
  fix r assume "r \<in> set (item_records st it)"
  then obtain i where i: "flat_in i (ss_items st) it" "map_of (ss_records st) i = Some r"
    by (auto simp: item_records_def set_map_filter_iff)
  then have "oid r = i" "alone V r" using stream_invD(5) [OF inv] by auto
  moreover obtain r' where "r' \<in> V" "oid r' = i" "item r' = it" using stream_invD(9) [OF inv i(1)] by auto
  ultimately show "r \<in> {r. alone V r \<and> item r = it}" unfolding alone_def by blast
next
  fix r assume "r \<in> {r. alone V r \<and> item r = it}"
  then show "r \<in> set (item_records st it)"
    using stream_invD(5,8) [OF inv] unfolding item_records_def set_map_filter_iff by blast
qed

lemma map_of_functional:
  assumes "\<And>k v v'. (k, v) \<in> set xs \<Longrightarrow> (k, v') \<in> set xs \<Longrightarrow> v = v'"
  shows "map_of xs k = Some v \<longleftrightarrow> (k, v) \<in> set xs"
  using assms map_of_SomeD [of xs k v] weak_map_of_SomeI [of k v xs] map_of_SomeD [of xs k] by metis

lemma collect_updates_wf: "bm_wf (collect_updates rs b att)"
  unfolding collect_updates_def by (rule bm.inv_fold_ins) simp

lemma map_of_collect_updates:
  assumes "\<And>r r'. r \<in> set rs \<Longrightarrow> r' \<in> set rs \<Longrightarrow> oid r = oid r' \<Longrightarrow> r = r'"
  shows "map_of (collect_updates rs b att) i = Some (r, u) \<longleftrightarrow> r \<in> set rs \<and> oid r = i \<and> update r b att = Some u"
proof -
  let ?kvs = "List.map_filter (\<lambda>r. map_option (\<lambda>u. (oid r, (r, u))) (update r b att)) rs"
  have mem: "(i, v) \<in> set ?kvs \<longleftrightarrow> fst v \<in> set rs \<and> oid (fst v) = i \<and> update (fst v) b att = Some (snd v)" for i v
    by (cases v) (auto simp: set_map_filter_iff)
  have fn: "v = v'" if v: "(k, v) \<in> set (rev ?kvs)" and v': "(k, v') \<in> set (rev ?kvs)" for k v v'
  proof -
    note kv = v [unfolded set_rev mem] and kv' = v' [unfolded set_rev mem]
    have "fst v = fst v'" by (rule assms) (simp_all add: kv kv')
    then show ?thesis using kv kv' by (simp add: prod_eq_iff)
  qed
  have "map_of (rev ?kvs) i = Some (r, u) \<longleftrightarrow> (i, (r, u)) \<in> set (rev ?kvs)"
    by (rule map_of_functional) (rule fn)
  then show ?thesis
    unfolding collect_updates_def bm.get_from_iter set_rev mem by simp
qed

lemma collect_updates_inv:
  assumes "stream_inv V st"
  shows "map_of (collect_updates (item_records st it) b att) i = Some (r, u)
    \<longleftrightarrow> alone V r \<and> item r = it \<and> oid r = i \<and> update r b att = Some u"
proof -
  have "a = c" if "a \<in> set (item_records st it)" "c \<in> set (item_records st it)" "oid a = oid c" for a c
    using that unfolding set_item_records [OF assms] alone_def by auto
  then have "map_of (collect_updates (item_records st it) b att) i = Some (r, u)
    \<longleftrightarrow> r \<in> set (item_records st it) \<and> oid r = i \<and> update r b att = Some u"
    by (rule map_of_collect_updates)
  then show ?thesis unfolding set_item_records [OF assms] by auto
qed

lemma content_inv_unique:
  assumes "stream_inv V st" and "stream_inv V st'"
  shows "content st it b att resolve = content st' it b att resolve"
proof -
  have "get_flat (ss_quarantined st) (it, att) = get_flat (ss_quarantined st') (it, att)"
    by (rule get_flat_ext) (simp_all add: stream_invD(4,7) [OF assms(1)] stream_invD(4,7) [OF assms(2)])
  moreover have "ss_records st = ss_records st'"
  proof (rule bm_ext)
    show "map_of (ss_records st) = map_of (ss_records st')"
    proof
      fix i
      show "map_of (ss_records st) i = map_of (ss_records st') i"
        by (rule option_eqI) (simp add: stream_invD(5) [OF assms(1)] stream_invD(5) [OF assms(2)])
    qed
  qed (rule stream_invD(1) [OF assms(1)], rule stream_invD(1) [OF assms(2)])
  moreover have "ss_conflicts st = ss_conflicts st'"
    by (rule increasing_unique)
       (auto simp: stream_invD(3,6) [OF assms(1)] stream_invD(3,6) [OF assms(2)])
  moreover have "collect_updates (item_records st it) b att = collect_updates (item_records st' it) b att"
  proof (rule bm_ext [OF collect_updates_wf collect_updates_wf], rule ext)
    fix i
    show "map_of (collect_updates (item_records st it) b att) i = map_of (collect_updates (item_records st' it) b att) i"
      by (rule option_eqI)
         (simp add: collect_updates_inv [OF assms(1)] collect_updates_inv [OF assms(2)] split_paired_all)
  qed
  moreover have "list_ex (\<lambda>r. finished r att) (item_records st it) = list_ex (\<lambda>r. finished r att) (item_records st' it)"
    by (simp add: list_ex_iff set_item_records [OF assms(1)] set_item_records [OF assms(2)])
  ultimately show ?thesis unfolding content_def validate_predecessors_def Let_def by (simp only:)
qed

section \<open>Predecessor chains\<close>

text \<open>A cursor whose chain of predecessors leaves the updates after finitely many steps.\<close>

inductive leads_out :: "updates \<Rightarrow> op_id option \<Rightarrow> bool" for us where
  stop: "leads_out us None"
| outside: "map_of us i = None \<Longrightarrow> leads_out us (Some i)"
| link: "map_of us i = Some (r, u) \<Longrightarrow> leads_out us (cu_previous u) \<Longrightarrow> leads_out us (Some i)"

lemma walk_leads_out:
  assumes "walk conflicts rs us visited path c = Inr path'" and "\<And>i. i \<in> set visited \<Longrightarrow> leads_out us (Some i)"
  shows "leads_out us c \<and> (\<forall>i \<in> set path'. i \<in> set path \<or> leads_out us (Some i))"
  using assms
proof (induction conflicts rs us visited path c rule: walk.induct)
  case (1 conflicts rs us visited path)
  then show ?case by (simp add: stop)
next
  case (2 conflicts rs us visited path i)
  show ?case
  proof (cases "i \<in> set visited")
    case True
    then show ?thesis using 2 by (auto split: if_splits)
  next
    case nv: False
    show ?thesis
    proof (cases "map_of us i")
      case None
      then show ?thesis using 2 nv by (auto intro: outside split: if_splits)
    next
      case (Some ru)
      obtain r u where ru: "ru = (r, u)" by fastforce
      have nc: "i \<notin> set conflicts" and np: "i \<notin> set path"
        and w: "walk conflicts rs us visited (bs_insert i path) (cu_previous u) = Inr path'"
        using 2(2) nv Some ru by (auto split: if_splits)
      from 2(1) [OF nc nv Some [unfolded ru] refl np w 2(3)]
      have IH: "leads_out us (cu_previous u)"
        "\<forall>j \<in> set path'. j \<in> set (bs_insert i path) \<or> leads_out us (Some j)" by auto
      have "leads_out us (Some i)" using Some ru IH(1) by (auto intro: link)
      then show ?thesis using IH(2) by auto
    qed
  qed
qed

lemma validate_starts_leads_out:
  "validate_starts conflicts rs us visited ss = Inr () \<Longrightarrow> (\<And>i. i \<in> set visited \<Longrightarrow> leads_out us (Some i))
   \<Longrightarrow> s \<in> set ss \<Longrightarrow> leads_out us (Some s)"
proof (induction ss arbitrary: visited)
  case (Cons s' ss)
  from Cons.prems(1) obtain path where w: "walk conflicts rs us visited [] (Some s') = Inr path"
    and v: "validate_starts conflicts rs us (bs_extend path visited) ss = Inr ()"
    by (auto simp: rbind_Inr_iff simp del: walk.simps)
  note out = walk_leads_out [OF w Cons.prems(2)]
  then have "leads_out us (Some i)" if "i \<in> set (bs_extend path visited)" for i
    using that Cons.prems(2) by auto
  from Cons.IH [OF v this] out Cons.prems(3) show ?case by auto
qed simp

lemma validate_predecessors_leads_out:
  assumes "validate_predecessors st us = Inr ()"
  shows "leads_out us (Some i)"
proof (cases "i \<in> set (map fst us)")
  case True
  show ?thesis
    by (rule validate_starts_leads_out [OF assms [unfolded validate_predecessors_def] _ True]) simp
next
  case False
  then show ?thesis by (intro outside) (simp add: map_of_eq_None_iff)
qed

text \<open>
  The chain from a cursor: identities newest first, up to and including the first replacement;
  \<open>complete\<close> tells whether it ends at one.
\<close>

inductive chain :: "updates \<Rightarrow> op_id option \<Rightarrow> content_update list \<Rightarrow> bool \<Rightarrow> bool" for us where
  open_end: "c = None \<or> map_of us (the c) = None \<Longrightarrow> chain us c [] False"
| base: "map_of us i = Some (r, u) \<Longrightarrow> cu_mode u = Replace \<Longrightarrow> chain us (Some i) [u] True"
| more: "map_of us i = Some (r, u) \<Longrightarrow> cu_mode u = Append \<Longrightarrow> chain us (cu_previous u) cs complete
    \<Longrightarrow> chain us (Some i) (u # cs) complete"

text \<open>What the collecting loop answers on a chain, and that every leaving cursor has one.\<close>

lemma collect_parts_simps:
  "collect_parts resolve us None parts = Some (Inr (parts, False))"
  "map_of us i = None \<Longrightarrow> collect_parts resolve us (Some i) parts = Some (Inr (parts, False))"
  "map_of us i = Some (r, u) \<Longrightarrow> cu_content u = EmptyPayload \<or> resolve (cu_content u) = None
    \<Longrightarrow> collect_parts resolve us (Some i) parts = Some (Inl (Unavailable i))"
  "map_of us i = Some (r, u) \<Longrightarrow> cu_content u \<noteq> EmptyPayload \<Longrightarrow> resolve (cu_content u) = Some bs
    \<Longrightarrow> collect_parts resolve us (Some i) parts =
      (if cu_mode u = Replace then Some (Inr (parts @ [bs], True))
       else collect_parts resolve us (cu_previous u) (parts @ [bs]))"
  by (subst collect_parts.simps; auto split: option.splits)+

definition fetch :: "(payload \<Rightarrow> bytes option) \<Rightarrow> content_update \<Rightarrow> bytes option" where
  "fetch resolve u = (if cu_content u = EmptyPayload then None else resolve (cu_content u))"

lemma mode_cases: "cu_mode u = Replace \<or> cu_mode u = Append"
  by (cases "cu_mode u") auto

lemma leads_out_chain: "leads_out us c \<Longrightarrow> \<exists>cs complete. chain us c cs complete"
proof (induction rule: leads_out.induct)
  case (link i r u)
  then show ?case using mode_cases [of u] chain.base [of us i r u] chain.more [of us i r u] by metis
next
  case stop
  show ?case using chain.open_end [of None us] by auto
next
  case (outside i)
  then show ?case using chain.open_end [of "Some i" us] by auto
qed

lemma collect_parts_chain:
  "chain us c cs complete \<Longrightarrow>
   (if \<forall>u\<in>set cs. fetch resolve u \<noteq> None
    then collect_parts resolve us c parts = Some (Inr (parts @ map (the \<circ> fetch resolve) cs, complete))
    else \<exists>i. collect_parts resolve us c parts = Some (Inl (Unavailable i)))"
proof (induction arbitrary: parts rule: chain.induct)
  case (open_end c)
  then show ?case by (cases c) (auto simp: collect_parts_simps)
next
  case (base i r u)
  then show ?case
    by (cases "fetch resolve u") (auto simp: fetch_def collect_parts_simps split: if_splits)
next
  case (more i r u cs complete)
  show ?case
  proof (cases "fetch resolve u")
    case None
    then show ?thesis using more by (auto simp: fetch_def collect_parts_simps split: if_splits)
  next
    case (Some bs)
    then have "collect_parts resolve us (Some i) parts = collect_parts resolve us (cu_previous u) (parts @ [bs])"
      using more by (auto simp: fetch_def collect_parts_simps split: if_splits)
    then show ?thesis using more.IH [of "parts @ [bs]"] Some by auto
  qed
qed

lemma content_total:
  "\<exists>res. content st it b att resolve = Some res"
proof -
  let ?us = "collect_updates (item_records st it) b att"
  have "\<exists>res. collect_parts resolve ?us (Some h) [] = Some res" if v: "validate_predecessors st ?us = Inr ()" for h
  proof -
    obtain cs complete where "chain ?us (Some h) cs complete"
      using leads_out_chain [OF validate_predecessors_leads_out [OF v]] by blast
    from collect_parts_chain [OF this, of resolve "[]"] show ?thesis by (auto split: if_splits)
  qed
  then show ?thesis
    by (auto simp: content_def Let_def rbind_def split: list.splits sum.splits option.splits)
qed

lemma content_some:
  assumes "content st it b att resolve = Some (Inr (Some s))"
  defines "us \<equiv> collect_updates (item_records st it) b att"
  shows "\<exists>parts. validate_predecessors st us = Inr () \<and> select_head it us = Inr (Some (st_head s))
    \<and> collect_parts resolve us (Some (st_head s)) [] = Some (Inr (parts, st_complete s))
    \<and> st_bytes s = concat (rev parts) \<and> st_finished s = list_ex (\<lambda>r. finished r att) (item_records st it)"
  using assms(1)
  by (fastforce simp: content_def us_def Let_def rbind_Inr_iff split: list.splits sum.splits option.splits)

lemma order_heads_spec:
  assumes "order_heads us rec ordered hs = Some out" and "bm_wf ordered"
  shows "bm_wf out \<and> (\<forall>h\<in>set hs. \<exists>r u s. map_of us h = Some (r, u) \<and> recorder r = rec \<and> cu_mode u = Replace
      \<and> cu_previous u = None \<and> sequence r = Some s \<and> map_of out s = Some h)
    \<and> (\<forall>s h. map_of out s = Some h \<longrightarrow> map_of ordered s = Some h \<or>
        h \<in> set hs \<and> (\<exists>r u. map_of us h = Some (r, u) \<and> sequence r = Some s))
    \<and> (\<forall>s h. map_of ordered s = Some h \<longrightarrow> map_of out s = Some h)"
  using assms
proof (induction hs arbitrary: ordered)
  case (Cons h hs)
  from Cons.prems obtain r u s where h: "map_of us h = Some (r, u)" "recorder r = rec" "cu_mode u = Replace"
    "cu_previous u = None" "sequence r = Some s" "map_of ordered s = None"
    and out: "order_heads us rec (bm_insert s h ordered) hs = Some out"
    by (auto split: option.splits if_splits)
  note IH = Cons.IH [OF out bm_wf_insert [OF Cons.prems(2)]]
  have ins: "map_of (bm_insert s h ordered) = (map_of ordered)(s \<mapsto> h)"
    by (rule map_of_bm_insert [OF Cons.prems(2)])
  have old: "map_of out s' = Some h'" if "map_of ordered s' = Some h'" for s' h'
    using IH [THEN conjunct2, THEN conjunct2, THEN conjunct2, rule_format, of s' h'] h(6) that
    unfolding ins by (cases "s' = s") auto
  have new: "map_of ordered s' = Some h' \<or> h' \<in> set (h # hs) \<and> (\<exists>r u. map_of us h' = Some (r, u) \<and> sequence r = Some s')"
    if "map_of out s' = Some h'" for s' h'
    using IH [THEN conjunct2, THEN conjunct2, THEN conjunct1, rule_format, OF that] h
    unfolding ins by (cases "s' = s") auto
  have "map_of out s = Some h" using IH unfolding ins by simp
  then have "\<exists>r u s. map_of us h = Some (r, u) \<and> recorder r = rec \<and> cu_mode u = Replace
      \<and> cu_previous u = None \<and> sequence r = Some s \<and> map_of out s = Some h"
    using h by blast
  then show ?case using IH old new by simp
qed simp

lemma last_increasing: "increasing (map fst m) \<Longrightarrow> (k, v) \<in> set m \<Longrightarrow> k \<le> fst (last m)"
  by (induction m) (auto simp: less_imp_le)

lemma ordered_snapshot_Some:
  assumes "ordered_snapshot us hs = Some h"
  shows "h \<in> set hs \<and> (\<exists>rec s. (\<exists>r u. map_of us h = Some (r, u) \<and> sequence r = Some s)
    \<and> (\<forall>h'\<in>set hs. \<exists>r u s'. map_of us h' = Some (r, u) \<and> recorder r = rec \<and> cu_mode u = Replace
         \<and> cu_previous u = None \<and> sequence r = Some s' \<and> (h' \<noteq> h \<longrightarrow> s' < s)))"
proof -
  obtain h0 hs' r0 u0 where hs: "hs = h0 # hs'" "map_of us h0 = Some (r0, u0)"
    using assms by (auto simp: ordered_snapshot_def bind_eq_Some_conv split: list.splits)
  then obtain out where out: "order_heads us (recorder r0) [] hs = Some out" "out \<noteq> []" "h = snd (last out)"
    using assms by (auto simp: ordered_snapshot_def bind_eq_Some_conv split: if_splits simp del: order_heads.simps)
  let ?s = "fst (last out)"
  note spec = order_heads_spec [OF out(1), simplified]
  have wf: "bm_wf out" using spec by blast
  have mem: "(?s, h) \<in> set out" using out(2,3) by simp
  then have "map_of out ?s = Some h" using wf by (simp add: map_of_increasing_iff)
  then have top_head: "h \<in> set hs" "\<exists>r u. map_of us h = Some (r, u) \<and> sequence r = Some ?s" using spec by blast+
  have "\<exists>r u s'. map_of us h' = Some (r, u) \<and> recorder r = recorder r0 \<and> cu_mode u = Replace
         \<and> cu_previous u = None \<and> sequence r = Some s' \<and> (h' \<noteq> h \<longrightarrow> s' < ?s)" if h': "h' \<in> set hs" for h'
  proof -
    obtain r u s' where r: "map_of us h' = Some (r, u)" "recorder r = recorder r0" "cu_mode u = Replace"
      "cu_previous u = None" "sequence r = Some s'" "map_of out s' = Some h'" using spec h' by blast
    then have "s' \<le> ?s" using wf by (metis last_increasing map_of_SomeD)
    moreover have "s' = ?s \<Longrightarrow> h' = h" using r(6) \<open>map_of out ?s = Some h\<close> by simp
    ultimately show ?thesis using r by (metis order_le_less)
  qed
  then show ?thesis using top_head by blast
qed

section \<open>Properties\<close>

text \<open>A message record with one block update, for the concrete runs below.\<close>

definition chunk :: "u8 \<Rightarrow> update_mode \<Rightarrow> op_id option \<Rightarrow> bytes \<Rightarrow> operation" where
  "chunk n mode prev bs = operation_new (OpId [n]) (ItemId (OpId [100])) (ItemId (OpId [101]))
     (KMessage \<lparr>ms_category = TextMessage, ms_stage = Updated, ms_audience = [],
        ms_blocks = [\<lparr>cu_block = ItemId (OpId [102]), cu_position = None, cu_mode = mode, cu_previous = prev,
          cu_media_type = EmptyPayload, cu_content = Inline bs\<rparr>],
        ms_coverage = None, ms_outcome = None\<rparr>)"

definition inline_only :: "payload \<Rightarrow> bytes option" where
  "inline_only p = (case p of Inline bs \<Rightarrow> Some bs | _ \<Rightarrow> None)"

text \<open>
  C9. Replay is independent of arrival order and of repeats: any two deliveries of the same set
  of records read the same content, errors included, for every item, block and attempt.
\<close>

theorem replay_convergent:
  assumes "set rs = set rs'"
  shows "content (deliver dk rs) it block attempt resolve = content (deliver dk rs') it block attempt resolve"
proof (rule content_inv_unique)
  show "stream_inv {r \<in> set rs. validate dk r = Inr ()} (deliver dk rs')"
    unfolding assms by (rule stream_inv_deliver)
qed (rule stream_inv_deliver)

theorem replay_convergent_witness:
  "content (deliver (\<lambda>_ b. b) [chunk 2 Append (Some (OpId [1])) [66], chunk 1 Replace None [65], chunk 2 Append (Some (OpId [1])) [66]])
     (ItemId (OpId [100])) (ItemId (OpId [102])) None inline_only
   = content (deliver (\<lambda>_ b. b) [chunk 1 Replace None [65], chunk 2 Append (Some (OpId [1])) [66]])
     (ItemId (OpId [100])) (ItemId (OpId [102])) None inline_only"
  by (rule replay_convergent) auto

text \<open>
  C29. A read always returns, and content it returns is exact: there is a chain of the live
  updates of the block from the reported head, every part of it was resolved, the bytes are
  the parts from oldest to newest, and the content is complete exactly when the chain ends at a
  replacement rather than at a missing predecessor.
\<close>

theorem content_exact:
  "(\<exists>res. content st it block attempt resolve = Some res)
   \<and> (content st it block attempt resolve = Some (Inr (Some s)) \<longrightarrow>
      (\<exists>cs. chain (collect_updates (item_records st it) block attempt) (Some (st_head s)) cs (st_complete s)
        \<and> (\<forall>u\<in>set cs. fetch resolve u \<noteq> None)
        \<and> st_bytes s = concat (rev (map (the \<circ> fetch resolve) cs))))"
proof (intro conjI impI)
  show "\<exists>res. content st it block attempt resolve = Some res" by (rule content_total)
next
  assume "content st it block attempt resolve = Some (Inr (Some s))"
  from content_some [OF this] obtain parts where
    v: "validate_predecessors st (collect_updates (item_records st it) block attempt) = Inr ()"
    and p: "collect_parts resolve (collect_updates (item_records st it) block attempt) (Some (st_head s)) []
        = Some (Inr (parts, st_complete s))"
    and bytes: "st_bytes s = concat (rev parts)" by blast
  obtain cs complete where c: "chain (collect_updates (item_records st it) block attempt) (Some (st_head s)) cs complete"
    using leads_out_chain [OF validate_predecessors_leads_out [OF v]] by blast
  have "\<forall>u\<in>set cs. fetch resolve u \<noteq> None" "parts = map (the \<circ> fetch resolve) cs" "complete = st_complete s"
    using collect_parts_chain [OF c, of resolve "[]"] p by (auto split: if_splits)
  then show "\<exists>cs. chain (collect_updates (item_records st it) block attempt) (Some (st_head s)) cs (st_complete s)
        \<and> (\<forall>u\<in>set cs. fetch resolve u \<noteq> None) \<and> st_bytes s = concat (rev (map (the \<circ> fetch resolve) cs))"
    using c bytes by auto
qed

theorem content_exact_witness:
  "\<exists>cs. chain (collect_updates (item_records (deliver (\<lambda>_ b. b)
      [chunk 2 Append (Some (OpId [1])) [66], chunk 1 Replace None [65]]) (ItemId (OpId [100]))) (ItemId (OpId [102])) None)
    (Some (OpId [2])) cs True \<and> [65, 66] = concat (rev (map (the \<circ> fetch inline_only) cs))"
proof -
  have "content (deliver (\<lambda>_ b. b) [chunk 2 Append (Some (OpId [1])) [66], chunk 1 Replace None [65]])
     (ItemId (OpId [100])) (ItemId (OpId [102])) None inline_only
     = Some (Inr (Some \<lparr>st_bytes = [65, 66], st_complete = True, st_finished = False, st_head = OpId [2]\<rparr>))"
    by code_simp
  then show ?thesis using content_exact by fastforce
qed

text \<open>
  C30. A delivery is answered from the history alone: an invalid record is refused, a record
  whose identity was delivered with other fields is a conflict, and otherwise the answer tells
  whether the record is new. Conflicting identities are inert for good: no record is kept under
  them, and every read of an item and attempt that one of their records names reports a
  conflict, whatever else was delivered.
\<close>

theorem stream_insert_verdict:
  assumes "r \<in> set rs" and "r' \<in> set rs" and "r \<noteq> r'" and "oid r = oid r'"
    and "validate dk r = Inr ()" and "validate dk r' = Inr ()"
  shows "fst (stream_insert dk x (deliver dk xs)) = (case validate dk x of
       Inl e \<Rightarrow> Inl (InvalidRecord e)
     | Inr _ \<Rightarrow> if \<exists>y\<in>set xs. validate dk y = Inr () \<and> oid y = oid x \<and> y \<noteq> x
         then Inl (ConflictId (oid x)) else Inr (x \<notin> set xs))
    \<and> map_of (ss_records (deliver dk rs)) (oid r) = None
    \<and> (\<exists>i. content (deliver dk rs) (item r) block (snd (quarantine_key r)) resolve = Some (Inl (ConflictId i)))"
proof (intro conjI)
  let ?V = "{y \<in> set xs. validate dk y = Inr ()}"
  note inv = stream_inv_deliver [of xs dk]
  show "fst (stream_insert dk x (deliver dk xs)) = (case validate dk x of
       Inl e \<Rightarrow> Inl (InvalidRecord e)
     | Inr _ \<Rightarrow> if \<exists>y\<in>set xs. validate dk y = Inr () \<and> oid y = oid x \<and> y \<noteq> x
         then Inl (ConflictId (oid x)) else Inr (x \<notin> set xs))"
  proof (cases "\<exists>y\<in>?V. oid y = oid x \<and> y \<noteq> x")
    case True
    then obtain y where y: "y \<in> ?V" "oid y = oid x" "y \<noteq> x" by blast
    then have "oid x \<in> set (ss_conflicts (deliver dk xs)) \<or> map_of (ss_records (deliver dk xs)) (oid x) = Some y"
      using known_id [OF y(1)] stream_invD(5,6) [OF inv] by auto
    then show ?thesis using y by (auto simp: stream_insert_def Let_def split: sum.splits)
  next
    case False
    then have nc: "oid x \<notin> set (ss_conflicts (deliver dk xs))"
      using stream_invD(6) [OF inv] unfolding clash_def by metis
    have live: "map_of (ss_records (deliver dk xs)) (oid x) = (if x \<in> ?V then Some x else None)"
    proof (rule option_eqI)
      fix v
      show "map_of (ss_records (deliver dk xs)) (oid x) = Some v \<longleftrightarrow> (if x \<in> ?V then Some x else None) = Some v"
        using False stream_invD(5) [OF inv, of "oid x" v] by (auto simp: alone_def)
    qed
    show ?thesis using False nc live by (auto simp: stream_insert_def split: sum.splits)
  qed
next
  let ?V = "{y \<in> set rs. validate dk y = Inr ()}"
  note inv = stream_inv_deliver [of rs dk]
  have c: "clash ?V (oid r)" using assms by (auto simp: clash_def)
  then show "map_of (ss_records (deliver dk rs)) (oid r) = None"
    using stream_invD(5) [OF inv, of "oid r"] clash_not_alone [of ?V r] by (metis not_None_eq)
  have "flat_in (oid r) (ss_quarantined (deliver dk rs)) (quarantine_key r)"
    using stream_invD(7) [OF inv] c assms by blast
  moreover have "quarantine_key r = (item r, snd (quarantine_key r))" by (simp add: quarantine_key_def)
  ultimately show "\<exists>i. content (deliver dk rs) (item r) block (snd (quarantine_key r)) resolve = Some (Inl (ConflictId i))"
    by (cases "get_flat (ss_quarantined (deliver dk rs)) (item r, snd (quarantine_key r))") (simp_all add: content_def)
qed

theorem stream_insert_verdict_witness:
  "\<exists>i. content (deliver (\<lambda>_ b. b) [chunk 1 Replace None [65], chunk 1 Replace None [66]])
     (ItemId (OpId [100])) (ItemId (OpId [102])) None inline_only = Some (Inl (ConflictId i))"
proof -
  let ?a = "chunk 1 Replace None [65]" and ?b = "chunk 1 Replace None [66]"
  have "?a \<noteq> ?b" "oid ?a = oid ?b" "item ?a = ItemId (OpId [100])" "snd (quarantine_key ?a) = None"
    by (simp_all add: chunk_def operation_new_def quarantine_key_def)
  moreover have "validate (\<lambda>_ b. b) ?a = Inr ()" "validate (\<lambda>_ b. b) ?b = Inr ()" by code_simp+
  ultimately show ?thesis
    using stream_insert_verdict [of ?a "[?a, ?b]" ?b "\<lambda>_ b. b" ?a "[]" "ItemId (OpId [102])" inline_only] by simp
qed

text \<open>
  C31. Several heads are read only when the source ordered them: the selected head is then one of
  the heads, all of them are whole replacements without a predecessor by one recorder, each
  with a sequence number, and the selected one has the strictly largest.
\<close>

theorem head_selection_justified:
  assumes "select_head it us = Inr (Some h)"
  shows "h \<in> set (heads_of us) \<and> (heads_of us = [h] \<or>
    (\<exists>rec s. (\<exists>r u. map_of us h = Some (r, u) \<and> sequence r = Some s)
     \<and> (\<forall>h'\<in>set (heads_of us). \<exists>r u s'. map_of us h' = Some (r, u) \<and> recorder r = rec \<and> cu_mode u = Replace
          \<and> cu_previous u = None \<and> sequence r = Some s' \<and> (h' \<noteq> h \<longrightarrow> s' < s))))"
proof (cases "heads_of us = [h]")
  case False
  then have "ordered_snapshot us (heads_of us) = Some h"
    using assms by (auto simp: select_head_def split: list.splits option.splits if_splits)
  then show ?thesis using ordered_snapshot_Some by blast
qed simp

theorem head_selection_justified_witness:
  "OpId [2] \<in> set (heads_of (collect_updates [(chunk 1 Replace None [65])\<lparr>sequence := Some 4\<rparr>,
      (chunk 2 Replace None [66])\<lparr>sequence := Some 7\<rparr>] (ItemId (OpId [102])) None))"
proof -
  have "select_head (ItemId (OpId [100])) (collect_updates [(chunk 1 Replace None [65])\<lparr>sequence := Some 4\<rparr>,
      (chunk 2 Replace None [66])\<lparr>sequence := Some 7\<rparr>] (ItemId (OpId [102])) None) = Inr (Some (OpId [2]))"
    by code_simp
  from head_selection_justified [OF this] show ?thesis by blast
qed

end
