(* ===== verification/Compat.thy ===== *)
theory Compat
  imports ActivityOps
begin

text \<open>
  Compatibility of operation generations: the frozen EC02 envelope and its canonical form
  (\<open>editchain-core/src/legacy.rs\<close>), the reading of an old operation in schema-three
  vocabulary and its physical upgrade (\<open>activity/compatibility.rs\<close>), and the rendering
  adapter back to old kinds (\<open>activity/display.rs\<close>).
\<close>

section \<open>EC02 operations\<close>

record 'a legacy_op =
  lg_id :: source_id
  lg_parents :: "source_id parent_set"
  lg_actor :: actor_id
  lg_clock :: clock
  lg_scope :: scope_ref
  lg_tags :: tags
  lg_kind :: "(source_id, 'a) op_kind"

definition map_kind :: "(source_id \<Rightarrow> op_id) \<Rightarrow> (source_id, 'a) op_kind \<Rightarrow> (op_id, 'a) op_kind" where
  "map_kind f k = (case k of
       ChainStart v \<Rightarrow> ChainStart v | Actor v \<Rightarrow> Actor v | Message v \<Rightarrow> Message v | Tool v \<Rightarrow> Tool v
     | Command v \<Rightarrow> Command v | File v \<Rightarrow> File v | Reflection v \<Rightarrow> Reflection v | Import v \<Rightarrow> Import v
     | Error v \<Rightarrow> Error v | Unknown v \<Rightarrow> Unknown v | Session v \<Rightarrow> Session v | Activity v \<Rightarrow> Activity v
     | Note v \<Rightarrow> Note \<lparr>no_target_ids = map f (no_target_ids v), no_relationship = no_relationship v,
         no_content = no_content v\<rparr>
     | GitLink v \<Rightarrow> GitLink \<lparr>gl_source = f (gl_source v), gl_target_repo = gl_target_repo v,
         gl_target_oid = gl_target_oid v, gl_kind = gl_kind v\<rparr>
     | GitCommit v \<Rightarrow> GitCommit \<lparr>gc_repository = gc_repository v, gc_object_format = gc_object_format v,
         gc_oid = gc_oid v, gc_imported_record = map_option f (gc_imported_record v),
         gc_availability = gc_availability v, gc_tree = gc_tree v, gc_parents = gc_parents v,
         gc_author = gc_author v, gc_committer = gc_committer v, gc_authored_at = gc_authored_at v,
         gc_committed_at = gc_committed_at v, gc_message = gc_message v, gc_imported_refs = gc_imported_refs v,
         gc_live_refs = gc_live_refs v, gc_changed_paths = gc_changed_paths v\<rparr>)"

definition into_canonical :: "derive_key \<Rightarrow> 'a legacy_op \<Rightarrow> 'a gen_op" where
  "into_canonical dk l = \<lparr>op_id = source_id_id dk (lg_id l), op_source = Some (lg_id l),
     op_parents = (case lg_parents l of
         NoParent \<Rightarrow> NoParent
       | OneParent a \<Rightarrow> OneParent (source_id_id dk a)
       | TwoParents a b \<Rightarrow> TwoParents (source_id_id dk a) (source_id_id dk b)),
     op_actor = lg_actor l, op_clock = lg_clock l, op_scope = lg_scope l, op_tags = lg_tags l,
     op_op_kind = map_kind (source_id_id dk) (lg_kind l)\<rparr>"

section \<open>Reading an old operation\<close>

definition upgrade_id :: "derive_key \<Rightarrow> op_id \<Rightarrow> op_id" where
  "upgrade_id dk i = OpId (dk ''editchain.operation-schema3.v3'' (op_bytes i))"

definition legacy_block :: "derive_key \<Rightarrow> op_id \<Rightarrow> payload \<Rightarrow> payload \<Rightarrow> update_mode \<Rightarrow> content_update" where
  "legacy_block dk i c media_type mode = \<lparr>cu_block = item_derive dk ''legacy-block'' (op_bytes i),
     cu_position = Some 0, cu_mode = mode, cu_previous = None, cu_media_type = media_type, cu_content = c\<rparr>"

definition unknown_completion :: completion where
  "unknown_completion = \<lparr>cp_status = UnknownStatus, cp_detail = EmptyPayload\<rparr>"

definition legacy_tool :: "derive_key \<Rightarrow> op_id \<Rightarrow> payload \<times> payload \<Rightarrow> payload \<Rightarrow> stage \<Rightarrow> bool \<Rightarrow> kind" where
  "legacy_tool dk i identity c stg is_terminal =
     (let started = (stg = Started) in
      KTool \<lparr>tl_native_call = fst identity, tl_name = snd identity, tl_stage = stg,
        tl_attempt = item_derive dk ''legacy-call'' (op_bytes i), tl_parent_call = None,
        tl_arguments = (if started then c else EmptyPayload), tl_channel = ResultChannel,
        tl_output = (if \<not> started then Some (legacy_block dk i c EmptyPayload
            (if stg = Updated then Append else Replace)) else None),
        tl_terminal = (if is_terminal then Some \<lparr>te_command = (if started then c else EmptyPayload),
            te_cwd = EmptyPayload, te_exit_code = None\<rparr> else None),
        tl_outcome = (if stg = Finished then Some unknown_completion else None)\<rparr>)"

definition tool_stage_of :: "tool_stage \<Rightarrow> stage" where
  "tool_stage_of s = (case s of ToolStart \<Rightarrow> Started | ToolDelta \<Rightarrow> Updated | ToolFinish \<Rightarrow> Finished)"

definition command_stage_of :: "command_stage \<Rightarrow> stage" where
  "command_stage_of s = (case s of CommandStart \<Rightarrow> Started | CommandOutput \<Rightarrow> Updated | CommandFinish \<Rightarrow> Finished)"

definition file_action_of :: "file_stage \<Rightarrow> file_action" where
  "file_action_of s = (case s of Observed \<Rightarrow> SnapshotFile | ProposedStage \<Rightarrow> ChangeFile
     | AppliedStage \<Rightarrow> ChangeFile | Saved \<Rightarrow> SaveFile | Deleted \<Rightarrow> DeleteFile)"

definition change_state_of :: "file_stage \<Rightarrow> change_state option" where
  "change_state_of s = (case s of ProposedStage \<Rightarrow> Some ProposedChange | AppliedStage \<Rightarrow> Some AppliedChange
     | Deleted \<Rightarrow> Some AppliedChange | Observed \<Rightarrow> None | Saved \<Rightarrow> None)"

text \<open>The derived \<open>Debug\<close> of \<open>NoteRelationship\<close> prints the constructor.\<close>

definition relationship_debug :: "note_relationship \<Rightarrow> string" where
  "relationship_debug r = (case r of
       Corrects \<Rightarrow> ''Corrects'' | Supersedes \<Rightarrow> ''Supersedes'' | Rejects \<Rightarrow> ''Rejects'' | Redacts \<Rightarrow> ''Redacts''
     | Explains \<Rightarrow> ''Explains'' | ForkOf \<Rightarrow> ''ForkOf'' | SubagentOf \<Rightarrow> ''SubagentOf''
     | ReconnectsTo \<Rightarrow> ''ReconnectsTo'' | OccurrenceOf \<Rightarrow> ''OccurrenceOf'' | ProviderParent \<Rightarrow> ''ProviderParent''
     | LogicalParent \<Rightarrow> ''LogicalParent'' | ForkedFrom \<Rightarrow> ''ForkedFrom'' | SpawnedBy \<Rightarrow> ''SpawnedBy''
     | Contains \<Rightarrow> ''Contains'' | ToolResultOf \<Rightarrow> ''ToolResultOf'' | ProviderEvidence \<Rightarrow> ''ProviderEvidence'')"

definition git_relation :: "git_link_kind \<Rightarrow> string" where
  "git_relation k = (case k of BasedOn \<Rightarrow> ''based_on'' | Checkpoint \<Rightarrow> ''checkpoint'' | CommittedAs \<Rightarrow> ''committed_as''
     | ProducedBy \<Rightarrow> ''produced_by'' | Mentions \<Rightarrow> ''mentions'' | CustomLink _ \<Rightarrow> ''custom'')"

definition first_parent :: "op \<Rightarrow> op_id option" where
  "first_parent p = (case parent_list (op_parents p) of [] \<Rightarrow> None | a # _ \<Rightarrow> Some a)"

definition view_kind :: "derive_key \<Rightarrow> op \<Rightarrow> kind option" where
  "view_kind dk p = (case op_op_kind p of
       ChainStart _ \<Rightarrow> None
     | Actor v \<Rightarrow> Some (KAuthor \<lparr>au_label = ao_label v, au_role = UnknownRole, au_native_role = ao_role v,
         au_metadata = EmptyPayload\<rparr>)
     | Session v \<Rightarrow> Some (KSession \<lparr>se_action = SessionSnapshot, se_label = so_label v, se_settings = so_metadata v,
         se_participants = [], se_parent = map_option (\<lambda>i. item_legacy dk ''session'' (session_val i)) (so_parent v),
         se_initiated_by = None\<rparr>)
     | Message v \<Rightarrow> Some (KMessage \<lparr>ms_category = TextMessage, ms_stage = Snapshot, ms_audience = [],
         ms_blocks = [legacy_block dk (op_id p) (mo_content v) (mo_content_type v) Replace],
         ms_coverage = None, ms_outcome = None\<rparr>)
     | Reflection v \<Rightarrow> Some (KMessage \<lparr>ms_category = Summary, ms_stage = Snapshot, ms_audience = [],
         ms_blocks = [legacy_block dk (op_id p) (ro_summary v) EmptyPayload Replace],
         ms_coverage = Some \<lparr>cv_operations = [], cv_frontiers = ro_covers v, cv_window = Some (ro_window v),
           cv_anchors = ro_anchors v\<rparr>,
         ms_outcome = None\<rparr>)
     | Tool v \<Rightarrow> Some (legacy_tool dk (op_id p) (to_tool_call_id v, to_tool_name v) (to_content v)
         (tool_stage_of (to_stage v)) False)
     | Command v \<Rightarrow> Some (legacy_tool dk (op_id p) (co_command_id v, Inline (str_bytes ''terminal'')) (co_content v)
         (command_stage_of (co_stage v)) True)
     | File v \<Rightarrow> Some (KFile \<lparr>fi_action = file_action_of (fo_stage v), fi_path = fo_path v, fi_name = EmptyPayload,
         fi_renamed_to = None, fi_revision = Some (item_derive dk ''revision'' (op_bytes (op_id p))),
         fi_before = fo_base v, fi_after = fo_after v, fi_edit = fo_edit v, fi_text_edits = [],
         fi_change = change_state_of (fo_stage v), fi_caused_by = None, fi_ranges = [], fi_text_ranges = [],
         fi_duration_ms = None\<rparr>)
     | Import v \<Rightarrow> Some (KOriginal \<lparr>og_provider = ''unknown'', og_format = None, og_native = [], og_location = None,
         og_bytes = io_raw_ref v, og_hash = io_raw_hash v\<rparr>)
     | Unknown v \<Rightarrow> Some (KOriginal \<lparr>og_provider = ''unknown'',
         og_format = Some (''legacy-kind-'' @ show_nat (unat (uo_kind_discriminant v))), og_native = [],
         og_location = None, og_bytes = uo_raw_bytes v, og_hash = None\<rparr>)
     | Note v \<Rightarrow>
         if no_relationship v = Explains \<or> no_relationship v = Corrects
         then Some (KNote \<lparr>nt_category = (if no_relationship v = Corrects then Correction else Comment),
           nt_targets = no_target_ids v, nt_items = [], nt_version = 1, nt_content = no_content v,
           nt_code = EmptyPayload\<rparr>)
         else Some (KLink \<lparr>lk_from = OperationEntity (case first_parent p of None \<Rightarrow> op_id p | Some a \<Rightarrow> a),
           lk_relation = relationship_debug (no_relationship v), lk_to = map OperationEntity (no_target_ids v),
           lk_content = no_content v\<rparr>)
     | Error v \<Rightarrow> Some (KNote \<lparr>nt_category = ErrorNote, nt_targets = [], nt_items = [], nt_version = 1,
         nt_content = eo_message v, nt_code = eo_code v\<rparr>)
     | GitCommit v \<Rightarrow> Some (KCommit v)
     | GitLink v \<Rightarrow> Some (KLink \<lparr>lk_from = OperationEntity (gl_source v), lk_relation = git_relation (gl_kind v),
         lk_to = [GitEntity (gl_target_repo v) (gl_target_oid v)],
         lk_content = (case gl_kind v of CustomLink bs \<Rightarrow> bs | _ \<Rightarrow> EmptyPayload)\<rparr>)
     | Activity r \<Rightarrow> Some (op_kind r))"

definition call_item :: "derive_key \<Rightarrow> operation \<Rightarrow> payload \<Rightarrow> item_id" where
  "call_item dk r native = (case native of
       Inline bs \<Rightarrow>
         if bs = [] then item r
         else item_derive dk ''call'' (op_bytes (item_op
           (case session_id r of Some s \<Rightarrow> s | None \<Rightarrow> (case turn_id r of Some t \<Rightarrow> t | None \<Rightarrow> recorder r))) @ bs)
     | _ \<Rightarrow> item r)"

definition logical_item :: "derive_key \<Rightarrow> operation \<Rightarrow> op \<Rightarrow> item_id" where
  "logical_item dk r p = (case op_op_kind p of
       Actor _ \<Rightarrow> item_legacy dk ''author'' (actor_val (op_actor p))
     | Session s \<Rightarrow> item_legacy dk ''session'' (session_val (so_id s))
     | Tool t \<Rightarrow> call_item dk r (to_tool_call_id t)
     | Command c \<Rightarrow> call_item dk r (co_command_id c)
     | _ \<Rightarrow> item r)"

definition number_block :: "derive_key \<Rightarrow> item_id \<Rightarrow> nat \<Rightarrow> content_update \<Rightarrow> content_update" where
  "number_block dk it position b =
     b\<lparr>cu_block := item_derive dk ''message-block'' (op_bytes (item_op it) @ str_bytes (show_nat position))\<rparr>"

definition attach_item :: "derive_key \<Rightarrow> item_id \<Rightarrow> kind \<Rightarrow> kind" where
  "attach_item dk it k = (case k of
       KTool t \<Rightarrow> KTool (t\<lparr>tl_attempt := it\<rparr>)
     | KMessage m \<Rightarrow> KMessage (m\<lparr>ms_blocks :=
         map (\<lambda>(position, b). number_block dk it position b) (zip [0..<length (ms_blocks m)] (ms_blocks m))\<rparr>)
     | _ \<Rightarrow> k)"

definition private_reflection :: "derive_key \<Rightarrow> op \<Rightarrow> kind \<Rightarrow> kind" where
  "private_reflection dk p k = (case (op_op_kind p, k) of
       (Reflection v, KMessage m) \<Rightarrow>
         if matches_any (op_tags p) tags_private
         then KMessage (m\<lparr>ms_category := Reasoning, ms_coverage := None,
           ms_blocks := (if ro_anchors v \<noteq> EmptyPayload
             then ms_blocks m @ [(legacy_block dk (op_id p) (ro_anchors v) EmptyPayload Replace)\<lparr>cu_position := Some 1\<rparr>]
             else ms_blocks m)\<rparr>)
         else k
     | _ \<Rightarrow> k)"

definition is_import :: "('i, 'a) op_kind \<Rightarrow> bool" where
  "is_import k = (case k of Import _ \<Rightarrow> True | _ \<Rightarrow> False)"

definition view_base :: "derive_key \<Rightarrow> op \<Rightarrow> kind \<Rightarrow> operation" where
  "view_base dk p k = \<lparr>oid = op_id p, item = item_derive dk ''legacy-item'' (op_bytes (op_id p)),
     author_id = (if actor_val (op_actor p) \<noteq> 0 then Some (item_legacy dk ''author'' (actor_val (op_actor p))) else None),
     recorder = item_legacy dk ''legacy-recorder'' (case op_source p of None \<Rightarrow> 0 | Some s \<Rightarrow> node_val (src_node s)),
     session_id = (case op_scope p of SessionScope i \<Rightarrow> Some (item_legacy dk ''session'' (session_val i)) | _ \<Rightarrow> None),
     turn_id = (case op_scope p of TurnScope i \<Rightarrow> Some (item_legacy dk ''turn'' (turn_val i)) | _ \<Rightarrow> None),
     time_ms = observed_unix_ms p, sequence = map_option src_seq (op_source p),
     parents = parent_list (op_parents p), causes = [],
     original_of = (if matches_any (op_tags p) tags_import \<and> \<not> is_import (op_op_kind p)
       then map_option (\<lambda>i. \<lparr>or_operation = i, or_converter = ''legacy-to-schema3-v3''\<rparr>) (first_parent p) else None),
     legacy = None, op_kind = private_reflection dk p k\<rparr>"

definition view :: "derive_key \<Rightarrow> op \<Rightarrow> operation option" where
  "view dk p = (case op_op_kind p of
       Activity r \<Rightarrow> Some r
     | _ \<Rightarrow> map_option (\<lambda>k.
         let r = view_base dk p k; it = logical_item dk r p
         in r\<lparr>item := it, op_kind := attach_item dk it (op_kind r)\<rparr>) (view_kind dk p))"

section \<open>Physical upgrade\<close>

definition remap_kind :: "derive_key \<Rightarrow> kind \<Rightarrow> kind" where
  "remap_kind dk k = (case k of
       KNote n \<Rightarrow> KNote (n\<lparr>nt_targets := map (upgrade_id dk) (nt_targets n)\<rparr>)
     | KLink l \<Rightarrow> KLink (l\<lparr>lk_from := map_entity (upgrade_id dk) (lk_from l),
         lk_to := map (map_entity (upgrade_id dk)) (lk_to l)\<rparr>)
     | KCommit c \<Rightarrow> KCommit (c\<lparr>gc_imported_record := map_option (upgrade_id dk) (gc_imported_record c)\<rparr>)
     | KSession s \<Rightarrow> KSession (s\<lparr>se_initiated_by := map_option (upgrade_id dk) (se_initiated_by s)\<rparr>)
     | KMessage m \<Rightarrow> KMessage (m\<lparr>ms_coverage := map_option
         (\<lambda>c. c\<lparr>cv_operations := map (upgrade_id dk) (cv_operations c)\<rparr>) (ms_coverage m)\<rparr>)
     | _ \<Rightarrow> k)"

definition upgrade :: "derive_key \<Rightarrow> op \<Rightarrow> operation option" where
  "upgrade dk p = (case op_op_kind p of
       Activity r \<Rightarrow> Some r
     | _ \<Rightarrow> map_option (\<lambda>r. r\<lparr>oid := upgrade_id dk (op_id p), parents := map (upgrade_id dk) (parents r),
         legacy := Some \<lparr>lm_operation = op_id p, lm_folded = [], lm_source = op_source p, lm_actor = op_actor p,
           lm_clock = op_clock p, lm_scope = op_scope p, lm_tags = op_tags p\<rparr>,
         original_of := map_option (\<lambda>x. x\<lparr>or_operation := upgrade_id dk (or_operation x)\<rparr>) (original_of r),
         op_kind := remap_kind dk (op_kind r)\<rparr>) (view dk p))"

section \<open>Rendering adapter\<close>

definition turn_action_debug :: "turn_action \<Rightarrow> string" where
  "turn_action_debug a = (case a of Queued \<Rightarrow> ''Queued'' | TurnStarted \<Rightarrow> ''Started'' | Waiting \<Rightarrow> ''Waiting''
     | Resumed \<Rightarrow> ''Resumed'' | TurnFinished \<Rightarrow> ''Finished'' | TurnSnapshot \<Rightarrow> ''Snapshot'' | Removed \<Rightarrow> ''Removed'')"

definition block_text :: "content_update \<Rightarrow> bytes" where
  "block_text b = (case cu_content b of Inline c \<Rightarrow> c | EmptyPayload \<Rightarrow> [] | BlobPayload _ \<Rightarrow> str_bytes ''[attachment]'')"

definition display_kind :: "operation \<Rightarrow> (op_id, operation) op_kind" where
  "display_kind r = (case op_kind r of
       KSession s \<Rightarrow> Session \<lparr>so_id = (case legacy r of
           Some l \<Rightarrow> (case lm_scope l of SessionScope i \<Rightarrow> i | _ \<Rightarrow> SessionId 0) | None \<Rightarrow> SessionId 0),
         so_parent = None, so_label = se_label s, so_metadata = se_settings s\<rparr>
     | KTurn t \<Rightarrow> Note \<lparr>no_target_ids = tu_triggers t, no_relationship = Explains,
         no_content = Inline (str_bytes (''turn '' @ turn_action_debug (tu_action t)))\<rparr>
     | KMessage m \<Rightarrow> Message \<lparr>mo_content = Inline (concat (map block_text (ms_blocks m))),
         mo_content_type = (case ms_blocks m of [] \<Rightarrow> EmptyPayload | b # _ \<Rightarrow> cu_media_type b)\<rparr>
     | KTool t \<Rightarrow>
         let c = (if tl_stage t = Started then tl_arguments t
                  else case tl_output t of None \<Rightarrow> EmptyPayload | Some b \<Rightarrow> cu_content b) in
         if tl_terminal t \<noteq> None
         then Command \<lparr>co_command_id = tl_native_call t, co_content = c, co_stage = (case tl_stage t of
             Started \<Rightarrow> CommandStart | Updated \<Rightarrow> CommandOutput | Snapshot \<Rightarrow> CommandOutput | Finished \<Rightarrow> CommandFinish)\<rparr>
         else Tool \<lparr>to_tool_call_id = tl_native_call t, to_tool_name = tl_name t, to_stage = (case tl_stage t of
             Started \<Rightarrow> ToolStart | Updated \<Rightarrow> ToolDelta | Snapshot \<Rightarrow> ToolDelta | Finished \<Rightarrow> ToolFinish),
           to_content = c\<rparr>
     | KFile f \<Rightarrow> File \<lparr>fo_path = fi_path f, fo_stage = (case fi_action f of
           DeleteFile \<Rightarrow> Deleted
         | SaveFile \<Rightarrow> Saved
         | CreateFile \<Rightarrow> if fi_change f = Some ProposedChange then ProposedStage else AppliedStage
         | ChangeFile \<Rightarrow> if fi_change f = Some ProposedChange then ProposedStage else AppliedStage
         | RenameFile \<Rightarrow> if fi_change f = Some ProposedChange then ProposedStage else AppliedStage
         | _ \<Rightarrow> Observed),
         fo_base = fi_before f, fo_after = fi_after f, fo_edit = fi_edit f\<rparr>
     | KCommit c \<Rightarrow> GitCommit c
     | KNote n \<Rightarrow>
         if nt_category n = ErrorNote then Error \<lparr>eo_code = nt_code n, eo_message = nt_content n\<rparr>
         else Note \<lparr>no_target_ids = nt_targets n,
           no_relationship = (if nt_category n = Correction then Corrects else Explains), no_content = nt_content n\<rparr>
     | KAuthor a \<Rightarrow> Actor \<lparr>ao_label = au_label a, ao_role = au_native_role a\<rparr>
     | KLink l \<Rightarrow> Note \<lparr>no_target_ids = [], no_relationship = Explains, no_content = lk_content l\<rparr>
     | KOriginal x \<Rightarrow> Import \<lparr>io_raw_ref = og_bytes x, io_raw_hash = og_hash x\<rparr>)"

definition display_op :: "operation \<Rightarrow> op" where
  "display_op r = \<lparr>op_id = oid r, op_source = None, op_parents = parents_of_list (parents r),
     op_actor = envelope_actor r, op_clock = (case time_ms r of None \<Rightarrow> NoClock | Some t \<Rightarrow> UnixMs t),
     op_scope = envelope_scope r, op_tags = envelope_tags r, op_op_kind = display_kind r\<rparr>"

section \<open>Lemmas\<close>

lemma view_kind_None: "view_kind dk p = None \<longleftrightarrow> (\<exists>c. op_op_kind p = ChainStart c)"
  by (cases "op_op_kind p") (simp_all add: view_kind_def)

text \<open>The record an old operation of a kind with a schema-three reading is upgraded to.\<close>

definition upgraded :: "derive_key \<Rightarrow> op \<Rightarrow> kind \<Rightarrow> operation" where
  "upgraded dk p k =
     (let r = view_base dk p k; it = logical_item dk r p
      in r\<lparr>oid := upgrade_id dk (op_id p), item := it, parents := map (upgrade_id dk) (parents r),
         original_of := map_option (\<lambda>x. x\<lparr>or_operation := upgrade_id dk (or_operation x)\<rparr>) (original_of r),
         legacy := Some \<lparr>lm_operation = op_id p, lm_folded = [], lm_source = op_source p, lm_actor = op_actor p,
           lm_clock = op_clock p, lm_scope = op_scope p, lm_tags = op_tags p\<rparr>,
         op_kind := remap_kind dk (attach_item dk it (op_kind r))\<rparr>)"

definition is_activity :: "('i, 'a) op_kind \<Rightarrow> bool" where
  "is_activity k = (case k of Activity _ \<Rightarrow> True | _ \<Rightarrow> False)"

lemma upgrade_upgraded:
  "\<not> is_activity (op_op_kind p) \<Longrightarrow> upgrade dk p = map_option (upgraded dk p) (view_kind dk p)"
  by (cases "op_op_kind p"; cases "view_kind dk p")
     (simp_all add: is_activity_def upgrade_def view_def upgraded_def Let_def)

text \<open>
  What an upgrade relies on: the new identity differs from the old one and no two identities of
  the operation and its parents collide, the producer tuple is the one the identity was derived
  from, an operation is not its own parent, and the recorded ranges are not reversed.
\<close>

definition upgradable :: "derive_key \<Rightarrow> op \<Rightarrow> bool" where
  "upgradable dk p \<longleftrightarrow>
     distinct (map (upgrade_id dk) (op_id p # parent_list (op_parents p)))
     \<and> upgrade_id dk (op_id p) \<noteq> op_id p
     \<and> (case op_source p of None \<Rightarrow> True | Some s \<Rightarrow> source_id_id dk s = op_id p)
     \<and> (case op_op_kind p of
          File f \<Rightarrow> (case fo_edit f of ReplaceBytes x _ \<Rightarrow> br_start x \<le> br_end x | _ \<Rightarrow> True)
        | Reflection _ \<Rightarrow>
            let key = op_bytes (item_op (item_derive dk ''legacy-item'' (op_bytes (op_id p)))) in
            item_derive dk ''message-block'' (key @ str_bytes (show_nat 0))
              \<noteq> item_derive dk ''message-block'' (key @ str_bytes (show_nat 1))
        | _ \<Rightarrow> True)"

lemma relationship_debug_nonempty: "relationship_debug r \<noteq> []"
  by (cases r) (simp_all add: relationship_debug_def)

lemma git_relation_nonempty: "git_relation k \<noteq> []"
  by (cases k) (simp_all add: git_relation_def)

lemma require_True [simp]: "require True m = Inr ()"
  by (simp add: require_def)

lemma upgraded_sel:
  "oid (upgraded dk p k) = upgrade_id dk (op_id p)"
  "parents (upgraded dk p k) = map (upgrade_id dk) (parent_list (op_parents p))"
  "time_ms (upgraded dk p k) = observed_unix_ms p"
  "legacy (upgraded dk p k) = Some \<lparr>lm_operation = op_id p, lm_folded = [], lm_source = op_source p,
     lm_actor = op_actor p, lm_clock = op_clock p, lm_scope = op_scope p, lm_tags = op_tags p\<rparr>"
  by (simp_all add: upgraded_def Let_def view_base_def)

lemma upgraded_kind:
  "op_kind (upgraded dk p k) = remap_kind dk (attach_item dk (item (upgraded dk p k)) (private_reflection dk p k))"
  by (simp add: upgraded_def Let_def view_base_def)

lemma upgraded_item:
  "op_op_kind p = Reflection v \<Longrightarrow> item (upgraded dk p k) = item_derive dk ''legacy-item'' (op_bytes (op_id p))"
  by (simp add: upgraded_def Let_def view_base_def logical_item_def)

lemmas kind_defs = view_kind_def private_reflection_def attach_item_def remap_kind_def validate_kind_def

lemma legacy_block_previous [simp]: "cu_previous (legacy_block dk i c m md) = None"
  by (simp add: legacy_block_def)

lemma number_block_sel [simp]:
  "cu_previous (number_block dk it n b) = cu_previous b"
  "cu_block (number_block dk it n b) = item_derive dk ''message-block'' (op_bytes (item_op it) @ str_bytes (show_nat n))"
  by (simp_all add: number_block_def)

lemma upgraded_kind_valid:
  assumes k: "view_kind dk p = Some k" and ok: "upgradable dk p" and na: "\<not> is_activity (op_op_kind p)"
  shows "validate_kind (upgraded dk p k) = Inr ()"
proof -
  note kd = kind_defs upgraded_kind
  show ?thesis
  proof (cases "op_op_kind p")
    case (Reflection v)
    have "item_derive dk ''message-block'' (op_bytes (item_op (item (upgraded dk p k))) @ str_bytes (show_nat 0))
        \<noteq> item_derive dk ''message-block'' (op_bytes (item_op (item (upgraded dk p k))) @ str_bytes (show_nat 1))"
      using ok Reflection by (simp add: upgradable_def upgraded_item Let_def)
    then show ?thesis
      using k Reflection by (auto simp: kd validate_message_def validate_block_def)
  next
    case (File v)
    then have "k = KFile \<lparr>fi_action = file_action_of (fo_stage v), fi_path = fo_path v, fi_name = EmptyPayload,
         fi_renamed_to = None, fi_revision = Some (item_derive dk ''revision'' (op_bytes (op_id p))),
         fi_before = fo_base v, fi_after = fo_after v, fi_edit = fo_edit v, fi_text_edits = [],
         fi_change = change_state_of (fo_stage v), fi_caused_by = None, fi_ranges = [], fi_text_ranges = [],
         fi_duration_ms = None\<rparr>" using k by (simp add: view_kind_def)
    moreover have "case fo_edit v of ReplaceBytes x _ \<Rightarrow> br_start x \<le> br_end x | _ \<Rightarrow> True"
      using ok File by (simp add: upgradable_def)
    ultimately show ?thesis
      using File by (cases "fo_edit v"; cases "fo_stage v")
        (simp_all add: kd validate_file_def file_action_of_def change_state_of_def)
  next
    case (Note v)
    then show ?thesis
      using k relationship_debug_nonempty by (auto simp: kd split: if_splits)
  next
    case (GitLink v)
    then show ?thesis
      using k git_relation_nonempty by (auto simp: kd)
  next
    case (Tool v)
    then show ?thesis
      using k by (cases "to_stage v") (auto simp: kd legacy_tool_def validate_tool_def validate_block_def tool_stage_of_def)
  next
    case (Command v)
    then show ?thesis
      using k by (cases "co_stage v")
        (auto simp: kd legacy_tool_def validate_tool_def validate_block_def command_stage_of_def)
  next
    case (Message v)
    then show ?thesis using k by (auto simp: kd validate_message_def validate_block_def)
  qed (use k na in \<open>auto simp: kd is_activity_def\<close>)
qed

lemma upgraded_valid:
  assumes "view_kind dk p = Some k" and ok: "upgradable dk p" and "\<not> is_activity (op_op_kind p)"
  shows "validate dk (upgraded dk p k) = Inr ()"
proof -
  let ?f = "upgrade_id dk" and ?ps = "parent_list (op_parents p)"
  have d: "distinct (map ?f ?ps)" "?f (op_id p) \<notin> set (map ?f ?ps)" "?f (op_id p) \<noteq> op_id p"
    using ok by (simp_all add: upgradable_def)
  have "or_operation o' \<noteq> ?f (op_id p) \<and> or_converter o' \<noteq> []" if orig: "original_of (upgraded dk p k) = Some o'" for o'
  proof -
    obtain a where "first_parent p = Some a" "o' = \<lparr>or_operation = ?f a, or_converter = ''legacy-to-schema3-v3''\<rparr>"
      using orig by (auto simp: upgraded_def Let_def view_base_def split: if_splits)
    moreover from this have "a \<in> set ?ps" by (auto simp: first_parent_def split: list.splits)
    ultimately show ?thesis using d(2) by (auto simp: image_iff)
  qed
  then have orig: "(case original_of (upgraded dk p k) of None \<Rightarrow> True
      | Some o' \<Rightarrow> or_operation o' \<noteq> ?f (op_id p) \<and> or_converter o' \<noteq> []) = True"
    by (cases "original_of (upgraded dk p k)") auto
  have leg: "validate_legacy dk (upgraded dk p k) = Inr ()"
    using ok d(3) by (cases "op_source p") (auto simp: validate_legacy_def upgraded_sel upgradable_def)
  show ?thesis
    unfolding validate_def upgraded_sel orig unique_iff_distinct leg upgraded_kind_valid [OF assms]
    using d by simp
qed

text \<open>Kinds whose schema-three reading keeps everything the renderer shows.\<close>

definition renders_exactly :: "(op_id, operation) op_kind \<Rightarrow> bool" where
  "renders_exactly k = (case k of
       Actor _ \<Rightarrow> True | Tool _ \<Rightarrow> True | Command _ \<Rightarrow> True | File _ \<Rightarrow> True | Import _ \<Rightarrow> True | Error _ \<Rightarrow> True
     | GitCommit _ \<Rightarrow> True
     | Message v \<Rightarrow> (case mo_content v of Inline _ \<Rightarrow> True | _ \<Rightarrow> False)
     | Note v \<Rightarrow> no_relationship v = Explains \<or> no_relationship v = Corrects
     | _ \<Rightarrow> False)"

lemma legacy_block_sel [simp]:
  "cu_content (legacy_block dk i c m md) = c" "cu_media_type (legacy_block dk i c m md) = m"
  by (simp_all add: legacy_block_def)

lemma number_block_content [simp]:
  "cu_content (number_block dk it n b) = cu_content b" "cu_media_type (number_block dk it n b) = cu_media_type b"
  by (simp_all add: number_block_def)

lemma view_display_kind:
  assumes "renders_exactly (op_op_kind p)" and v: "view dk p = Some r"
  shows "display_kind r = op_op_kind p"
proof -
  obtain k where k: "view_kind dk p = Some k" and ok: "op_kind r = attach_item dk (item r) (private_reflection dk p k)"
    using assms by (cases "op_op_kind p")
      (auto simp: view_def Let_def view_base_def renders_exactly_def)
  note defs = display_kind_def view_kind_def attach_item_def private_reflection_def
  show ?thesis
  proof (cases "op_op_kind p")
    case (Tool t)
    then show ?thesis using k ok
      by (cases "to_stage t") (auto simp: defs legacy_tool_def tool_stage_of_def)
  next
    case (Command c)
    then show ?thesis using k ok
      by (cases "co_stage c") (auto simp: defs legacy_tool_def command_stage_of_def)
  next
    case (File f)
    then show ?thesis using k ok
      by (cases "fo_stage f") (auto simp: defs file_action_of_def change_state_of_def)
  next
    case (Message m)
    then show ?thesis using k ok assms(1)
      by (auto simp: defs renders_exactly_def block_text_def split: payload.splits)
  next
    case (Note n)
    then show ?thesis using k ok assms(1) by (auto simp: defs renders_exactly_def)
  qed (use k ok assms(1) in \<open>auto simp: defs renders_exactly_def\<close>)
qed

text \<open>The identities a kind refers to, in order.\<close>

definition kind_refs :: "('i, 'a) op_kind \<Rightarrow> 'i list" where
  "kind_refs k = (case k of
       Note v \<Rightarrow> no_target_ids v
     | GitLink v \<Rightarrow> [gl_source v]
     | GitCommit v \<Rightarrow> option_list (gc_imported_record v)
     | _ \<Rightarrow> [])"

lemma option_list_inject [simp]: "option_list x = option_list y \<longleftrightarrow> x = y"
  by (cases x; cases y) (simp_all add: option_list_def)

section \<open>Properties\<close>

text \<open>
  C32. An EC02 operation keeps its producer tuple next to the identity derived from it, and
  canonicalisation maps every reference pointwise in order, dangling ones included.
  The rest of a kind is kept: two kinds with the same references and the same canonical form are
  equal.
\<close>

theorem into_canonical_references:
  "op_source (into_canonical dk l) = Some (lg_id l) \<and> op_id (into_canonical dk l) = source_id_id dk (lg_id l)
   \<and> parent_list (op_parents (into_canonical dk l)) = map (source_id_id dk) (parent_list (lg_parents l))
   \<and> kind_refs (op_op_kind (into_canonical dk l)) = map (source_id_id dk) (kind_refs (lg_kind l))
   \<and> (map_kind f k = map_kind f k' \<and> kind_refs k = kind_refs k' \<longrightarrow> k = k')"
proof -
  have "k = k'" if "map_kind f k = map_kind f k'" "kind_refs k = kind_refs k'"
    using that by (cases k; cases k') (auto simp: map_kind_def kind_refs_def intro: git_commit_entity.equality)
  then show ?thesis
    by (cases "lg_parents l"; cases "lg_kind l")
       (auto simp: into_canonical_def parent_list_def kind_refs_def map_kind_def option_list_def split: option.splits)
qed

theorem into_canonical_references_witness:
  "kind_refs (op_op_kind (into_canonical (\<lambda>_ b. b) \<lparr>lg_id = SourceId (NodeId 1) 2 3, lg_parents = NoParent,
      lg_actor = ActorId 0, lg_clock = NoClock, lg_scope = NoScope, lg_tags = tags_none,
      lg_kind = Note \<lparr>no_target_ids = [SourceId (NodeId 9) 0 1], no_relationship = Explains, no_content = EmptyPayload\<rparr>
        :: (source_id, operation) op_kind\<rparr>))
   = [source_id_id (\<lambda>_ b. b) (SourceId (NodeId 9) 0 1)]"
proof -
  let ?l = "\<lparr>lg_id = SourceId (NodeId 1) 2 3, lg_parents = NoParent,
      lg_actor = ActorId 0, lg_clock = NoClock, lg_scope = NoScope, lg_tags = tags_none,
      lg_kind = Note \<lparr>no_target_ids = [SourceId (NodeId 9) 0 1], no_relationship = Explains, no_content = EmptyPayload\<rparr>
        :: (source_id, operation) op_kind\<rparr>"
  have "kind_refs (op_op_kind (into_canonical (\<lambda>_ b. b) ?l)) = map (source_id_id (\<lambda>_ b. b)) (kind_refs (lg_kind ?l))"
    using into_canonical_references [where dk = "\<lambda>_ b. b" and l = ?l and f = "source_id_id (\<lambda>_ b. b)"
        and k = "lg_kind ?l" and k' = "lg_kind ?l"] by blast
  then show ?thesis by (simp add: kind_refs_def)
qed

lemma observed_activity: "op_op_kind w = Activity r \<Longrightarrow> observed_unix_ms w = time_ms r"
  by (simp add: observed_unix_ms_def)

text \<open>
  C33. For an operation that is not already a schema-three record and that is \<open>upgradable\<close> (the
  derived identities of the operation and its parents are distinct, the operation's differs from the
  old one, a producer tuple derives the old identity, a replaced byte range is not reversed, and the
  two blocks of a reflection get distinct identities): only chain initialisation has no upgrade.
  Any other such operation upgrades to a valid record whose store wrapper has the new identity, the
  mapped parents, and the old actor, clock, scope, tags and observed time; the old address is
  recorded; and upgrading the wrapper again changes nothing.
\<close>

theorem upgrade_sound:
  assumes "upgradable dk p" and "\<not> is_activity (op_op_kind p)"
  shows "(upgrade dk p = None \<longleftrightarrow> (\<exists>c. op_op_kind p = ChainStart c)) \<and>
    (\<forall>r. upgrade dk p = Some r \<longrightarrow> (\<exists>w. into_op dk r = Inr w \<and> op_id w = upgrade_id dk (op_id p)
      \<and> causal_parents w = map (upgrade_id dk) (parent_list (op_parents p))
      \<and> op_actor w = op_actor p \<and> op_clock w = op_clock p \<and> op_scope w = op_scope p \<and> op_tags w = op_tags p
      \<and> observed_unix_ms w = observed_unix_ms p \<and> map_option lm_operation (legacy r) = Some (op_id p)
      \<and> upgrade dk w = Some r))"
proof (intro conjI allI impI)
  show "upgrade dk p = None \<longleftrightarrow> (\<exists>c. op_op_kind p = ChainStart c)"
    using assms by (simp add: upgrade_upgraded view_kind_None)
  fix r assume "upgrade dk p = Some r"
  then obtain k where k: "view_kind dk p = Some k" and r: "r = upgraded dk p k"
    using assms by (auto simp: upgrade_upgraded)
  have "validate dk r = Inr ()" unfolding r by (rule upgraded_valid [OF k assms])
  then show "\<exists>w. into_op dk r = Inr w \<and> op_id w = upgrade_id dk (op_id p)
      \<and> causal_parents w = map (upgrade_id dk) (parent_list (op_parents p))
      \<and> op_actor w = op_actor p \<and> op_clock w = op_clock p \<and> op_scope w = op_scope p \<and> op_tags w = op_tags p
      \<and> observed_unix_ms w = observed_unix_ms p \<and> map_option lm_operation (legacy r) = Some (op_id p)
      \<and> upgrade dk w = Some r"
    by (simp add: into_op_def causal_parents_def observed_activity upgrade_def r upgraded_sel
        envelope_actor_def envelope_clock_def envelope_scope_def envelope_tags_def)
qed

theorem upgrade_sound_witness:
  "\<exists>r w. upgrade (\<lambda>_ b. 0 # b) (gen_op_new (OpId [1]) (OneParent (OpId [2])) (ActorId 5) (UnixMs 9) NoScope tags_none
      (Message \<lparr>mo_content = Inline [65], mo_content_type = EmptyPayload\<rparr>)) = Some r
    \<and> into_op (\<lambda>_ b. 0 # b) r = Inr w \<and> op_id w = OpId [0, 1] \<and> causal_parents w = [OpId [0, 2]]
    \<and> observed_unix_ms w = Some 9"
proof -
  let ?p = "gen_op_new (OpId [1]) (OneParent (OpId [2])) (ActorId 5) (UnixMs 9) NoScope tags_none
      (Message \<lparr>mo_content = Inline [65], mo_content_type = EmptyPayload\<rparr>) :: op"
  have ok: "upgradable (\<lambda>_ b. 0 # b) ?p" "\<not> is_activity (op_op_kind ?p)" by code_simp+
  have "\<not> (\<exists>c. op_op_kind ?p = ChainStart c)" by (simp add: gen_op_new_def)
  then obtain r where r: "upgrade (\<lambda>_ b. 0 # b) ?p = Some r" using upgrade_sound [OF ok] by blast
  moreover have "op_id ?p = OpId [1]" "parent_list (op_parents ?p) = [OpId [2]]" "observed_unix_ms ?p = Some 9"
    by code_simp+
  ultimately show ?thesis using upgrade_sound [OF ok] by (auto simp: upgrade_id_def)
qed

lemma observed_nonzero: "observed_unix_ms p = Some t \<Longrightarrow> \<not> is_activity (op_op_kind p) \<Longrightarrow> t \<noteq> 0"
  by (cases "op_op_kind p"; cases "op_clock p")
     (auto simp: observed_unix_ms_def is_activity_def clock_observed_unix_ms_def split: if_splits)

text \<open>
  C34. Reading an old operation of a kind whose reading is not lossy (\<open>renders_exactly\<close>) and
  rendering it again gives its kind, identity and parents, with a clock that is the observed time of
  the operation or none, so that the rendered envelope shows the same observed time. The producer
  tuple, actor, scope and tags are not part of a reading: the rendered envelope has the defaults.
\<close>

theorem view_display_roundtrip:
  assumes "renders_exactly (op_op_kind p)" and "view dk p = Some r"
  shows "display_op r = \<lparr>op_id = op_id p, op_source = None, op_parents = op_parents p, op_actor = ActorId 0,
        op_clock = (case observed_unix_ms p of None \<Rightarrow> NoClock | Some t \<Rightarrow> UnixMs t),
        op_scope = NoScope, op_tags = tags_none, op_op_kind = op_op_kind p\<rparr>
    \<and> observed_unix_ms (display_op r) = observed_unix_ms p"
proof -
  have "oid r = op_id p" "parents r = parent_list (op_parents p)" "time_ms r = observed_unix_ms p" "legacy r = None"
    using assms by (cases "op_op_kind p"; auto simp: renders_exactly_def view_def Let_def view_base_def)+
  moreover have "parents_of_list (parent_list (op_parents p)) = op_parents p"
    by (cases "op_parents p") (simp_all add: parents_of_list_def parent_list_def)
  ultimately have eq: "display_op r = \<lparr>op_id = op_id p, op_source = None, op_parents = op_parents p, op_actor = ActorId 0,
        op_clock = (case observed_unix_ms p of None \<Rightarrow> NoClock | Some t \<Rightarrow> UnixMs t),
        op_scope = NoScope, op_tags = tags_none, op_op_kind = op_op_kind p\<rparr>"
    using view_display_kind [OF assms]
    by (simp add: display_op_def envelope_actor_def envelope_scope_def envelope_tags_def)
  have na: "\<not> is_activity (op_op_kind p)"
    using assms(1) by (cases "op_op_kind p") (simp_all add: renders_exactly_def is_activity_def)
  have "\<not> matches_any tags_none tags_source_time_unknown" by (simp add: matches_any_def tags_none_def)
  then have "observed_unix_ms q = clock_observed_unix_ms (op_clock q)"
    if "op_op_kind q = op_op_kind p" "op_tags q = tags_none" for q :: op
    using na that by (cases "op_op_kind p") (simp_all add: observed_unix_ms_def is_activity_def)
  then have "observed_unix_ms (display_op r) = observed_unix_ms p"
    using observed_nonzero [OF _ na] unfolding eq
    by (cases "observed_unix_ms p") (simp_all add: clock_observed_unix_ms_def)
  with eq show ?thesis by simp
qed

theorem view_display_roundtrip_witness:
  "\<exists>r. view (\<lambda>_ b. 0 # b) (gen_op_new (OpId [1]) (OneParent (OpId [2])) (ActorId 5) (UnixMs 9) NoScope tags_none
      (Message \<lparr>mo_content = Inline [65], mo_content_type = EmptyPayload\<rparr>)) = Some r
     \<and> op_op_kind (display_op r) = Message \<lparr>mo_content = Inline [65], mo_content_type = EmptyPayload\<rparr>
     \<and> op_clock (display_op r) = UnixMs 9 \<and> observed_unix_ms (display_op r) = Some 9"
proof -
  let ?p = "gen_op_new (OpId [1]) (OneParent (OpId [2])) (ActorId 5) (UnixMs 9) NoScope tags_none
      (Message \<lparr>mo_content = Inline [65], mo_content_type = EmptyPayload\<rparr>) :: op"
  obtain r where r: "view (\<lambda>_ b. 0 # b) ?p = Some r" by (simp add: view_def view_kind_def gen_op_new_def)
  have "renders_exactly (op_op_kind ?p)" "observed_unix_ms ?p = Some 9" by code_simp+
  note rt = view_display_roundtrip [OF this(1) r, unfolded this(2)]
  then have "observed_unix_ms (display_op r) = Some 9" by blast
  moreover have "op_clock (display_op r) = UnixMs 9" "op_op_kind (display_op r) = op_op_kind ?p" using rt by simp_all
  ultimately show ?thesis using r by (intro exI [of _ r] conjI) (simp_all add: gen_op_new_def)
qed

end
