(* ===== verification/Ec03.thy ===== *)
theory Ec03
  imports EC_Prelude
begin

text \<open>
  The EC03 wire frame (\<open>editchain-store/src/format/ec03.rs\<close>): a 32-byte header with its
  own checksum, length-prefixed records each with a checksum, and a frame checksum. The CRC of
  the \<open>crc\<close> crate is the parameter \<open>crc\<close> of every definition that uses it; no
  property here assumes anything of it.
\<close>

section \<open>Constants and data\<close>

definition MAGIC :: bytes where
  "MAGIC = [0x45, 0x43, 0x30, 0x33]"

definition EC03_FORMAT_VERSION :: nat where
  "EC03_FORMAT_VERSION = 2"

definition MAX_FRAME_BYTES :: nat where
  "MAX_FRAME_BYTES = 128 * 1024 * 1024"

definition MAX_RECORD_BYTES :: nat where
  "MAX_RECORD_BYTES = 64 * 1024 * 1024"

definition HEADER_BYTES :: nat where
  "HEADER_BYTES = 32"

definition FRAME_OVERHEAD :: nat where
  "FRAME_OVERHEAD = HEADER_BYTES + 4"

definition RECORD_OVERHEAD :: nat where
  "RECORD_OVERHEAD = 9"

lemmas ec03_consts = MAGIC_def EC03_FORMAT_VERSION_def MAX_FRAME_BYTES_def MAX_RECORD_BYTES_def
  HEADER_BYTES_def FRAME_OVERHEAD_def RECORD_OVERHEAD_def

record page_record =
  rec_flags :: u8
  rec_data :: bytes

record ec03_frame =
  page_sequence :: u32
  records :: "page_record list"

definition ec03_frame_new :: "u32 \<Rightarrow> ec03_frame" where
  "ec03_frame_new sq = \<lparr>page_sequence = sq, records = []\<rparr>"

definition ec03_add_record :: "u8 \<Rightarrow> bytes \<Rightarrow> ec03_frame \<Rightarrow> ec03_frame" where
  "ec03_add_record fl d frame =
     frame\<lparr>records := records frame @ [\<lparr>rec_flags = fl, rec_data = d\<rparr>]\<rparr>"

datatype frame_error = Incomplete | Magic | UnsupportedFrame | Length | Checksum

text \<open>\<open>array::<N>\<close>: a fixed-width field, absent when the input is too short.\<close>

definition array :: "nat \<Rightarrow> bytes \<Rightarrow> nat \<Rightarrow> frame_error + bytes" where
  "array n bs offset = ok_or Incomplete (slice_get bs offset (offset + n))"

section \<open>Encoding\<close>

text \<open>The sizing pass of \<open>encode_records\<close>: \<open>length\<close> and \<open>count\<close> with checked sums.\<close>

fun measure_records :: "nat \<Rightarrow> nat \<Rightarrow> (u8 \<times> bytes) list \<Rightarrow> frame_error + nat \<times> nat" where
  "measure_records len count [] = Inr (len, count)"
| "measure_records len count ((fl, d) # rs) =
     rbind (ok_or Length (u32_try_from (length d))) (\<lambda>n.
       if MAX_RECORD_BYTES < unat n then Inl Length
       else rbind (ok_or Length (Option.bind (checked_add 64 len RECORD_OVERHEAD)
                    (\<lambda>n. checked_add 64 n (length d)))) (\<lambda>len'.
            rbind (ok_or Length (checked_add 32 count 1)) (\<lambda>count'.
              measure_records len' count' rs)))"

definition encode_record :: "(bytes \<Rightarrow> u32) \<Rightarrow> u8 \<times> bytes \<Rightarrow> frame_error + bytes" where
  "encode_record crc = (\<lambda>(fl, d).
     rbind (ok_or Length (u32_try_from (length d))) (\<lambda>n.
       Inr (le_bytes 4 (unat n) @ [fl] @ d @ le_bytes 4 (unat (crc d)))))"

definition encode_header :: "(bytes \<Rightarrow> u32) \<Rightarrow> nat \<Rightarrow> nat \<Rightarrow> u32 \<Rightarrow> bytes" where
  "encode_header crc frame_length count sq =
     (let bs = MAGIC @ le_bytes 2 EC03_FORMAT_VERSION @ le_bytes 2 32 @ le_bytes 4 frame_length
               @ le_bytes 4 count @ le_bytes 8 (unat sq) @ le_bytes 4 0
      in bs @ le_bytes 4 (unat (crc bs)))"

definition encode_records :: "(bytes \<Rightarrow> u32) \<Rightarrow> u32 \<Rightarrow> (u8 \<times> bytes) list \<Rightarrow> frame_error + bytes" where
  "encode_records crc sq rs =
     rbind (measure_records FRAME_OVERHEAD 0 rs) (\<lambda>(len, count).
     rbind (ok_or Length (u32_try_from len)) (\<lambda>frame_length.
       if MAX_FRAME_BYTES < unat frame_length then Inl Length
       else rbind (traverse (encode_record crc) rs) (\<lambda>parts.
         let bs = encode_header crc (unat frame_length) count sq @ concat parts
         in Inr (bs @ le_bytes 4 (unat (crc bs))))))"

definition encode_ec03 :: "(bytes \<Rightarrow> u32) \<Rightarrow> ec03_frame \<Rightarrow> frame_error + bytes" where
  "encode_ec03 crc frame =
     encode_records crc (page_sequence frame) (map (\<lambda>r. (rec_flags r, rec_data r)) (records frame))"

section \<open>Scanning and decoding\<close>

record frame_ref =
  fr_sequence :: u32
  fr_length :: nat
  fr_records :: bytes

record checked_record =
  cr_flags :: u8
  cr_data :: bytes
  cr_checksum :: u32
  cr_length :: nat

definition scan_record :: "(bytes \<Rightarrow> u32) \<Rightarrow> bytes \<Rightarrow> frame_error + checked_record" where
  "scan_record crc bs =
     rbind (array 4 bs 0) (\<lambda>lb.
       let len = le_nat lb in
       if MAX_RECORD_BYTES < len then Inl Length
       else let end = len + 5 in
         rbind (ok_or Length (slice_get bs 5 end)) (\<lambda>d.
         rbind (ok_or Length (slice_get bs 4 5)) (\<lambda>fl.
         rbind (ok_or Length (slice_get bs end (end + 4))) (\<lambda>stored.
           if unat (crc d) \<noteq> le_nat stored then Inl Checksum
           else Inr \<lparr>cr_flags = hd fl, cr_data = d, cr_checksum = word_of_nat (le_nat stored),
                     cr_length = end + 4\<rparr>))))"

text \<open>The record loop of \<open>scan_frame\<close>: \<open>count\<close> records, and what follows them.\<close>

fun skip_records :: "(bytes \<Rightarrow> u32) \<Rightarrow> nat \<Rightarrow> bytes \<Rightarrow> frame_error + bytes" where
  "skip_records crc 0 remaining = Inr remaining"
| "skip_records crc (Suc n) remaining =
     rbind (scan_record crc remaining) (\<lambda>r.
     rbind (ok_or Length (slice_from remaining (cr_length r))) (skip_records crc n))"

text \<open>The body of \<open>scan_frame\<close> after the declared length has been accepted.\<close>

definition scan_body :: "(bytes \<Rightarrow> u32) \<Rightarrow> bytes \<Rightarrow> nat \<Rightarrow> frame_error + frame_ref" where
  "scan_body crc bs len =
     rbind (ok_or Incomplete (slice_get bs 0 len)) (\<lambda>frame.
       let end = len - 4 in
       rbind (ok_or Length (slice_get frame 0 end)) (\<lambda>covered.
       rbind (array 4 frame end) (\<lambda>stored.
       if unat (crc covered) \<noteq> le_nat stored then Inl Checksum
       else rbind (ok_or Length (slice_get frame HEADER_BYTES end)) (\<lambda>recs.
         rbind (array 4 bs 12) (\<lambda>cb.
         let count = le_nat cb in
         if length recs div RECORD_OVERHEAD < count then Inl Length
         else rbind (skip_records crc count recs) (\<lambda>remaining.
           if remaining \<noteq> [] then Inl Length
           else rbind (array 8 bs 16) (\<lambda>sb.
             rbind (ok_or Length (u32_try_from (le_nat sb))) (\<lambda>sq.
               Inr \<lparr>fr_sequence = sq, fr_length = len, fr_records = recs\<rparr>))))))))"

definition scan_frame :: "(bytes \<Rightarrow> u32) \<Rightarrow> bytes \<Rightarrow> frame_error + frame_ref" where
  "scan_frame crc bs =
     rbind (array 4 bs 0) (\<lambda>magic.
     if magic \<noteq> MAGIC then Inl Magic
     else rbind (ok_or Incomplete (slice_get bs 0 HEADER_BYTES)) (\<lambda>header.
       rbind (ok_or Length (slice_get header 0 28)) (\<lambda>covered.
       rbind (array 4 bs 28) (\<lambda>stored.
       if unat (crc covered) \<noteq> le_nat stored then Inl Checksum
       else rbind (array 2 bs 4) (\<lambda>version.
       if le_nat version \<noteq> EC03_FORMAT_VERSION then Inl UnsupportedFrame
       else rbind (array 2 bs 6) (\<lambda>size.
       if le_nat size \<noteq> 32 then Inl UnsupportedFrame
       else rbind (array 4 bs 24) (\<lambda>features.
       if le_nat features \<noteq> 0 then Inl UnsupportedFrame
       else rbind (array 4 bs 8) (\<lambda>declared.
         let len = le_nat declared in
         if MAX_FRAME_BYTES < len \<or> len < FRAME_OVERHEAD then Inl Length
         else scan_body crc bs len))))))))"

text \<open>The loop of \<open>decode_ec03\<close>, which consumes at least nine bytes a step.\<close>

lemma scan_record_length:
  "scan_record crc bs = Inr r \<Longrightarrow> 9 \<le> cr_length r \<and> cr_length r \<le> length bs"
  by (auto simp: scan_record_def array_def result_iffs Let_def slice_get_Some split: if_splits)

function decode_loop :: "(bytes \<Rightarrow> u32) \<Rightarrow> bytes \<Rightarrow> ec03_frame \<Rightarrow> frame_error + ec03_frame" where
  "decode_loop crc remaining result =
     (if remaining = [] then Inr result
      else rbind (scan_record crc remaining) (\<lambda>r.
        rbind (ok_or Length (slice_from remaining (cr_length r))) (\<lambda>remaining'.
          decode_loop crc remaining' (ec03_add_record (cr_flags r) (cr_data r) result))))"
  by pat_completeness auto
termination
  by (relation "measure (\<lambda>(_, bs, _). length bs)")
     (auto simp: ok_or_Inr_iff slice_from_Some dest!: scan_record_length)

declare decode_loop.simps [simp del]

definition decode_ec03 :: "(bytes \<Rightarrow> u32) \<Rightarrow> bytes \<Rightarrow> frame_error + ec03_frame" where
  "decode_ec03 crc bs =
     rbind (scan_frame crc bs) (\<lambda>frame.
       decode_loop crc (fr_records frame) (ec03_frame_new (fr_sequence frame)))"

section \<open>The format as a specification\<close>

text \<open>
  The layout without the checks: \<open>raw_frame\<close> is the byte string of a frame, and
  \<open>frame_ok\<close> says which frames have one. The encoder computes \<open>raw_frame\<close> exactly
  on the frames with \<open>frame_ok\<close>, and the scanner accepts exactly its values.
\<close>

definition raw_record :: "(bytes \<Rightarrow> u32) \<Rightarrow> u8 \<times> bytes \<Rightarrow> bytes" where
  "raw_record crc = (\<lambda>(fl, d). le_bytes 4 (length d) @ [fl] @ d @ le_bytes 4 (unat (crc d)))"

definition raw_body :: "(bytes \<Rightarrow> u32) \<Rightarrow> (u8 \<times> bytes) list \<Rightarrow> bytes" where
  "raw_body crc rs = concat (map (raw_record crc) rs)"

definition body_size :: "(u8 \<times> bytes) list \<Rightarrow> nat" where
  "body_size rs = sum_list (map (\<lambda>(fl, d). 9 + length d) rs)"

definition records_ok :: "(u8 \<times> bytes) list \<Rightarrow> bool" where
  "records_ok rs \<longleftrightarrow> (\<forall>(fl, d) \<in> set rs. length d \<le> MAX_RECORD_BYTES)"

definition frame_ok :: "(u8 \<times> bytes) list \<Rightarrow> bool" where
  "frame_ok rs \<longleftrightarrow> records_ok rs \<and> FRAME_OVERHEAD + body_size rs \<le> MAX_FRAME_BYTES"

definition raw_frame :: "(bytes \<Rightarrow> u32) \<Rightarrow> u32 \<Rightarrow> (u8 \<times> bytes) list \<Rightarrow> bytes" where
  "raw_frame crc sq rs =
     (let bs = encode_header crc (FRAME_OVERHEAD + body_size rs) (length rs) sq @ raw_body crc rs
      in bs @ le_bytes 4 (unat (crc bs)))"

lemma records_ok_simps [simp]:
  "records_ok []"
  "records_ok ((fl, d) # rs) \<longleftrightarrow> length d \<le> MAX_RECORD_BYTES \<and> records_ok rs"
  by (auto simp: records_ok_def)

lemma body_size_simps [simp]:
  "body_size [] = 0"
  "body_size ((fl, d) # rs) = 9 + length d + body_size rs"
  by (simp_all add: body_size_def)

lemma raw_body_simps [simp]:
  "raw_body crc [] = []"
  "raw_body crc (r # rs) = raw_record crc r @ raw_body crc rs"
  by (simp_all add: raw_body_def)

lemma length_raw_record [simp]: "length (raw_record crc (fl, d)) = 9 + length d"
  by (simp add: raw_record_def)

lemma length_raw_body [simp]: "length (raw_body crc rs) = body_size rs"
  by (induction rs) auto

lemma body_size_length: "9 * length rs \<le> body_size rs"
  by (induction rs) auto

lemma length_encode_header [simp]: "length (encode_header crc n c sq) = 32"
  by (simp add: encode_header_def MAGIC_def Let_def)

lemma length_raw_frame: "length (raw_frame crc sq rs) = FRAME_OVERHEAD + body_size rs"
  by (simp add: raw_frame_def Let_def ec03_consts)

lemma max_record_u32: "n \<le> MAX_RECORD_BYTES \<Longrightarrow> n < 2 ^ 32"
  by (simp add: MAX_RECORD_BYTES_def)

lemma max_frame_u32: "n \<le> MAX_FRAME_BYTES \<Longrightarrow> n < 2 ^ 32"
  by (simp add: MAX_FRAME_BYTES_def)

lemma records_ok_iff: "records_ok rs \<longleftrightarrow> (\<forall>r\<in>set rs. length (snd r) \<le> MAX_RECORD_BYTES)"
  by (auto simp: records_ok_def)

section \<open>The encoder computes the format\<close>

lemma measure_records_error: "measure_records len count rs = Inl e \<Longrightarrow> e = Length"
proof (induction rs arbitrary: len count)
  case (Cons r rs)
  then show ?case by (cases r) (auto simp: result_iffs split: if_splits)
qed simp

lemma measure_records_sound:
  "case measure_records len count rs of
     Inl e \<Rightarrow> e = Length
   | Inr (l, c) \<Rightarrow> l = len + body_size rs \<and> c = count + length rs \<and> records_ok rs"
proof (induction rs arbitrary: len count)
  case Nil
  then show ?case by simp
next
  case (Cons r rs)
  obtain fl d where r: "r = (fl, d)" by (cases r)
  show ?case
  proof (cases "measure_records len count (r # rs)")
    case (Inl e)
    then show ?thesis
      using measure_records_error [OF Inl] by simp
  next
    case (Inr lc)
    then obtain l' c' where "length d \<le> MAX_RECORD_BYTES" "l' = len + 9 + length d" "c' = Suc count"
        "measure_records l' c' rs = Inr lc"
      by (auto simp: r result_iffs u32_try_from_Some bind_eq_Some_conv checked_add_Some
          RECORD_OVERHEAD_def split: if_splits)
    with Cons.IH [of l' c'] Inr show ?thesis by (auto simp: r)
  qed
qed

lemma measure_records_complete:
  assumes "records_ok rs" and "len + body_size rs \<le> umax 64" and "count + length rs \<le> umax 32"
  shows "measure_records len count rs = Inr (len + body_size rs, count + length rs)"
  using assms
proof (induction rs arbitrary: len count)
  case Nil
  then show ?case by simp
next
  case (Cons r rs)
  obtain fl d where r: "r = (fl, d)" by (cases r)
  have d: "length d \<le> MAX_RECORD_BYTES" "length d < 2 ^ 32"
    using Cons.prems(1) max_record_u32 by (auto simp: r)
  have sums: "checked_add 64 len RECORD_OVERHEAD = Some (len + 9)"
      "checked_add 64 (len + 9) (length d) = Some (len + 9 + length d)"
      "checked_add 32 count 1 = Some (Suc count)"
    using Cons.prems(2,3) by (simp_all add: r checked_add_def RECORD_OVERHEAD_def)
  have "measure_records (len + 9 + length d) (Suc count) rs
      = Inr (len + 9 + length d + body_size rs, Suc count + length rs)"
    using Cons.prems by (intro Cons.IH) (simp_all add: r)
  then show ?case
    using d sums by (simp add: r u32_try_from_def)
qed

lemma traverse_encode_record:
  "records_ok rs \<Longrightarrow> traverse (encode_record crc) rs = Inr (map (raw_record crc) rs)"
  by (induction rs) (auto simp: encode_record_def raw_record_def u32_try_from_def MAX_RECORD_BYTES_def)

lemma encode_records_eq:
  "encode_records crc sq rs = (if frame_ok rs then Inr (raw_frame crc sq rs) else Inl Length)"
proof (cases "frame_ok rs")
  case True
  have ok: "records_ok rs" and size: "FRAME_OVERHEAD + body_size rs \<le> MAX_FRAME_BYTES"
    using True by (auto simp: frame_ok_def)
  have cnt: "length rs \<le> umax 32"
    using size body_size_length [of rs] by (simp add: ec03_consts)
  have "measure_records FRAME_OVERHEAD 0 rs = Inr (FRAME_OVERHEAD + body_size rs, length rs)"
    using measure_records_complete [OF ok, where len = FRAME_OVERHEAD and count = 0] size cnt
    by (simp add: MAX_FRAME_BYTES_def)
  then show ?thesis
    using True size max_frame_u32 [OF size]
    by (simp add: encode_records_def u32_try_from_def traverse_encode_record [OF ok] raw_frame_def
        raw_body_def Let_def del: of_nat_add)
next
  case False
  consider e where "measure_records FRAME_OVERHEAD 0 rs = Inl e" "e = Length"
    | "measure_records FRAME_OVERHEAD 0 rs = Inr (FRAME_OVERHEAD + body_size rs, length rs)" "records_ok rs"
    using measure_records_sound [where len = FRAME_OVERHEAD and count = 0 and rs = rs]
    by (auto split: sum.splits)
  then show ?thesis
  proof cases
    case 2
    then have "MAX_FRAME_BYTES < FRAME_OVERHEAD + body_size rs"
      using False by (simp add: frame_ok_def)
    then show ?thesis
      using 2 False by (auto simp: encode_records_def u32_try_from_def simp del: of_nat_add)
  qed (simp add: encode_records_def False)
qed

section \<open>The scanner accepts the format, and nothing else\<close>

lemma array_field: "length xs = a \<Longrightarrow> n = length ys \<Longrightarrow> array n (xs @ ys @ zs) a = Inr ys"
  by (simp add: array_def slice_get_field)

lemma array_Inr_iff: "array n bs a = Inr ys \<longleftrightarrow> a + n \<le> length bs \<and> ys = take n (drop a bs)"
  by (auto simp: array_def result_iffs slice_get_Some)

lemma array_Inl: "array n bs a = Inl e \<Longrightarrow> e = Incomplete"
  by (auto simp: array_def result_iffs)

lemma le_bytes_le_nat_n: "length bs = n \<Longrightarrow> le_bytes n (le_nat bs) = bs"
  using le_bytes_le_nat [of bs] by simp

lemma scan_record_raw:
  assumes "length d \<le> MAX_RECORD_BYTES"
  shows "scan_record crc (raw_record crc (fl, d) @ rest)
    = Inr \<lparr>cr_flags = fl, cr_data = d, cr_checksum = crc d, cr_length = 9 + length d\<rparr>"
proof -
  let ?n = "le_bytes 4 (length d)" and ?c = "le_bytes 4 (unat (crc d))"
  let ?bs = "?n @ [fl] @ d @ ?c @ rest"
  have n: "le_nat ?n = length d"
    using assms by (intro le_nat_le_bytes) (simp add: MAX_RECORD_BYTES_def)
  have "array 4 ?bs 0 = Inr ?n"
    by (simp add: array_def wire_simps)
  moreover have "slice_get ?bs 5 (length d + 5) = Some d"
    using slice_get_field [of "?n @ [fl]" 5 "length d + 5" d "?c @ rest"] by simp
  moreover have "slice_get ?bs 4 5 = Some [fl]"
    using slice_get_field [of ?n 4 5 "[fl]" "d @ ?c @ rest"] by simp
  moreover have "slice_get ?bs (length d + 5) (length d + 5 + 4) = Some ?c"
    using slice_get_field [of "?n @ [fl] @ d" "length d + 5" "length d + 5 + 4" ?c rest] by simp
  ultimately show ?thesis
    using assms by (simp add: scan_record_def raw_record_def Let_def n)
qed

lemma scan_record_sound:
  assumes "scan_record crc bs = Inr r"
  shows "cr_length r = 9 + length (cr_data r)"
    and "length (cr_data r) \<le> MAX_RECORD_BYTES"
    and "bs = raw_record crc (cr_flags r, cr_data r) @ drop (cr_length r) bs"
    and "cr_checksum r = crc (cr_data r)"
proof -
  define len where "len = le_nat (take 4 bs)"
  have le: "4 \<le> length bs" "len \<le> MAX_RECORD_BYTES" "len + 9 \<le> length bs"
    and crc: "unat (crc (take len (drop 5 bs))) = le_nat (take 4 (drop (len + 5) bs))"
    and r: "r = \<lparr>cr_flags = hd (take 1 (drop 4 bs)), cr_data = take len (drop 5 bs),
               cr_checksum = word_of_nat (le_nat (take 4 (drop (len + 5) bs))), cr_length = len + 9\<rparr>"
    using assms
    by (auto simp: scan_record_def array_Inr_iff result_iffs slice_get_Some Let_def len_def
        split: if_splits)
  have dlen: "length (take len (drop 5 bs)) = len" using le by simp
  show "cr_length r = 9 + length (cr_data r)" "length (cr_data r) \<le> MAX_RECORD_BYTES"
    using le dlen by (simp_all add: r)
  show "cr_checksum r = crc (cr_data r)"
    by (simp add: r flip: crc)
  have "le_bytes 4 len = take 4 bs"
    unfolding len_def using le by (intro le_bytes_le_nat_n) simp
  moreover have "le_bytes 4 (unat (crc (take len (drop 5 bs)))) = take 4 (drop (len + 5) bs)"
    unfolding crc using le by (intro le_bytes_le_nat_n) simp
  moreover have "[hd (take 1 (drop 4 bs))] = take 1 (drop 4 bs)"
    using le by (cases "drop 4 bs") auto
  ultimately have "raw_record crc (cr_flags r, cr_data r)
      = take 4 bs @ take 1 (drop 4 bs) @ take len (drop 5 bs) @ take 4 (drop (len + 5) bs)"
    using dlen by (simp add: raw_record_def r)
  also have "\<dots> = take (len + 9) bs"
    using take_add [of 4 "len + 5" bs] take_add [of 1 "len + 4" "drop 4 bs"]
      take_add [of len 4 "drop 5 bs"] by (simp add: add.commute)
  finally show "bs = raw_record crc (cr_flags r, cr_data r) @ drop (cr_length r) bs"
    by (simp add: r)
qed

lemma skip_records_raw:
  "records_ok rs \<Longrightarrow> skip_records crc (length rs) (raw_body crc rs @ rest) = Inr rest"
proof (induction rs)
  case (Cons r rs)
  then show ?case
    by (cases r) (simp add: scan_record_raw slice_from_def)
qed simp

lemma skip_records_sound:
  "skip_records crc n bs = Inr rest \<Longrightarrow>
     \<exists>rs. length rs = n \<and> records_ok rs \<and> bs = raw_body crc rs @ rest"
proof (induction n arbitrary: bs)
  case 0
  then show ?case by (intro exI [of _ "[]"]) simp
next
  case (Suc n)
  then obtain r where r: "scan_record crc bs = Inr r"
      and rest: "skip_records crc n (drop (cr_length r) bs) = Inr rest"
    by (auto simp: result_iffs slice_from_Some)
  from Suc.IH [OF rest] obtain rs where
    "length rs = n" "records_ok rs" "drop (cr_length r) bs = raw_body crc rs @ rest" by auto
  then show ?case
    using scan_record_sound [OF r]
    by (intro exI [of _ "(cr_flags r, cr_data r) # rs"]) auto
qed

lemma header_fields:
  fixes crc n c sq rest
  defines "bs \<equiv> encode_header crc n c sq @ rest"
  shows "array 4 bs 0 = Inr MAGIC"
    and "slice_get bs 0 32 = Some (encode_header crc n c sq)"
    and "array 2 bs 4 = Inr (le_bytes 2 2)" and "array 2 bs 6 = Inr (le_bytes 2 32)"
    and "array 4 bs 8 = Inr (le_bytes 4 n)" and "array 4 bs 12 = Inr (le_bytes 4 c)"
    and "array 8 bs 16 = Inr (le_bytes 8 (unat sq))" and "array 4 bs 24 = Inr (le_bytes 4 0)"
    and "array 4 bs 28 = Inr (le_bytes 4 (unat (crc (take 28 (encode_header crc n c sq)))))"
  by (simp_all add: bs_def array_Inr_iff slice_get_def encode_header_def Let_def MAGIC_def
      EC03_FORMAT_VERSION_def)

lemma le_nat_small [simp]: "le_nat (le_bytes 2 2) = 2" "le_nat (le_bytes 2 32) = 32"
    "le_nat (le_bytes 4 0) = 0"
  by (simp_all add: le_nat_le_bytes)

lemma u32_seq: "le_nat (le_bytes 8 (unat (sq :: u32))) = unat sq"
  by (rule le_nat_le_bytes) (use unat_u32_bound [of sq] in simp)

lemma u32_try_from_unat [simp]: "u32_try_from (unat (w :: u32)) = Some w"
  using unat_u32_bound [of w] by (simp add: u32_try_from_def)

lemma scan_body_raw:
  assumes ok: "frame_ok rs"
  shows "scan_body crc (raw_frame crc sq rs @ rest) (FRAME_OVERHEAD + body_size rs)
    = Inr \<lparr>fr_sequence = sq, fr_length = FRAME_OVERHEAD + body_size rs, fr_records = raw_body crc rs\<rparr>"
proof -
  let ?len = "FRAME_OVERHEAD + body_size rs"
  let ?h = "encode_header crc ?len (length rs) sq" and ?b = "raw_body crc rs"
  let ?t = "le_bytes 4 (unat (crc (?h @ ?b)))" and ?f = "raw_frame crc sq rs"
  have f: "?f = ?h @ ?b @ ?t" by (simp add: raw_frame_def Let_def)
  have lens: "?len - 4 = 32 + body_size rs" "length ?f = ?len"
    by (simp_all add: ec03_consts length_raw_frame)
  have cnt: "length rs < 256 ^ 4" "length rs \<le> body_size rs div 9"
    using ok body_size_length [of rs] by (simp_all add: frame_ok_def ec03_consts)
  have "slice_get (?f @ rest) 0 ?len = Some ?f"
    using lens(2) by (intro slice_get_prefix) simp
  moreover have "slice_get ?f 0 (?len - 4) = Some (?h @ ?b)"
    using slice_get_prefix [of "?len - 4" "?h @ ?b" ?t] by (simp add: f lens(1))
  moreover have "array 4 ?f (?len - 4) = Inr ?t"
    using array_field [of "?h @ ?b" "?len - 4" 4 ?t "[]"] by (simp add: f lens(1))
  moreover have "slice_get ?f HEADER_BYTES (?len - 4) = Some ?b"
    using slice_get_field [of ?h 32 "?len - 4" ?b ?t] by (simp add: f lens(1) HEADER_BYTES_def)
  moreover have "array 4 (?f @ rest) 12 = Inr (le_bytes 4 (length rs))"
      "array 8 (?f @ rest) 16 = Inr (le_bytes 8 (unat sq))"
    using header_fields(6,7) [of crc ?len "length rs" sq "?b @ ?t @ rest"] by (simp_all add: f)
  moreover have "skip_records crc (length rs) ?b = Inr []"
    using skip_records_raw [of rs crc "[]"] ok by (simp add: frame_ok_def)
  ultimately show ?thesis
    using cnt by (simp add: scan_body_def Let_def le_nat_le_bytes u32_seq RECORD_OVERHEAD_def)
qed

lemma scan_frame_raw:
  assumes ok: "frame_ok rs"
  shows "scan_frame crc (raw_frame crc sq rs @ rest)
    = Inr \<lparr>fr_sequence = sq, fr_length = length (raw_frame crc sq rs), fr_records = raw_body crc rs\<rparr>"
proof -
  let ?len = "FRAME_OVERHEAD + body_size rs"
  let ?h = "encode_header crc ?len (length rs) sq"
  obtain tl where f: "raw_frame crc sq rs @ rest = ?h @ tl"
    by (simp add: raw_frame_def Let_def)
  have len: "le_nat (le_bytes 4 ?len) = ?len" "\<not> MAX_FRAME_BYTES < ?len" "\<not> ?len < FRAME_OVERHEAD"
    using ok max_frame_u32 [of ?len] by (auto simp: frame_ok_def le_nat_le_bytes)
  have cov: "slice_get ?h 0 28 = Some (take 28 ?h)"
    by (simp add: slice_get_def)
  show ?thesis
    using scan_body_raw [OF ok, of crc sq rest]
    by (simp add: scan_frame_def f header_fields HEADER_BYTES_def cov len Let_def
        EC03_FORMAT_VERSION_def length_raw_frame)
qed

text \<open>Every strict prefix of a frame is an interrupted append, never a different error.\<close>

lemma array_prefix:
  "array n (take k bs) a = (if a + n \<le> k then array n bs a else Inl Incomplete)" if "k \<le> length bs"
  using that by (simp add: array_def slice_get_take) (simp add: slice_get_def)

lemma scan_frame_prefix:
  assumes ok: "frame_ok rs" and k: "k < length (raw_frame crc sq rs)"
  shows "scan_frame crc (take k (raw_frame crc sq rs)) = Inl Incomplete"
proof -
  let ?len = "FRAME_OVERHEAD + body_size rs" and ?f = "raw_frame crc sq rs"
  let ?h = "encode_header crc ?len (length rs) sq"
  obtain tl where f: "?f = ?h @ tl" by (simp add: raw_frame_def Let_def)
  have kl: "k \<le> length ?f" "k < ?len" using k by (simp_all add: length_raw_frame)
  have len: "le_nat (le_bytes 4 ?len) = ?len" "\<not> MAX_FRAME_BYTES < ?len" "\<not> ?len < FRAME_OVERHEAD"
    using ok max_frame_u32 [of ?len] by (auto simp: frame_ok_def le_nat_le_bytes)
  consider "k < 4" | "4 \<le> k" "k < 32" | "32 \<le> k" by linarith
  then show ?thesis
  proof cases
    case 1
    then show ?thesis using kl by (simp add: scan_frame_def array_def slice_get_def)
  next
    case 2
    have "array 4 (take k ?f) 0 = Inr MAGIC"
      unfolding array_prefix [OF kl(1)]
      using 2 header_fields(1) [of crc ?len "length rs" sq tl] by (simp add: f)
    then show ?thesis
      using 2 kl by (simp add: scan_frame_def HEADER_BYTES_def slice_get_def)
  next
    case 3
    then obtain tl' where tl': "take k ?f = ?h @ tl'" by (simp add: f take_append)
    have "scan_body crc (?h @ tl') ?len = Inl Incomplete"
      using kl by (simp add: scan_body_def slice_get_def flip: tl')
    moreover have "slice_get ?h 0 28 = Some (take 28 ?h)"
      by (simp add: slice_get_def)
    ultimately show ?thesis
      by (simp add: scan_frame_def tl' header_fields HEADER_BYTES_def len Let_def EC03_FORMAT_VERSION_def)
  qed
qed

lemma le_field:
  "le_nat (take n (drop a bs)) = v \<Longrightarrow> a + n \<le> length bs \<Longrightarrow> le_bytes n v = take n (drop a bs)"
  by (auto intro: le_bytes_le_nat_n)

lemma scan_frame_header:
  assumes "scan_frame crc bs = Inr fr"
  shows "take 32 bs = encode_header crc (fr_length fr) (le_nat (take 4 (drop 12 bs))) (fr_sequence fr)"
    and "scan_body crc bs (fr_length fr) = Inr fr" and "32 \<le> length bs"
    and "FRAME_OVERHEAD \<le> fr_length fr" and "fr_length fr \<le> MAX_FRAME_BYTES"
proof -
  define len where "len = le_nat (take 4 (drop 8 bs))"
  have hd: "32 \<le> length bs" "take 4 bs = MAGIC"
    "unat (crc (take 28 bs)) = le_nat (take 4 (drop 28 bs))"
    "le_nat (take 2 (drop 4 bs)) = 2" "le_nat (take 2 (drop 6 bs)) = 32"
    "le_nat (take 4 (drop 24 bs)) = 0" and len: "len \<le> MAX_FRAME_BYTES" "FRAME_OVERHEAD \<le> len"
    and body: "scan_body crc bs len = Inr fr"
    using assms
    by (auto simp: scan_frame_def array_Inr_iff result_iffs slice_get_Some Let_def len_def
        HEADER_BYTES_def EC03_FORMAT_VERSION_def min_def split: if_splits)
  have fl: "fr_length fr = len" and sq: "u32_try_from (le_nat (take 8 (drop 16 bs))) = Some (fr_sequence fr)"
    using body by (auto simp: scan_body_def array_Inr_iff result_iffs Let_def split: if_splits)
  have "unat (fr_sequence fr) = le_nat (take 8 (drop 16 bs))"
    using sq by (auto simp: u32_try_from_Some)
  then have fields: "le_bytes 8 (unat (fr_sequence fr)) = take 8 (drop 16 bs)"
    "le_bytes 2 2 = take 2 (drop 4 bs)" "le_bytes 2 32 = take 2 (drop 6 bs)"
    "le_bytes 4 len = take 4 (drop 8 bs)"
    "le_bytes 4 (le_nat (take 4 (drop 12 bs))) = take 4 (drop 12 bs)"
    "le_bytes 4 0 = take 4 (drop 24 bs)"
    "le_bytes 4 (unat (crc (take 28 bs))) = take 4 (drop 28 bs)"
    using hd by (simp_all add: le_field len_def)
  have split: "take 28 bs = take 4 bs @ take 2 (drop 4 bs) @ take 2 (drop 6 bs) @ take 4 (drop 8 bs)
      @ take 4 (drop 12 bs) @ take 8 (drop 16 bs) @ take 4 (drop 24 bs)"
    using take_add [of 4 24 bs] take_add [of 2 22 "drop 4 bs"] take_add [of 2 20 "drop 6 bs"]
      take_add [of 4 16 "drop 8 bs"] take_add [of 4 12 "drop 12 bs"] take_add [of 8 4 "drop 16 bs"]
    by simp
  have "take 32 bs = take 28 bs @ take 4 (drop 28 bs)"
    using take_add [of 28 4 bs] by simp
  then show "take 32 bs = encode_header crc (fr_length fr) (le_nat (take 4 (drop 12 bs))) (fr_sequence fr)"
    unfolding encode_header_def fl EC03_FORMAT_VERSION_def fields Let_def
    using hd(2) split fields(7) by simp
  show "scan_body crc bs (fr_length fr) = Inr fr" "32 \<le> length bs"
    "FRAME_OVERHEAD \<le> fr_length fr" "fr_length fr \<le> MAX_FRAME_BYTES"
    using body hd(1) len by (simp_all add: fl)
qed

lemma scan_frame_sound:
  assumes "scan_frame crc bs = Inr fr"
  obtains rs where "frame_ok rs" and "fr_length fr \<le> length bs"
    and "take (fr_length fr) bs = raw_frame crc (fr_sequence fr) rs"
    and "fr_records fr = raw_body crc rs"
proof -
  note hd = scan_frame_header [OF assms]
  define len where "len = fr_length fr"
  define recs where "recs = take (len - 36) (drop 32 bs)"
  have ge: "36 \<le> len" using hd(4) by (simp add: len_def ec03_consts)
  have body: "scan_body crc bs len = Inr fr" using hd(2) by (simp add: len_def)
  have le: "len \<le> length bs" and fr: "fr_records fr = recs"
    and crc: "unat (crc (take (len - 4) bs)) = le_nat (take 4 (drop (len - 4) bs))"
    and skip: "skip_records crc (le_nat (take 4 (drop 12 bs))) recs = Inr []"
    using body ge
    by (auto simp: scan_body_def array_Inr_iff result_iffs slice_get_Some Let_def
        HEADER_BYTES_def recs_def drop_take min_def split: if_splits)
  obtain rs where rs: "length rs = le_nat (take 4 (drop 12 bs))" "records_ok rs" "recs = raw_body crc rs"
    using skip_records_sound [OF skip] by auto
  have "length recs = len - 36" using le by (simp add: recs_def)
  then have size: "len = FRAME_OVERHEAD + body_size rs"
    using ge by (simp add: rs(3) ec03_consts)
  have h: "take 32 bs = encode_header crc (FRAME_OVERHEAD + body_size rs) (length rs) (fr_sequence fr)"
    using hd(1) rs(1) size len_def by simp
  have cov: "take (len - 4) bs = encode_header crc (FRAME_OVERHEAD + body_size rs) (length rs) (fr_sequence fr)
      @ raw_body crc rs"
    using take_add [of 32 "len - 36" bs] ge by (simp add: h recs_def flip: rs(3))
  have "take len bs = take (len - 4) bs @ take 4 (drop (len - 4) bs)"
    using take_add [of "len - 4" 4 bs] ge by simp
  also have "take 4 (drop (len - 4) bs) = le_bytes 4 (unat (crc (take (len - 4) bs)))"
    using le_field [OF crc [symmetric]] le ge by simp
  finally have "take len bs = raw_frame crc (fr_sequence fr) rs"
    by (simp add: raw_frame_def Let_def cov)
  moreover have "frame_ok rs"
    using rs(2) hd(5) size by (simp add: frame_ok_def len_def)
  ultimately show ?thesis
    using that le fr rs(3) by (simp add: len_def)
qed

definition to_record :: "u8 \<times> bytes \<Rightarrow> page_record" where
  "to_record = (\<lambda>(fl, d). \<lparr>rec_flags = fl, rec_data = d\<rparr>)"

lemma to_record_inverse [simp]:
  "map (\<lambda>r. (rec_flags r, rec_data r)) (map to_record rs) = rs"
  "map to_record (map (\<lambda>r. (rec_flags r, rec_data r)) qs) = qs"
  by (auto simp: to_record_def comp_def case_prod_beta map_idI)

lemma decode_loop_raw:
  "records_ok rs \<Longrightarrow> decode_loop crc (raw_body crc rs) fr
     = Inr (fr\<lparr>records := records fr @ map to_record rs\<rparr>)"
proof (induction rs arbitrary: fr)
  case Nil
  then show ?case by (simp add: decode_loop.simps)
next
  case (Cons r rs)
  obtain fl d where r: "r = (fl, d)" by (cases r)
  have ok: "length d \<le> MAX_RECORD_BYTES" "records_ok rs"
    using Cons.prems by (simp_all add: r)
  have "raw_record crc (fl, d) \<noteq> []" by (simp add: raw_record_def)
  then show ?case
    using Cons.IH [OF ok(2)]
    by (simp add: decode_loop.simps [of _ "raw_record crc (fl, d) @ _"] r scan_record_raw [OF ok(1)]
        slice_from_def ec03_add_record_def to_record_def)
qed

lemma decode_ec03_raw:
  "frame_ok rs \<Longrightarrow> decode_ec03 crc (raw_frame crc sq rs @ rest)
     = Inr \<lparr>page_sequence = sq, records = map to_record rs\<rparr>"
  by (simp add: decode_ec03_def scan_frame_raw decode_loop_raw frame_ok_def ec03_frame_new_def)

section \<open>Properties\<close>

text \<open>
  C13. Decoding is the inverse of encoding, and the wire form is unique: \<open>decode_ec03\<close>
  returns a frame exactly on the byte strings that start with the encoding of that frame. So an
  encoded frame decodes to itself whatever follows it, and a frame that decodes re-encodes to
  the very bytes it was read from.
\<close>

theorem ec03_decode_iff_encode:
  "decode_ec03 crc bs = Inr frame \<longleftrightarrow> (\<exists>e rest. encode_ec03 crc frame = Inr e \<and> bs = e @ rest)"
proof
  assume dec: "decode_ec03 crc bs = Inr frame"
  then obtain fr where fr: "scan_frame crc bs = Inr fr"
    by (auto simp: decode_ec03_def result_iffs)
  then obtain rs where rs: "frame_ok rs" "take (fr_length fr) bs = raw_frame crc (fr_sequence fr) rs"
    by (rule scan_frame_sound)
  then have bs: "bs = raw_frame crc (fr_sequence fr) rs @ drop (fr_length fr) bs"
    by (metis append_take_drop_id)
  then have "frame = \<lparr>page_sequence = fr_sequence fr, records = map to_record rs\<rparr>"
    using dec decode_ec03_raw [OF rs(1)] by (metis sum.inject(2))
  then show "\<exists>e rest. encode_ec03 crc frame = Inr e \<and> bs = e @ rest"
    using bs rs(1) by (auto simp: encode_ec03_def encode_records_eq simp del: map_map)
next
  assume "\<exists>e rest. encode_ec03 crc frame = Inr e \<and> bs = e @ rest"
  then show "decode_ec03 crc bs = Inr frame"
    by (auto simp: encode_ec03_def encode_records_eq decode_ec03_raw simp del: map_map split: if_splits)
qed

text \<open>
  C21. An interrupted append is recognisable: every strict prefix of an encoded frame decodes
  to \<open>Incomplete\<close>, whatever the checksum function, so no torn write is ever mistaken for a
  frame or for corruption.
\<close>

theorem ec03_prefix_incomplete:
  assumes "encode_ec03 crc frame = Inr bs" and "k < length bs"
  shows "decode_ec03 crc (take k bs) = Inl Incomplete"
proof -
  have "frame_ok (map (\<lambda>r. (rec_flags r, rec_data r)) (records frame))"
    and "bs = raw_frame crc (page_sequence frame) (map (\<lambda>r. (rec_flags r, rec_data r)) (records frame))"
    using assms(1) by (auto simp: encode_ec03_def encode_records_eq split: if_splits)
  then show ?thesis
    using assms(2) by (simp add: decode_ec03_def scan_frame_prefix)
qed

theorem ec03_prefix_incomplete_witness:
  "encode_ec03 (\<lambda>_. 0) (ec03_frame_new 5) =
     Inr (raw_frame (\<lambda>_. 0) 5 []) \<and> decode_ec03 (\<lambda>_. 0) (take 35 (raw_frame (\<lambda>_. 0) 5 [])) = Inl Incomplete"
proof -
  have enc: "encode_ec03 (\<lambda>_. 0) (ec03_frame_new 5) = Inr (raw_frame (\<lambda>_. 0) 5 [])"
    by (simp add: encode_ec03_def encode_records_eq ec03_frame_new_def frame_ok_def ec03_consts)
  then show ?thesis
    using ec03_prefix_incomplete [OF enc, of 35] by (simp add: length_raw_frame FRAME_OVERHEAD_def HEADER_BYTES_def)
qed

text \<open>
  The encoder fails exactly on the size limits, always with \<open>Length\<close>, and otherwise
  produces the declared number of bytes: 36 plus 9 and the payload per record. In particular no
  checked addition overflows before the frame limit is exceeded.
\<close>

theorem encode_ec03_limits:
  "case encode_ec03 crc frame of
     Inl e \<Rightarrow> e = Length \<and>
       ((\<exists>r\<in>set (records frame). 64 * 1024 * 1024 < length (rec_data r)) \<or>
        128 * 1024 * 1024 < 36 + (\<Sum>r\<leftarrow>records frame. 9 + length (rec_data r)))
   | Inr bs \<Rightarrow> length bs = 36 + (\<Sum>r\<leftarrow>records frame. 9 + length (rec_data r))
       \<and> length bs \<le> 128 * 1024 * 1024
       \<and> \<not> (\<exists>r\<in>set (records frame). 64 * 1024 * 1024 < length (rec_data r))"
  by (auto simp: encode_ec03_def encode_records_eq length_raw_frame frame_ok_def records_ok_iff
      body_size_def comp_def ec03_consts not_le not_less)

end
