(* ===== verification/Scan.thy ===== *)
theory Scan
  imports Ec03
begin

text \<open>
  Segment scanning (\<open>editchain-store/src/format/scan.rs\<close>) and the legacy EC02 page
  (\<open>format/page.rs\<close>). \<open>PageScanner\<close> is a record of its fields, \<open>next_item\<close> and
  \<open>next\<close> return the item and the scanner after it, and \<open>scan_rest\<close> runs the
  iterator to its end. The specification is a list of pages and frames laid out one after
  another; the scanner reports exactly their headers and records, each at its offset, and stops
  cleanly or with one error.
\<close>

section \<open>EC02 pages\<close>

definition PAGE_MAGIC :: bytes where
  "PAGE_MAGIC = [0x45, 0x43, 0x30, 0x32]"

record page =
  pg_magic :: bytes
  page_seq :: u32
  pg_records :: "page_record list"

definition page_new :: "u32 \<Rightarrow> page" where
  "page_new sq = \<lparr>pg_magic = PAGE_MAGIC, page_seq = sq, pg_records = []\<rparr>"

definition page_add_record :: "u8 \<Rightarrow> bytes \<Rightarrow> page \<Rightarrow> page" where
  "page_add_record fl d p =
     p\<lparr>pg_records := pg_records p @ [\<lparr>rec_flags = fl, rec_data = d\<rparr>]\<rparr>"

datatype page_encode_error = InvalidPageMagic | PageRecordTooLarge nat

definition encode_page_record :: "page_record \<Rightarrow> page_encode_error + bytes" where
  "encode_page_record r =
     rbind (ok_or (PageRecordTooLarge (length (rec_data r)))
              (Option.bind (u32_try_from (length (rec_data r)))
                 (\<lambda>n. if unat n \<le> MAX_RECORD_BYTES then Some n else None))) (\<lambda>n.
       Inr (le_bytes 4 (unat n) @ [rec_flags r] @ rec_data r))"

definition encode_page :: "page \<Rightarrow> page_encode_error + bytes" where
  "encode_page p =
     (if pg_magic p \<noteq> PAGE_MAGIC then Inl InvalidPageMagic
      else rbind (traverse encode_page_record (pg_records p)) (\<lambda>parts.
        Inr (pg_magic p @ le_bytes 4 (unat (page_seq p)) @ concat parts)))"

section \<open>The scanner\<close>

record record_ref =
  rr_page_sequence :: u32
  rr_offset :: nat
  rr_data_offset :: nat
  rr_flags :: u8
  rr_data :: bytes
  rr_checksum :: "u32 option"

datatype scan_item = PageItem (item_sequence: u32) (item_offset: nat) | RecordItem record_ref

datatype scan_error_kind =
  IncompleteTail | InvalidMagic | UnsupportedFormat bytes | RecordTooLarge nat | FrameFailure frame_error

record scan_error =
  se_offset :: nat
  se_kind :: scan_error_kind

record page_scanner =
  ps_bytes :: bytes
  ps_offset :: nat
  ps_page_sequence :: "u32 option"
  ps_frame_end :: "nat option"
  ps_finished :: bool

definition page_scanner_new :: "bytes \<Rightarrow> page_scanner" where
  "page_scanner_new bs = \<lparr>ps_bytes = bs, ps_offset = 0, ps_page_sequence = None,
     ps_frame_end = None, ps_finished = False\<rparr>"

definition scanner_resume :: "bytes \<Rightarrow> u32 option \<Rightarrow> page_scanner" where
  "scanner_resume bs sq = \<lparr>ps_bytes = bs, ps_offset = 0, ps_page_sequence = sq,
     ps_frame_end = None, ps_finished = False\<rparr>"

definition scanner_error :: "page_scanner \<Rightarrow> scan_error_kind \<Rightarrow> scan_error" where
  "scanner_error s k = \<lparr>se_offset = ps_offset s, se_kind = k\<rparr>"


text \<open>The three branches of \<open>next_item\<close>: inside an EC03 frame, at an EC03 header, and in EC02.\<close>

definition next_frame_record ::
  "(bytes \<Rightarrow> u32) \<Rightarrow> page_scanner \<Rightarrow> bytes \<Rightarrow> nat \<Rightarrow> scan_error + scan_item \<times> page_scanner" where
  "next_frame_record crc s remaining end =
     rbind (map_err (\<lambda>e. scanner_error s (FrameFailure e)) (scan_record crc remaining)) (\<lambda>r.
       let item = \<lparr>rr_page_sequence = (case ps_page_sequence s of None \<Rightarrow> 0 | Some q \<Rightarrow> q),
                   rr_offset = ps_offset s, rr_data_offset = ps_offset s + 5,
                   rr_flags = cr_flags r, rr_data = cr_data r,
                   rr_checksum = Some (cr_checksum r)\<rparr>;
           s' = s\<lparr>ps_offset := ps_offset s + cr_length r\<rparr>
       in Inr (RecordItem item,
               if ps_offset s' = end - 4
               then s'\<lparr>ps_offset := end, ps_frame_end := None, ps_page_sequence := None\<rparr>
               else s'))"

definition next_frame ::
  "(bytes \<Rightarrow> u32) \<Rightarrow> page_scanner \<Rightarrow> bytes \<Rightarrow> scan_error + scan_item \<times> page_scanner" where
  "next_frame crc s remaining =
     rbind (map_err (\<lambda>e. scanner_error s (if e = Incomplete then IncompleteTail else FrameFailure e))
              (scan_frame crc remaining)) (\<lambda>fr.
       let offset = ps_offset s; end = offset + fr_length fr in
       Inr (PageItem (fr_sequence fr) offset,
            if fr_records fr = [] then s\<lparr>ps_offset := end, ps_page_sequence := None\<rparr>
            else s\<lparr>ps_offset := offset + HEADER_BYTES, ps_page_sequence := Some (fr_sequence fr),
                   ps_frame_end := Some end\<rparr>))"

definition next_page ::
  "page_scanner \<Rightarrow> bytes \<Rightarrow> scan_error + scan_item \<times> page_scanner" where
  "next_page s remaining =
     rbind (ok_or (scanner_error s IncompleteTail) (slice_get remaining 4 8)) (\<lambda>sb.
       let sq = word_of_nat (le_nat sb) in
       Inr (PageItem sq (ps_offset s),
            s\<lparr>ps_offset := ps_offset s + 8, ps_page_sequence := Some sq\<rparr>))"

definition next_page_record ::
  "page_scanner \<Rightarrow> bytes \<Rightarrow> bytes \<Rightarrow> scan_error + scan_item \<times> page_scanner" where
  "next_page_record s remaining prefix =
     rbind (ok_or (scanner_error s InvalidMagic) (ps_page_sequence s)) (\<lambda>sq.
       let len = le_nat prefix in
       if MAX_RECORD_BYTES < len then Inl (scanner_error s (RecordTooLarge len))
       else rbind (ok_or (scanner_error s IncompleteTail) (slice_get remaining 4 5)) (\<lambda>fl.
         let end = 5 + len in
         rbind (ok_or (scanner_error s IncompleteTail) (slice_get remaining 5 end)) (\<lambda>d.
           Inr (RecordItem \<lparr>rr_page_sequence = sq, rr_offset = ps_offset s,
                  rr_data_offset = ps_offset s + 5, rr_flags = hd fl, rr_data = d,
                  rr_checksum = None\<rparr>,
                s\<lparr>ps_offset := ps_offset s + end\<rparr>))))"

text \<open>\<open>matches!(prefix, [b'E', b'C', b'0'..=b'9', b'0'..=b'9'])\<close>.\<close>

definition ec_marker :: "bytes \<Rightarrow> bool" where
  "ec_marker p \<longleftrightarrow> (case p of
       [a, b, c, d] \<Rightarrow> a = 0x45 \<and> b = 0x43 \<and> 0x30 \<le> c \<and> c \<le> 0x39 \<and> 0x30 \<le> d \<and> d \<le> 0x39
     | _ \<Rightarrow> False)"

definition next_item ::
  "(bytes \<Rightarrow> u32) \<Rightarrow> page_scanner \<Rightarrow> scan_error + scan_item \<times> page_scanner" where
  "next_item crc s =
     (let remaining = (case slice_from (ps_bytes s) (ps_offset s) of None \<Rightarrow> [] | Some r \<Rightarrow> r) in
      case ps_frame_end s of
        Some end \<Rightarrow> next_frame_record crc s remaining end
      | None \<Rightarrow>
          rbind (ok_or (scanner_error s IncompleteTail) (slice_get remaining 0 4)) (\<lambda>prefix.
            if prefix = MAGIC then next_frame crc s remaining
            else if prefix = PAGE_MAGIC then next_page s remaining
            else if ec_marker prefix then Inl (scanner_error s (UnsupportedFormat prefix))
            else next_page_record s remaining prefix))"

text \<open>
  \<open>Iterator::next\<close>: nothing after an error or at the end. An error leaves every field but
  \<open>finished\<close> as it was.
\<close>

definition scanner_next ::
  "(bytes \<Rightarrow> u32) \<Rightarrow> page_scanner \<Rightarrow> (scan_error + scan_item) option \<times> page_scanner" where
  "scanner_next crc s =
     (if ps_finished s \<or> ps_offset s = length (ps_bytes s) then (None, s)
      else case next_item crc s of
        Inl e \<Rightarrow> (Some (Inl e), s\<lparr>ps_finished := True\<rparr>)
      | Inr (item, s') \<Rightarrow> (Some (Inr item), s'))"

subsection \<open>Progress\<close>

lemma map_err_Inr_iff: "map_err f r = Inr x \<longleftrightarrow> r = Inr x"
  by (cases r) (auto simp: map_err_def)

lemma map_err_simps [simp]: "map_err f (Inl e) = Inl (f e)" "map_err f (Inr x) = Inr x"
  by (simp_all add: map_err_def)

lemma scan_frame_length:
  "scan_frame crc bs = Inr fr \<Longrightarrow> 36 \<le> fr_length fr \<and> fr_length fr \<le> length bs"
  using scan_frame_header(4) [of crc bs fr] by (auto elim!: scan_frame_sound simp: ec03_consts)

lemma next_item_progress:
  assumes "next_item crc s = Inr (item, s')"
  shows "ps_bytes s' = ps_bytes s" and "ps_finished s' = ps_finished s"
    and "ps_offset s < ps_offset s'" and "ps_offset s < length (ps_bytes s)"
  using assms
  by (auto simp: next_item_def next_frame_record_def next_frame_def next_page_def
      next_page_record_def result_iffs map_err_Inr_iff Let_def slice_from_def slice_get_Some
      HEADER_BYTES_def split: option.splits if_splits dest!: scan_record_length scan_frame_length)

definition scan_measure :: "page_scanner \<Rightarrow> nat" where
  "scan_measure s = (if ps_finished s then 0 else 1) + (length (ps_bytes s) - ps_offset s)"

lemma scanner_next_progress:
  "scanner_next crc s = (Some r, s') \<Longrightarrow> scan_measure s' < scan_measure s"
proof -
  assume next': "scanner_next crc s = (Some r, s')"
  show ?thesis
  proof (cases "next_item crc s")
    case (Inl e)
    then show ?thesis using next' by (auto simp: scanner_next_def scan_measure_def split: if_splits)
  next
    case (Inr p)
    then obtain item where "next_item crc s = Inr (item, s')"
      using next' by (auto simp: scanner_next_def split: if_splits prod.splits)
    from next_item_progress [OF this] show ?thesis by (simp add: scan_measure_def)
  qed
qed

function scan_rest :: "(bytes \<Rightarrow> u32) \<Rightarrow> page_scanner \<Rightarrow> (scan_error + scan_item) list \<times> page_scanner" where
  "scan_rest crc s =
     (case scanner_next crc s of
        (None, s') \<Rightarrow> ([], s')
      | (Some r, s') \<Rightarrow> (case scan_rest crc s' of (rs, t) \<Rightarrow> (r # rs, t)))"
  by pat_completeness auto
termination
  by (relation "measure (\<lambda>(_, s). scan_measure s)")
     (auto dest!: scanner_next_progress [OF sym])

declare scan_rest.simps [simp del]

section \<open>Reading one page\<close>

text \<open>The loop of \<open>decode_page\<close> over the remaining items.\<close>

fun collect_page :: "(scan_error + scan_item) list \<Rightarrow> page \<Rightarrow> page option" where
  "collect_page [] p = Some p"
| "collect_page (Inr (RecordItem r) # items) p =
     collect_page items (page_add_record (rr_flags r) (rr_data r) p)"
| "collect_page (Inr (PageItem q off) # items) p = Some p"
| "collect_page (Inl e # items) p = (if se_kind e = IncompleteTail then Some p else None)"

definition decode_page :: "(bytes \<Rightarrow> u32) \<Rightarrow> bytes \<Rightarrow> page option" where
  "decode_page crc bs =
     (case scanner_next crc (page_scanner_new bs) of
        (Some (Inr (PageItem sq off)), s) \<Rightarrow> collect_page (fst (scan_rest crc s)) (page_new sq)
      | _ \<Rightarrow> None)"

section \<open>Segments as lists of pages and frames\<close>

datatype chunk = PageChunk page | FrameChunk ec03_frame

definition result_to_option :: "'e + 'a \<Rightarrow> 'a option" where
  "result_to_option r = (case r of Inl _ \<Rightarrow> None | Inr x \<Rightarrow> Some x)"

definition chunk_bytes :: "(bytes \<Rightarrow> u32) \<Rightarrow> chunk \<Rightarrow> bytes option" where
  "chunk_bytes crc c = (case c of
       PageChunk p \<Rightarrow> result_to_option (encode_page p)
     | FrameChunk f \<Rightarrow> result_to_option (encode_ec03 crc f))"

text \<open>What a scan of records laid out from \<open>off\<close> reports; \<open>pad\<close> bytes follow each payload.\<close>

fun record_items :: "nat \<Rightarrow> (bytes \<Rightarrow> u32 option) \<Rightarrow> u32 \<Rightarrow> nat \<Rightarrow> page_record list \<Rightarrow> scan_item list" where
  "record_items pad ck sq off [] = []"
| "record_items pad ck sq off (r # rs) =
     RecordItem \<lparr>rr_page_sequence = sq, rr_offset = off, rr_data_offset = off + 5,
       rr_flags = rec_flags r, rr_data = rec_data r, rr_checksum = ck (rec_data r)\<rparr>
     # record_items pad ck sq (off + 5 + length (rec_data r) + pad) rs"

definition chunk_items :: "(bytes \<Rightarrow> u32) \<Rightarrow> nat \<Rightarrow> chunk \<Rightarrow> scan_item list" where
  "chunk_items crc off c = (case c of
       PageChunk p \<Rightarrow> PageItem (page_seq p) off
         # record_items 0 (\<lambda>_. None) (page_seq p) (off + 8) (pg_records p)
     | FrameChunk f \<Rightarrow> PageItem (page_sequence f) off
         # record_items 4 (\<lambda>d. Some (crc d)) (page_sequence f) (off + 32) (records f))"

fun segment_items :: "(bytes \<Rightarrow> u32) \<Rightarrow> nat \<Rightarrow> (chunk \<times> bytes) list \<Rightarrow> scan_item list" where
  "segment_items crc off [] = []"
| "segment_items crc off ((c, bs) # cs) = chunk_items crc off c @ segment_items crc (off + length bs) cs"

subsection \<open>One step of the iterator\<close>

abbreviation scanner_at :: "bytes \<Rightarrow> nat \<Rightarrow> u32 option \<Rightarrow> nat option \<Rightarrow> page_scanner" where
  "scanner_at bs off sq fe \<equiv> \<lparr>ps_bytes = bs, ps_offset = off, ps_page_sequence = sq,
     ps_frame_end = fe, ps_finished = False\<rparr>"

definition emits :: "(bytes \<Rightarrow> u32) \<Rightarrow> page_scanner \<Rightarrow> scan_item list \<Rightarrow> page_scanner \<Rightarrow> bool" where
  "emits crc s items t \<longleftrightarrow>
     scan_rest crc s = (map Inr items @ fst (scan_rest crc t), snd (scan_rest crc t))"

lemma emits_refl [simp]: "emits crc s [] s"
  by (simp add: emits_def)

lemma emits_trans: "emits crc s xs t \<Longrightarrow> emits crc t ys u \<Longrightarrow> emits crc s (xs @ ys) u"
  by (simp add: emits_def)

lemma emits_step:
  assumes "next_item crc s = Inr (item, s')" and "\<not> ps_finished s" and "emits crc s' items t"
  shows "emits crc s (item # items) t"
proof -
  have "scanner_next crc s = (Some (Inr item), s')"
    using assms(1,2) next_item_progress(4) [OF assms(1)] by (simp add: scanner_next_def)
  then show ?thesis
    using assms(3) by (simp add: emits_def scan_rest.simps [of crc s])
qed

lemma scan_rest_end: "ps_offset s = length (ps_bytes s) \<Longrightarrow> scan_rest crc s = ([], s)"
  by (simp add: scan_rest.simps scanner_next_def)

lemma scan_rest_error:
  assumes "next_item crc s = Inl e" and "\<not> ps_finished s" and "ps_offset s \<noteq> length (ps_bytes s)"
  shows "scan_rest crc s = ([Inl e], s\<lparr>ps_finished := True\<rparr>)"
  using assms
  by (simp add: scan_rest.simps [of crc s] scan_rest.simps [of crc "s\<lparr>ps_finished := True\<rparr>"]
      scanner_next_def)

lemma remaining_at [simp]:
  "(case slice_from (pre @ xs) (length pre) of None \<Rightarrow> [] | Some r \<Rightarrow> r) = xs"
  by (simp add: slice_from_def)

subsection \<open>Inside an EC03 frame\<close>

lemma emits_frame_records:
  assumes "records_ok rs" and "rs \<noteq> []" and "length tail = 4"
  shows "emits crc (scanner_at (pre @ raw_body crc rs @ tail @ rest) (length pre) (Some sq)
                      (Some (length pre + body_size rs + 4)))
           (record_items 4 (\<lambda>d. Some (crc d)) sq (length pre) (map to_record rs))
           (scanner_at (pre @ raw_body crc rs @ tail @ rest) (length pre + body_size rs + 4) None None)"
  using assms
proof (induction rs arbitrary: pre)
  case (Cons r rs)
  obtain fl d where r: "r = (fl, d)" by (cases r)
  let ?fin = "length pre + body_size (r # rs) + 4"
  let ?bs = "pre @ raw_body crc (r # rs) @ tail @ rest"
  let ?s = "scanner_at ?bs (length pre) (Some sq) (Some ?fin)"
  let ?item = "RecordItem \<lparr>rr_page_sequence = sq, rr_offset = length pre, rr_data_offset = length pre + 5,
       rr_flags = fl, rr_data = d, rr_checksum = Some (crc d)\<rparr>"
  have scan: "scan_record crc (raw_record crc (fl, d) @ raw_body crc rs @ tail @ rest)
      = Inr \<lparr>cr_flags = fl, cr_data = d, cr_checksum = crc d, cr_length = 9 + length d\<rparr>"
    using Cons.prems(1) by (intro scan_record_raw) (simp add: r)
  show ?case
  proof (cases "rs = []")
    case Nil: True
    have "next_item crc ?s = Inr (?item, scanner_at ?bs ?fin None None)"
      using scan Nil by (simp add: next_item_def next_frame_record_def r Let_def)
    then show ?thesis
      using emits_step [of crc ?s ?item _ "[]"] Nil by (simp add: r to_record_def)
  next
    case ne: False
    let ?pre = "pre @ raw_record crc (fl, d)"
    have pos: "0 < body_size rs" using ne by (cases rs) auto
    have "next_item crc ?s = Inr (?item, scanner_at ?bs (length pre + 9 + length d) (Some sq) (Some ?fin))"
      using scan pos by (simp add: next_item_def next_frame_record_def r Let_def)
    moreover have "emits crc (scanner_at ?bs (length pre + 9 + length d) (Some sq) (Some ?fin))
        (record_items 4 (\<lambda>d. Some (crc d)) sq (length pre + 9 + length d) (map to_record rs))
        (scanner_at ?bs ?fin None None)"
      using Cons.IH [of ?pre] Cons.prems ne by (simp add: r ac_simps)
    ultimately show ?thesis
      using emits_step [of crc ?s ?item] by (simp add: r to_record_def ac_simps)
  qed
qed simp

lemma raw_frame_parts:
  obtains h tail where "raw_frame crc sq rs = h @ raw_body crc rs @ tail" and "length h = 32"
    and "length tail = 4"
proof -
  let ?h = "encode_header crc (FRAME_OVERHEAD + body_size rs) (length rs) sq"
  have "raw_frame crc sq rs = ?h @ raw_body crc rs @ le_bytes 4 (unat (crc (?h @ raw_body crc rs)))"
    by (simp add: raw_frame_def Let_def)
  then show ?thesis by (rule that) simp_all
qed

lemma raw_frame_magic: "slice_get (raw_frame crc sq rs @ rest) 0 4 = Some MAGIC"
  by (simp add: raw_frame_def Let_def encode_header_def slice_get_def MAGIC_def)

lemma emits_raw_frame:
  assumes "frame_ok rs"
  shows "emits crc (scanner_at (pre @ raw_frame crc sq rs @ rest) (length pre) q None)
           (PageItem sq (length pre)
             # record_items 4 (\<lambda>d. Some (crc d)) sq (length pre + 32) (map to_record rs))
           (scanner_at (pre @ raw_frame crc sq rs @ rest) (length pre + length (raw_frame crc sq rs)) None None)"
proof -
  obtain h tail where f: "raw_frame crc sq rs = h @ raw_body crc rs @ tail" "length h = 32" "length tail = 4"
    by (rule raw_frame_parts)
  let ?bs = "pre @ raw_frame crc sq rs @ rest"
  let ?fin = "length pre + length (raw_frame crc sq rs)"
  have fin: "?fin = length (pre @ h) + body_size rs + 4" by (simp add: f)
  have body: "raw_body crc rs = [] \<longleftrightarrow> rs = []"
    by (cases rs) (auto simp: raw_record_def)
  have "next_item crc (scanner_at ?bs (length pre) q None) = Inr (PageItem sq (length pre),
      if rs = [] then scanner_at ?bs ?fin None None
      else scanner_at ?bs (length pre + 32) (Some sq) (Some ?fin))"
    using body
    by (simp add: next_item_def raw_frame_magic next_frame_def scan_frame_raw [OF assms] Let_def
        HEADER_BYTES_def)
  moreover have "emits crc (if rs = [] then scanner_at ?bs ?fin None None
        else scanner_at ?bs (length pre + 32) (Some sq) (Some ?fin))
      (record_items 4 (\<lambda>d. Some (crc d)) sq (length pre + 32) (map to_record rs))
      (scanner_at ?bs ?fin None None)"
    using emits_frame_records [of rs tail crc "pre @ h" rest sq] assms f(2,3)
    by (cases "rs = []") (simp_all add: fin frame_ok_def, simp_all add: f(1))
  ultimately show ?thesis
    by (intro emits_step) simp_all
qed

subsection \<open>EC02 pages\<close>

definition raw_page_record :: "page_record \<Rightarrow> bytes" where
  "raw_page_record r = le_bytes 4 (length (rec_data r)) @ [rec_flags r] @ rec_data r"

definition page_records_ok :: "page_record list \<Rightarrow> bool" where
  "page_records_ok rs \<longleftrightarrow> (\<forall>r\<in>set rs. length (rec_data r) \<le> MAX_RECORD_BYTES)"

lemma encode_page_record_eq:
  "encode_page_record r = (if length (rec_data r) \<le> MAX_RECORD_BYTES then Inr (raw_page_record r)
     else Inl (PageRecordTooLarge (length (rec_data r))))"
  by (auto simp: encode_page_record_def raw_page_record_def u32_try_from_def MAX_RECORD_BYTES_def)

lemma traverse_encode_page_record:
  "traverse encode_page_record rs = Inr parts \<longleftrightarrow> page_records_ok rs \<and> parts = map raw_page_record rs"
  by (induction rs arbitrary: parts)
     (auto simp: page_records_ok_def encode_page_record_eq rbind_Inr_iff)

lemma encode_page_Inr:
  "encode_page p = Inr bs \<longleftrightarrow> pg_magic p = PAGE_MAGIC \<and> page_records_ok (pg_records p)
     \<and> bs = PAGE_MAGIC @ le_bytes 4 (unat (page_seq p)) @ concat (map raw_page_record (pg_records p))"
  by (auto simp: encode_page_def result_iffs traverse_encode_page_record)

text \<open>A record length is below the reserved markers, read as little-endian lengths.\<close>

lemma ec_marker_large: "ec_marker p \<Longrightarrow> MAX_RECORD_BYTES < le_nat p"
proof -
  assume "ec_marker p"
  then obtain a b c d where p: "p = [a, b, c, d]" and "0x30 \<le> d"
    by (auto simp: ec_marker_def split: list.splits)
  then have "48 \<le> unat d"
    by (simp add: word_le_nat_alt)
  then show ?thesis by (simp add: p MAX_RECORD_BYTES_def)
qed

lemma ec_marker_magics: "ec_marker MAGIC" "ec_marker PAGE_MAGIC"
  by (simp_all add: ec_marker_def MAGIC_def PAGE_MAGIC_def)

lemma length_prefix_no_marker:
  assumes "n \<le> MAX_RECORD_BYTES"
  shows "le_nat (le_bytes 4 n) = n" and "\<not> ec_marker (le_bytes 4 n)"
    and "le_bytes 4 n \<noteq> MAGIC" and "le_bytes 4 n \<noteq> PAGE_MAGIC"
proof -
  show n: "le_nat (le_bytes 4 n) = n"
    using assms by (intro le_nat_le_bytes) (simp add: MAX_RECORD_BYTES_def)
  show "\<not> ec_marker (le_bytes 4 n)"
    using ec_marker_large [of "le_bytes 4 n"] n assms by auto
  then show "le_bytes 4 n \<noteq> MAGIC" "le_bytes 4 n \<noteq> PAGE_MAGIC"
    using ec_marker_magics by metis+
qed

lemma next_page_record_raw:
  assumes "length (rec_data r) \<le> MAX_RECORD_BYTES"
  shows "next_item crc (scanner_at (pre @ raw_page_record r @ rest) (length pre) (Some sq) None)
    = Inr (RecordItem \<lparr>rr_page_sequence = sq, rr_offset = length pre, rr_data_offset = length pre + 5,
         rr_flags = rec_flags r, rr_data = rec_data r, rr_checksum = None\<rparr>,
       scanner_at (pre @ raw_page_record r @ rest) (length pre + 5 + length (rec_data r)) (Some sq) None)"
proof -
  let ?n = "le_bytes 4 (length (rec_data r))"
  have bs: "raw_page_record r @ rest = ?n @ [rec_flags r] @ rec_data r @ rest"
    by (simp add: raw_page_record_def)
  have "slice_get (raw_page_record r @ rest) 0 4 = Some ?n"
    unfolding bs by (rule slice_get_prefix) simp
  moreover have "slice_get (raw_page_record r @ rest) 4 5 = Some [rec_flags r]"
    unfolding bs by (rule slice_get_field) simp_all
  moreover have "slice_get (raw_page_record r @ rest) 5 (5 + length (rec_data r)) = Some (rec_data r)"
    using slice_get_field [of "?n @ [rec_flags r]" 5 _ "rec_data r" rest] by (simp add: bs)
  ultimately show ?thesis
    using assms length_prefix_no_marker [OF assms]
    by (simp add: next_item_def next_page_record_def Let_def)
qed

lemma emits_page_records:
  assumes "page_records_ok rs"
  shows "emits crc (scanner_at (pre @ concat (map raw_page_record rs) @ rest) (length pre) (Some sq) None)
           (record_items 0 (\<lambda>_. None) sq (length pre) rs)
           (scanner_at (pre @ concat (map raw_page_record rs) @ rest)
              (length pre + length (concat (map raw_page_record rs))) (Some sq) None)"
  using assms
proof (induction rs arbitrary: pre)
  case (Cons r rs)
  have len: "length (raw_page_record r) = 5 + length (rec_data r)"
    by (simp add: raw_page_record_def)
  have ok: "length (rec_data r) \<le> MAX_RECORD_BYTES" "page_records_ok rs"
    using Cons.prems by (simp_all add: page_records_ok_def)
  show ?case
    using emits_step [OF next_page_record_raw [OF ok(1), of crc pre "concat (map raw_page_record rs) @ rest" sq]]
      Cons.IH [OF ok(2), of "pre @ raw_page_record r"]
    by (simp add: len ac_simps)
qed simp

lemma emits_raw_page:
  assumes "encode_page p = Inr e"
  shows "emits crc (scanner_at (pre @ e @ rest) (length pre) q None)
           (PageItem (page_seq p) (length pre)
              # record_items 0 (\<lambda>_. None) (page_seq p) (length pre + 8) (pg_records p))
           (scanner_at (pre @ e @ rest) (length pre + length e) (Some (page_seq p)) None)"
proof -
  let ?h = "PAGE_MAGIC @ le_bytes 4 (unat (page_seq p))"
  have e: "e = ?h @ concat (map raw_page_record (pg_records p))" and ok: "page_records_ok (pg_records p)"
    using assms by (simp_all add: encode_page_Inr)
  have len: "length PAGE_MAGIC = 4" by (simp add: PAGE_MAGIC_def)
  have "slice_get (e @ rest) 0 4 = Some PAGE_MAGIC" "slice_get (e @ rest) 4 8 = Some (le_bytes 4 (unat (page_seq p)))"
    unfolding e by (simp_all add: slice_get_def len)
  then have "next_item crc (scanner_at (pre @ e @ rest) (length pre) q None) =
      Inr (PageItem (page_seq p) (length pre),
           scanner_at (pre @ e @ rest) (length pre + 8) (Some (page_seq p)) None)"
    by (simp add: next_item_def next_page_def Let_def PAGE_MAGIC_def MAGIC_def)
  then show ?thesis
    using emits_step emits_page_records [OF ok, of crc "pre @ ?h" rest "page_seq p"]
    by (simp add: e len ac_simps)
qed

subsection \<open>Whole segments\<close>

lemma result_to_option_Some: "result_to_option r = Some x \<longleftrightarrow> r = Inr x"
  by (cases r) (auto simp: result_to_option_def)

lemma encode_ec03_Inr:
  "encode_ec03 crc f = Inr e \<Longrightarrow> \<exists>rs. frame_ok rs \<and> records f = map to_record rs
     \<and> e = raw_frame crc (page_sequence f) rs"
  by (intro exI [of _ "map (\<lambda>r. (rec_flags r, rec_data r)) (records f)"])
     (auto simp: encode_ec03_def encode_records_eq simp del: map_map split: if_splits)

lemma emits_chunk:
  assumes "chunk_bytes crc c = Some e"
  shows "\<exists>q'. emits crc (scanner_at (pre @ e @ rest) (length pre) q None) (chunk_items crc (length pre) c)
           (scanner_at (pre @ e @ rest) (length pre + length e) q' None)"
proof (cases c)
  case (PageChunk p)
  then have "encode_page p = Inr e"
    using assms by (simp add: chunk_bytes_def result_to_option_Some)
  then show ?thesis
    using emits_raw_page [of p e crc pre rest q] by (auto simp: PageChunk chunk_items_def)
next
  case (FrameChunk f)
  then have "encode_ec03 crc f = Inr e"
    using assms by (simp add: chunk_bytes_def result_to_option_Some)
  then obtain rs where "frame_ok rs" "records f = map to_record rs" "e = raw_frame crc (page_sequence f) rs"
    using encode_ec03_Inr by blast
  then show ?thesis
    using emits_raw_frame [of rs crc pre "page_sequence f" rest q] by (auto simp: FrameChunk chunk_items_def)
qed

lemma emits_segment:
  "\<forall>(c, e) \<in> set cs. chunk_bytes crc c = Some e \<Longrightarrow>
     \<exists>q'. emits crc (scanner_at (pre @ concat (map snd cs) @ rest) (length pre) q None)
            (segment_items crc (length pre) cs)
            (scanner_at (pre @ concat (map snd cs) @ rest) (length pre + length (concat (map snd cs))) q' None)"
proof (induction cs arbitrary: pre q)
  case Nil
  then show ?case by (auto intro!: exI [of _ q])
next
  case (Cons ce cs)
  obtain c e where ce: "ce = (c, e)" by (cases ce)
  obtain q1 where q1: "emits crc (scanner_at (pre @ e @ concat (map snd cs) @ rest) (length pre) q None)
      (chunk_items crc (length pre) c)
      (scanner_at (pre @ e @ concat (map snd cs) @ rest) (length pre + length e) q1 None)"
    using emits_chunk [of crc c e pre "concat (map snd cs) @ rest" q] Cons.prems by (auto simp: ce)
  obtain q2 where "emits crc (scanner_at ((pre @ e) @ concat (map snd cs) @ rest) (length (pre @ e)) q1 None)
      (segment_items crc (length (pre @ e)) cs)
      (scanner_at ((pre @ e) @ concat (map snd cs) @ rest)
        (length (pre @ e) + length (concat (map snd cs))) q2 None)"
    using Cons.IH [of "pre @ e" q1] Cons.prems by auto
  then show ?case
    using emits_trans [OF q1] by (auto simp: ce ac_simps)
qed

lemma next_item_torn:
  assumes ok: "frame_ok rs" and k: "k < length (raw_frame crc sq rs)"
  shows "next_item crc (scanner_at (pre @ take k (raw_frame crc sq rs)) (length pre) q None)
    = Inl \<lparr>se_offset = length pre, se_kind = IncompleteTail\<rparr>"
proof -
  let ?f = "raw_frame crc sq rs"
  have "slice_get (take k ?f) 0 4 = (if 4 \<le> k then Some MAGIC else None)"
    using raw_frame_magic [of crc sq rs "[]"] k by (auto simp: slice_get_def split: if_splits)
  then show ?thesis
    using scan_frame_prefix [OF ok k]
    by (simp add: next_item_def next_frame_def scanner_error_def Let_def)
qed

text \<open>
  The scan of a segment: complete pages and frames, then possibly a torn frame.
\<close>

lemma scan_torn_resume:
  assumes "\<forall>(c, e) \<in> set cs. chunk_bytes crc c = Some e"
    and "encode_ec03 crc f = Inr e" and "k < length e"
  shows "\<exists>t. scan_rest crc (scanner_resume (concat (map snd cs) @ take k e) page)
      = (map Inr (segment_items crc 0 cs)
         @ (if k = 0 then [] else [Inl \<lparr>se_offset = length (concat (map snd cs)), se_kind = IncompleteTail\<rparr>]), t)
      \<and> ps_offset t = length (concat (map snd cs))"
proof -
  let ?pre = "concat (map snd cs)"
  let ?bs = "?pre @ take k e"
  obtain q where em: "emits crc (scanner_at ?bs 0 page None) (segment_items crc 0 cs)
      (scanner_at ?bs (length ?pre) q None)"
    using emits_segment [OF assms(1), of "[]" "take k e" page] by auto
  let ?t = "scanner_at ?bs (length ?pre) q None"
  show ?thesis
  proof (cases "k = 0")
    case True
    then have "scan_rest crc ?t = ([], ?t)" by (intro scan_rest_end) simp
    then show ?thesis
      using em True by (auto simp: emits_def scanner_resume_def)
  next
    case False
    obtain rs where "frame_ok rs" and e: "e = raw_frame crc (page_sequence f) rs"
      using encode_ec03_Inr [OF assms(2)] by auto
    then have "next_item crc ?t = Inl \<lparr>se_offset = length ?pre, se_kind = IncompleteTail\<rparr>"
      using next_item_torn [of rs k crc "page_sequence f" ?pre q] assms(3) by simp
    then have "scan_rest crc ?t = ([Inl \<lparr>se_offset = length ?pre, se_kind = IncompleteTail\<rparr>],
        ?t\<lparr>ps_finished := True\<rparr>)"
      using False assms(3) by (intro scan_rest_error) (auto simp: min_def)
    then show ?thesis
      using em False by (auto simp: emits_def scanner_resume_def)
  qed
qed

lemma scanner_new_resume: "page_scanner_new bs = scanner_resume bs None"
  by (simp add: page_scanner_new_def scanner_resume_def)

lemmas scan_torn_segment = scan_torn_resume [where page = None, folded scanner_new_resume]

subsection \<open>Arbitrary input\<close>

text \<open>A reported record is the slice of the input at its offsets, and its checksum was checked.\<close>

definition located :: "(bytes \<Rightarrow> u32) \<Rightarrow> bytes \<Rightarrow> scan_item \<Rightarrow> bool" where
  "located crc bs it = (case it of
       PageItem sq off \<Rightarrow> off < length bs
     | RecordItem r \<Rightarrow> rr_data_offset r = rr_offset r + 5
         \<and> slice_get bs (rr_data_offset r) (rr_data_offset r + length (rr_data r)) = Some (rr_data r)
         \<and> length (rr_data r) \<le> MAX_RECORD_BYTES
         \<and> slice_get bs (rr_offset r) (rr_offset r + 5)
             = Some (le_bytes 4 (length (rr_data r)) @ [rr_flags r])
         \<and> (case rr_checksum r of None \<Rightarrow> True | Some c \<Rightarrow> c = crc (rr_data r)))"

lemma slice_get_drop: "off \<le> length bs \<Longrightarrow> slice_get (drop off bs) a b = slice_get bs (off + a) (off + b)"
  by (auto simp: slice_get_def add.commute)

lemma located_frame_record:
  assumes "scan_record crc (drop off bs) = Inr r" and "off \<le> length bs"
  shows "located crc bs (RecordItem \<lparr>rr_page_sequence = q, rr_offset = off, rr_data_offset = off + 5,
           rr_flags = cr_flags r, rr_data = cr_data r, rr_checksum = Some (cr_checksum r)\<rparr>)"
proof -
  note snd = scan_record_sound [OF assms(1)]
  let ?n = "le_bytes 4 (length (cr_data r))" and ?c = "le_bytes 4 (unat (crc (cr_data r)))"
  obtain rest where bs: "drop off bs = ?n @ [cr_flags r] @ cr_data r @ ?c @ rest"
    using snd(3) by (simp add: raw_record_def)
  have "slice_get (drop off bs) 5 (5 + length (cr_data r)) = Some (cr_data r)"
    using slice_get_field [of "?n @ [cr_flags r]" 5 _ "cr_data r" "?c @ rest"] by (simp add: bs)
  moreover have "slice_get (drop off bs) 0 5 = Some (?n @ [cr_flags r])"
    using slice_get_prefix [of 5 "?n @ [cr_flags r]" "cr_data r @ ?c @ rest"] by (simp add: bs)
  ultimately show ?thesis
    using snd(2,4) assms(2) by (simp add: located_def slice_get_drop ac_simps)
qed

lemma located_page_record:
  assumes d: "slice_get (drop off bs) 5 (5 + le_nat p) = Some d" and p: "slice_get (drop off bs) 0 4 = Some p"
    and fl: "slice_get (drop off bs) 4 5 = Some fl" and le: "le_nat p \<le> MAX_RECORD_BYTES"
    and off: "off \<le> length bs"
  shows "located crc bs (RecordItem \<lparr>rr_page_sequence = q, rr_offset = off, rr_data_offset = off + 5,
           rr_flags = hd fl, rr_data = d, rr_checksum = None\<rparr>)"
proof -
  have len: "length d = le_nat p" "length p = 4" "length fl = 1"
    using slice_get_length [OF d] slice_get_length [OF p] slice_get_length [OF fl] by simp_all
  have "slice_get (drop off bs) 0 5 = Some (p @ fl)"
    using p fl take_add [of 4 1 "drop off bs"] by (auto simp: slice_get_Some)
  moreover have "p @ fl = le_bytes 4 (length d) @ [hd fl]"
    using len le_bytes_le_nat_n [of p 4] by (cases fl) auto
  ultimately show ?thesis
    using d le len off by (simp add: located_def slice_get_drop ac_simps)
qed

lemma next_item_located:
  assumes "next_item crc s = Inr (it, s')"
  shows "located crc (ps_bytes s) it"
proof -
  note progress = next_item_progress(4) [OF assms]
  then have rem: "(case slice_from (ps_bytes s) (ps_offset s) of None \<Rightarrow> [] | Some r \<Rightarrow> r)
      = drop (ps_offset s) (ps_bytes s)"
    by (simp add: slice_from_def)
  show ?thesis
  proof (cases "ps_frame_end s")
    case (Some e)
    then obtain r where r: "scan_record crc (drop (ps_offset s) (ps_bytes s)) = Inr r"
      and it: "it = RecordItem \<lparr>rr_page_sequence = (case ps_page_sequence s of None \<Rightarrow> 0 | Some q \<Rightarrow> q),
         rr_offset = ps_offset s, rr_data_offset = ps_offset s + 5, rr_flags = cr_flags r,
         rr_data = cr_data r, rr_checksum = Some (cr_checksum r)\<rparr>"
      using assms unfolding next_item_def rem
      by (auto simp: next_frame_record_def result_iffs map_err_Inr_iff Let_def)
    show ?thesis
      unfolding it by (rule located_frame_record [OF r]) (use progress in simp)
  next
    case None
    show ?thesis
      using assms progress None unfolding next_item_def rem
      by (auto simp: next_frame_def next_page_def next_page_record_def result_iffs map_err_Inr_iff
          Let_def located_def [of _ _ "PageItem _ _"] intro!: located_page_record split: if_splits)
  qed
qed

fun located_result :: "(bytes \<Rightarrow> u32) \<Rightarrow> bytes \<Rightarrow> scan_error + scan_item \<Rightarrow> bool" where
  "located_result crc bs (Inl e) = True"
| "located_result crc bs (Inr it) = located crc bs it"

text \<open>An error is the last result of a scan.\<close>

fun error_last :: "(scan_error + scan_item) list \<Rightarrow> bool" where
  "error_last [] = True"
| "error_last (Inl e # rs) = (rs = [])"
| "error_last (Inr it # rs) = error_last rs"

lemma scan_rest_safe:
  "list_all (located_result crc (ps_bytes s)) (fst (scan_rest crc s)) \<and> error_last (fst (scan_rest crc s))"
proof (induction crc s rule: scan_rest.induct)
  case (1 crc s)
  show ?case
  proof (cases "ps_finished s \<or> ps_offset s = length (ps_bytes s)")
    case True
    then show ?thesis by (auto simp: scan_rest.simps scanner_next_def)
  next
    case False
    show ?thesis
    proof (cases "next_item crc s")
      case (Inl e)
      then show ?thesis using False by (simp add: scan_rest_error)
    next
      case (Inr p)
      obtain it s' where p: "p = (it, s')" by (cases p)
      have nx: "scanner_next crc s = (Some (Inr it), s')"
        using False Inr p by (simp add: scanner_next_def)
      have "ps_bytes s' = ps_bytes s" using Inr p next_item_progress(1) by simp
      then show ?thesis
        using 1 [OF nx [symmetric]] next_item_located [of crc s it s'] Inr p nx
        by (simp add: scan_rest.simps [of crc s] case_prod_beta)
    qed
  qed
qed

section \<open>Properties\<close>

text \<open>
  C14. A segment that a writer produced is read back completely: scanning the concatenation
  of any encoded EC02 pages and EC03 frames, followed by a torn EC03 frame, reports every page
  and record in order at its offset and then, if anything of the torn frame was written, one
  \<open>IncompleteTail\<close> at its start. The scanner has then consumed exactly the complete part.
\<close>

theorem scan_recovers_complete_prefix:
  assumes "\<forall>(c, e) \<in> set cs. chunk_bytes crc c = Some e"
    and "encode_ec03 crc f = Inr e" and "k < length e"
  shows "fst (scan_rest crc (page_scanner_new (concat (map snd cs) @ take k e)))
      = map Inr (segment_items crc 0 cs)
         @ (if k = 0 then [] else [Inl \<lparr>se_offset = length (concat (map snd cs)), se_kind = IncompleteTail\<rparr>])
    \<and> ps_offset (snd (scan_rest crc (page_scanner_new (concat (map snd cs) @ take k e))))
      = length (concat (map snd cs))"
  using scan_torn_segment [OF assms] by auto

theorem scan_recovers_complete_prefix_witness:
  "fst (scan_rest (\<lambda>_. 0) (page_scanner_new
      (PAGE_MAGIC @ [7, 0, 0, 0] @ [1, 0, 0, 0] @ [9] @ [42] @ take 3 (raw_frame (\<lambda>_. 0) 5 []))))
   = [Inr (PageItem 7 0),
      Inr (RecordItem \<lparr>rr_page_sequence = 7, rr_offset = 8, rr_data_offset = 13, rr_flags = 9,
             rr_data = [42], rr_checksum = None\<rparr>),
      Inl \<lparr>se_offset = 14, se_kind = IncompleteTail\<rparr>]"
proof -
  let ?p = "page_add_record 9 [42] (page_new 7)"
  let ?e = "PAGE_MAGIC @ [7, 0, 0, 0] @ [1, 0, 0, 0] @ [9] @ [42]"
  have le: "le_bytes 4 7 = [7, 0, 0, 0]" "le_bytes 4 (Suc 0) = [1, 0, 0, 0]"
    by (simp_all add: le_bytes_numeral)
  have p: "\<forall>(c, e) \<in> set [(PageChunk ?p, ?e)]. chunk_bytes (\<lambda>_. 0) c = Some e"
    by (simp add: chunk_bytes_def result_to_option_Some encode_page_Inr page_records_ok_def
        page_add_record_def page_new_def raw_page_record_def MAX_RECORD_BYTES_def le)
  have f: "encode_ec03 (\<lambda>_. 0) (ec03_frame_new 5) = Inr (raw_frame (\<lambda>_. 0) 5 [])"
    by (simp add: encode_ec03_def encode_records_eq ec03_frame_new_def frame_ok_def ec03_consts)
  show ?thesis
    using scan_recovers_complete_prefix [OF p f, of 3]
    by (simp add: length_raw_frame ec03_consts chunk_items_def page_add_record_def page_new_def
        PAGE_MAGIC_def)
qed

text \<open>
  C22. Whatever the input bytes, corrupt or hostile, a scan ends, reports at most one error and
  nothing after it, and every record it reports is a slice of the input directly after its
  length prefix and flags, within the record limit, with a checksum that was verified when the
  format has one.
\<close>

theorem scan_arbitrary_input_safe:
  "list_all (located_result crc bs) (fst (scan_rest crc (page_scanner_new bs)))
   \<and> error_last (fst (scan_rest crc (page_scanner_new bs)))"
  using scan_rest_safe [of crc "page_scanner_new bs"] by (simp add: page_scanner_new_def)

lemma collect_page_records:
  "collect_page (map Inr (record_items pad ck sq off rs)) p = Some (p\<lparr>pg_records := pg_records p @ rs\<rparr>)"
  by (induction rs arbitrary: off p) (auto simp: page_add_record_def)

text \<open>
  An EC02 page that encodes decodes to itself, and the encoder rejects exactly a wrong
  magic or the first record over the limit.
\<close>

theorem page_roundtrip:
  "case encode_page p of
     Inr bs \<Rightarrow> decode_page crc bs = Some p
   | Inl InvalidPageMagic \<Rightarrow> pg_magic p \<noteq> PAGE_MAGIC
   | Inl (PageRecordTooLarge n) \<Rightarrow> pg_magic p = PAGE_MAGIC \<and> MAX_RECORD_BYTES < n
       \<and> n \<in> (\<lambda>r. length (rec_data r)) ` set (pg_records p)"
proof (cases "encode_page p")
  case (Inl err)
  have "traverse encode_page_record rs = Inl e \<Longrightarrow> \<exists>r\<in>set rs. MAX_RECORD_BYTES < length (rec_data r)
      \<and> e = PageRecordTooLarge (length (rec_data r))" for rs e
    by (induction rs) (auto simp: result_iffs encode_page_record_eq not_le split: if_splits)
  then show ?thesis
    using Inl by (fastforce simp: encode_page_def result_iffs split: page_encode_error.splits if_splits)
next
  case (Inr bs)
  let ?s = "scanner_at bs (length bs) (Some (page_seq p)) None"
  note em = emits_raw_page [OF Inr, of crc "[]" "[]" None]
  have ok: "pg_magic p = PAGE_MAGIC" using Inr by (simp add: encode_page_Inr)
  have all: "scan_rest crc (page_scanner_new bs) = (map Inr (PageItem (page_seq p) 0
      # record_items 0 (\<lambda>_. None) (page_seq p) 8 (pg_records p)), ?s)"
    using em scan_rest_end [of ?s crc] by (simp add: emits_def page_scanner_new_def)
  then obtain s' where "scanner_next crc (page_scanner_new bs) = (Some (Inr (PageItem (page_seq p) 0)), s')"
    "fst (scan_rest crc s') = map Inr (record_items 0 (\<lambda>_. None) (page_seq p) 8 (pg_records p))"
    by (subst (asm) scan_rest.simps) (auto split: prod.splits option.splits)
  then show ?thesis
    using Inr ok by (simp add: decode_page_def collect_page_records page_new_def)
qed

end
