(* ===== verification/RecordCodec.thy ===== *)
theory RecordCodec
  imports Compat Scan
begin

text \<open>
  Operation records as bytes (\<open>editchain-store/src/format/frame.rs\<close>): the versioned record
  prefix, the three schemas a reader accepts, and the rewriting of EC02 records. The postcard
  serializer is third-party code: its functions are the fields of a parameter \<open>pc\<close>, and
  what the codec relies on is stated per value as hypotheses.
\<close>

section \<open>Definitions\<close>

datatype codec_error = SerdeSerCustom | DeserializeBadEncoding | PostcardError string

type_synonym legacy_record = "operation legacy_op"

record postcard =
  ser_op :: "op \<Rightarrow> codec_error + bytes"
  take_op :: "bytes \<Rightarrow> codec_error + op \<times> bytes"
  size_op :: "op \<Rightarrow> codec_error + nat"
  ser_record :: "operation \<Rightarrow> codec_error + bytes"
  take_record :: "bytes \<Rightarrow> codec_error + operation \<times> bytes"
  size_record :: "operation \<Rightarrow> codec_error + nat"
  ser_legacy :: "legacy_record \<Rightarrow> codec_error + bytes"
  take_legacy :: "bytes \<Rightarrow> codec_error + legacy_record \<times> bytes"

definition RECORD_MAGIC :: bytes where
  "RECORD_MAGIC = replicate 10 255 @ str_bytes ''ECR3''"

definition RECORD_SCHEMA :: u8 where "RECORD_SCHEMA = 1"

definition source_mismatch :: "derive_key \<Rightarrow> op \<Rightarrow> bool" where
  "source_mismatch dk p = (case op_source p of None \<Rightarrow> False | Some s \<Rightarrow> source_id_id dk s \<noteq> op_id p)"

definition validate_activity :: "derive_key \<Rightarrow> op \<Rightarrow> operation \<Rightarrow> codec_error + unit" where
  "validate_activity dk p r =
     rbind (map_err (\<lambda>_. SerdeSerCustom) (validate dk r)) (\<lambda>_.
     if \<not> matches_envelope r p then Inl SerdeSerCustom else Inr ())"

definition encode_op :: "derive_key \<Rightarrow> postcard \<Rightarrow> op \<Rightarrow> codec_error + bytes" where
  "encode_op dk pc p =
     (if source_mismatch dk p then Inl SerdeSerCustom
      else case op_op_kind p of
          Activity r \<Rightarrow>
            rbind (validate_activity dk p r) (\<lambda>_.
            rbind (ser_record pc r) (\<lambda>body. Inr (RECORD_MAGIC @ [3] @ body)))
        | _ \<Rightarrow> rbind (ser_op pc p) (\<lambda>body. Inr (RECORD_MAGIC @ [RECORD_SCHEMA] @ body)))"

definition encoded_op_len :: "derive_key \<Rightarrow> postcard \<Rightarrow> op \<Rightarrow> codec_error + nat" where
  "encoded_op_len dk pc p =
     (if source_mismatch dk p then Inl SerdeSerCustom
      else rbind (case op_op_kind p of
            Activity r \<Rightarrow> rbind (validate_activity dk p r) (\<lambda>_. size_record pc r)
          | _ \<Rightarrow> size_op pc p)
        (\<lambda>size. Inr (sat_add 64 (sat_add 64 size (length RECORD_MAGIC)) 1)))"

definition strip_magic :: "bytes \<Rightarrow> bytes option" where
  "strip_magic bs = (if take (length RECORD_MAGIC) bs = RECORD_MAGIC then Some (drop (length RECORD_MAGIC) bs) else None)"

definition decode_legacy :: "derive_key \<Rightarrow> postcard \<Rightarrow> bytes \<Rightarrow> codec_error + op \<times> bytes" where
  "decode_legacy dk pc bs = rbind (take_legacy pc bs) (\<lambda>(l, remaining).
     if is_activity (lg_kind l) then Inl DeserializeBadEncoding else Inr (into_canonical dk l, remaining))"

definition decode_body :: "derive_key \<Rightarrow> postcard \<Rightarrow> bytes \<Rightarrow> codec_error + op \<times> bytes" where
  "decode_body dk pc bs = (case strip_magic bs of
       Some (schema # body) \<Rightarrow>
         if schema = RECORD_SCHEMA then
           rbind (take_op pc body) (\<lambda>(p, remaining).
             if is_activity (op_op_kind p) then Inl DeserializeBadEncoding else Inr (p, remaining))
         else if schema = 3 then
           rbind (take_record pc body) (\<lambda>(r, remaining).
             rbind (map_err (\<lambda>_. DeserializeBadEncoding) (into_op dk r)) (\<lambda>p. Inr (p, remaining)))
         else if schema = 2 then decode_legacy dk pc body
         else Inl DeserializeBadEncoding
     | Some [] \<Rightarrow> Inl DeserializeBadEncoding
     | None \<Rightarrow> decode_legacy dk pc bs)"

definition decode_op :: "derive_key \<Rightarrow> postcard \<Rightarrow> bytes \<Rightarrow> codec_error + op" where
  "decode_op dk pc bs = rbind (decode_body dk pc bs) (\<lambda>(p, remaining).
     if remaining \<noteq> [] then Inl DeserializeBadEncoding
     else if source_mismatch dk p then Inl DeserializeBadEncoding
     else Inr p)"

definition migrate_record :: "derive_key \<Rightarrow> postcard \<Rightarrow> bytes \<Rightarrow> codec_error + bytes" where
  "migrate_record dk pc bs =
     (if strip_magic bs \<noteq> None then Inr bs
      else case take_legacy pc bs of
          Inl _ \<Rightarrow> Inr bs
        | Inr (l, remaining) \<Rightarrow>
            if remaining \<noteq> [] then Inr bs
            else rbind (ser_legacy pc l) (\<lambda>canonical.
              if canonical = bs then encode_op dk pc (into_canonical dk l)
              else Inr (RECORD_MAGIC @ [2] @ bs)))"

datatype frame_format = Ec02 | Ec03

definition detect_format :: "bytes \<Rightarrow> frame_format option" where
  "detect_format bs =
     (if length bs < 4 then None
      else if take 4 bs = PAGE_MAGIC then Some Ec02
      else if take 4 bs = Ec03.MAGIC then Some Ec03
      else None)"

section \<open>Lemmas\<close>

lemma strip_magic_append [simp]: "strip_magic (RECORD_MAGIC @ bs) = Some bs"
  by (simp add: strip_magic_def)

lemma RECORD_MAGIC_length [simp]: "length RECORD_MAGIC = 14"
  by (simp add: RECORD_MAGIC_def str_bytes_def)

lemma is_activity_iff: "is_activity k \<longleftrightarrow> (\<exists>r. k = Activity r)"
  by (cases k) (simp_all add: is_activity_def)

lemma case_not_activity:
  "\<not> is_activity k \<Longrightarrow> (case k of Activity r \<Rightarrow> f r | _ \<Rightarrow> g) = g"
  by (cases k) (simp_all add: is_activity_def)

lemma encode_op_schema1:
  "\<not> is_activity (op_op_kind p) \<Longrightarrow> encode_op dk pc p =
     (if source_mismatch dk p then Inl SerdeSerCustom
      else rbind (ser_op pc p) (\<lambda>body. Inr (RECORD_MAGIC @ [RECORD_SCHEMA] @ body)))"
  by (simp add: encode_op_def case_not_activity)

text \<open>
  What the codec asks of postcard for one operation: decoding what was serialized gives the
  value back with nothing left, and the size function counts the serialized bytes.
\<close>

definition postcard_ok :: "postcard \<Rightarrow> op \<Rightarrow> bool" where
  "postcard_ok pc p = (case op_op_kind p of
       Activity r \<Rightarrow> (case ser_record pc r of Inl _ \<Rightarrow> True
          | Inr body \<Rightarrow> take_record pc body = Inr (r, []) \<and> size_record pc r = Inr (length body))
     | _ \<Rightarrow> (case ser_op pc p of Inl _ \<Rightarrow> True
          | Inr body \<Rightarrow> take_op pc body = Inr (p, []) \<and> size_op pc p = Inr (length body)))"

lemma decode_encode_op:
  assumes enc: "encode_op dk pc p = Inr bs" and ok: "postcard_ok pc p"
  shows "decode_op dk pc bs = Inr p"
proof (cases "is_activity (op_op_kind p)")
  case True
  then obtain r where r: "op_op_kind p = Activity r" by (auto simp: is_activity_iff)
  with enc obtain body where b: "validate dk r = Inr ()" "matches_envelope r p" "\<not> source_mismatch dk p"
    "ser_record pc r = Inr body" "bs = RECORD_MAGIC @ [3] @ body"
    by (auto simp: encode_op_def validate_activity_def rbind_Inr_iff split: if_splits)
  then obtain w where w: "into_op dk r = Inr w" by (simp add: into_op_def)
  have "w = p" using envelope_unique [OF w r b(2)] by simp
  then show ?thesis using b w ok r
    by (simp add: decode_op_def decode_body_def postcard_ok_def RECORD_SCHEMA_def)
next
  case False
  then obtain body where "ser_op pc p = Inr body" "bs = RECORD_MAGIC @ [RECORD_SCHEMA] @ body" "\<not> source_mismatch dk p"
    using enc by (auto simp: encode_op_schema1 rbind_Inr_iff split: if_splits)
  then show ?thesis using ok False
    by (simp add: decode_op_def decode_body_def postcard_ok_def case_not_activity)
qed

lemma encoded_len:
  assumes "encode_op dk pc p = Inr bs" and "postcard_ok pc p" and "length bs < 2 ^ 64"
  shows "encoded_op_len dk pc p = Inr (length bs)"
proof (cases "is_activity (op_op_kind p)")
  case True
  then obtain r where r: "op_op_kind p = Activity r" by (auto simp: is_activity_iff)
  with assms(1) obtain body where "validate_activity dk p r = Inr ()" "\<not> source_mismatch dk p"
    "ser_record pc r = Inr body" "bs = RECORD_MAGIC @ [3] @ body"
    by (auto simp: encode_op_def rbind_Inr_iff split: if_splits)
  then show ?thesis using assms(2,3) r by (simp add: encoded_op_len_def postcard_ok_def sat_add_def)
next
  case False
  then obtain body where "ser_op pc p = Inr body" "bs = RECORD_MAGIC @ [RECORD_SCHEMA] @ body" "\<not> source_mismatch dk p"
    using assms(1) by (auto simp: encode_op_schema1 rbind_Inr_iff split: if_splits)
  then show ?thesis using assms(2,3) False
    by (simp add: encoded_op_len_def postcard_ok_def case_not_activity sat_add_def)
qed

lemma into_canonical_source: "\<not> source_mismatch dk (into_canonical dk l)"
  by (simp add: source_mismatch_def into_canonical_def)

lemma is_activity_map_kind [simp]: "is_activity (map_kind f k) = is_activity k"
  by (cases k) (simp_all add: is_activity_def map_kind_def)

lemma is_activity_canonical [simp]: "is_activity (op_op_kind (into_canonical dk l)) = is_activity (lg_kind l)"
  by (simp add: into_canonical_def)

text \<open>
  A legacy record of the schema-three kind is not retained as it is: rewriting fails, since its
  canonical form has a producer tuple, which the envelope check excludes.
\<close>

lemma migrate_rejects_legacy_activity:
  assumes "strip_magic bs = None" and "take_legacy pc bs = Inr (l, [])" and "ser_legacy pc l = Inr bs"
    and "lg_kind l = Activity r"
  shows "migrate_record dk pc bs = Inl SerdeSerCustom"
proof -
  have "\<not> matches_envelope r (into_canonical dk l)" by (simp add: matches_envelope_def into_canonical_def)
  then have "validate_activity dk (into_canonical dk l) r = Inl SerdeSerCustom"
    by (cases "validate dk r") (simp_all add: validate_activity_def)
  then show ?thesis
    using assms into_canonical_source [of dk l]
    by (simp add: migrate_record_def encode_op_def into_canonical_def [of dk l] map_kind_def
        del: into_canonical_source)
qed

lemma decode_schema2: "decode_op dk pc (RECORD_MAGIC @ [2] @ bs) = rbind (decode_legacy dk pc bs) (\<lambda>(p, remaining).
     if remaining \<noteq> [] then Inl DeserializeBadEncoding
     else if source_mismatch dk p then Inl DeserializeBadEncoding
     else Inr p)"
  by (simp add: decode_op_def decode_body_def RECORD_SCHEMA_def)

lemma decode_unversioned: "strip_magic bs = None \<Longrightarrow> decode_op dk pc bs = decode_op dk pc (RECORD_MAGIC @ [2] @ bs)"
  by (simp only: decode_schema2) (simp add: decode_op_def decode_body_def)

lemma migrate_decodable:
  assumes "decode_op dk pc bs = Inr p" and "postcard_ok pc p"
    and "\<exists>body. ser_op pc p = Inr body"
    and "\<And>l. take_legacy pc bs = Inr (l, []) \<Longrightarrow> \<exists>c. ser_legacy pc l = Inr c"
  shows "\<exists>cs. migrate_record dk pc bs = Inr cs \<and> decode_op dk pc cs = Inr p
      \<and> strip_magic cs \<noteq> None \<and> migrate_record dk pc cs = Inr cs"
proof (cases "strip_magic bs")
  case (Some x)
  then show ?thesis using assms(1) by (simp add: migrate_record_def)
next
  case None
  then obtain l where l: "take_legacy pc bs = Inr (l, [])" "\<not> is_activity (lg_kind l)" "p = into_canonical dk l"
    using assms(1) by (auto simp: decode_op_def decode_body_def decode_legacy_def rbind_Inr_iff split: if_splits)
  then obtain c where c: "ser_legacy pc l = Inr c" using assms(4) by blast
  obtain body where body: "ser_op pc p = Inr body" using assms(3) by blast
  show ?thesis
  proof (cases "c = bs")
    case True
    have enc: "encode_op dk pc p = Inr (RECORD_MAGIC @ [RECORD_SCHEMA] @ body)"
      using l(2,3) body by (simp add: encode_op_schema1 into_canonical_source)
    then have "migrate_record dk pc bs = Inr (RECORD_MAGIC @ [RECORD_SCHEMA] @ body)"
      using None l c True by (simp add: migrate_record_def)
    then show ?thesis using decode_encode_op [OF enc assms(2)] by (simp add: migrate_record_def)
  next
    case False
    then have "migrate_record dk pc bs = Inr (RECORD_MAGIC @ [2] @ bs)"
      using None l c by (simp add: migrate_record_def)
    moreover have "decode_op dk pc (RECORD_MAGIC @ [2] @ bs) = Inr p"
      using assms(1) decode_unversioned [OF None] by simp
    ultimately show ?thesis by (simp add: migrate_record_def)
  qed
qed

lemma migrate_undecodable:
  assumes bad: "decode_op dk pc xs = Inl e"
  shows "if \<exists>l. strip_magic xs = None \<and> take_legacy pc xs = Inr (l, []) \<and> is_activity (lg_kind l)
    then \<exists>l. take_legacy pc xs = Inr (l, []) \<and>
      (case ser_legacy pc l of
         Inl e' \<Rightarrow> migrate_record dk pc xs = Inl e'
       | Inr canonical \<Rightarrow>
           if canonical = xs then migrate_record dk pc xs = Inl SerdeSerCustom
           else migrate_record dk pc xs = Inr (RECORD_MAGIC @ [2] @ xs)
             \<and> decode_op dk pc (RECORD_MAGIC @ [2] @ xs) = Inl e)
    else migrate_record dk pc xs = Inr xs"
proof (cases "\<exists>l. strip_magic xs = None \<and> take_legacy pc xs = Inr (l, []) \<and> is_activity (lg_kind l)")
  case True
  then obtain l r where l: "strip_magic xs = None" "take_legacy pc xs = Inr (l, [])" "lg_kind l = Activity r"
    by (auto simp: is_activity_iff)
  have "decode_op dk pc (RECORD_MAGIC @ [2] @ xs) = Inl e" using bad decode_unversioned [OF l(1)] by simp
  then have "case ser_legacy pc l of
         Inl e' \<Rightarrow> migrate_record dk pc xs = Inl e'
       | Inr canonical \<Rightarrow>
           if canonical = xs then migrate_record dk pc xs = Inl SerdeSerCustom
           else migrate_record dk pc xs = Inr (RECORD_MAGIC @ [2] @ xs)
             \<and> decode_op dk pc (RECORD_MAGIC @ [2] @ xs) = Inl e"
    using l migrate_rejects_legacy_activity [OF l(1,2) _ l(3)]
    by (cases "ser_legacy pc l") (auto simp: migrate_record_def)
  then show ?thesis using l True by auto
next
  case False
  have "strip_magic xs \<noteq> None \<or> (\<exists>e'. take_legacy pc xs = Inl e') \<or> (\<exists>l y ys. take_legacy pc xs = Inr (l, y # ys))"
  proof (rule ccontr)
    assume n: "\<not> ?thesis"
    then obtain l where l: "take_legacy pc xs = Inr (l, [])"
      by (cases "take_legacy pc xs") (auto, metis list.exhaust)
    then have "decode_op dk pc xs = Inr (into_canonical dk l)"
      using n False by (simp add: decode_op_def decode_body_def decode_legacy_def into_canonical_source)
    then show False using bad by simp
  qed
  then have "migrate_record dk pc xs = Inr xs" by (auto simp: migrate_record_def)
  then show ?thesis unfolding if_not_P [OF False] .
qed

section \<open>Properties\<close>

text \<open>
  C35. An encoded operation decodes to itself, whatever schema it is stored under, and its exact
  length is known without encoding; no reader accepts a record whose producer tuple does not
  derive its identity, and an accepted schema-three record always matches its envelope.
\<close>

theorem record_roundtrip:
  assumes "encode_op dk pc p = Inr bs" and "postcard_ok pc p" and "length bs < 2 ^ 64"
  shows "decode_op dk pc bs = Inr p \<and> encoded_op_len dk pc p = Inr (length bs)
    \<and> (decode_op dk pc cs = Inr q \<longrightarrow> \<not> source_mismatch dk q
        \<and> (\<forall>r. op_op_kind q = Activity r \<longrightarrow> validate dk r = Inr () \<and> matches_envelope r q))"
proof -
  have "validate dk r = Inr () \<and> matches_envelope r q"
    if dec: "decode_op dk pc cs = Inr q" and act: "op_op_kind q = Activity r" for r
  proof -
    obtain remaining where "decode_body dk pc cs = Inr (q, remaining)"
      using dec by (auto simp: decode_op_def rbind_Inr_iff split: if_splits)
    then obtain r' where "into_op dk r' = Inr q"
      using act by (auto simp: decode_body_def decode_legacy_def rbind_Inr_iff is_activity_def into_canonical_def
          map_kind_def split: option.splits list.splits if_splits op_kind.splits)
    then show ?thesis using act into_op_Inr [of dk r' q] by (auto simp: matches_envelope_def)
  qed
  moreover have "\<not> source_mismatch dk q" if "decode_op dk pc cs = Inr q"
    using that by (auto simp: decode_op_def rbind_Inr_iff split: if_splits)
  ultimately show ?thesis using decode_encode_op [OF assms(1,2)] encoded_len [OF assms] by blast
qed

text \<open>A serializer that knows one operation, for the concrete runs below.\<close>

definition one_op :: op where
  "one_op = gen_op_new (OpId [1]) NoParent (ActorId 0) NoClock NoScope tags_none
     (Unknown \<lparr>uo_kind_discriminant = 3, uo_raw_bytes = EmptyPayload\<rparr>)"

definition one_postcard :: postcard where
  "one_postcard = \<lparr>ser_op = (\<lambda>_. Inr [7]),
     take_op = (\<lambda>bs. if bs = [7] then Inr (one_op, []) else Inl (PostcardError [])), size_op = (\<lambda>_. Inr 1),
     ser_record = (\<lambda>_. Inl (PostcardError [])), take_record = (\<lambda>_. Inl (PostcardError [])),
     size_record = (\<lambda>_. Inl (PostcardError [])), ser_legacy = (\<lambda>_. Inl (PostcardError [])),
     take_legacy = (\<lambda>_. Inl (PostcardError []))\<rparr>"

theorem record_roundtrip_witness:
  "decode_op (\<lambda>_ b. b) one_postcard (RECORD_MAGIC @ [1, 7]) = Inr one_op
   \<and> encoded_op_len (\<lambda>_ b. b) one_postcard one_op = Inr 16"
proof -
  have "encode_op (\<lambda>_ b. b) one_postcard one_op = Inr (RECORD_MAGIC @ [1, 7])" "postcard_ok one_postcard one_op"
    by (simp_all add: encode_op_def one_op_def one_postcard_def gen_op_new_def source_mismatch_def RECORD_SCHEMA_def
        postcard_ok_def)
  moreover have "length (RECORD_MAGIC @ [1, 7 :: u8]) < 2 ^ 64" by simp
  ultimately show ?thesis
    using record_roundtrip [where dk = "\<lambda>_ b. b" and pc = one_postcard and p = one_op
        and bs = "RECORD_MAGIC @ [1, 7]" and cs = "[]" and q = one_op] by simp
qed

text \<open>
  C36. Rewriting EC02 records keeps what readers understand. Where serialization round-trips and
  succeeds, a decodable record is rewritten to a versioned record that decodes to the same operation,
  and rewriting again changes nothing. Bytes that do not decode are kept as they are, with one
  exception, exactly characterised: an unversioned record that parses completely as an EC02 operation
  of the schema-three kind, which no reader accepts. In its canonical encoding rewriting it fails; in
  any other it is wrapped as schema two, which is not readable either.
\<close>

theorem migrate_preserves_operation:
  assumes "decode_op dk pc bs = Inr p" and "postcard_ok pc p"
    and "\<exists>body. ser_op pc p = Inr body"
    and "\<And>l. take_legacy pc bs = Inr (l, []) \<Longrightarrow> \<exists>c. ser_legacy pc l = Inr c"
  shows "(\<exists>cs. migrate_record dk pc bs = Inr cs \<and> decode_op dk pc cs = Inr p
      \<and> strip_magic cs \<noteq> None \<and> migrate_record dk pc cs = Inr cs)
    \<and> (decode_op dk pc xs = Inl e \<longrightarrow>
        (if \<exists>l. strip_magic xs = None \<and> take_legacy pc xs = Inr (l, []) \<and> is_activity (lg_kind l)
         then \<exists>l. take_legacy pc xs = Inr (l, []) \<and>
           (case ser_legacy pc l of
              Inl e' \<Rightarrow> migrate_record dk pc xs = Inl e'
            | Inr canonical \<Rightarrow>
                if canonical = xs then migrate_record dk pc xs = Inl SerdeSerCustom
                else migrate_record dk pc xs = Inr (RECORD_MAGIC @ [2] @ xs)
                  \<and> decode_op dk pc (RECORD_MAGIC @ [2] @ xs) = Inl e)
         else migrate_record dk pc xs = Inr xs))"
  using migrate_decodable [OF assms] migrate_undecodable [of dk pc xs e] by blast

definition one_legacy :: legacy_record where
  "one_legacy = \<lparr>lg_id = SourceId (NodeId 1) 2 3, lg_parents = NoParent, lg_actor = ActorId 0, lg_clock = NoClock,
     lg_scope = NoScope, lg_tags = tags_none, lg_kind = Unknown \<lparr>uo_kind_discriminant = 3, uo_raw_bytes = EmptyPayload\<rparr>\<rparr>"

definition legacy_postcard :: postcard where
  "legacy_postcard = one_postcard\<lparr>
     take_op := (\<lambda>bs. Inr (into_canonical (\<lambda>_ b. b) one_legacy, [])),
     ser_legacy := (\<lambda>_. Inr [8]), take_legacy := (\<lambda>bs. Inr (one_legacy, []))\<rparr>"

theorem migrate_preserves_operation_witness:
  "(\<exists>cs. migrate_record (\<lambda>_ b. b) legacy_postcard [9] = Inr cs
     \<and> decode_op (\<lambda>_ b. b) legacy_postcard cs = Inr (into_canonical (\<lambda>_ b. b) one_legacy))
   \<and> migrate_record (\<lambda>_ b. b) legacy_postcard RECORD_MAGIC = Inr RECORD_MAGIC"
proof -
  let ?dk = "\<lambda>_ b. b" and ?p = "into_canonical (\<lambda>_ b. b) one_legacy"
  have "\<not> is_activity (lg_kind one_legacy)" by (simp add: one_legacy_def is_activity_def)
  then have na: "\<not> is_activity (op_op_kind ?p)" by simp
  have "strip_magic [9] = None" by (simp add: strip_magic_def RECORD_MAGIC_def str_bytes_def)
  then have "decode_op ?dk legacy_postcard [9] = Inr ?p"
    using na by (simp add: decode_op_def decode_body_def decode_legacy_def legacy_postcard_def into_canonical_source)
  moreover have "postcard_ok legacy_postcard ?p"
    using na by (simp add: postcard_ok_def case_not_activity legacy_postcard_def one_postcard_def)
  moreover have "\<exists>body. ser_op legacy_postcard ?p = Inr body" "\<And>l. \<exists>c. ser_legacy legacy_postcard l = Inr c"
    by (simp_all add: legacy_postcard_def one_postcard_def)
  moreover have "strip_magic RECORD_MAGIC = Some []" using strip_magic_append [of "[]"] by simp
  then have "decode_op ?dk legacy_postcard RECORD_MAGIC = Inl DeserializeBadEncoding" "strip_magic RECORD_MAGIC \<noteq> None"
    by (simp_all add: decode_op_def decode_body_def)
  ultimately show ?thesis
    using migrate_preserves_operation [where dk = ?dk and pc = legacy_postcard and bs = "[9]" and p = ?p
        and xs = RECORD_MAGIC and e = DeserializeBadEncoding] by auto
qed

end
