(* ===== verification/Wire.thy ===== *)
theory Wire
  imports RecordCodec
begin

text \<open>
  Peer messages and their framing (\<open>editchain-sync/src/wire.rs\<close>, the limits and the error
  constructor of \<open>lib.rs\<close>, \<open>RecordKey\<close> of \<open>replica.rs\<close>). The postcard
  functions for \<open>Message\<close> are the parameter \<open>mp\<close>, BLAKE3 of the exact record bytes is
  the parameter \<open>b3\<close>. The lemmas show that decoding does not depend on how the transport
  fragments the byte stream and that the decoder never retains more than one bounded frame.
\<close>

section \<open>Limits and errors\<close>

definition MAX_OBJECT_BYTES :: nat where "MAX_OBJECT_BYTES = 64 * 1024 * 1024"
definition CHUNK_BYTES :: nat where "CHUNK_BYTES = 64 * 1024"
definition MAX_PEER_FRAME_BYTES :: nat where "MAX_PEER_FRAME_BYTES = 128 * 1024"
definition INVENTORY_PAGE :: nat where "INVENTORY_PAGE = 128"
definition PEER_VERSION :: u16 where "PEER_VERSION = 5"

definition invalid :: "string \<Rightarrow> io_error" where
  "invalid message = IoError InvalidData message"

text \<open>\<open>io::Error::other\<close> around the error of another library.\<close>

definition io_other :: "codec_error \<Rightarrow> io_error" where
  "io_other e = IoError Other (case e of SerdeSerCustom \<Rightarrow> ''serialize''
     | DeserializeBadEncoding \<Rightarrow> ''bad encoding'' | PostcardError m \<Rightarrow> m)"

section \<open>Record keys\<close>

type_synonym blake3 = "bytes \<Rightarrow> bytes"

datatype record_key = RecordKey (key_id: op_id) (key_digest: bytes)

instantiation record_key :: linorder
begin
definition less_eq_record_key :: "record_key \<Rightarrow> record_key \<Rightarrow> bool" where
  "less_eq_record_key a b \<longleftrightarrow> (key_id a, key_digest a) \<le> (key_id b, key_digest b)"
definition less_record_key :: "record_key \<Rightarrow> record_key \<Rightarrow> bool" where
  "less_record_key a b \<longleftrightarrow> (key_id a, key_digest a) < (key_id b, key_digest b)"
instance
  by standard (auto simp: less_eq_record_key_def less_record_key_def record_key.expand)
end

definition key_from_encoded ::
  "derive_key \<Rightarrow> postcard \<Rightarrow> blake3 \<Rightarrow> bytes \<Rightarrow> record_key io_result" where
  "key_from_encoded dk pc b3 bs =
     (if length bs > MAX_OBJECT_BYTES then Inl (invalid ''operation exceeds replication limit'')
      else rbind (map_err io_other (decode_op dk pc bs)) (\<lambda>p. Inr (RecordKey (op_id p) (b3 bs))))"

section \<open>Messages\<close>

datatype peer_message =
    Hello (hello_version: u16) (hello_encoding: u16) (hello_space: string)
  | Inventory (inv_after: "record_key option")
  | Page (page_offset: u64) (page_total: u64) (page_records: "record_key list") (page_more: bool)
  | Need (need_record: record_key) (need_blob: "bytes option") (need_offset: u32)
  | Chunk (chunk_record: record_key) (chunk_blob: "bytes option") (chunk_offset: u32)
      (chunk_total: u32) (chunk_bytes: bytes)
  | Missing (missing_record: record_key) (missing_blob: "bytes option")
  | Ack (ack_record: record_key) (ack_blob: "bytes option")
  | Checked (checked_end: u64)

record message_postcard =
  ser_message :: "peer_message \<Rightarrow> codec_error + bytes"
  take_message :: "bytes \<Rightarrow> codec_error + peer_message \<times> bytes"

definition encode_message :: "message_postcard \<Rightarrow> peer_message \<Rightarrow> bytes io_result" where
  "encode_message mp m = rbind (map_err io_other (ser_message mp m)) (\<lambda>payload.
     if length payload > MAX_PEER_FRAME_BYTES then Inl (invalid ''peer frame exceeds limit'')
     else rbind (ok_or (IoError Other ''out of range integral type conversion attempted'') (u32_try_from (length payload)))
       (\<lambda>n. Inr (le_bytes 4 (unat n) @ payload)))"

definition decode_message :: "message_postcard \<Rightarrow> bytes \<Rightarrow> peer_message io_result" where
  "decode_message mp payload =
     (if length payload > MAX_PEER_FRAME_BYTES then Inl (invalid ''peer frame exceeds limit'')
      else rbind (map_err io_other (take_message mp payload)) (\<lambda>(m, remaining).
        if remaining \<noteq> [] then Inl (invalid ''peer message has trailing bytes'') else Inr m))"

section \<open>The incremental decoder\<close>

record frame_decoder =
  fd_bytes :: bytes

definition decoder_default :: frame_decoder where
  "decoder_default = \<lparr>fd_bytes = []\<rparr>"

text \<open>
  The loop of \<open>push\<close> on the retained bytes: the messages of the complete frames, or the first
  error, with the bytes then retained (a failing frame is not drained).
\<close>

function decode_frames :: "message_postcard \<Rightarrow> bytes \<Rightarrow> peer_message list io_result \<times> bytes" where
  "decode_frames mp bs =
     (case slice_get bs 0 4 of
        None \<Rightarrow> (Inr [], bs)
      | Some header \<Rightarrow>
          let n = le_nat header in
          if n = 0 \<or> n > MAX_PEER_FRAME_BYTES then (Inl (invalid ''invalid peer frame length''), bs)
          else case slice_get bs 4 (n + 4) of
              None \<Rightarrow> (Inr [], bs)
            | Some payload \<Rightarrow>
                case decode_message mp payload of
                  Inl e \<Rightarrow> (Inl e, bs)
                | Inr m \<Rightarrow>
                    let (r, rest) = decode_frames mp (drop (n + 4) bs) in
                    (rbind r (\<lambda>ms. Inr (m # ms)), rest))"
  by pat_completeness auto
termination
  by (relation "measure (length \<circ> snd)") (auto simp: slice_get_def split: if_splits)

declare decode_frames.simps [simp del]

definition decoder_push ::
  "message_postcard \<Rightarrow> bytes \<Rightarrow> frame_decoder \<Rightarrow> peer_message list io_result \<times> frame_decoder" where
  "decoder_push mp bs d =
     (if length bs > MAX_PEER_FRAME_BYTES then (Inl (invalid ''transport chunk exceeds limit''), d)
      else let (r, rest) = decode_frames mp (fd_bytes d @ bs) in (r, \<lparr>fd_bytes = rest\<rparr>))"

definition decoder_finish :: "frame_decoder \<Rightarrow> unit io_result" where
  "decoder_finish d = (if fd_bytes d = [] then Inr () else Inl (invalid ''truncated peer frame''))"

text \<open>A connection pushes its chunks one after the other and stops at the first error.\<close>

fun push_all ::
  "message_postcard \<Rightarrow> bytes list \<Rightarrow> frame_decoder \<Rightarrow> peer_message list io_result \<times> frame_decoder" where
  "push_all mp [] d = (Inr [], d)"
| "push_all mp (c # cs) d =
     (case decoder_push mp c d of
        (Inl e, d1) \<Rightarrow> (Inl e, d1)
      | (Inr ms, d1) \<Rightarrow>
          let (r, d2) = push_all mp cs d1 in (rbind r (\<lambda>ms'. Inr (ms @ ms')), d2))"

section \<open>One frame\<close>

text \<open>What a complete frame is, and the two ways in which bytes can fail to start with one.\<close>

definition complete_frame :: "bytes \<Rightarrow> nat \<Rightarrow> bool" where
  "complete_frame bs n \<longleftrightarrow> length bs \<ge> n + 4 \<and> n = le_nat (take 4 bs) \<and> 0 < n \<and> n \<le> MAX_PEER_FRAME_BYTES"

definition bad_length :: "bytes \<Rightarrow> bool" where
  "bad_length bs \<longleftrightarrow> length bs \<ge> 4 \<and> (le_nat (take 4 bs) = 0 \<or> le_nat (take 4 bs) > MAX_PEER_FRAME_BYTES)"

definition partial_frame :: "bytes \<Rightarrow> bool" where
  "partial_frame bs \<longleftrightarrow> length bs < 4 \<or>
     (le_nat (take 4 bs) \<noteq> 0 \<and> le_nat (take 4 bs) \<le> MAX_PEER_FRAME_BYTES \<and> length bs < le_nat (take 4 bs) + 4)"

lemma frame_cases:
  obtains (partial) "partial_frame bs" | (bad) "bad_length bs" | (complete) n where "complete_frame bs n"
  unfolding partial_frame_def bad_length_def complete_frame_def by (metis leI neq0_conv)

lemma decode_frames_partial: "partial_frame bs \<Longrightarrow> decode_frames mp bs = (Inr [], bs)"
  by (subst decode_frames.simps) (auto simp: partial_frame_def slice_get_def Let_def)

lemma decode_frames_bad:
  "bad_length bs \<Longrightarrow> decode_frames mp bs = (Inl (invalid ''invalid peer frame length''), bs)"
  by (subst decode_frames.simps) (auto simp: bad_length_def slice_get_def Let_def)

lemma decode_frames_complete:
  "complete_frame bs n \<Longrightarrow> decode_frames mp bs =
     (case decode_message mp (take n (drop 4 bs)) of
        Inl e \<Rightarrow> (Inl e, bs)
      | Inr m \<Rightarrow> (rbind (fst (decode_frames mp (drop (n + 4) bs))) (\<lambda>ms. Inr (m # ms)),
                   snd (decode_frames mp (drop (n + 4) bs))))"
  by (subst decode_frames.simps)
    (auto simp: complete_frame_def slice_get_def Let_def case_prod_beta split: sum.split)

lemma complete_frame_append: "complete_frame bs n \<Longrightarrow> complete_frame (bs @ cs) n"
  by (auto simp: complete_frame_def)

lemma bad_length_append: "bad_length bs \<Longrightarrow> bad_length (bs @ cs)"
  by (auto simp: bad_length_def)

lemmas decode_frames_cases = decode_frames_partial decode_frames_bad decode_frames_complete

text \<open>The decoder retains less than one frame of maximal length after every successful step.\<close>

lemma decode_frames_rest:
  "decode_frames mp bs = (Inr ms, rest) \<Longrightarrow> partial_frame rest"
proof (induction "length bs" arbitrary: bs ms rest rule: less_induct)
  case less
  show ?case
  proof (cases bs rule: frame_cases)
    case (complete n)
    then have "length (drop (n + 4) bs) < length bs" by (auto simp: complete_frame_def)
    from less.hyps [OF this] less.prems show ?thesis
      by (auto simp: decode_frames_complete [OF complete] rbind_Inr_iff split: sum.splits) (metis prod.collapse)
  qed (use less.prems in \<open>auto simp: decode_frames_cases\<close>)
qed

lemma partial_frame_length: "partial_frame bs \<Longrightarrow> length bs < MAX_PEER_FRAME_BYTES + 4"
  by (auto simp: partial_frame_def MAX_PEER_FRAME_BYTES_def)

section \<open>Fragmentation\<close>

text \<open>Decoding more bytes continues from the retained ones; an error does not depend on later bytes.\<close>

lemma decode_frames_append:
  "decode_frames mp bs = (Inr ms, rest) \<Longrightarrow>
   fst (decode_frames mp (bs @ cs)) = rbind (fst (decode_frames mp (rest @ cs))) (\<lambda>ms'. Inr (ms @ ms')) \<and>
   (\<forall>ms'. fst (decode_frames mp (bs @ cs)) = Inr ms' \<longrightarrow>
     snd (decode_frames mp (bs @ cs)) = snd (decode_frames mp (rest @ cs)))"
proof (induction "length bs" arbitrary: bs ms rest rule: less_induct)
  case less
  show ?case
  proof (cases bs rule: frame_cases)
    case partial
    then show ?thesis using less.prems
      by (cases "fst (decode_frames mp (rest @ cs))") (auto simp: decode_frames_partial)
  next
    case bad
    then show ?thesis using less.prems by (simp add: decode_frames_bad)
  next
    case (complete n)
    have len: "n + 4 \<le> length bs" using complete by (simp add: complete_frame_def)
    from less.prems obtain m ms1 where m: "decode_message mp (take n (drop 4 bs)) = Inr m"
      and r: "decode_frames mp (drop (n + 4) bs) = (Inr ms1, rest)" and ms: "ms = m # ms1"
      by (auto simp: decode_frames_complete [OF complete] rbind_Inr_iff split: sum.splits) (metis prod.collapse)
    have "length (drop (n + 4) bs) < length bs" using len by simp
    note IH = less.hyps [OF this r]
    have "decode_frames mp (bs @ cs) =
        (rbind (fst (decode_frames mp (drop (n + 4) bs @ cs))) (\<lambda>ms'. Inr (m # ms')),
         snd (decode_frames mp (drop (n + 4) bs @ cs)))"
      using decode_frames_complete [OF complete_frame_append [OF complete], of mp cs] len m by simp
    then show ?thesis using IH ms by (auto simp: rbind_assoc rbind_Inr_iff)
  qed
qed

lemma decode_frames_error_append:
  "fst (decode_frames mp bs) = Inl e \<Longrightarrow> fst (decode_frames mp (bs @ cs)) = Inl e"
proof (induction "length bs" arbitrary: bs rule: less_induct)
  case less
  show ?case
  proof (cases bs rule: frame_cases)
    case (complete n)
    have len: "n + 4 \<le> length bs" using complete by (simp add: complete_frame_def)
    then have "length (drop (n + 4) bs) < length bs" by simp
    note IH = less.hyps [OF this]
    show ?thesis using less.prems IH len
      by (auto simp: decode_frames_complete [OF complete]
          decode_frames_complete [OF complete_frame_append [OF complete]] rbind_Inl_iff split: sum.splits)
  qed (use less.prems in \<open>auto simp: decode_frames_cases decode_frames_bad [OF bad_length_append]\<close>)
qed

text \<open>Pushing chunks is decoding their concatenation at once.\<close>

lemma push_all_decode:
  assumes "\<forall>c\<in>set cs. length c \<le> MAX_PEER_FRAME_BYTES" and "partial_frame (fd_bytes d)"
  shows "fst (push_all mp cs d) = fst (decode_frames mp (fd_bytes d @ concat cs)) \<and>
    (\<forall>ms. fst (push_all mp cs d) = Inr ms \<longrightarrow>
      fd_bytes (snd (push_all mp cs d)) = snd (decode_frames mp (fd_bytes d @ concat cs)))"
  using assms
proof (induction cs arbitrary: d)
  case Nil
  then show ?case by (simp add: decode_frames_partial)
next
  case (Cons c cs)
  obtain r rest where d: "decode_frames mp (fd_bytes d @ c) = (r, rest)" by fastforce
  have push: "decoder_push mp c d = (r, \<lparr>fd_bytes = rest\<rparr>)"
    using Cons.prems(1) d by (simp add: decoder_push_def)
  show ?case
  proof (cases r)
    case (Inl e)
    then have "fst (decode_frames mp ((fd_bytes d @ c) @ concat cs)) = Inl e"
      using d decode_frames_error_append [of mp "fd_bytes d @ c" e "concat cs"] by simp
    then show ?thesis using push Inl by simp
  next
    case (Inr ms)
    have rest: "partial_frame rest" using d Inr decode_frames_rest by blast
    note IH = Cons.IH [of "\<lparr>fd_bytes = rest\<rparr>"]
    show ?thesis
      using IH Cons.prems(1) rest push Inr decode_frames_append [of mp "fd_bytes d @ c" ms rest "concat cs"] d
      by (auto simp: Let_def case_prod_beta rbind_Inr_iff)
  qed
qed

section \<open>Encoded messages\<close>

text \<open>What the framing relies on of the serializer, per message: a non-empty payload that reads back.\<close>

definition message_codec_ok :: "message_postcard \<Rightarrow> peer_message \<Rightarrow> bool" where
  "message_codec_ok mp m \<longleftrightarrow> (\<forall>bs. ser_message mp m = Inr bs \<longrightarrow> bs \<noteq> [] \<and> take_message mp bs = Inr (m, []))"

lemma encode_message_Inr:
  "encode_message mp m = Inr f \<longleftrightarrow>
     (\<exists>bs. ser_message mp m = Inr bs \<and> length bs \<le> MAX_PEER_FRAME_BYTES \<and> f = le_bytes 4 (length bs) @ bs)"
proof (cases "ser_message mp m")
  case (Inr bs)
  then show ?thesis
    by (cases "length bs > MAX_PEER_FRAME_BYTES")
      (auto simp: encode_message_def u32_try_from_def MAX_PEER_FRAME_BYTES_def)
qed (simp add: encode_message_def)

lemma decode_one_frame:
  assumes "encode_message mp m = Inr f" and "message_codec_ok mp m"
  shows "decode_frames mp (f @ cs) =
    (rbind (fst (decode_frames mp cs)) (\<lambda>ms. Inr (m # ms)), snd (decode_frames mp cs))"
proof -
  obtain bs where bs: "ser_message mp m = Inr bs" and len: "length bs \<le> MAX_PEER_FRAME_BYTES"
    and f: "f = le_bytes 4 (length bs) @ bs"
    using assms(1) by (auto simp: encode_message_Inr)
  have codec: "bs \<noteq> []" "take_message mp bs = Inr (m, [])"
    using assms(2) bs by (auto simp: message_codec_ok_def)
  have "le_nat (le_bytes 4 (length bs)) = length bs"
    by (rule le_nat_le_bytes) (use len in \<open>simp add: MAX_PEER_FRAME_BYTES_def\<close>)
  then have "complete_frame (f @ cs) (length bs)"
    using codec(1) len by (auto simp: complete_frame_def f)
  then show ?thesis
    using codec(2) len by (simp add: decode_frames_complete f decode_message_def)
qed

lemma decode_stream:
  "traverse (encode_message mp) ms = Inr fs \<Longrightarrow> \<forall>m\<in>set ms. message_codec_ok mp m \<Longrightarrow>
   partial_frame rest \<Longrightarrow> decode_frames mp (concat fs @ rest) = (Inr ms, rest)"
proof (induction ms arbitrary: fs)
  case Nil
  then show ?case by (simp add: decode_frames_partial)
next
  case (Cons m ms)
  then obtain f fs' where "encode_message mp m = Inr f" "traverse (encode_message mp) ms = Inr fs'" "fs = f # fs'"
    by (auto simp: rbind_Inr_iff)
  then show ?case using Cons by (simp add: decode_one_frame)
qed

lemma strict_prefix_partial:
  assumes "encode_message mp m = Inr f" and "message_codec_ok mp m" and "k < length f"
  shows "partial_frame (take k f)"
proof -
  obtain bs where bs: "ser_message mp m = Inr bs" and len: "length bs \<le> MAX_PEER_FRAME_BYTES"
    and f: "f = le_bytes 4 (length bs) @ bs"
    using assms(1) by (auto simp: encode_message_Inr)
  have "le_nat (le_bytes 4 (length bs)) = length bs"
    by (rule le_nat_le_bytes) (use len in \<open>simp add: MAX_PEER_FRAME_BYTES_def\<close>)
  moreover have "bs \<noteq> []" using assms(2) bs by (auto simp: message_codec_ok_def)
  ultimately show ?thesis using assms(3) len by (auto simp: partial_frame_def f min_def)
qed

section \<open>Properties\<close>

text \<open>
  C38. However the transport fragments the encoded messages into chunks of admissible size, and
  even if the connection is cut inside a further message, the decoder yields exactly the complete
  messages in order and \<open>finish\<close> succeeds exactly when nothing of a further message arrived.
\<close>

theorem frame_stream_roundtrip:
  assumes "traverse (encode_message mp) ms = Inr fs" and "encode_message mp m = Inr f"
    and "\<forall>m'\<in>insert m (set ms). message_codec_ok mp m'" and "k < length f"
    and "concat cs = concat fs @ take k f" and "\<forall>c\<in>set cs. length c \<le> MAX_PEER_FRAME_BYTES"
  shows "fst (push_all mp cs decoder_default) = Inr ms
    \<and> decoder_finish (snd (push_all mp cs decoder_default))
        = (if k = 0 then Inr () else Inl (invalid ''truncated peer frame''))"
proof -
  have part: "partial_frame (take k f)" using strict_prefix_partial assms by blast
  have "decode_frames mp (concat cs) = (Inr ms, take k f)"
    using decode_stream [OF assms(1) _ part] assms(3,5) by simp
  then have "fst (push_all mp cs decoder_default) = Inr ms"
    and "fd_bytes (snd (push_all mp cs decoder_default)) = take k f"
    using push_all_decode [OF assms(6), of decoder_default mp] by (auto simp: decoder_default_def partial_frame_def)
  then show ?thesis using assms(4) by (auto simp: decoder_finish_def)
qed

text \<open>
  C39. Any bytes whatever, in any admissible fragmentation: the result (messages or first error)
  depends only on the concatenated stream, and a decoder that has not failed retains less than one
  frame of maximal length.
\<close>

theorem frame_decoder_bounded:
  assumes "\<forall>c\<in>set cs \<union> set cs'. length c \<le> MAX_PEER_FRAME_BYTES" and "concat cs = concat cs'"
  shows "fst (push_all mp cs decoder_default) = fst (push_all mp cs' decoder_default)
    \<and> (\<forall>ms. fst (push_all mp cs decoder_default) = Inr ms \<longrightarrow>
         length (fd_bytes (snd (push_all mp cs decoder_default))) < MAX_PEER_FRAME_BYTES + 4)"
proof -
  have d: "partial_frame (fd_bytes decoder_default)" by (simp add: decoder_default_def partial_frame_def)
  note push = push_all_decode [OF _ d, of cs mp] push_all_decode [OF _ d, of cs' mp]
  show ?thesis
  proof (intro conjI allI impI)
    show "fst (push_all mp cs decoder_default) = fst (push_all mp cs' decoder_default)"
      using push assms by simp
    fix ms assume ok: "fst (push_all mp cs decoder_default) = Inr ms"
    then have "fd_bytes (snd (push_all mp cs decoder_default))
        = snd (decode_frames mp (fd_bytes decoder_default @ concat cs))"
      and "fst (decode_frames mp (fd_bytes decoder_default @ concat cs)) = Inr ms"
      using push(1) assms(1) by auto
    then show "length (fd_bytes (snd (push_all mp cs decoder_default))) < MAX_PEER_FRAME_BYTES + 4"
      using decode_frames_rest partial_frame_length by (metis prod.collapse)
  qed
qed

text \<open>A serializer for one message kind, for the witnesses: a tag byte and the eight bytes of the position.\<close>

definition checked_postcard :: message_postcard where
  "checked_postcard = \<lparr>
     ser_message = (\<lambda>m. case m of Checked e \<Rightarrow> Inr (7 # le_bytes 8 (unat e)) | _ \<Rightarrow> Inl SerdeSerCustom),
     take_message = (\<lambda>bs. case bs of
         [] \<Rightarrow> Inl DeserializeBadEncoding
       | t # r \<Rightarrow> if t = 7 \<and> length r \<ge> 8 then Inr (Checked (word_of_nat (le_nat (take 8 r))), drop 8 r)
                  else Inl DeserializeBadEncoding)\<rparr>"

lemma checked_codec_ok: "message_codec_ok checked_postcard (Checked e)"
  using le_nat_u64 [of e] by (simp add: message_codec_ok_def checked_postcard_def)

theorem frame_stream_roundtrip_witness:
  "fst (push_all checked_postcard [[9, 0, 0], [0, 7, 5, 0, 0, 0, 0, 0, 0, 0, 9, 0]] decoder_default) = Inr [Checked 5]
    \<and> decoder_finish (snd (push_all checked_postcard [[9, 0, 0], [0, 7, 5, 0, 0, 0, 0, 0, 0, 0, 9, 0]] decoder_default))
        = Inl (invalid ''truncated peer frame'')"
proof -
  have enc: "encode_message checked_postcard (Checked 5) = Inr [9, 0, 0, 0, 7, 5, 0, 0, 0, 0, 0, 0, 0]"
    by (simp add: encode_message_def checked_postcard_def u32_try_from_def MAX_PEER_FRAME_BYTES_def le_bytes_numeral)
  show ?thesis
    using frame_stream_roundtrip [of checked_postcard "[Checked 5]" "[[9, 0, 0, 0, 7, 5, 0, 0, 0, 0, 0, 0, 0]]"
      "Checked 5" "[9, 0, 0, 0, 7, 5, 0, 0, 0, 0, 0, 0, 0]" 2
      "[[9, 0, 0], [0, 7, 5, 0, 0, 0, 0, 0, 0, 0, 9, 0]]"]
    by (simp add: enc checked_codec_ok MAX_PEER_FRAME_BYTES_def)
qed

theorem frame_decoder_bounded_witness:
  "fst (push_all checked_postcard [[9, 0], [0, 0, 7]] decoder_default)
     = fst (push_all checked_postcard [[9, 0, 0, 0], [7]] decoder_default)"
  by (rule frame_decoder_bounded [of "[[9, 0], [0, 0, 7]]" "[[9, 0, 0, 0], [7]]", THEN conjunct1])
    (simp_all add: MAX_PEER_FRAME_BYTES_def)

end
