(* ===== verification/InventoryOrder.thy ===== *)
theory InventoryOrder
  imports Wire
begin

text \<open>
  The parent-first export order (\<open>editchain-sync/src/inventory.rs\<close>): a depth-first
  post-order over the records of a snapshot with an explicit stack. The vector \<open>pending\<close> is a
  list with its last element first. The lemmas show that the walk ends, that it lists every record
  exactly once and that all variants of a parent precede its descendants, unless the parent itself
  descends from the record.
\<close>

section \<open>Definitions\<close>

type_synonym records = "(record_key, bytes) btree_map"

text \<open>\<open>partition_point\<close> on the increasing keys.\<close>

definition partition_point :: "('a \<Rightarrow> bool) \<Rightarrow> 'a list \<Rightarrow> nat" where
  "partition_point P xs = length (takeWhile P xs)"

definition get_index :: "'a list \<Rightarrow> nat \<Rightarrow> 'a option" where
  "get_index xs i = (if i < length xs then Some (xs ! i) else None)"

definition parent_range :: "record_key list \<Rightarrow> op_id \<Rightarrow> nat list" where
  "parent_range keys parent =
     [partition_point (\<lambda>k. key_id k < parent) keys ..< partition_point (\<lambda>k. key_id k \<le> parent) keys]"

definition push_parents :: "record_key list \<Rightarrow> op_id list \<Rightarrow> (nat \<times> bool) list \<Rightarrow> (nat \<times> bool) list" where
  "push_parents keys ps pending = fold (\<lambda>p st. map (\<lambda>i. (i, False)) (parent_range keys p) @ st) ps pending"

text \<open>Marking a position leaves fewer new ones.\<close>

lemma zeros_update_le: "length (filter (\<lambda>x. x = 0) (xs[i := Suc n])) \<le> length (filter (\<lambda>x. x = 0) xs)"
  by (induction xs arbitrary: i) (auto split: nat.split intro: le_SucI)

lemma zeros_update_less:
  "i < length xs \<Longrightarrow> xs ! i = 0 \<Longrightarrow>
   length (filter (\<lambda>x. x = 0) (xs[i := Suc n])) < length (filter (\<lambda>x. x = 0) xs)"
  by (induction xs arbitrary: i) (auto split: nat.split simp: nth_Cons')

text \<open>The inner loop: visiting marks (0 new, 1 visiting, 2 done), the order so far, the stack.\<close>

function visit :: "derive_key \<Rightarrow> postcard \<Rightarrow> records \<Rightarrow> record_key list \<Rightarrow> nat list \<Rightarrow> record_key list
    \<Rightarrow> (nat \<times> bool) list \<Rightarrow> (nat list \<times> record_key list) io_result" where
  "visit dk pc recs keys st ordered [] = Inr (st, ordered)"
| "visit dk pc recs keys st ordered ((index, finish) # pending) =
     rbind (ok_or (invalid ''missing inventory key'') (get_index keys index)) (\<lambda>key.
     rbind (ok_or (invalid ''missing inventory state'') (get_index st index)) (\<lambda>seen.
     if finish then visit dk pc recs keys (st[index := 2]) (ordered @ [key]) pending
     else if seen = 0 then
       rbind (ok_or (invalid ''missing inventory record'') (map_of recs key)) (\<lambda>bs.
       rbind (map_err io_other (decode_op dk pc bs)) (\<lambda>p.
         visit dk pc recs keys (st[index := 1]) ordered
           (push_parents keys (causal_parents p) ((index, True) # pending))))
     else visit dk pc recs keys st ordered pending))"
  by pat_completeness auto

termination
  by (relation "measures [\<lambda>(_, _, _, _, st, _, _). length (filter (\<lambda>x. x = 0) st), \<lambda>(_, _, _, _, _, _, ps). length ps]")
    (use zeros_update_le [of _ _ 1] zeros_update_less [of _ _ 0] in
      \<open>auto simp: ok_or_Inr_iff get_index_def numeral_2_eq_2 split: if_splits intro: le_neq_implies_less\<close>)

fun visit_starts :: "derive_key \<Rightarrow> postcard \<Rightarrow> records \<Rightarrow> record_key list \<Rightarrow> nat list \<Rightarrow> nat list \<Rightarrow> record_key list
    \<Rightarrow> (nat list \<times> record_key list) io_result" where
  "visit_starts dk pc recs keys [] st ordered = Inr (st, ordered)"
| "visit_starts dk pc recs keys (start # starts) st ordered =
     rbind (visit dk pc recs keys st ordered [(start, False)]) (\<lambda>(st', ordered').
       visit_starts dk pc recs keys starts st' ordered')"

definition parent_first :: "derive_key \<Rightarrow> postcard \<Rightarrow> records \<Rightarrow> record_key list io_result" where
  "parent_first dk pc recs =
     (let keys = map fst recs in
      rbind (visit_starts dk pc recs keys [0..<length keys] (replicate (length keys) 0) [])
        (\<lambda>(_, ordered). Inr ordered))"


section \<open>The parent relation\<close>

definition record_parents :: "derive_key \<Rightarrow> postcard \<Rightarrow> records \<Rightarrow> record_key \<Rightarrow> op_id list" where
  "record_parents dk pc recs k = (case map_of recs k of None \<Rightarrow> [] | Some bs \<Rightarrow>
     (case decode_op dk pc bs of Inl _ \<Rightarrow> [] | Inr p \<Rightarrow> causal_parents p))"

text \<open>Pairs of a record and a retained variant of one of its parents.\<close>

definition parent_edges :: "derive_key \<Rightarrow> postcard \<Rightarrow> records \<Rightarrow> (record_key \<times> record_key) set" where
  "parent_edges dk pc recs = {(k, q). k \<in> fst ` set recs \<and> q \<in> fst ` set recs \<and> key_id q \<in> set (record_parents dk pc recs k)}"

definition decodable :: "derive_key \<Rightarrow> postcard \<Rightarrow> bytes \<Rightarrow> bool" where
  "decodable dk pc bs \<longleftrightarrow> (\<exists>p. decode_op dk pc bs = Inr p)"

lemma partition_point_less:
  "sorted_wrt (\<lambda>a b. P b \<longrightarrow> P a) xs \<Longrightarrow> j < partition_point P xs \<longleftrightarrow> j < length xs \<and> P (xs ! j)"
proof (induction xs arbitrary: j)
  case (Cons x xs)
  show ?case
  proof (cases "P x")
    case True
    then show ?thesis using Cons by (cases j) (auto simp: partition_point_def)
  next
    case False
    then have "\<forall>y\<in>set (x # xs). \<not> P y" using Cons.prems by auto
    then have "j < length (x # xs) \<Longrightarrow> \<not> P ((x # xs) ! j)" by (meson nth_mem)
    then show ?thesis using False by (auto simp: partition_point_def)
  qed
qed (simp add: partition_point_def)

lemma increasing_key_ids: "increasing keys \<Longrightarrow> sorted_wrt (\<lambda>a b. key_id a \<le> key_id b) keys"
  by (rule sorted_wrt_mono_rel [of _ "(<)"]) (auto simp: less_record_key_def)

lemma set_parent_range:
  assumes "increasing keys"
  shows "set (parent_range keys p) = {j. j < length keys \<and> key_id (keys ! j) = p}"
proof -
  have "sorted_wrt (\<lambda>a b. key_id b < p \<longrightarrow> key_id a < p) keys" "sorted_wrt (\<lambda>a b. key_id b \<le> p \<longrightarrow> key_id a \<le> p) keys"
    by (rule sorted_wrt_mono_rel [OF _ increasing_key_ids [OF assms]]; force)+
  note parts = this [THEN partition_point_less]
  have "x \<in> set (parent_range keys p) \<longleftrightarrow> \<not> x < partition_point (\<lambda>k. key_id k < p) keys
      \<and> x < partition_point (\<lambda>k. key_id k \<le> p) keys" for x
    by (auto simp: parent_range_def)
  then have "x \<in> set (parent_range keys p) \<longleftrightarrow> x < length keys \<and> key_id (keys ! x) = p" for x
    using parts(1) [of x] parts(2) [of x] by (cases "key_id (keys ! x)" p rule: linorder_cases) (auto dest: leD less_imp_neq)
  then show ?thesis by blast
qed

lemma push_parents_append:
  "push_parents keys ps pending = rev (concat (map (\<lambda>p. rev (map (\<lambda>i. (i, False)) (parent_range keys p))) ps)) @ pending"
  unfolding push_parents_def by (induction ps arbitrary: pending) auto

lemma push_parents_split:
  assumes "increasing keys"
  obtains xs where "push_parents keys ps pending = xs @ pending"
    and "set xs = {(j, False) | j. j < length keys \<and> key_id (keys ! j) \<in> set ps}"
  using assms by (rule_tac that [OF push_parents_append]) (auto simp: set_parent_range image_iff)

section \<open>Invariant of the walk\<close>

text \<open>Edges between positions of the key list.\<close>

definition child :: "derive_key \<Rightarrow> postcard \<Rightarrow> records \<Rightarrow> (nat \<times> nat) set" where
  "child dk pc recs = {(i, j). i < length recs \<and> j < length recs
     \<and> key_id (map fst recs ! j) \<in> set (record_parents dk pc recs (map fst recs ! i))}"

definition stack_inv :: "(nat \<times> nat) set \<Rightarrow> nat list \<Rightarrow> (nat \<times> bool) list \<Rightarrow> bool" where
  "stack_inv E st pending \<longleftrightarrow> (\<forall>xs j ys. pending = xs @ (j, True) # ys \<longrightarrow>
     (\<forall>c. (j, c) \<in> E \<longrightarrow> st ! c \<noteq> 0 \<or> (c, False) \<in> set xs) \<and> (\<forall>b\<in>fst ` set xs. (j, b) \<in> E\<^sup>*))"

definition order_inv :: "(nat \<times> nat) set \<Rightarrow> nat list \<Rightarrow> bool" where
  "order_inv E os \<longleftrightarrow> (\<forall>us j vs. os = us @ j # vs \<longrightarrow> (\<forall>c. (j, c) \<in> E \<longrightarrow> c \<in> set us \<or> (c, j) \<in> E\<^sup>*))"

definition walk_inv :: "derive_key \<Rightarrow> postcard \<Rightarrow> records \<Rightarrow> nat list \<Rightarrow> nat list \<Rightarrow> (nat \<times> bool) list \<Rightarrow> bool" where
  "walk_inv dk pc recs st os pending \<longleftrightarrow>
     length st = length recs \<and> (\<forall>i < length recs. st ! i \<le> 2) \<and> (\<forall>(i, f)\<in>set pending. i < length recs)
   \<and> distinct os \<and> (\<forall>i. i \<in> set os \<longleftrightarrow> i < length recs \<and> st ! i = 2)
   \<and> distinct (map fst (filter snd pending)) \<and> (\<forall>i. (i, True) \<in> set pending \<longleftrightarrow> i < length recs \<and> st ! i = 1)
   \<and> (\<forall>i < length recs. st ! i \<noteq> 0 \<longrightarrow> decodable dk pc (snd (recs ! i)))
   \<and> stack_inv (child dk pc recs) st pending \<and> order_inv (child dk pc recs) os"

lemma stack_inv_skip: "stack_inv E st ((i, False) # pending) \<Longrightarrow> st ! i \<noteq> 0 \<Longrightarrow> stack_inv E st pending"
  unfolding stack_inv_def
proof (intro allI impI, goal_cases)
  case (1 xs j ys)
  then have "(i, False) # pending = ((i, False) # xs) @ (j, True) # ys" by simp
  with 1(1) have "(\<forall>c. (j, c) \<in> E \<longrightarrow> st ! c \<noteq> 0 \<or> (c, False) \<in> set ((i, False) # xs))
      \<and> (\<forall>b\<in>fst ` set ((i, False) # xs). (j, b) \<in> E\<^sup>*)" by blast
  then show ?case using 1(2) by auto
qed

lemma stack_inv_finish: "stack_inv E st ((i, True) # pending) \<Longrightarrow> stack_inv E (st[i := 2]) pending"
  unfolding stack_inv_def
proof (intro allI impI, goal_cases)
  case (1 xs j ys)
  then have "(i, True) # pending = ((i, True) # xs) @ (j, True) # ys" by simp
  with 1(1) have "(\<forall>c. (j, c) \<in> E \<longrightarrow> st ! c \<noteq> 0 \<or> (c, False) \<in> set ((i, True) # xs))
      \<and> (\<forall>b\<in>fst ` set ((i, True) # xs). (j, b) \<in> E\<^sup>*)" by blast
  then show ?case by (cases "i < length st") (auto simp: nth_list_update list_update_beyond)
qed

lemma stack_inv_open:
  assumes inv: "stack_inv E st ((i, False) # pending)" and i: "i < length st"
    and xs: "set xs = {(j, False) | j. (i, j) \<in> E}"
  shows "stack_inv E (st[i := 1]) (xs @ (i, True) # pending)"
  unfolding stack_inv_def
proof (intro allI impI)
  fix zs j ys assume split: "xs @ (i, True) # pending = zs @ (j, True) # ys"
  have nt: "(j, True) \<notin> set xs" using xs by auto
  from split consider "zs = xs" "i = j" | us where "zs = xs @ (i, True) # us" "pending = us @ (j, True) # ys"
    using nt by (auto simp: append_eq_append_conv2 Cons_eq_append_conv append_eq_Cons_conv)
  then show "(\<forall>c. (j, c) \<in> E \<longrightarrow> st[i := 1] ! c \<noteq> 0 \<or> (c, False) \<in> set zs) \<and> (\<forall>b\<in>fst ` set zs. (j, b) \<in> E\<^sup>*)"
  proof cases
    case 1
    then show ?thesis using xs by auto
  next
    case (2 us)
    then have "(i, False) # pending = ((i, False) # us) @ (j, True) # ys" by simp
    with inv have kids: "\<forall>c. (j, c) \<in> E \<longrightarrow> st ! c \<noteq> 0 \<or> (c, False) \<in> set ((i, False) # us)"
      and reach: "\<forall>b\<in>fst ` set ((i, False) # us). (j, b) \<in> E\<^sup>*"
      unfolding stack_inv_def by blast+
    have "(j, i) \<in> E\<^sup>*" using reach by simp
    then have "\<forall>b\<in>fst ` set xs. (j, b) \<in> E\<^sup>*" using xs by (auto intro: rtrancl_into_rtrancl)
    then show ?thesis using kids reach i 2 by (auto simp: nth_list_update)
  qed
qed

lemma order_inv_finish:
  assumes "order_inv E os" and "\<And>c. (i, c) \<in> E \<Longrightarrow> c \<in> set os \<or> (c, i) \<in> E\<^sup>*"
  shows "order_inv E (os @ [i])"
  unfolding order_inv_def
proof (intro allI impI)
  fix us j vs c assume "os @ [i] = us @ j # vs" and c: "(j, c) \<in> E"
  then consider "us = os" "j = i" | ws where "os = us @ j # ws"
    by (cases vs rule: rev_cases) auto
  then show "c \<in> set us \<or> (c, j) \<in> E\<^sup>*"
    using assms c unfolding order_inv_def by cases blast+
qed


text \<open>The three ways in which the walk takes the top of its stack.\<close>

lemma child_parents:
  assumes wf: "bm_wf recs" and i: "i < length recs" and dec: "decode_op dk pc (snd (recs ! i)) = Inr p"
  shows "map_of recs (map fst recs ! i) = Some (snd (recs ! i))"
    and "(i, j) \<in> child dk pc recs \<longleftrightarrow> j < length recs \<and> key_id (map fst recs ! j) \<in> set (causal_parents p)"
proof -
  have "(fst (recs ! i), snd (recs ! i)) \<in> set recs" using i by simp
  then show "map_of recs (map fst recs ! i) = Some (snd (recs ! i))"
    using wf i by (simp add: map_of_increasing_iff)
  then show "(i, j) \<in> child dk pc recs \<longleftrightarrow> j < length recs \<and> key_id (map fst recs ! j) \<in> set (causal_parents p)"
    using i dec by (simp add: child_def record_parents_def)
qed

lemma walk_inv_dest:
  assumes "walk_inv dk pc recs st os pending"
  shows "length st = length recs" "distinct os" "distinct (map fst (filter snd pending))"
    and "stack_inv (child dk pc recs) st pending" "order_inv (child dk pc recs) os"
    and "j < length recs \<Longrightarrow> st ! j \<le> 2" "(j, f) \<in> set pending \<Longrightarrow> j < length recs"
    and "j \<in> set os \<longleftrightarrow> j < length recs \<and> st ! j = 2"
    and "(j, True) \<in> set pending \<longleftrightarrow> j < length recs \<and> st ! j = 1"
    and "j < length recs \<Longrightarrow> st ! j \<noteq> 0 \<Longrightarrow> decodable dk pc (snd (recs ! j))"
proof -
  note inv = assms [unfolded walk_inv_def]
  show "length st = length recs" "distinct os" "distinct (map fst (filter snd pending))"
    "stack_inv (child dk pc recs) st pending" "order_inv (child dk pc recs) os"
    using inv by - (elim conjE, assumption)+
  show "j < length recs \<Longrightarrow> st ! j \<le> 2"
    using inv by (elim conjE) (drule spec [of _ j], erule (1) mp)
  show "(j, f) \<in> set pending \<Longrightarrow> j < length recs"
    using inv by (elim conjE) (drule (1) bspec, simp only: prod.case)
  show "j \<in> set os \<longleftrightarrow> j < length recs \<and> st ! j = 2"
    using inv by (elim conjE) (erule spec)
  show "(j, True) \<in> set pending \<longleftrightarrow> j < length recs \<and> st ! j = 1"
    using inv by (elim conjE) (erule spec)
  show "j < length recs \<Longrightarrow> st ! j \<noteq> 0 \<Longrightarrow> decodable dk pc (snd (recs ! j))"
    using inv by (elim conjE) (drule spec [of "\<lambda>i. i < length recs \<longrightarrow> st ! i \<noteq> 0 \<longrightarrow> decodable dk pc (snd (recs ! i))" j], simp only: simp_thms)
qed

lemma walk_inv_stack:
  assumes "walk_inv dk pc recs st os (xs @ (j, True) # ys)"
  shows "(j, c) \<in> child dk pc recs \<longrightarrow> st ! c \<noteq> 0 \<or> (c, False) \<in> set xs"
    and "(b, f) \<in> set xs \<longrightarrow> (j, b) \<in> (child dk pc recs)\<^sup>*"
proof -
  have "(\<forall>c. (j, c) \<in> child dk pc recs \<longrightarrow> st ! c \<noteq> 0 \<or> (c, False) \<in> set xs)
      \<and> (\<forall>b\<in>fst ` set xs. (j, b) \<in> (child dk pc recs)\<^sup>*)"
    using walk_inv_dest(4) [OF assms] unfolding stack_inv_def by (elim allE) (erule mp, rule refl)
  then show "(j, c) \<in> child dk pc recs \<longrightarrow> st ! c \<noteq> 0 \<or> (c, False) \<in> set xs"
    and "(b, f) \<in> set xs \<longrightarrow> (j, b) \<in> (child dk pc recs)\<^sup>*" by force+
qed

lemma walk_inv_skip:
  assumes "walk_inv dk pc recs st os ((i, False) # pending)" and "st ! i \<noteq> 0"
  shows "walk_inv dk pc recs st os pending"
proof -
  note d = walk_inv_dest [OF assms(1)]
  show ?thesis
    unfolding walk_inv_def using d stack_inv_skip [OF d(4) assms(2)] by auto
qed

lemma walk_inv_finish:
  assumes "walk_inv dk pc recs st os ((i, True) # pending)"
  shows "walk_inv dk pc recs (st[i := 2]) (os @ [i]) pending"
proof -
  let ?E = "child dk pc recs"
  note d = walk_inv_dest [OF assms]
  have i: "i < length recs" "st ! i = 1" using d(9) [of i] by auto
  have "c \<in> set os \<or> (c, i) \<in> ?E\<^sup>*" if c: "(i, c) \<in> ?E" for c
  proof -
    have "st ! c \<noteq> 0" using walk_inv_stack(1) [of dk pc recs st os "[]" i pending c] assms c by simp
    moreover have cl: "c < length recs" using c by (auto simp: child_def)
    moreover have "st ! c \<le> 2" using d(6) [OF cl] .
    ultimately consider "c \<in> set os" | "(c, True) \<in> set ((i, True) # pending)"
      using d(8) [of c] d(9) [of c] by linarith
    then show ?thesis
    proof cases
      case 2
      show ?thesis
      proof (cases "c = i")
        case False
        with 2 obtain us vs where "pending = us @ (c, True) # vs" using split_list by fastforce
        then show ?thesis
          using walk_inv_stack(2) [of dk pc recs st os "(i, True) # us" c vs i True] assms by simp
      qed simp
    qed simp
  qed
  then have ord: "order_inv ?E (os @ [i])" using d(5) order_inv_finish by blast
  have upd: "st[i := 2] ! j = (if j = i then 2 else st ! j)" if "j < length recs" for j
    using that d(1) i by (simp add: nth_list_update)
  have rest: "\<forall>(j, f)\<in>set pending. j < length recs" using d(7) by auto
  have "i \<notin> set os" using d(8) [of i] i by simp
  moreover have "i \<notin> fst ` set (filter snd pending)" using d(3) by simp
  then have grey: "(i, True) \<notin> set pending" by force
  moreover have "(j, True) \<in> set pending \<longleftrightarrow> j < length recs \<and> st[i := 2] ! j = 1" for j
    using d(9) [of j] grey by (auto simp: upd)
  moreover have "j \<in> set (os @ [i]) \<longleftrightarrow> j < length recs \<and> st[i := 2] ! j = 2" for j
    using d(8) [of j] i by (auto simp: upd)
  moreover note stack_inv_finish [OF d(4)]
  ultimately show ?thesis
    using d(1,2,3,6,10) i ord rest unfolding walk_inv_def by (auto simp: upd)
qed

lemma walk_inv_open:
  assumes wf: "bm_wf recs" and inv0: "walk_inv dk pc recs st os ((i, False) # pending)" and "st ! i = 0"
    and dec: "decode_op dk pc (snd (recs ! i)) = Inr p"
  shows "walk_inv dk pc recs (st[i := 1]) os (push_parents (map fst recs) (causal_parents p) ((i, True) # pending))"
proof -
  let ?E = "child dk pc recs"
  note d = walk_inv_dest [OF inv0]
  have i: "i < length recs" "i < length st" using d(7) [of i False] d(1) by auto
  obtain xs where push: "push_parents (map fst recs) (causal_parents p) ((i, True) # pending) = xs @ (i, True) # pending"
    and xs: "set xs = {(j, False) | j. j < length (map fst recs) \<and> key_id (map fst recs ! j) \<in> set (causal_parents p)}"
    using push_parents_split [OF wf] .
  have xsE: "set xs = {(j, False) | j. (i, j) \<in> ?E}"
    unfolding xs by (simp add: child_parents(2) [OF wf i(1) dec])
  have upd: "st[i := 1] ! j = (if j = i then 1 else st ! j)" if "j < length recs" for j
    using that i by (simp add: nth_list_update)
  have grey: "(i, True) \<notin> set pending" using d(9) [of i] assms(3) by simp
  have noxs: "(j, True) \<notin> set xs" for j using xs by auto
  have fx: "filter snd xs = []" using xs by (auto simp: filter_empty_conv)
  have "(j, True) \<in> set (xs @ (i, True) # pending) \<longleftrightarrow> j < length recs \<and> st[i := 1] ! j = 1" for j
    using d(9) [of j] noxs [of j] i by (auto simp: upd simp del: One_nat_def)
  moreover have "j \<in> set os \<longleftrightarrow> j < length recs \<and> st[i := 1] ! j = 2" for j
    using d(8) [of j] i assms(3) by (cases "j = i") (auto simp: upd simp del: One_nat_def)
  moreover have "distinct (map fst (filter snd (xs @ (i, True) # pending)))"
    using d(3) grey fx by force
  moreover have "\<forall>(j, f)\<in>set (xs @ (i, True) # pending). j < length recs"
    using d(7) xs i by auto
  moreover have "decodable dk pc (snd (recs ! j))" if "j < length recs" "st[i := 1] ! j \<noteq> 0" for j
    using d(10) [of j] that dec by (auto simp: upd decodable_def simp del: One_nat_def split: if_splits)
  moreover note stack_inv_open [OF d(4) i(2) xsE]
  moreover have "st[i := 1] ! j \<le> 2" if "j < length recs" for j using d(6) [OF that] that by (simp add: upd del: One_nat_def)
  ultimately show ?thesis
    using d(1,2,5) unfolding walk_inv_def push by simp
qed


section \<open>The walk\<close>

lemma visit_steps:
  assumes "i < length keys" and "length st = length keys"
  shows "visit dk pc recs keys st ordered ((i, True) # pending) = visit dk pc recs keys (st[i := 2]) (ordered @ [keys ! i]) pending"
    and "st ! i \<noteq> 0 \<Longrightarrow> visit dk pc recs keys st ordered ((i, False) # pending) = visit dk pc recs keys st ordered pending"
    and "st ! i = 0 \<Longrightarrow> map_of recs (keys ! i) = Some bs \<Longrightarrow> visit dk pc recs keys st ordered ((i, False) # pending) =
      rbind (map_err io_other (decode_op dk pc bs)) (\<lambda>p. visit dk pc recs keys (st[i := 1]) ordered
        (push_parents keys (causal_parents p) ((i, True) # pending)))"
  using assms by (simp_all add: get_index_def)

declare visit.simps(2) [simp del]

text \<open>
  A successful walk ends with an empty stack in a state satisfying the invariant, in which all
  positions of the stack and all marked ones are done; a failed walk has met an undecodable record.
\<close>

definition walk_result :: "derive_key \<Rightarrow> postcard \<Rightarrow> records \<Rightarrow> nat list \<Rightarrow> nat set
    \<Rightarrow> (nat list \<times> record_key list) io_result \<Rightarrow> bool" where
  "walk_result dk pc recs st is r = (case r of
     Inl _ \<Rightarrow> \<exists>e\<in>set recs. \<not> decodable dk pc (snd e)
   | Inr (st', ordered) \<Rightarrow> \<exists>os. ordered = map ((!) (map fst recs)) os \<and> walk_inv dk pc recs st' os []
       \<and> (\<forall>j < length recs. st ! j \<noteq> 0 \<or> j \<in> is \<longrightarrow> st' ! j \<noteq> 0))"

lemma walk_result_mono:
  assumes "walk_result dk pc recs st' is' r"
    and "\<And>j. j < length recs \<Longrightarrow> st ! j \<noteq> 0 \<or> j \<in> is \<Longrightarrow> st' ! j \<noteq> 0 \<or> j \<in> is'"
  shows "walk_result dk pc recs st is r"
proof (cases r)
  case (Inr v)
  then show ?thesis using assms by (cases v) (simp add: walk_result_def, metis)
qed (use assms(1) in \<open>simp add: walk_result_def\<close>)

lemma visit_correct:
  assumes wf: "bm_wf recs"
  shows "walk_inv dk pc recs st os pending \<Longrightarrow>
    walk_result dk pc recs st (fst ` set pending) (visit dk pc recs (map fst recs) st (map ((!) (map fst recs)) os) pending)"
proof (induction "(length (filter (\<lambda>x. x = 0) st), length pending)" arbitrary: st os pending
    rule: wf_induct_rule [OF wf_lex_prod [OF wf_less wf_less]])
  case (1 st pending os)
  note d = walk_inv_dest [OF "1.prems"]
  show ?case
  proof (cases pending)
    case Nil
    then show ?thesis using "1.prems" by (auto simp: walk_result_def)
  next
    case (Cons e rest)
    obtain i f where e: "e = (i, f)" by fastforce
    have i: "i < length (map fst recs)" "length st = length (map fst recs)"
      using d(7) [of i f] d(1) by (auto simp: Cons e)
    note steps = visit_steps [OF i, where pending = rest and dk = dk and pc = pc and recs = recs]
    consider "f" | "\<not> f" "st ! i \<noteq> 0" | "\<not> f" "st ! i = 0" by blast
    then show ?thesis
    proof cases
      case f: 1
      have inv: "walk_inv dk pc recs (st[i := 2]) (os @ [i]) rest"
        using walk_inv_finish "1.prems" f by (simp add: Cons e)
      have "length (filter (\<lambda>x. x = 0) (st[i := 2])) \<le> length (filter (\<lambda>x. x = 0) st)"
        using zeros_update_le [of st i 1] by (simp add: numeral_2_eq_2)
      then have "walk_result dk pc recs (st[i := 2]) (fst ` set rest)
          (visit dk pc recs (map fst recs) (st[i := 2]) (map ((!) (map fst recs)) (os @ [i])) rest)"
        by (intro "1.hyps" [OF _ inv]) (auto simp: Cons)
      then have "walk_result dk pc recs st (fst ` set pending)
          (visit dk pc recs (map fst recs) (st[i := 2]) (map ((!) (map fst recs)) (os @ [i])) rest)"
        by (rule walk_result_mono) (use i in \<open>auto simp: Cons e nth_list_update\<close>)
      then show ?thesis using f i by (simp add: Cons e steps(1))
    next
      case s: 2
      have "walk_result dk pc recs st (fst ` set rest)
          (visit dk pc recs (map fst recs) st (map ((!) (map fst recs)) os) rest)"
        using "1.prems" s walk_inv_skip by (intro "1.hyps") (auto simp: Cons e)
      then have "walk_result dk pc recs st (fst ` set pending)
          (visit dk pc recs (map fst recs) st (map ((!) (map fst recs)) os) rest)"
        by (rule walk_result_mono) (use s in \<open>auto simp: Cons e\<close>)
      then show ?thesis using s by (simp add: Cons e steps(2))
    next
      case new: 3
      have ei: "recs ! i \<in> set recs" and bs: "map_of recs (map fst recs ! i) = Some (snd (recs ! i))"
        using i(1) wf map_of_increasing_iff [OF wf, of "fst (recs ! i)" "snd (recs ! i)"] by simp_all
      show ?thesis
      proof (cases "decode_op dk pc (snd (recs ! i))")
        case (Inl x)
        then have "\<not> decodable dk pc (snd (recs ! i))" by (simp add: decodable_def)
        with ei have "\<exists>e\<in>set recs. \<not> decodable dk pc (snd e)" by blast
        then show ?thesis using new Inl by (simp add: Cons e steps(3) [OF _ bs] walk_result_def)
      next
        case (Inr p)
        let ?next = "push_parents (map fst recs) (causal_parents p) ((i, True) # rest)"
        have inv: "walk_inv dk pc recs (st[i := 1]) os ?next"
          using walk_inv_open [OF wf _ _ Inr] "1.prems" new by (simp add: Cons e)
        have "length (filter (\<lambda>x. x = 0) (st[i := 1])) < length (filter (\<lambda>x. x = 0) st)"
          using zeros_update_less [of i st 0] new i by simp
        then have "walk_result dk pc recs (st[i := 1]) (fst ` set ?next)
            (visit dk pc recs (map fst recs) (st[i := 1]) (map ((!) (map fst recs)) os) ?next)"
          by (intro "1.hyps" [OF _ inv]) simp
        moreover have "fst ` set rest \<subseteq> fst ` set ?next" by (auto simp: push_parents_append)
        ultimately have "walk_result dk pc recs st (fst ` set pending)
            (visit dk pc recs (map fst recs) (st[i := 1]) (map ((!) (map fst recs)) os) ?next)"
          by (elim walk_result_mono) (use i in \<open>auto simp: Cons e nth_list_update\<close>)
        then show ?thesis using new Inr by (simp add: Cons e steps(3) [OF _ bs])
      qed
    qed
  qed
qed


lemma visit_starts_correct:
  assumes wf: "bm_wf recs"
  shows "walk_inv dk pc recs st os [] \<Longrightarrow> set starts \<subseteq> {..< length recs} \<Longrightarrow>
    walk_result dk pc recs st (set starts)
      (visit_starts dk pc recs (map fst recs) starts st (map ((!) (map fst recs)) os))"
proof (induction starts arbitrary: st os)
  case Nil
  then show ?case by (auto simp: walk_result_def)
next
  case (Cons i starts)
  let ?keys = "map fst recs"
  have "walk_inv dk pc recs st os [(i, False)]"
    using Cons.prems unfolding walk_inv_def stack_inv_def by (auto simp: Cons_eq_append_conv)
  from visit_correct [OF wf this]
  have one: "walk_result dk pc recs st {i} (visit dk pc recs ?keys st (map ((!) ?keys) os) [(i, False)])" by simp
  show ?case
  proof (cases "visit dk pc recs ?keys st (map ((!) ?keys) os) [(i, False)]")
    case (Inl x)
    then show ?thesis using one by (simp add: walk_result_def)
  next
    case (Inr v)
    obtain st' ordered where v: "v = (st', ordered)" by fastforce
    from one Inr v obtain os' where os': "ordered = map ((!) ?keys) os'" "walk_inv dk pc recs st' os' []"
      and seen: "\<forall>j < length recs. st ! j \<noteq> 0 \<or> j = i \<longrightarrow> st' ! j \<noteq> 0"
      by (auto simp: walk_result_def)
    have "walk_result dk pc recs st' (set starts) (visit_starts dk pc recs ?keys starts st' ordered)"
      using Cons.IH [OF os'(2)] Cons.prems(2) os'(1) by simp
    then have "walk_result dk pc recs st (set (i # starts)) (visit_starts dk pc recs ?keys starts st' ordered)"
      by (rule walk_result_mono) (use seen in auto)
    then show ?thesis using Inr v by simp
  qed
qed

text \<open>Position of a key in an export order, and the order of two of them.\<close>

definition before :: "'a list \<Rightarrow> 'a \<Rightarrow> 'a \<Rightarrow> bool" where
  "before xs a b \<longleftrightarrow> (\<exists>us vs. xs = us @ b # vs \<and> a \<in> set us)"

lemma parent_edges_child:
  assumes "bm_wf recs" and "i < length recs" and "j < length recs"
  shows "(map fst recs ! i, map fst recs ! j) \<in> parent_edges dk pc recs \<longleftrightarrow> (i, j) \<in> child dk pc recs"
  using assms by (auto simp: parent_edges_def child_def)

lemma child_reach: "(i, j) \<in> (child dk pc recs)\<^sup>* \<Longrightarrow> i < length recs \<Longrightarrow> bm_wf recs \<Longrightarrow>
    j < length recs \<and> (map fst recs ! i, map fst recs ! j) \<in> (parent_edges dk pc recs)\<^sup>*"
proof (induction rule: rtrancl_induct)
  case (step y z)
  then have "z < length recs" by (auto simp: child_def)
  then show ?case using step parent_edges_child [of recs y z] by (meson rtrancl.rtrancl_into_rtrancl)
qed simp

lemma parent_first_cases:
  assumes wf: "bm_wf recs"
  shows "case parent_first dk pc recs of
      Inl _ \<Rightarrow> \<exists>e\<in>set recs. \<not> decodable dk pc (snd e)
    | Inr ordered \<Rightarrow> (\<forall>e\<in>set recs. decodable dk pc (snd e)) \<and> distinct ordered \<and> set ordered = fst ` set recs
        \<and> (\<forall>k q. (k, q) \<in> parent_edges dk pc recs \<longrightarrow> (q, k) \<notin> (parent_edges dk pc recs)\<^sup>* \<longrightarrow> before ordered q k)"
proof -
  let ?keys = "map fst recs" and ?n = "length recs"
  have "walk_inv dk pc recs (replicate ?n 0) [] []"
    by (auto simp: walk_inv_def stack_inv_def order_inv_def)
  from visit_starts_correct [OF wf this, of "[0..<?n]"]
  have res: "walk_result dk pc recs (replicate ?n 0) {..< ?n}
      (visit_starts dk pc recs ?keys [0..<?n] (replicate ?n 0) [])"
    by (simp add: lessThan_atLeast0)
  show ?thesis
  proof (cases "visit_starts dk pc recs ?keys [0..<?n] (replicate ?n 0) []")
    case (Inl x)
    then show ?thesis using res by (simp add: parent_first_def walk_result_def)
  next
    case (Inr v)
    obtain st ordered where v: "v = (st, ordered)" by fastforce
    from res Inr v obtain os where os: "ordered = map ((!) ?keys) os" and inv: "walk_inv dk pc recs st os []"
      and seen: "\<forall>j < ?n. st ! j \<noteq> 0" by (auto simp: walk_result_def)
    note d = walk_inv_dest [OF inv]
    have all_done: "j \<in> set os \<longleftrightarrow> j < ?n" for j
      using d(6) [of j] d(8) [of j] d(9) [of j] seen by (cases "j < ?n") (auto simp: le_Suc_eq numeral_2_eq_2)
    have keys: "distinct ?keys" using increasing_distinct [OF wf] .
    have "set os = {..< ?n}" using all_done by auto
    moreover have "inj_on ((!) ?keys) {..< ?n}"
      using inj_on_nth [OF keys, of "{..< ?n}"] by simp
    moreover have "(!) ?keys ` {..< ?n} = set ?keys"
      using nth_image [of ?n ?keys] by (simp add: lessThan_atLeast0)
    ultimately have "distinct ordered" "set ordered = fst ` set recs"
      using d(2) unfolding os by (simp_all add: distinct_map)
    moreover have "decodable dk pc (snd e)" if "e \<in> set recs" for e
      using that d(10) seen by (metis in_set_conv_nth)
    moreover have "before ordered q k" if e: "(k, q) \<in> parent_edges dk pc recs"
      and acyc: "(q, k) \<notin> (parent_edges dk pc recs)\<^sup>*" for k q
    proof -
      obtain i j where ij: "i < ?n" "j < ?n" "k = ?keys ! i" "q = ?keys ! j"
        using e by (auto simp: parent_edges_def in_set_conv_nth)
      have "i \<in> set os" using all_done ij(1) by blast
      then obtain us vs where s: "os = us @ i # vs" by (meson split_list)
      have "(i, j) \<in> child dk pc recs" using e ij parent_edges_child [OF wf] by simp
      moreover have "(j, i) \<notin> (child dk pc recs)\<^sup>*" using child_reach ij wf acyc by metis
      ultimately have "j \<in> set us" using d(5) s unfolding order_inv_def by blast
      then show ?thesis
        unfolding before_def os s ij
        by (intro exI [of _ "map ((!) ?keys) us"] exI [of _ "map ((!) ?keys) vs"]) simp
    qed
    ultimately show ?thesis using Inr v by (simp add: parent_first_def)
  qed
qed


section \<open>Properties\<close>

text \<open>
  C37. The export order of a snapshot exists exactly when every record decodes; it lists every
  record exactly once, and every retained variant of a parent comes before the record, unless the
  variant itself descends from the record. With an acyclic parent relation the order is topological.
\<close>

theorem parent_first_order:
  assumes "bm_wf recs"
  shows "((\<exists>ordered. parent_first dk pc recs = Inr ordered) \<longleftrightarrow> (\<forall>e\<in>set recs. decodable dk pc (snd e)))
    \<and> (\<forall>ordered. parent_first dk pc recs = Inr ordered \<longrightarrow>
        distinct ordered \<and> set ordered = fst ` set recs
        \<and> (\<forall>k q. (k, q) \<in> parent_edges dk pc recs \<longrightarrow> (q, k) \<notin> (parent_edges dk pc recs)\<^sup>* \<longrightarrow> before ordered q k))"
  using parent_first_cases [OF assms, of dk pc] by (auto split: sum.splits)

text \<open>A serializer of operations by their one-byte identity and the identities of their parents.\<close>

definition graph_op :: "u8 \<Rightarrow> bytes \<Rightarrow> op" where
  "graph_op i ps = gen_op_new (OpId [i]) (parents_of_list (map (\<lambda>b. OpId [b]) ps)) (ActorId 0) NoClock NoScope tags_none
     (Unknown \<lparr>uo_kind_discriminant = 3, uo_raw_bytes = EmptyPayload\<rparr>)"

definition graph_postcard :: postcard where
  "graph_postcard = one_postcard\<lparr>take_op := (\<lambda>bs. case bs of [] \<Rightarrow> Inl (PostcardError []) | i # ps \<Rightarrow> Inr (graph_op i ps, []))\<rparr>"

definition graph_record :: "bytes \<Rightarrow> bytes" where
  "graph_record bs = RECORD_MAGIC @ 1 # bs"

lemma decode_graph [simp]: "decode_op dk graph_postcard (graph_record (i # ps)) = Inr (graph_op i ps)"
  by (simp add: decode_op_def decode_body_def strip_magic_def graph_record_def graph_postcard_def RECORD_SCHEMA_def
      graph_op_def gen_op_new_def source_mismatch_def is_activity_def)

definition family :: records where
  "family = [(RecordKey (OpId [1]) [0], graph_record [1, 2]), (RecordKey (OpId [2]) [0], graph_record [2]),
     (RecordKey (OpId [2]) [1], graph_record [2, 3])]"

theorem parent_first_order_witness:
  "\<exists>ordered. parent_first (\<lambda>_ b. b) graph_postcard family = Inr ordered \<and> distinct ordered
     \<and> before ordered (RecordKey (OpId [2]) [0]) (RecordKey (OpId [1]) [0])
     \<and> before ordered (RecordKey (OpId [2]) [1]) (RecordKey (OpId [1]) [0])"
proof -
  let ?E = "parent_edges (\<lambda>_ b. b) graph_postcard family"
  have wf: "bm_wf family"
    by (simp add: family_def less_record_key_def less_op_id_def)
  have E: "?E = {(RecordKey (OpId [1]) [0], RecordKey (OpId [2]) [0]), (RecordKey (OpId [1]) [0], RecordKey (OpId [2]) [1])}"
    by (auto simp: parent_edges_def record_parents_def family_def graph_op_def gen_op_new_def causal_parents_def
        parents_of_list_def parent_list_def)
  have no: "(q, k) \<notin> ?E\<^sup>*" if "key_id q = OpId [2]" "key_id k = OpId [1]" for q k
    using that unfolding E by (auto elim: converse_rtranclE)
  have "\<forall>e\<in>set family. decodable (\<lambda>_ b. b) graph_postcard (snd e)" by (simp add: family_def decodable_def)
  then show ?thesis using parent_first_order [OF wf, of "\<lambda>_ b. b" graph_postcard] no by (force simp: E)
qed

end
