(* ===== verification/Admission.thy ===== *)
theory Admission
  imports Ids
begin

text \<open>
  Canonical admission of immutable operation bytes (\<open>editchain-core/src/admission.rs\<close>):
  the grow-only evidence set \<open>OpSet\<close>, which maps an identity to every distinct byte
  representation seen, and accepts the identity only while there is exactly one.

  The abstraction is the relation \<open>evidence_rel\<close> of identity and bytes: insertion adds a
  pair, a merge is the union, and every query is a function of the relation. Convergence of
  replicas follows, since a well-formed evidence set is determined by its relation.
\<close>

section \<open>The evidence set\<close>

datatype admission = Accepted | Duplicate | Conflict

type_synonym op_set = "(op_id, bytes btree_set) btree_map"

definition op_set_new :: op_set where
  "op_set_new = []"

definition variants :: "op_set \<Rightarrow> op_id \<Rightarrow> bytes btree_set" where
  "variants s i = (case map_of s i of None \<Rightarrow> [] | Some v \<Rightarrow> v)"

definition classify :: "op_set \<Rightarrow> op_id \<Rightarrow> bytes \<Rightarrow> admission" where
  "classify s i encoded =
     (case map_of s i of
        None \<Rightarrow> Accepted
      | Some vs \<Rightarrow> if encoded \<in> set vs then Duplicate else Conflict)"

text \<open>\<open>OpSet::insert\<close>: \<open>entry(id).or_default()\<close>, then the set insertion decides.\<close>

definition op_insert :: "op_set \<Rightarrow> op_id \<Rightarrow> bytes \<Rightarrow> op_set \<times> admission" where
  "op_insert s i encoded =
     (let vs = variants s i;
          vs' = bs_insert encoded vs;
          s' = bm_insert i vs' s
      in (s', if encoded \<in> set vs then Duplicate
              else if length vs' = 1 then Accepted
              else Conflict))"

definition op_contains :: "op_set \<Rightarrow> op_id \<Rightarrow> bool" where
  "op_contains s i \<longleftrightarrow> (case map_of s i of None \<Rightarrow> False | Some vs \<Rightarrow> length vs = 1)"

text \<open>\<open>OpSet::iter\<close>: accepted pairs in identity order.\<close>

fun accepted_entry :: "op_id \<times> bytes btree_set \<Rightarrow> (op_id \<times> bytes) option" where
  "accepted_entry (i, vs) =
     (if length vs = 1 then (case vs of [] \<Rightarrow> None | b # _ \<Rightarrow> Some (i, b)) else None)"

definition op_iter :: "op_set \<Rightarrow> (op_id \<times> bytes) list" where
  "op_iter s = List.map_filter accepted_entry s"

definition op_len :: "op_set \<Rightarrow> nat" where
  "op_len s = length (op_iter s)"

definition op_is_empty :: "op_set \<Rightarrow> bool" where
  "op_is_empty s \<longleftrightarrow> op_iter s = []"

text \<open>\<open>OpSet::evidence\<close>: every record, accepted or conflicted, in identity and byte order.\<close>

definition op_evidence :: "op_set \<Rightarrow> (op_id \<times> bytes) list" where
  "op_evidence s = concat (map (\<lambda>(i, vs). map (\<lambda>b. (i, b)) vs) s)"

definition op_conflicts :: "op_set \<Rightarrow> (op_id \<times> bytes btree_set) list" where
  "op_conflicts s = filter (\<lambda>(i, vs). 1 < length vs) s"

text \<open>\<open>OpSet::merge\<close>, with its outcome counters \<open>(accepted, duplicates, conflicts)\<close>.\<close>

fun merge_counts :: "nat \<times> nat \<times> nat \<Rightarrow> admission \<Rightarrow> nat \<times> nat \<times> nat" where
  "merge_counts (a, d, c) Accepted = (sat_add 64 a 1, d, c)"
| "merge_counts (a, d, c) Duplicate = (a, sat_add 64 d 1, c)"
| "merge_counts (a, d, c) Conflict = (a, d, sat_add 64 c 1)"

fun merge_step :: "op_id \<times> bytes \<Rightarrow> op_set \<times> nat \<times> nat \<times> nat \<Rightarrow> op_set \<times> nat \<times> nat \<times> nat" where
  "merge_step (i, b) (s, n) = (case op_insert s i b of (s', r) \<Rightarrow> (s', merge_counts n r))"

definition op_merge :: "op_set \<Rightarrow> op_set \<Rightarrow> op_set \<times> nat \<times> nat \<times> nat" where
  "op_merge s other = fold merge_step (op_evidence other) (s, 0, 0, 0)"

section \<open>Well-formedness and the abstraction\<close>

definition wf_op_set :: "op_set \<Rightarrow> bool" where
  "wf_op_set s \<longleftrightarrow> bm_wf s \<and> (\<forall>(i, vs) \<in> set s. increasing vs \<and> vs \<noteq> [])"

definition evidence_rel :: "op_set \<Rightarrow> (op_id \<times> bytes) set" where
  "evidence_rel s = {(i, b). b \<in> set (variants s i)}"

text \<open>An identity is accepted when the evidence holds exactly one representation of it.\<close>

definition sole :: "(op_id \<times> bytes) set \<Rightarrow> op_id \<Rightarrow> bytes \<Rightarrow> bool" where
  "sole R i b \<longleftrightarrow> {c. (i, c) \<in> R} = {b}"

lemma wf_op_set_new [simp]: "wf_op_set op_set_new"
  by (simp add: wf_op_set_def op_set_new_def)

lemma evidence_rel_new [simp]: "evidence_rel op_set_new = {}"
  by (simp add: evidence_rel_def op_set_new_def variants_def)

lemma wf_variants:
  assumes "wf_op_set s"
  shows "increasing (variants s i)" and "map_of s i = Some vs \<Longrightarrow> vs \<noteq> [] \<and> variants s i = vs"
  using assms by (auto simp: wf_op_set_def variants_def dest: map_of_SomeD split: option.splits)

lemma variants_empty_iff: "wf_op_set s \<Longrightarrow> variants s i = [] \<longleftrightarrow> map_of s i = None"
  by (auto simp: variants_def wf_op_set_def dest: map_of_SomeD split: option.splits)

lemma variants_insert:
  "wf_op_set s \<Longrightarrow> variants (fst (op_insert s i b)) j =
     (if j = i then bs_insert b (variants s i) else variants s j)"
  by (simp add: op_insert_def Let_def variants_def wf_op_set_def)

lemma wf_op_insert: "wf_op_set s \<Longrightarrow> wf_op_set (fst (op_insert s i b))"
proof -
  assume wf: "wf_op_set s"
  have vs: "increasing (bs_insert b (variants s i)) \<and> bs_insert b (variants s i) \<noteq> []"
    using wf_variants(1) [OF wf] by (metis increasing_bs_insert insert_not_empty list.set(1) set_bs_insert)
  show ?thesis
    using wf vs set_bm_insert_subset [of i "bs_insert b (variants s i)" s]
    by (auto simp: wf_op_set_def op_insert_def Let_def bm_wf_insert)
qed

lemma evidence_rel_insert:
  "wf_op_set s \<Longrightarrow> evidence_rel (fst (op_insert s i b)) = insert (i, b) (evidence_rel s)"
  by (auto simp: evidence_rel_def variants_insert split: if_splits)

lemma wf_op_set_ext:
  assumes "wf_op_set s" and "wf_op_set t" and "evidence_rel s = evidence_rel t"
  shows "s = t"
proof -
  have vs: "variants s i = variants t i" for i
  proof (rule increasing_unique)
    show "set (variants s i) = set (variants t i)"
      using assms(3) by (auto simp: evidence_rel_def set_eq_iff)
  qed (simp_all add: wf_variants(1) assms(1,2))
  have "map_of s i = map_of t i" for i
    using vs [of i] variants_empty_iff [OF assms(1), of i] variants_empty_iff [OF assms(2), of i]
    by (cases "map_of s i"; cases "map_of t i") (auto simp: variants_def)
  then show ?thesis
    using assms(1,2) by (intro bm_ext) (auto simp: wf_op_set_def)
qed

lemma length_variants_card: "wf_op_set s \<Longrightarrow> length (variants s i) = card {b. (i, b) \<in> evidence_rel s}"
  using wf_variants(1) [of s i] by (simp add: evidence_rel_def distinct_card increasing_distinct)

lemma contains_iff_sole: "wf_op_set s \<Longrightarrow> op_contains s i \<longleftrightarrow> (\<exists>b. sole (evidence_rel s) i b)"
proof -
  assume wf: "wf_op_set s"
  have "op_contains s i \<longleftrightarrow> length (variants s i) = 1"
    using wf_variants(2) [OF wf] by (auto simp: op_contains_def variants_def split: option.splits)
  then show ?thesis
    using length_variants_card [OF wf] by (simp add: sole_def card_1_singleton_iff)
qed

lemma set_op_evidence: "wf_op_set s \<Longrightarrow> set (op_evidence s) = evidence_rel s"
proof -
  assume wf: "wf_op_set s"
  then have bw: "bm_wf s" by (simp add: wf_op_set_def)
  have "(i, b) \<in> set (op_evidence s) \<longleftrightarrow> (\<exists>vs. (i, vs) \<in> set s \<and> b \<in> set vs)" for i b
    by (force simp: op_evidence_def)
  then have "(i, b) \<in> set (op_evidence s) \<longleftrightarrow> (\<exists>vs. map_of s i = Some vs \<and> b \<in> set vs)" for i b
    using map_of_increasing_iff [OF bw] by simp
  then show ?thesis
    by (auto simp: evidence_rel_def variants_def split: option.splits) metis
qed

lemma accepted_entry_Some: "accepted_entry (j, vs) = Some (i, b) \<longleftrightarrow> j = i \<and> vs = [b]"
  by (cases vs) auto

lemma op_iter_sole: "wf_op_set s \<Longrightarrow> map_of s i = Some [b] \<longleftrightarrow> sole (evidence_rel s) i b"
proof
  assume wf: "wf_op_set s" and "sole (evidence_rel s) i b"
  then have "set (variants s i) = set [b]"
    by (auto simp: sole_def evidence_rel_def)
  then have "variants s i = [b]"
    by (intro increasing_unique wf_variants(1) [OF wf]) auto
  then show "map_of s i = Some [b]"
    by (simp add: variants_def split: option.splits)
qed (auto simp: sole_def evidence_rel_def variants_def)

lemma set_op_iter: "wf_op_set s \<Longrightarrow> set (op_iter s) = {(i, b). sole (evidence_rel s) i b}"
proof -
  assume wf: "wf_op_set s"
  then have bw: "bm_wf s" by (simp add: wf_op_set_def)
  have "(i, b) \<in> set (op_iter s) \<longleftrightarrow> (i, [b]) \<in> set s" for i b
    by (force simp: op_iter_def set_map_filter_iff accepted_entry_Some simp del: accepted_entry.simps)
  then show ?thesis
    using op_iter_sole [OF wf] map_of_increasing_iff [OF bw] by auto
qed

section \<open>Insertion and merging\<close>

text \<open>The outcome of an insertion is a function of the evidence before it.\<close>

lemma op_insert_outcome:
  assumes "wf_op_set s"
  shows "snd (op_insert s i b) =
    (if (i, b) \<in> evidence_rel s then Duplicate
     else if {c. (i, c) \<in> evidence_rel s} = {} then Accepted else Conflict)"
proof -
  have inc: "increasing (variants s i)" by (rule wf_variants(1) [OF assms])
  have "length (bs_insert b (variants s i)) = Suc (length (variants s i))"
    if "b \<notin> set (variants s i)"
    using inc that by (rule length_bs_insert)
  then show ?thesis
    by (auto simp: op_insert_def Let_def evidence_rel_def)
qed

lemma classify_agrees: "wf_op_set s \<Longrightarrow> classify s i b = snd (op_insert s i b)"
  using wf_variants(2) [of s i]
  by (auto simp: op_insert_outcome classify_def evidence_rel_def variants_def
      split: option.splits)

lemma merge_fold:
  "wf_op_set s \<Longrightarrow>
     wf_op_set (fst (fold merge_step es (s, n)))
     \<and> evidence_rel (fst (fold merge_step es (s, n))) = evidence_rel s \<union> set es"
proof (induction es arbitrary: s n)
  case Nil
  then show ?case by simp
next
  case (Cons e es)
  obtain i b where e: "e = (i, b)" by (cases e)
  obtain s' r where s': "op_insert s i b = (s', r)" by fastforce
  have "wf_op_set s'" "evidence_rel s' = insert (i, b) (evidence_rel s)"
    using wf_op_insert [OF Cons.prems, of i b] evidence_rel_insert [OF Cons.prems, of i b] s'
    by simp_all
  then show ?case using Cons.IH [of s'] by (simp add: e s')
qed

lemma wf_op_merge: "wf_op_set s \<Longrightarrow> wf_op_set (fst (op_merge s t))"
  using merge_fold [of s "op_evidence t"] by (simp add: op_merge_def)

lemma evidence_rel_merge:
  "wf_op_set s \<Longrightarrow> wf_op_set t \<Longrightarrow> evidence_rel (fst (op_merge s t)) = evidence_rel s \<union> evidence_rel t"
  using merge_fold [of s "op_evidence t"] by (simp add: op_merge_def set_op_evidence)

lemma accepted_iff_sole:
  "(if (i, b) \<in> R then Duplicate else if {c. (i, c) \<in> R} = {} then Accepted else Conflict) = Accepted
     \<longleftrightarrow> sole (insert (i, b) R) i b \<and> \<not> (\<exists>c. sole R i c)"
proof -
  have col: "{c. (i, c) \<in> insert (i, b) R} = insert b {c. (i, c) \<in> R}" by blast
  define X where "X = {c. (i, c) \<in> R}"
  have mem: "(i, b) \<in> R \<longleftrightarrow> b \<in> X" by (simp add: X_def)
  have "(b \<notin> X \<and> X = {}) \<longleftrightarrow> insert b X = {b} \<and> \<not> (\<exists>c. X = {c})"
    by blast
  then show ?thesis
    unfolding sole_def col X_def [symmetric] mem by (metis admission.distinct(1,3))
qed

lemma two_not_sole: "c \<noteq> d \<Longrightarrow> (j, c) \<in> R \<Longrightarrow> (j, d) \<in> R \<Longrightarrow> \<not> sole R j x"
proof
  assume "c \<noteq> d" and c: "(j, c) \<in> R" and d: "(j, d) \<in> R" and "sole R j x"
  then have "c \<in> {x}" and "d \<in> {x}"
    by (metis mem_Collect_eq sole_def)+
  then show False using \<open>c \<noteq> d\<close> by simp
qed

section \<open>Properties\<close>

text \<open>
  C12. Replicas converge: merging evidence is commutative, associative and idempotent, and
  merging into an empty replica copies the evidence, quarantined variants included, as
  equalities of the stored containers.
\<close>

theorem op_merge_convergent:
  assumes "wf_op_set s" and "wf_op_set t" and "wf_op_set u"
  shows "fst (op_merge s t) = fst (op_merge t s)
    \<and> fst (op_merge (fst (op_merge s t)) u) = fst (op_merge s (fst (op_merge t u)))
    \<and> fst (op_merge s s) = s
    \<and> fst (op_merge op_set_new s) = s"
  by (intro conjI wf_op_set_ext)
     (simp_all add: assms wf_op_merge evidence_rel_merge Un_ac)

theorem op_merge_convergent_witness:
  "let s = fst (op_insert op_set_new (OpId [1]) [7]); t = fst (op_insert op_set_new (OpId [1]) [8])
   in wf_op_set s \<and> wf_op_set t \<and> fst (op_merge s t) = fst (op_merge t s)
      \<and> op_conflicts (fst (op_merge s t)) = [(OpId [1], [[7], [8]])]"
proof -
  let ?s = "fst (op_insert op_set_new (OpId [1]) [7])"
  let ?t = "fst (op_insert op_set_new (OpId [1]) [8])"
  have wf: "wf_op_set ?s" "wf_op_set ?t"
    by (simp_all add: wf_op_insert)
  have "op_conflicts (fst (op_merge ?s ?t)) = [(OpId [1], [[7], [8]])]"
    by (simp add: op_merge_def op_evidence_def op_insert_def op_conflicts_def variants_def
        op_set_new_def)
  with op_merge_convergent [OF wf wf(1)] wf show ?thesis
    by (simp add: Let_def)
qed

text \<open>
  C20. The outcome of an insertion, on every branch: it is what \<open>classify\<close> announced, the
  evidence grows by exactly the inserted pair, and the accepted view afterwards is the set of
  identities with one representation. In particular an identity that ever had two distinct
  representations is never accepted again, whatever is inserted later.
\<close>

theorem op_insert_admission:
  assumes "wf_op_set s"
  shows "classify s i b = snd (op_insert s i b)
    \<and> evidence_rel (fst (op_insert s i b)) = insert (i, b) (evidence_rel s)
    \<and> (snd (op_insert s i b) = Accepted \<longleftrightarrow> sole (evidence_rel (fst (op_insert s i b))) i b
          \<and> \<not> op_contains s i)
    \<and> set (op_iter (fst (op_insert s i b))) = {(j, c). sole (insert (i, b) (evidence_rel s)) j c}
    \<and> (\<forall>c d. c \<noteq> d \<and> (j, c) \<in> evidence_rel s \<and> (j, d) \<in> evidence_rel s
          \<longrightarrow> \<not> op_contains (fst (op_insert s i b)) j)"
proof -
  note wf' = wf_op_insert [OF assms, of i b]
  have "\<not> op_contains (fst (op_insert s i b)) j"
    if "c \<noteq> d" "(j, c) \<in> evidence_rel s" "(j, d) \<in> evidence_rel s" for c d
    unfolding contains_iff_sole [OF wf'] evidence_rel_insert [OF assms]
    using two_not_sole [of c d j "insert (i, b) (evidence_rel s)"] that by simp
  moreover have "snd (op_insert s i b) = Accepted \<longleftrightarrow>
      sole (evidence_rel (fst (op_insert s i b))) i b \<and> \<not> op_contains s i"
    unfolding op_insert_outcome [OF assms] evidence_rel_insert [OF assms] contains_iff_sole [OF assms]
    by (rule accepted_iff_sole)
  ultimately show ?thesis
    using classify_agrees [OF assms, of i b] evidence_rel_insert [OF assms, of i b]
      set_op_iter [OF wf', unfolded evidence_rel_insert [OF assms]]
    by (intro conjI allI impI) blast+
qed

theorem op_insert_admission_witness:
  "wf_op_set (fst (op_insert op_set_new (OpId [1]) [7]))
   \<and> snd (op_insert (fst (op_insert op_set_new (OpId [1]) [7])) (OpId [1]) [8]) = Conflict
   \<and> classify (fst (op_insert op_set_new (OpId [1]) [7])) (OpId [1]) [8] = Conflict"
proof -
  have wf: "wf_op_set (fst (op_insert op_set_new (OpId [1]) [7]))"
    by (simp add: wf_op_insert)
  have "snd (op_insert (fst (op_insert op_set_new (OpId [1]) [7])) (OpId [1]) [8]) = Conflict"
    by (simp add: op_insert_def variants_def op_set_new_def)
  with op_insert_admission [OF wf, of "OpId [1]" "[8]"] wf show ?thesis by simp
qed

end
