(* ===== verification/Log.thy ===== *)
theory Log
  imports RecordCodec Admission
begin

text \<open>
  The append-log contract and exact-byte admission over it
  (\<open>editchain-store/src/log.rs\<close>). The operations of the \<open>AppendLog\<close> trait are the
  record \<open>append_log\<close>; the laws its documentation promises are the locale
  \<open>append_log_laws\<close>, with \<open>recs\<close> the complete records a reader sees and
  \<open>dur\<close> those guaranteed to survive a crash. \<open>LogStore\<close> is a client of the
  contract: its lemmas are proved once in the locale, which the segment store interprets.
  A visitor is represented by the records it is shown; text of error messages that wrap another
  error is not modelled.
\<close>

section \<open>The trait and its client\<close>

type_synonym log_record = "u8 \<times> bytes"

record 'l append_log =
  visit_records :: "'l \<Rightarrow> (log_record list \<times> nat) io_result"
  append_records :: "log_record list \<Rightarrow> 'l \<Rightarrow> unit io_result \<times> 'l"
  log_sync :: "'l \<Rightarrow> unit io_result \<times> 'l"

text \<open>The default \<open>append_records\<close> of the trait, over a single-record append.\<close>

fun append_records_default ::
  "(u8 \<Rightarrow> bytes \<Rightarrow> 'l \<Rightarrow> unit io_result \<times> 'l) \<Rightarrow> log_record list \<Rightarrow> 'l \<Rightarrow> unit io_result \<times> 'l" where
  "append_records_default append_record [] l = (Inr (), l)"
| "append_records_default append_record ((flags, bs) # rs) l =
     (case append_record flags bs l of
        (Inl e, l') \<Rightarrow> (Inl e, l')
      | (Inr _, l') \<Rightarrow> append_records_default append_record rs l')"

record 'l log_store =
  ls_log :: 'l
  ls_evidence :: "op_set option"

definition log_store_new :: "'l \<Rightarrow> 'l log_store" where
  "log_store_new l = \<lparr>ls_log = l, ls_evidence = None\<rparr>"

definition validate_record :: "derive_key \<Rightarrow> postcard \<Rightarrow> bytes \<Rightarrow> op_id io_result" where
  "validate_record dk pc bs =
     (if \<not> (case u32_try_from (length bs) of None \<Rightarrow> False | Some len \<Rightarrow> unat len \<le> MAX_RECORD_BYTES)
      then Inl (IoError InvalidInput ''record too large'')
      else map_err (\<lambda>_. IoError InvalidInput ''undecodable record'') (rbind (decode_op dk pc bs) (\<lambda>p. Inr (op_id p))))"

definition admit_evidence :: "derive_key \<Rightarrow> postcard \<Rightarrow> log_record \<Rightarrow> op_set \<Rightarrow> op_set" where
  "admit_evidence dk pc r ev = (case decode_op dk pc (snd r) of
       Inl _ \<Rightarrow> ev | Inr p \<Rightarrow> fst (op_insert ev (op_id p) (snd r)))"

definition read_evidence :: "derive_key \<Rightarrow> postcard \<Rightarrow> 'l append_log \<Rightarrow> 'l \<Rightarrow> op_set io_result" where
  "read_evidence dk pc ops l = rbind (visit_records ops l) (\<lambda>(rs, _).
     Inr (fold (admit_evidence dk pc) rs op_set_new))"

record admit_state =
  as_evidence :: op_set
  as_admissions :: "admission list"
  as_pending :: "log_record list"
  as_fence :: bool

fun admit_record :: "op_id \<times> bytes \<Rightarrow> admit_state \<Rightarrow> admit_state" where
  "admit_record (i, bs) s =
     (let (ev, adm) = op_insert (as_evidence s) i bs in
      \<lparr>as_evidence = ev, as_admissions = as_admissions s @ [adm],
       as_pending = (if adm \<noteq> Duplicate then as_pending s @ [(0, bs)] else as_pending s),
       as_fence = (as_fence s \<or> adm \<noteq> Accepted)\<rparr>)"

definition admit_batch :: "op_set \<Rightarrow> (op_id \<times> bytes) list \<Rightarrow> admit_state" where
  "admit_batch ev ibs = fold admit_record ibs
     \<lparr>as_evidence = ev, as_admissions = [], as_pending = [], as_fence = False\<rparr>"

definition append_encoded_batch ::
  "derive_key \<Rightarrow> postcard \<Rightarrow> 'l append_log \<Rightarrow> bytes list \<Rightarrow> 'l log_store
   \<Rightarrow> (admission list) io_result \<times> 'l log_store" where
  "append_encoded_batch dk pc ops bss st =
     (case traverse (validate_record dk pc) bss of
        Inl e \<Rightarrow> (Inl e, st)
      | Inr ids \<Rightarrow>
          if bss = [] then (Inr [], st)
          else
            let l = ls_log st; dropped = st\<lparr>ls_evidence := None\<rparr> in
            case (case ls_evidence st of Some ev \<Rightarrow> Inr ev | None \<Rightarrow> read_evidence dk pc ops l) of
              Inl e \<Rightarrow> (Inl e, dropped)
            | Inr ev \<Rightarrow>
                let s = admit_batch ev (zip ids bss);
                    (synced, l1) = (if as_fence s then log_sync ops l else (Inr (), l)) in
                case synced of
                  Inl e \<Rightarrow> (Inl e, dropped\<lparr>ls_log := l1\<rparr>)
                | Inr _ \<Rightarrow>
                    let (appended, l2) = append_records ops (as_pending s) l1 in
                    case appended of
                      Inl e \<Rightarrow> (Inl e, dropped\<lparr>ls_log := l2\<rparr>)
                    | Inr _ \<Rightarrow> (Inr (as_admissions s), \<lparr>ls_log = l2, ls_evidence = Some (as_evidence s)\<rparr>))"

definition append_encoded ::
  "derive_key \<Rightarrow> postcard \<Rightarrow> 'l append_log \<Rightarrow> bytes \<Rightarrow> 'l log_store \<Rightarrow> admission io_result \<times> 'l log_store" where
  "append_encoded dk pc ops bs st =
     (case append_encoded_batch dk pc ops [bs] st of
        (Inl e, st') \<Rightarrow> (Inl e, st')
      | (Inr (a # _), st') \<Rightarrow> (Inr a, st')
      | (Inr [], st') \<Rightarrow> (Inl (IoError Other ''single-record admission returned no result''), st'))"

definition into_inner :: "'l log_store \<Rightarrow> 'l" where
  "into_inner st = ls_log st"

section \<open>Evidence of a record list\<close>

definition evidence_of :: "derive_key \<Rightarrow> postcard \<Rightarrow> log_record list \<Rightarrow> op_set" where
  "evidence_of dk pc rs = fold (admit_evidence dk pc) rs op_set_new"

lemma wf_fold_admit: "wf_op_set ev \<Longrightarrow> wf_op_set (fold (admit_evidence dk pc) rs ev)"
  by (induction rs arbitrary: ev) (auto simp: admit_evidence_def wf_op_insert split: sum.splits)

lemma wf_evidence_of: "wf_op_set (evidence_of dk pc rs)"
  unfolding evidence_of_def by (rule wf_fold_admit) simp

lemma evidence_rel_fold:
  "wf_op_set ev \<Longrightarrow> evidence_rel (fold (admit_evidence dk pc) rs ev)
     = evidence_rel ev \<union> {(i, b). b \<in> snd ` set rs \<and> (\<exists>p. decode_op dk pc b = Inr p \<and> op_id p = i)}"
proof (induction rs arbitrary: ev)
  case (Cons r rs)
  have "evidence_rel (admit_evidence dk pc r ev)
      = evidence_rel ev \<union> {(i, b). b = snd r \<and> (\<exists>p. decode_op dk pc b = Inr p \<and> op_id p = i)}"
    using Cons.prems by (auto simp: admit_evidence_def evidence_rel_insert split: sum.splits)
  moreover have "wf_op_set (admit_evidence dk pc r ev)"
    using Cons.prems by (auto simp: admit_evidence_def wf_op_insert split: sum.splits)
  ultimately show ?case using Cons.IH [of "admit_evidence dk pc r ev"] by auto
qed simp

lemma evidence_rel_of:
  "evidence_rel (evidence_of dk pc rs)
     = {(i, b). b \<in> snd ` set rs \<and> (\<exists>p. decode_op dk pc b = Inr p \<and> op_id p = i)}"
  unfolding evidence_of_def using evidence_rel_fold [of op_set_new dk pc rs] by simp

lemma validate_record_Inr:
  "validate_record dk pc bs = Inr i \<longleftrightarrow> length bs \<le> MAX_RECORD_BYTES \<and> (\<exists>p. decode_op dk pc bs = Inr p \<and> op_id p = i)"
  by (auto simp: validate_record_def rbind_Inr_iff u32_try_from_def MAX_RECORD_BYTES_def split: if_splits)

section \<open>Admission of a batch\<close>

text \<open>The verdicts of admitting one record after another to a relation of identity and bytes.\<close>

fun verdicts :: "(op_id \<times> bytes) set \<Rightarrow> (op_id \<times> bytes) list \<Rightarrow> admission list" where
  "verdicts R [] = []"
| "verdicts R ((i, b) # ibs) =
     (if (i, b) \<in> R then Duplicate else if {c. (i, c) \<in> R} = {} then Accepted else Conflict)
     # verdicts (insert (i, b) R) ibs"

text \<open>
  The records such an admission adds to a log: those whose exact bytes are new for their identity,
  each once and in order.
\<close>

fun fresh_records :: "(op_id \<times> bytes) set \<Rightarrow> (op_id \<times> bytes) list \<Rightarrow> log_record list" where
  "fresh_records R [] = []"
| "fresh_records R ((i, b) # ibs) =
     (if (i, b) \<in> R then fresh_records R ibs else (0, b) # fresh_records (insert (i, b) R) ibs)"

lemma set_fresh_records: "set (fresh_records R ibs) = {(0, b) | i b. (i, b) \<in> set ibs - R}"
  by (induction R ibs rule: fresh_records.induct) auto

lemma fold_admit_record:
  fixes ibs :: "(op_id \<times> bytes) list"
  assumes "wf_op_set (as_evidence s)"
  defines "t \<equiv> fold admit_record ibs s"
  shows "wf_op_set (as_evidence t) \<and> evidence_rel (as_evidence t) = evidence_rel (as_evidence s) \<union> set ibs
    \<and> as_admissions t = as_admissions s @ verdicts (evidence_rel (as_evidence s)) ibs
    \<and> as_pending t = as_pending s @ fresh_records (evidence_rel (as_evidence s)) ibs
    \<and> (as_fence s \<longrightarrow> as_fence t) \<and> (set ibs \<inter> evidence_rel (as_evidence s) \<noteq> {} \<longrightarrow> as_fence t)"
  using assms(1) unfolding t_def
proof (induction ibs arbitrary: s)
  case (Cons ib ibs)
  obtain i b where ib: "ib = (i, b)" by (cases ib)
  let ?s = "admit_record ib s" and ?R = "evidence_rel (as_evidence s)"
  have ev: "as_evidence ?s = fst (op_insert (as_evidence s) i b)" by (simp add: ib case_prod_beta Let_def)
  have adm: "snd (op_insert (as_evidence s) i b)
      = (if (i, b) \<in> ?R then Duplicate else if {c. (i, c) \<in> ?R} = {} then Accepted else Conflict)"
    using op_insert_outcome [OF Cons.prems] .
  have wf: "wf_op_set (as_evidence ?s)" and rel: "evidence_rel (as_evidence ?s) = insert (i, b) ?R"
    using Cons.prems by (simp_all add: ev wf_op_insert evidence_rel_insert)
  have ads: "as_admissions ?s = as_admissions s @
      [if (i, b) \<in> ?R then Duplicate else if {c. (i, c) \<in> ?R} = {} then Accepted else Conflict]"
    by (simp add: ib case_prod_beta Let_def adm)
  have pend: "as_pending ?s = (if (i, b) \<in> ?R then as_pending s else as_pending s @ [(0, b)])"
    by (simp add: ib case_prod_beta Let_def adm)
  have fence: "as_fence s \<longrightarrow> as_fence ?s" "(i, b) \<in> ?R \<longrightarrow> as_fence ?s"
    by (simp_all add: ib case_prod_beta Let_def adm)
  have "insert (i, b) ?R = ?R" if "(i, b) \<in> ?R" using that by (rule insert_absorb)
  then have pset: "as_pending ?s @ fresh_records (insert (i, b) ?R) ibs = as_pending s @ fresh_records ?R (ib # ibs)"
    unfolding pend by (simp add: ib)
  note IH = Cons.IH [OF wf, unfolded rel]
  have f: "fold admit_record (ib # ibs) s = fold admit_record ibs ?s" by simp
  have a: "as_admissions ?s @ verdicts (insert (i, b) ?R) ibs = as_admissions s @ verdicts ?R (ib # ibs)"
    unfolding ads by (simp add: ib)
  have u: "insert (i, b) ?R \<union> set ibs = ?R \<union> set (ib # ibs)" by (auto simp: ib)
  have n: "set (ib # ibs) \<inter> ?R \<noteq> {} \<longrightarrow> set ibs \<inter> insert (i, b) ?R \<noteq> {} \<or> as_fence ?s"
    using fence(2) by (auto simp: ib simp del: admit_record.simps)
  show ?case unfolding f using IH [unfolded a u pset] fence(1) n by blast
qed simp

lemma admit_batch_spec:
  fixes ibs :: "(op_id \<times> bytes) list"
  assumes "wf_op_set ev"
  defines "t \<equiv> admit_batch ev ibs"
  shows "wf_op_set (as_evidence t)" and "evidence_rel (as_evidence t) = evidence_rel ev \<union> set ibs"
    and "as_admissions t = verdicts (evidence_rel ev) ibs"
    and "as_pending t = fresh_records (evidence_rel ev) ibs"
    and "set ibs \<inter> evidence_rel ev \<noteq> {} \<Longrightarrow> as_fence t"
  using fold_admit_record [of "\<lparr>as_evidence = ev, as_admissions = [], as_pending = [], as_fence = False\<rparr>" ibs] assms(1)
  by (simp_all add: t_def admit_batch_def)

text \<open>Evidence after the batch is the evidence of the records the log then holds.\<close>

lemma admit_batch_evidence:
  assumes ids: "\<forall>(i, b)\<in>set ibs. \<exists>p. decode_op dk pc b = Inr p \<and> op_id p = i"
  shows "as_evidence (admit_batch (evidence_of dk pc rs) ibs)
    = evidence_of dk pc (rs @ as_pending (admit_batch (evidence_of dk pc rs) ibs))"
proof (rule wf_op_set_ext)
  note spec = admit_batch_spec [OF wf_evidence_of [of dk pc rs], of ibs]
  show "wf_op_set (as_evidence (admit_batch (evidence_of dk pc rs) ibs))" by (rule spec(1))
  show "wf_op_set (evidence_of dk pc (rs @ as_pending (admit_batch (evidence_of dk pc rs) ibs)))" by (rule wf_evidence_of)
  have pend: "snd ` set (as_pending (admit_batch (evidence_of dk pc rs) ibs))
      = {b. \<exists>i. (i, b) \<in> set ibs \<and> (i, b) \<notin> evidence_rel (evidence_of dk pc rs)}"
    unfolding spec(4) set_fresh_records by force
  show "evidence_rel (as_evidence (admit_batch (evidence_of dk pc rs) ibs))
      = evidence_rel (evidence_of dk pc (rs @ as_pending (admit_batch (evidence_of dk pc rs) ibs)))"
    unfolding spec(2) evidence_rel_of [of dk pc "rs @ _"] set_append image_Un pend
    using ids unfolding evidence_rel_of by fastforce
qed

section \<open>The contract\<close>

locale append_log_laws =
  fixes ops :: "'l append_log" and recs :: "'l \<Rightarrow> log_record list" and dur :: "'l \<Rightarrow> log_record set"
    and inv :: "'l \<Rightarrow> bool"
  assumes visit: "inv l \<Longrightarrow> visit_records ops l = Inr (rs, n) \<Longrightarrow> rs = recs l"
    and append_ok: "inv l \<Longrightarrow> append_records ops ps l = (Inr u, l')
      \<Longrightarrow> inv l' \<and> recs l' = recs l @ ps \<and> dur l \<union> set ps \<subseteq> dur l'"
    and append_err: "inv l \<Longrightarrow> append_records ops ps l = (Inl e, l')
      \<Longrightarrow> inv l' \<and> (\<exists>k. recs l' = recs l @ take k ps) \<and> dur l \<subseteq> dur l'"
    and sync_ok: "inv l \<Longrightarrow> log_sync ops l = (Inr u, l')
      \<Longrightarrow> inv l' \<and> recs l' = recs l \<and> dur l \<union> set (recs l) \<subseteq> dur l'"
    and sync_err: "inv l \<Longrightarrow> log_sync ops l = (Inl e, l') \<Longrightarrow> inv l' \<and> recs l' = recs l \<and> dur l \<subseteq> dur l'"
begin

definition store_inv :: "derive_key \<Rightarrow> postcard \<Rightarrow> 'l log_store \<Rightarrow> bool" where
  "store_inv dk pc st \<longleftrightarrow> inv (ls_log st) \<and>
     (case ls_evidence st of None \<Rightarrow> True | Some ev \<Rightarrow> ev = evidence_of dk pc (recs (ls_log st)))"

lemma store_inv_new: "inv l \<Longrightarrow> store_inv dk pc (log_store_new l)"
  by (simp add: store_inv_def log_store_new_def)

text \<open>Whatever a batch answers, the store stays consistent and the log only grows by a prefix of new records.\<close>

lemma current_evidence:
  assumes "store_inv dk pc st"
    and "(case ls_evidence st of Some ev \<Rightarrow> Inr ev | None \<Rightarrow> read_evidence dk pc ops (ls_log st)) = Inr ev"
  shows "ev = evidence_of dk pc (recs (ls_log st))"
  using assms visit by (auto simp: store_inv_def read_evidence_def rbind_Inr_iff evidence_of_def split: option.splits)

lemma batch_ok:
  assumes st: "store_inv dk pc st" and ne: "bss \<noteq> []"
    and ids: "traverse (validate_record dk pc) bss = Inr ids"
    and ok: "append_encoded_batch dk pc ops bss st = (Inr adms, st')"
  defines "s \<equiv> admit_batch (evidence_of dk pc (recs (ls_log st))) (zip ids bss)"
  shows "adms = as_admissions s \<and> recs (ls_log st') = recs (ls_log st) @ as_pending s
    \<and> store_inv dk pc st'
    \<and> set bss \<subseteq> snd ` dur (ls_log st') \<and> dur (ls_log st) \<subseteq> dur (ls_log st')"
proof -
  let ?l = "ls_log st" and ?R = "evidence_rel (evidence_of dk pc (recs (ls_log st)))"
  obtain l1 where l1: "(if as_fence s then log_sync ops ?l else (Inr (), ?l)) = (Inr (), l1)"
    and l2: "append_records ops (as_pending s) l1 = (Inr (), ls_log st')"
    and r: "adms = as_admissions s" "ls_evidence st' = Some (as_evidence s)"
    using ok ids ne current_evidence [OF st] unfolding append_encoded_batch_def s_def Let_def
    by (auto split: sum.splits prod.splits option.splits)
  have inv: "inv ?l" using st by (simp add: store_inv_def)
  have one: "inv l1 \<and> recs l1 = recs ?l \<and> dur ?l \<subseteq> dur l1 \<and> (as_fence s \<longrightarrow> set (recs ?l) \<subseteq> dur l1)"
    using l1 inv sync_ok [OF inv] by (auto split: if_splits)
  have two: "inv (ls_log st') \<and> recs (ls_log st') = recs ?l @ as_pending s \<and> dur l1 \<union> set (as_pending s) \<subseteq> dur (ls_log st')"
    using append_ok [OF _ l2] one by simp
  have len: "length ids = length bss" using traverse_length [OF ids] .
  have dec: "\<forall>(i, b)\<in>set (zip ids bss). \<exists>p. decode_op dk pc b = Inr p \<and> op_id p = i"
    using ids by (auto simp: traverse_Inr_iff validate_record_Inr list_all2_conv_all_nth set_zip)
  note spec = admit_batch_spec [OF wf_evidence_of [of dk pc "recs ?l"], of "zip ids bss", folded s_def]
  have "b \<in> snd ` dur (ls_log st')" if b: "b \<in> set bss" for b
  proof -
    obtain i where ib: "(i, b) \<in> set (zip ids bss)"
      using b len by (metis in_set_impl_in_set_zip2)
    show ?thesis
    proof (cases "(i, b) \<in> ?R")
      case True
      then have "as_fence s" "b \<in> snd ` set (recs ?l)" using spec(5) ib by (auto simp: evidence_rel_of)
      then show ?thesis using one two by blast
    next
      case False
      then have "(0, b) \<in> set (as_pending s)" using ib spec(4) by (auto simp: set_fresh_records)
      then show ?thesis using two by force
    qed
  qed
  moreover have "store_inv dk pc st'"
    using two r admit_batch_evidence [OF dec, of "recs ?l"] by (simp add: store_inv_def s_def)
  ultimately show ?thesis using r one two by blast
qed

lemma batch_err:
  assumes st: "store_inv dk pc st" and err: "append_encoded_batch dk pc ops bss st = (Inl e, st')"
  shows "store_inv dk pc st' \<and> dur (ls_log st) \<subseteq> dur (ls_log st')
    \<and> (\<exists>new. recs (ls_log st') = recs (ls_log st) @ new
        \<and> (case traverse (validate_record dk pc) bss of
             Inl _ \<Rightarrow> new = []
           | Inr ids \<Rightarrow> \<exists>k. new = take k (fresh_records (evidence_rel (evidence_of dk pc (recs (ls_log st)))) (zip ids bss))))"
proof (cases "traverse (validate_record dk pc) bss")
  case (Inl e')
  then have "st' = st" using err by (simp add: append_encoded_batch_def)
  then show ?thesis using st Inl by simp
next
  case (Inr ids)
  let ?l = "ls_log st"
  have inv: "inv ?l" using st by (simp add: store_inv_def)
  let ?new = "fresh_records (evidence_rel (evidence_of dk pc (recs ?l))) (zip ids bss)"
  note pend = admit_batch_spec(4) [OF wf_evidence_of [of dk pc "recs ?l"], of "zip ids bss"]
  have same: "st' = st \<or> ls_log st' = ?l \<and> ls_evidence st' = None \<or>
      (\<exists>l1. ls_evidence st' = None \<and>
        (log_sync ops ?l = (Inl e, ls_log st') \<or>
         (log_sync ops ?l = (Inr (), l1) \<or> l1 = ?l) \<and> append_records ops ?new l1 = (Inl e, ls_log st')))"
    using err current_evidence [OF st] unfolding append_encoded_batch_def Let_def pend [symmetric]
    by (auto simp: Inr split: sum.splits prod.splits option.splits if_splits)
  have app: ?thesis if none: "ls_evidence st' = None" and l1: "inv l1 \<and> recs l1 = recs ?l \<and> dur ?l \<subseteq> dur l1"
    and fail: "append_records ops ?new l1 = (Inl e, ls_log st')" for l1
  proof -
    from append_err [OF _ fail] l1 obtain k where "inv (ls_log st')" "dur l1 \<subseteq> dur (ls_log st')"
      "recs (ls_log st') = recs ?l @ take k ?new" by auto
    then show ?thesis using l1 none by (auto simp: store_inv_def Inr)
  qed
  have keep: ?thesis if "store_inv dk pc st'" "dur ?l \<subseteq> dur (ls_log st')" "recs (ls_log st') = recs ?l"
    using that by (auto simp: Inr intro: exI [of _ 0])
  from same show ?thesis
  proof (elim disjE exE conjE, goal_cases)
    case 1
    then show ?case using st keep by simp
  next
    case 2
    then show ?case using inv by (intro keep) (simp_all add: store_inv_def)
  next
    case (3 l1)
    then show ?case using sync_err [OF inv, of e "ls_log st'"] by (intro keep) (simp_all add: store_inv_def)
  next
    case (4 l1)
    then show ?case using sync_ok [OF inv, of "()" l1] app [of l1] by simp
  next
    case (5 l1)
    then show ?case using inv app [of l1] by simp
  qed
qed

end

end
