(* ===== verification/SyncStorage.thy ===== *)
theory SyncStorage
  imports InventoryOrder Log
begin

text \<open>
  What a replication session exchanges with its storage: the frozen inventory \<open>Snapshot\<close>
  (\<open>editchain-sync/src/replica.rs\<close>), the content references of an operation
  (\<open>content.rs\<close>) and the boundary \<open>ReplicationStorage\<close> (\<open>storage.rs\<close>). The
  operations of the trait are the record \<open>replication_storage\<close>; the documented promises a session
  relies on are the locale \<open>replication_laws\<close>, where \<open>dur\<close> gives the exact records a
  storage guarantees to survive a crash and \<open>durb\<close> the content hashes it does. A method that takes
  \<open>&self\<close> but has an effect (a fence of the log, a filled cache) returns the storage after it.
\<close>

section \<open>Snapshots\<close>

record snapshot =
  sn_records :: records
  sn_received :: "record_key btree_set"
  sn_received_blobs :: "bytes btree_set"
  sn_scope_revision :: u64

definition snapshot_default :: snapshot where
  "snapshot_default = \<lparr>sn_records = [], sn_received = [], sn_received_blobs = [], sn_scope_revision = 0\<rparr>"

definition sn_record :: "snapshot \<Rightarrow> record_key \<Rightarrow> bytes option" where
  "sn_record sn key = map_of (sn_records sn) key"

definition sn_contains :: "snapshot \<Rightarrow> record_key \<Rightarrow> bool" where
  "sn_contains sn key \<longleftrightarrow> map_of (sn_records sn) key \<noteq> None"

definition sn_len :: "snapshot \<Rightarrow> nat" where
  "sn_len sn = length (sn_records sn)"

definition sn_is_empty :: "snapshot \<Rightarrow> bool" where
  "sn_is_empty sn \<longleftrightarrow> sn_records sn = []"

definition insert_encoded ::
  "derive_key \<Rightarrow> postcard \<Rightarrow> blake3 \<Rightarrow> bytes \<Rightarrow> snapshot \<Rightarrow> (record_key \<times> snapshot) io_result" where
  "insert_encoded dk pc b3 encoded sn = rbind (key_from_encoded dk pc b3 encoded) (\<lambda>key.
     if (case sn_record sn key of None \<Rightarrow> False | Some previous \<Rightarrow> previous \<noteq> encoded)
     then Inl (invalid ''record digest collision'')
     else Inr (key, sn\<lparr>sn_records := bm_insert key encoded (sn_records sn)\<rparr>))"

text \<open>The entries a fallible filter permits, in key order; the first error stops it.\<close>

fun filter_records :: "(record_key \<Rightarrow> bytes \<Rightarrow> bool io_result) \<Rightarrow> records \<Rightarrow> records io_result" where
  "filter_records permits [] = Inr []"
| "filter_records permits ((key, bs) # m) = rbind (permits key bs) (\<lambda>b.
     rbind (filter_records permits m) (\<lambda>m'. Inr (if b then (key, bs) # m' else m')))"

definition filtered :: "(record_key \<Rightarrow> bytes \<Rightarrow> bool io_result) \<Rightarrow> snapshot \<Rightarrow> snapshot io_result" where
  "filtered permits sn = rbind (filter_records permits (sn_records sn)) (\<lambda>m.
     Inr (snapshot_default\<lparr>sn_records := m\<rparr>))"

definition ordered_keys :: "derive_key \<Rightarrow> postcard \<Rightarrow> snapshot \<Rightarrow> record_key list io_result" where
  "ordered_keys dk pc sn = parent_first dk pc (sn_records sn)"

definition received_blob :: "bytes \<Rightarrow> snapshot \<Rightarrow> snapshot" where
  "received_blob hash sn = sn\<lparr>sn_received_blobs := bs_insert hash (sn_received_blobs sn)\<rparr>"

definition snapshot_page :: "snapshot \<Rightarrow> record_key option \<Rightarrow> record_key list \<times> bool" where
  "snapshot_page sn after =
     (let keys = (case after of None \<Rightarrow> map fst (sn_records sn)
                  | Some a \<Rightarrow> filter (\<lambda>k. a < k) (map fst (sn_records sn))) in
      (take INVENTORY_PAGE keys, INVENTORY_PAGE < length keys))"

definition permits_blob :: "snapshot \<Rightarrow> record_key \<Rightarrow> bytes \<Rightarrow> bool" where
  "permits_blob sn key hash \<longleftrightarrow> key \<notin> set (sn_received sn) \<or> hash \<in> set (sn_received_blobs sn)"

section \<open>Content references\<close>

type_synonym references = "(bytes, u32 btree_set) btree_map"

definition ref_insert :: "content_id \<Rightarrow> u32 option \<Rightarrow> references \<Rightarrow> references" where
  "ref_insert i len found = (case i of
       Hash256 hash \<Rightarrow> bm_insert hash
         (bs_extend (option_list len) (case map_of found hash of None \<Rightarrow> [] | Some ls \<Rightarrow> ls)) found
     | _ \<Rightarrow> found)"

definition payload_insert :: "payload \<Rightarrow> references \<Rightarrow> references" where
  "payload_insert p found = (case p of BlobPayload r \<Rightarrow> ref_insert (blob_id r) (Some (blob_len r)) found | _ \<Rightarrow> found)"

text \<open>The direct references of an operation kind and the payloads that may hold further ones.\<close>

definition kind_references :: "(op_id, operation) op_kind \<Rightarrow> (content_id \<times> u32 option) list \<times> payload list" where
  "kind_references k = (case k of
       Activity r \<Rightarrow> (content_addresses (op_kind r), [])
     | ChainStart _ \<Rightarrow> ([], [])
     | Session v \<Rightarrow> ([], [so_label v, so_metadata v])
     | Actor v \<Rightarrow> ([], [ao_label v, ao_role v])
     | Message v \<Rightarrow> ([], [mo_content v, mo_content_type v])
     | Tool v \<Rightarrow> ([], [to_tool_call_id v, to_tool_name v, to_content v])
     | Command v \<Rightarrow> ([], [co_command_id v, co_content v])
     | File v \<Rightarrow>
         (let ids = map (\<lambda>i. (i, None)) (option_list (fo_base v) @ option_list (fo_after v)) in
          case fo_edit v of
            NoEdit \<Rightarrow> (ids, [])
          | ReplaceBytes _ bs \<Rightarrow> (ids, [bs])
          | UnifiedDiff bs \<Rightarrow> (ids, [bs])
          | BlobEdit r \<Rightarrow> (ids @ [(blob_id r, Some (blob_len r))], []))
     | Reflection v \<Rightarrow> ([], [ro_summary v, ro_anchors v])
     | Import v \<Rightarrow> ([], [io_raw_ref v])
     | Note v \<Rightarrow> ([], [no_content v])
     | Error v \<Rightarrow> ([], [eo_code v, eo_message v])
     | Unknown v \<Rightarrow> ([], [uo_raw_bytes v])
     | GitLink v \<Rightarrow> ([], case gl_kind v of CustomLink p \<Rightarrow> [p] | _ \<Rightarrow> [])
     | GitCommit v \<Rightarrow> ([], [sig_name (gc_author v), sig_email (gc_author v), sig_name (gc_committer v),
         sig_email (gc_committer v), gc_message v] @ gc_imported_refs v @ gc_live_refs v))"

definition references_of :: "op \<Rightarrow> references" where
  "references_of p = (let (ids, payloads) = kind_references (op_op_kind p) in
     fold payload_insert payloads (fold (\<lambda>(i, len). ref_insert i len) ids []))"

definition content_hashes :: "op \<Rightarrow> bytes btree_set" where
  "content_hashes p = map fst (references_of p)"

definition matches_len :: "references \<Rightarrow> bytes \<Rightarrow> nat \<Rightarrow> bool" where
  "matches_len refs hash len = (case map_of refs hash of None \<Rightarrow> False
     | Some ls \<Rightarrow> list_all (\<lambda>expected. unat expected = len) ls)"

definition sn_blob_hashes :: "derive_key \<Rightarrow> postcard \<Rightarrow> snapshot \<Rightarrow> record_key \<Rightarrow> bytes btree_set io_result" where
  "sn_blob_hashes dk pc sn key = rbind (ok_or (invalid ''record outside export scope'') (sn_record sn key)) (\<lambda>encoded.
     rbind (map_err io_other (decode_op dk pc encoded)) (\<lambda>p. Inr (content_hashes p)))"

section \<open>The storage boundary\<close>

record 'r replication_storage =
  rs_namespace :: "'r \<Rightarrow> string"
  rs_ensure_scope :: "'r \<Rightarrow> unit io_result"
  rs_snapshot :: "'r \<Rightarrow> snapshot io_result \<times> 'r"
  rs_receiving_snapshot :: "'r \<Rightarrow> snapshot io_result \<times> 'r"
  rs_ingest_records :: "(record_key \<times> bytes) list \<Rightarrow> snapshot \<Rightarrow> 'r \<Rightarrow> unit io_result \<times> snapshot \<times> 'r"
  rs_blob_hashes :: "snapshot \<Rightarrow> record_key \<Rightarrow> 'r \<Rightarrow> bytes btree_set io_result"
  rs_read_blob :: "snapshot \<Rightarrow> record_key \<Rightarrow> bytes \<Rightarrow> 'r \<Rightarrow> bytes option io_result"
  rs_ingest_blob :: "record_key \<Rightarrow> bytes \<Rightarrow> bytes \<Rightarrow> 'r \<Rightarrow> unit io_result \<times> 'r"
  rs_confirm_blob :: "snapshot \<Rightarrow> record_key \<Rightarrow> bytes \<Rightarrow> 'r \<Rightarrow> bool io_result \<times> 'r"

text \<open>The default \<open>confirm_blob\<close> of the trait.\<close>

definition confirm_blob_default ::
  "(snapshot \<Rightarrow> record_key \<Rightarrow> bytes \<Rightarrow> 'r \<Rightarrow> bytes option io_result)
   \<Rightarrow> (record_key \<Rightarrow> bytes \<Rightarrow> bytes \<Rightarrow> 'r \<Rightarrow> unit io_result \<times> 'r)
   \<Rightarrow> snapshot \<Rightarrow> record_key \<Rightarrow> bytes \<Rightarrow> 'r \<Rightarrow> bool io_result \<times> 'r" where
  "confirm_blob_default read ingest sn key hash r = (case read sn key hash r of
       Inl e \<Rightarrow> (Inl e, r)
     | Inr None \<Rightarrow> (Inr False, r)
     | Inr (Some bs) \<Rightarrow> (case ingest key hash bs r of (Inl e, r') \<Rightarrow> (Inl e, r') | (Inr _, r') \<Rightarrow> (Inr True, r')))"

definition batch_bytes :: "(record_key \<times> bytes) list \<Rightarrow> nat" where
  "batch_bytes rs = fold (\<lambda>(_, bs) size. sat_add 64 size (length bs)) rs 0"

fun validate_keys :: "derive_key \<Rightarrow> postcard \<Rightarrow> blake3 \<Rightarrow> (record_key \<times> bytes) list \<Rightarrow> unit io_result" where
  "validate_keys dk pc b3 [] = Inr ()"
| "validate_keys dk pc b3 ((key, bs) # rs) = rbind (key_from_encoded dk pc b3 bs) (\<lambda>k.
     if k \<noteq> key then Inl (invalid ''record identity or digest mismatch'') else validate_keys dk pc b3 rs)"

definition validate_records :: "derive_key \<Rightarrow> postcard \<Rightarrow> blake3 \<Rightarrow> (record_key \<times> bytes) list \<Rightarrow> unit io_result" where
  "validate_records dk pc b3 rs =
     (if length rs > INVENTORY_PAGE \<or> batch_bytes rs > MAX_OBJECT_BYTES
      then Inl (invalid ''record batch exceeds limit'') else validate_keys dk pc b3 rs)"

section \<open>Lemmas\<close>

text \<open>A snapshot binds keys to exact records of those keys.\<close>

definition snap_ok :: "derive_key \<Rightarrow> postcard \<Rightarrow> blake3 \<Rightarrow> snapshot \<Rightarrow> bool" where
  "snap_ok dk pc b3 sn \<longleftrightarrow> bm_wf (sn_records sn) \<and> (\<forall>(k, bs)\<in>set (sn_records sn). key_from_encoded dk pc b3 bs = Inr k)"

lemma snap_ok_default [simp]: "snap_ok dk pc b3 snapshot_default"
  by (simp add: snap_ok_def snapshot_default_def)

lemma sn_contains_record: "sn_contains sn k \<longleftrightarrow> (\<exists>bs. sn_record sn k = Some bs)"
  by (simp add: sn_contains_def sn_record_def)

lemma sn_record_iff: "snap_ok dk pc b3 sn \<Longrightarrow> sn_record sn k = Some bs \<longleftrightarrow> (k, bs) \<in> set (sn_records sn)"
  by (simp add: snap_ok_def sn_record_def map_of_increasing_iff)

lemma snap_ok_key: "snap_ok dk pc b3 sn \<Longrightarrow> sn_record sn k = Some bs \<Longrightarrow> key_from_encoded dk pc b3 bs = Inr k"
  by (auto simp: sn_record_iff) (auto simp: snap_ok_def)

lemma key_from_encoded_Inr:
  "key_from_encoded dk pc b3 bs = Inr k \<longleftrightarrow>
     length bs \<le> MAX_OBJECT_BYTES \<and> (\<exists>p. decode_op dk pc bs = Inr p \<and> k = RecordKey (op_id p) (b3 bs))"
  by (auto simp: key_from_encoded_def rbind_Inr_iff)

lemma insert_encoded_ok:
  assumes "snap_ok dk pc b3 sn" and "insert_encoded dk pc b3 bs sn = Inr (k, sn')"
  shows "key_from_encoded dk pc b3 bs = Inr k" and "snap_ok dk pc b3 sn'"
    and "sn_record sn' = (sn_record sn)(k \<mapsto> bs)" and "sn_record sn k = None \<or> sn_record sn k = Some bs"
proof -
  show k: "key_from_encoded dk pc b3 bs = Inr k" and "sn_record sn k = None \<or> sn_record sn k = Some bs"
    using assms(2) by (auto simp: insert_encoded_def rbind_Inr_iff split: if_splits option.splits)
  have sn': "sn' = sn\<lparr>sn_records := bm_insert k bs (sn_records sn)\<rparr>"
    using assms(2) by (auto simp: insert_encoded_def rbind_Inr_iff split: if_splits)
  have wf: "bm_wf (sn_records sn)" using assms(1) by (simp add: snap_ok_def)
  show "sn_record sn' = (sn_record sn)(k \<mapsto> bs)"
    by (simp add: sn_record_def [abs_def] sn' map_of_bm_insert [OF wf])
  show "snap_ok dk pc b3 sn'"
    using assms(1) k set_bm_insert_subset [of k bs "sn_records sn"]
    by (auto simp: snap_ok_def sn' bm_wf_insert dest!: subsetD)
qed

lemma filter_records_Inr:
  "filter_records permits m = Inr m' \<Longrightarrow>
     m' = filter (\<lambda>(k, bs). permits k bs = Inr True) m \<and> (\<forall>(k, bs)\<in>set m. \<exists>b. permits k bs = Inr b)"
proof (induction m arbitrary: m')
  case (Cons e m)
  obtain k bs where e: "e = (k, bs)" by fastforce
  from Cons.prems obtain b m1 where "permits k bs = Inr b" "filter_records permits m = Inr m1"
    "m' = (if b then (k, bs) # m1 else m1)"
    by (auto simp: e rbind_Inr_iff)
  then show ?case using Cons.IH [of m1] by (auto simp: e)
qed simp

lemma filtered_ok:
  assumes "snap_ok dk pc b3 sn" and "filtered permits sn = Inr sn'"
  shows "snap_ok dk pc b3 sn'"
    and "sn_record sn' k = Some bs \<longleftrightarrow> sn_record sn k = Some bs \<and> permits k bs = Inr True"
proof -
  have sn': "sn_records sn' = filter (\<lambda>(k, bs). permits k bs = Inr True) (sn_records sn)"
    using assms(2) filter_records_Inr by (fastforce simp: filtered_def rbind_Inr_iff)
  have "increasing (map fst (filter P m))" if "bm_wf m" for P and m :: records
    using that by (induction m) auto
  then show ok: "snap_ok dk pc b3 sn'" using assms(1) by (auto simp: snap_ok_def sn')
  show "sn_record sn' k = Some bs \<longleftrightarrow> sn_record sn k = Some bs \<and> permits k bs = Inr True"
    using sn_record_iff [OF ok] sn_record_iff [OF assms(1)] by (auto simp: sn')
qed

lemma validate_keys_Inr:
  "validate_keys dk pc b3 rs = Inr u \<longleftrightarrow> (\<forall>(k, bs)\<in>set rs. key_from_encoded dk pc b3 bs = Inr k)"
  by (induction rs) (auto simp: rbind_Inr_iff split: if_splits)

lemma validate_records_Inr:
  "validate_records dk pc b3 rs = Inr u \<Longrightarrow> length rs \<le> INVENTORY_PAGE \<and> batch_bytes rs \<le> MAX_OBJECT_BYTES
     \<and> (\<forall>(k, bs)\<in>set rs. key_from_encoded dk pc b3 bs = Inr k)"
  by (auto simp: validate_records_def validate_keys_Inr split: if_splits)

section \<open>The contract\<close>

text \<open>What the trait promises: acknowledged exact records and content are durable, and stay so.\<close>

definition grows :: "('r \<Rightarrow> bool) \<Rightarrow> ('r \<Rightarrow> (record_key \<times> bytes) set) \<Rightarrow> ('r \<Rightarrow> bytes set) \<Rightarrow> 'r \<Rightarrow> 'r \<Rightarrow> bool" where
  "grows I D B r r' \<longleftrightarrow> I r' \<and> D r \<subseteq> D r' \<and> B r \<subseteq> B r'"

locale replication_laws =
  fixes ops :: "'r replication_storage" and dk :: derive_key and pc :: postcard and b3 :: blake3
    and inv :: "'r \<Rightarrow> bool" and dur :: "'r \<Rightarrow> (record_key \<times> bytes) set" and durb :: "'r \<Rightarrow> bytes set"
  assumes snapshot_laws: "inv r \<Longrightarrow> rs_snapshot ops r = (res, r') \<Longrightarrow> grows inv dur durb r r'
      \<and> (\<forall>sn. res = Inr sn \<longrightarrow> snap_ok dk pc b3 sn \<and> set (sn_records sn) \<subseteq> dur r')"
    and receiving_laws: "inv r \<Longrightarrow> rs_receiving_snapshot ops r = (res, r') \<Longrightarrow> grows inv dur durb r r'
      \<and> (\<forall>sn. res = Inr sn \<longrightarrow> snap_ok dk pc b3 sn \<and> set (sn_records sn) \<subseteq> dur r')"
    and ingest_laws: "inv r \<Longrightarrow> snap_ok dk pc b3 sn \<Longrightarrow> rs_ingest_records ops rs sn r = (done_res, sn', r')
      \<Longrightarrow> grows inv dur durb r r' \<and> (done_res = Inr () \<longrightarrow>
        set rs \<subseteq> dur r' \<and> snap_ok dk pc b3 sn' \<and> set (sn_records sn') = set (sn_records sn) \<union> set rs)"
    and ingest_blob_laws: "inv r \<Longrightarrow> rs_ingest_blob ops k h bs r = (blob_res, r')
      \<Longrightarrow> grows inv dur durb r r' \<and> (blob_res = Inr () \<longrightarrow> h \<in> durb r')"
    and confirm_laws: "inv r \<Longrightarrow> rs_confirm_blob ops sn k h r = (confirm_res, r')
      \<Longrightarrow> grows inv dur durb r r' \<and> (confirm_res = Inr True \<longrightarrow> h \<in> durb r')"
begin

lemma grows_refl: "inv r \<Longrightarrow> grows inv dur durb r r"
  by (simp add: grows_def)

lemma grows_trans: "grows inv dur durb r s \<Longrightarrow> grows inv dur durb s t \<Longrightarrow> grows inv dur durb r t"
  by (auto simp: grows_def)

end

end
