(* ===== verification/ObjectTransfer.thy ===== *)
theory ObjectTransfer
  imports SyncStorage "HOL-Library.Option_ord"
begin

text \<open>
  One bounded object in flight in each direction (\<open>editchain-sync/src/transfer.rs\<close>,
  \<open>progress.rs\<close>): the receiving side of an object, \<open>Download\<close>, and the sending side,
  \<open>Source\<close>, which serves one frozen inventory page by page. Lengths and positions are natural
  numbers and the conversions to the fixed-width fields of the messages are written out; the
  conversions from \<open>u32\<close> to \<open>usize\<close> never fail. The lemmas show that a source and a download that
  follow each other move exactly the bytes of the object.
\<close>

section \<open>Progress\<close>

record check_progress =
  cp_pass :: nat
  cp_total_records :: "nat option"
  cp_checked_records :: nat
  cp_complete :: bool
  cp_unavailable :: nat

definition check_default :: check_progress where
  "check_default = \<lparr>cp_pass = 0, cp_total_records = None, cp_checked_records = 0, cp_complete = False, cp_unavailable = 0\<rparr>"

record download_progress =
  dp_content :: bool
  dp_received_bytes :: nat
  dp_total_bytes :: "nat option"

record progress =
  pr_accepted :: bool
  pr_synchronizing :: bool
  pr_rounds :: nat
  pr_records :: nat
  pr_blobs :: nat
  pr_sent_records :: nat
  pr_sent_blobs :: nat
  pr_unavailable :: nat
  pr_incoming :: check_progress
  pr_outgoing :: check_progress
  pr_pending_records :: nat
  pr_pending_blobs :: nat
  pr_download :: "download_progress option"

definition progress_default :: progress where
  "progress_default = \<lparr>pr_accepted = False, pr_synchronizing = False, pr_rounds = 0, pr_records = 0, pr_blobs = 0,
     pr_sent_records = 0, pr_sent_blobs = 0, pr_unavailable = 0, pr_incoming = check_default, pr_outgoing = check_default,
     pr_pending_records = 0, pr_pending_blobs = 0, pr_download = None\<rparr>"

section \<open>Objects and downloads\<close>

datatype object = Object (obj_record: record_key) (obj_blob: "bytes option")

instantiation object :: linorder
begin
definition less_eq_object :: "object \<Rightarrow> object \<Rightarrow> bool" where
  "less_eq_object a b \<longleftrightarrow> (obj_record a, obj_blob a) \<le> (obj_record b, obj_blob b)"
definition less_object :: "object \<Rightarrow> object \<Rightarrow> bool" where
  "less_object a b \<longleftrightarrow> (obj_record a, obj_blob a) < (obj_record b, obj_blob b)"
instance
  by standard (auto simp: less_eq_object_def less_object_def object.expand)
end

text \<open>\<open>u32::try_from(n).map_err(io::Error::other)\<close>, and the same for \<open>u64\<close>.\<close>

definition int_error :: io_error where
  "int_error = IoError Other ''out of range integral type conversion attempted''"

definition to_u32 :: "nat \<Rightarrow> u32 io_result" where
  "to_u32 n = ok_or int_error (u32_try_from n)"

definition to_u64 :: "nat \<Rightarrow> u64 io_result" where
  "to_u64 n = (if n < 2 ^ 64 then Inr (word_of_nat n) else Inl int_error)"

definition object_need :: "object \<Rightarrow> nat \<Rightarrow> peer_message io_result" where
  "object_need ob offset = rbind (to_u32 offset) (\<lambda>off. Inr (Need (obj_record ob) (obj_blob ob) off))"

definition object_ack :: "object \<Rightarrow> peer_message" where
  "object_ack ob = Ack (obj_record ob) (obj_blob ob)"

record download =
  dl_object :: object
  dl_bytes :: bytes
  dl_total :: "nat option"

definition download_new :: "object \<Rightarrow> download" where
  "download_new ob = \<lparr>dl_object = ob, dl_bytes = [], dl_total = None\<rparr>"

definition download_progress_of :: "download \<Rightarrow> download_progress io_result" where
  "download_progress_of d = rbind (to_u64 (length (dl_bytes d))) (\<lambda>received.
     rbind (case dl_total d of None \<Rightarrow> Inr None | Some t \<Rightarrow> rbind (to_u64 t) (\<lambda>w. Inr (Some (unat w)))) (\<lambda>tot.
     Inr \<lparr>dp_content = (obj_blob (dl_object d) \<noteq> None), dp_received_bytes = unat received, dp_total_bytes = tot\<rparr>))"

definition download_append :: "object \<Rightarrow> u32 \<Rightarrow> u32 \<Rightarrow> bytes \<Rightarrow> download \<Rightarrow> (bool \<times> download) io_result" where
  "download_append ob offset tot bs d =
     rbind (ok_or (invalid ''chunk length overflow'') (checked_add 64 (unat offset) (length bs))) (\<lambda>end.
     if ob \<noteq> dl_object d \<or> unat offset \<noteq> length (dl_bytes d) \<or> unat tot > MAX_OBJECT_BYTES
       \<or> (case dl_total d of None \<Rightarrow> False | Some previous \<Rightarrow> previous \<noteq> unat tot)
       \<or> end > unat tot \<or> length bs > CHUNK_BYTES \<or> (bs = [] \<and> end \<noteq> unat tot)
     then Inl (invalid ''unexpected object, offset or chunk size'')
     else Inr (end = unat tot, d\<lparr>dl_total := Some (unat tot), dl_bytes := dl_bytes d @ bs\<rparr>))"

section \<open>The source\<close>

record source =
  src_progress :: check_progress
  src_snapshot :: "snapshot option"
  src_order :: "record_key list"
  src_next :: nat
  src_cursor :: "record_key option"
  src_more :: bool
  src_active :: "(object \<times> bytes \<times> nat) option"
  src_unacked :: "object btree_set"
  src_awaiting_check :: bool

definition source_default :: source where
  "source_default = \<lparr>src_progress = check_default, src_snapshot = None, src_order = [], src_next = 0, src_cursor = None,
     src_more = False, src_active = None, src_unacked = [], src_awaiting_check = False\<rparr>"

text \<open>
  The operations below give no state with an error: a session that sees one is closed and never
  uses its source again.

  \<open>records.last().copied()\<close>:
\<close>

definition last_opt :: "'a list \<Rightarrow> 'a option" where
  "last_opt xs = (if xs = [] then None else Some (last xs))"

text \<open>The frozen inventory a request without a cursor starts.\<close>

definition source_start :: "derive_key \<Rightarrow> postcard \<Rightarrow> snapshot \<Rightarrow> source \<Rightarrow> source io_result" where
  "source_start dk pc sn s = rbind (ordered_keys dk pc sn) (\<lambda>order.
     rbind (to_u64 (length order)) (\<lambda>tot.
     Inr (s\<lparr>src_order := order,
            src_progress := check_default\<lparr>cp_pass := sat_add 64 (cp_pass (src_progress s)) 1, cp_total_records := Some (unat tot)\<rparr>,
            src_snapshot := Some sn, src_next := 0\<rparr>)))"

definition source_page :: "source \<Rightarrow> (peer_message \<times> source) io_result" where
  "source_page s = rbind (to_u64 (src_next s)) (\<lambda>offset.
     let records = take INVENTORY_PAGE (drop (src_next s) (src_order s));
         next = sat_add 64 (src_next s) (length records);
         more = next < length (src_order s) in
     rbind (to_u64 (length (src_order s))) (\<lambda>tot.
     Inr (Page offset tot records more,
          s\<lparr>src_next := next, src_cursor := last_opt records, src_more := more, src_awaiting_check := True\<rparr>)))"

definition source_inventory :: "derive_key \<Rightarrow> postcard \<Rightarrow> 'r replication_storage \<Rightarrow> record_key option \<Rightarrow> 'r \<Rightarrow> source
    \<Rightarrow> (peer_message \<times> source) io_result \<times> 'r" where
  "source_inventory dk pc ops after r s =
     (if src_active s \<noteq> None \<or> src_unacked s \<noteq> [] \<or> src_awaiting_check s
      then (Inl (invalid ''inventory before pending transfers were acknowledged''), r)
      else if after = None then
        (case rs_snapshot ops r of
           (Inl e, r') \<Rightarrow> (Inl e, r')
         | (Inr sn, r') \<Rightarrow> (rbind (source_start dk pc sn s) source_page, r'))
      else if after \<noteq> src_cursor s \<or> \<not> src_more s then (Inl (invalid ''invalid inventory continuation''), r)
      else (source_page s, r))"

text \<open>Begin to serve an object: its bytes, or none when its content is missing or withheld.\<close>

definition source_begin :: "'r replication_storage \<Rightarrow> object \<Rightarrow> 'r \<Rightarrow> source \<Rightarrow> bytes option io_result" where
  "source_begin ops ob r s =
     (if src_active s \<noteq> None \<or> length (src_unacked s) \<ge> INVENTORY_PAGE \<or> ob \<in> set (src_unacked s)
      then Inl (invalid ''too many in-flight objects'')
      else rbind (ok_or (invalid ''need before inventory'') (src_snapshot s)) (\<lambda>sn.
        rbind (ok_or (invalid ''record outside offered inventory'') (sn_record sn (obj_record ob))) (\<lambda>encoded.
        case obj_blob ob of
          Some hash \<Rightarrow> rs_read_blob ops sn (obj_record ob) hash r
        | None \<Rightarrow> Inr (Some encoded))))"

definition source_chunk :: "object \<Rightarrow> nat \<Rightarrow> source \<Rightarrow> (peer_message \<times> source) io_result" where
  "source_chunk ob offset s = rbind (ok_or (invalid ''chunk without an active transfer'') (src_active s)) (\<lambda>(active, bs, next).
     if active \<noteq> ob \<or> next \<noteq> offset then Inl (invalid ''out-of-order object request'')
     else rbind (to_u32 (length bs)) (\<lambda>tot.
       rbind (ok_or (invalid ''offset past object'') (slice_from bs offset)) (\<lambda>tail.
       let chunk = take CHUNK_BYTES tail; next' = sat_add 64 next (length chunk) in
       rbind (to_u32 offset) (\<lambda>off.
       Inr (Chunk (obj_record ob) (obj_blob ob) off tot chunk,
            if next' = length bs then s\<lparr>src_active := None, src_unacked := bs_insert ob (src_unacked s)\<rparr>
            else s\<lparr>src_active := Some (active, bs, next')\<rparr>)))))"

definition source_need :: "'r replication_storage \<Rightarrow> object \<Rightarrow> u32 \<Rightarrow> 'r \<Rightarrow> source \<Rightarrow> (peer_message \<times> source) io_result" where
  "source_need ops ob offset r s =
     (if \<not> src_awaiting_check s then Inl (invalid ''object request outside an active inventory page'')
      else if offset = 0 then
        rbind (source_begin ops ob r s) (\<lambda>found. case found of
            None \<Rightarrow> Inr (Missing (obj_record ob) (obj_blob ob),
              s\<lparr>src_progress := (src_progress s)\<lparr>cp_unavailable := sat_add 64 (cp_unavailable (src_progress s)) 1\<rparr>\<rparr>)
          | Some bs \<Rightarrow> source_chunk ob 0 (s\<lparr>src_active := Some (ob, bs, 0)\<rparr>))
      else source_chunk ob (unat offset) s)"

definition source_ack :: "object \<Rightarrow> source \<Rightarrow> source io_result" where
  "source_ack ob s = (if ob \<notin> set (src_unacked s) then Inl (invalid ''acknowledgment for an unsent object'')
     else Inr (s\<lparr>src_unacked := bs_remove ob (src_unacked s)\<rparr>))"

definition source_checked :: "u64 \<Rightarrow> source \<Rightarrow> source io_result" where
  "source_checked end s = rbind (to_u64 (src_next s)) (\<lambda>next.
     if \<not> src_awaiting_check s \<or> src_active s \<noteq> None \<or> src_unacked s \<noteq> [] \<or> end \<noteq> next
     then Inl (invalid ''unexpected inventory check confirmation'')
     else Inr (s\<lparr>src_awaiting_check := False,
       src_progress := (src_progress s)\<lparr>cp_checked_records := unat end, cp_complete := \<not> src_more s\<rparr>\<rparr>))"

section \<open>One object from a source to a download\<close>

text \<open>
  The two sides in step: the receiver asks for the next offset, the source answers, the receiver appends
  the chunk and goes on until its object is complete. No rounds left is \<open>None\<close>.
\<close>

fun transfer :: "'r replication_storage \<Rightarrow> 'r \<Rightarrow> nat \<Rightarrow> source \<Rightarrow> download \<Rightarrow> (source \<times> download) io_result option" where
  "transfer ops r 0 s d = None"
| "transfer ops r (Suc n) s d =
     (case rbind (object_need (dl_object d) (length (dl_bytes d))) (\<lambda>need.
        rbind (source_need ops (Object (need_record need) (need_blob need)) (need_offset need) r s) (\<lambda>(reply, s').
        case reply of
          Chunk record blob offset tot bs \<Rightarrow> rbind (download_append (Object record blob) offset tot bs d) (\<lambda>out. Inr (s', out))
        | _ \<Rightarrow> Inl (invalid ''unsolicited missing response''))) of
        Inl e \<Rightarrow> Some (Inl e)
      | Inr (s', True, d') \<Rightarrow> Some (Inr (s', d'))
      | Inr (s', False, d') \<Rightarrow> transfer ops r n s' d')"

lemmas object_limits = MAX_OBJECT_BYTES_def CHUNK_BYTES_def

text \<open>The source sends the bytes after the ones already sent, and closes the object with its last chunk.\<close>

lemma source_chunk_at:
  assumes "src_active s = Some (ob, bs, n)" and "n \<le> length bs" and "length bs \<le> MAX_OBJECT_BYTES"
  defines "m \<equiv> min (length bs) (n + CHUNK_BYTES)"
  shows "source_chunk ob n s = Inr (Chunk (obj_record ob) (obj_blob ob) (word_of_nat n) (word_of_nat (length bs)) (take (m - n) (drop n bs)),
    if m = length bs then s\<lparr>src_active := None, src_unacked := bs_insert ob (src_unacked s)\<rparr> else s\<lparr>src_active := Some (ob, bs, m)\<rparr>)"
proof -
  have "min (length bs - n) CHUNK_BYTES = m - n" "n \<le> m" using assms by (auto simp: m_def)
  moreover from this have "take CHUNK_BYTES (drop n bs) = take (m - n) (drop n bs)" by (metis length_drop min_def nle_le take_all)
  moreover have "sat_add 64 n (m - n) = m" using assms \<open>n \<le> m\<close> by (simp add: sat_add_def m_def object_limits)
  moreover have "to_u32 n = Inr (word_of_nat n)" "to_u32 (length bs) = Inr (word_of_nat (length bs))"
    using assms by (simp_all add: to_u32_def u32_try_from_def object_limits)
  ultimately show ?thesis using assms(1,2) by (simp add: source_chunk_def slice_from_def Let_def)
qed

lemma download_append_at:
  assumes "dl_bytes d = take n bs" and "n \<le> m" "m \<le> length bs" "m \<le> n + CHUNK_BYTES" and "length bs \<le> MAX_OBJECT_BYTES"
    and "n < m \<or> bs = []" and "dl_total d = None \<or> dl_total d = Some (length bs)" and "dl_object d = ob"
  shows "download_append ob (word_of_nat n) (word_of_nat (length bs)) (take (m - n) (drop n bs)) d
    = Inr (m = length bs, d\<lparr>dl_total := Some (length bs), dl_bytes := take m bs\<rparr>)"
proof -
  have "take n bs @ take (m - n) (drop n bs) = take m bs"
    using assms(2) by (metis le_add_diff_inverse take_add)
  moreover have "unat (word_of_nat n :: u32) = n" "unat (word_of_nat (length bs) :: u32) = length bs"
    using assms by (simp_all add: unat_of_nat take_bit_nat_eq_self object_limits)
  moreover have "checked_add 64 n (m - n) = Some m" using assms by (simp add: checked_add_def object_limits)
  ultimately show ?thesis using assms by (auto simp: download_append_def)
qed

lemma need_at: "n \<le> MAX_OBJECT_BYTES \<Longrightarrow> object_need ob n = Inr (Need (obj_record ob) (obj_blob ob) (word_of_nat n))"
  by (simp add: object_need_def to_u32_def u32_try_from_def object_limits)

text \<open>A source that can serve the bytes of an object from an offset on.\<close>

definition serves :: "'r replication_storage \<Rightarrow> 'r \<Rightarrow> source \<Rightarrow> object \<Rightarrow> bytes \<Rightarrow> nat \<Rightarrow> bool" where
  "serves ops r s ob bs n \<longleftrightarrow> src_awaiting_check s \<and> length bs \<le> MAX_OBJECT_BYTES
     \<and> (if n = 0 then source_begin ops ob r s = Inr (Some bs) else n < length bs \<and> src_active s = Some (ob, bs, n))"

lemma source_need_at:
  assumes "serves ops r s ob bs n"
  shows "source_need ops ob (word_of_nat n) r s = source_chunk ob n (s\<lparr>src_active := Some (ob, bs, n)\<rparr>)"
proof (cases "n = 0")
  case True
  then show ?thesis using assms by (simp add: serves_def source_need_def)
next
  case False
  then have "unat (word_of_nat n :: u32) = n" using assms by (simp add: serves_def object_limits)
  moreover from this False have "(word_of_nat n :: u32) \<noteq> 0" by (metis unat_0)
  moreover have "s\<lparr>src_active := Some (ob, bs, n)\<rparr> = s" using assms False by (simp add: serves_def)
  ultimately show ?thesis using assms by (simp add: source_need_def serves_def)
qed

lemma transfer_completes:
  assumes "serves ops r s ob bs n" and "dl_object d = ob" "dl_bytes d = take n bs" and "dl_total d = None \<or> dl_total d = Some (length bs)"
    and "0 < k" and "length bs \<le> n + k * CHUNK_BYTES"
  shows "transfer ops r k s d = Some (Inr (s\<lparr>src_active := None, src_unacked := bs_insert ob (src_unacked s)\<rparr>,
    d\<lparr>dl_total := Some (length bs), dl_bytes := bs\<rparr>))"
  using assms
proof (induction k arbitrary: s d n)
  case (Suc k)
  let ?m = "min (length bs) (n + CHUNK_BYTES)" and ?d = "\<lambda>m. d\<lparr>dl_total := Some (length bs), dl_bytes := take m bs\<rparr>"
  have n: "n \<le> length bs" "n < length bs \<or> bs = []" "length bs \<le> MAX_OBJECT_BYTES" "length (dl_bytes d) = n" "n \<le> MAX_OBJECT_BYTES"
    using Suc.prems(1,3) by (auto simp: serves_def split: if_splits)
  have "transfer ops r (Suc k) s d = (if ?m = length bs
      then Some (Inr (s\<lparr>src_active := None, src_unacked := bs_insert ob (src_unacked s)\<rparr>, ?d (length bs)))
      else transfer ops r k (s\<lparr>src_active := Some (ob, bs, ?m)\<rparr>) (?d ?m))"
    using n need_at [of n ob] source_need_at [OF Suc.prems(1)] source_chunk_at [of "s\<lparr>src_active := Some (ob, bs, n)\<rparr>" ob bs n]
      download_append_at [OF Suc.prems(3), of ?m ob] Suc.prems(2,4)
    by (simp add: CHUNK_BYTES_def)
  moreover have "transfer ops r k (s\<lparr>src_active := Some (ob, bs, ?m)\<rparr>) (?d ?m)
      = Some (Inr (s\<lparr>src_active := None, src_unacked := bs_insert ob (src_unacked s)\<rparr>, ?d (length bs)))" if "?m \<noteq> length bs"
  proof -
    have "serves ops r (s\<lparr>src_active := Some (ob, bs, ?m)\<rparr>) ob bs ?m" and "length bs \<le> ?m + k * CHUNK_BYTES" and "0 < k"
      using that Suc.prems(1,6) by (auto simp: serves_def CHUNK_BYTES_def)
    from Suc.IH [OF this(1) _ _ _ this(3,2), of "?d ?m"] show ?thesis using Suc.prems(2) by simp
  qed
  ultimately show ?case by simp
qed simp

text \<open>
  C40. An object arrives exactly as it was offered. A source that begins to serve an object and a
  download that asks for one chunk after another complete it in one round for each started chunk, at
  least one, with exactly the bytes of the object and no error; the source then waits for its
  acknowledgment, which brings it back to the state before the transfer.
\<close>

theorem object_transfer_exact:
  assumes "src_awaiting_check s" "source_begin ops ob r s = Inr (Some bs)" "length bs \<le> MAX_OBJECT_BYTES" "increasing (src_unacked s)"
  shows "\<exists>s'. transfer ops r (length bs div CHUNK_BYTES + 1) s (download_new ob) =
      Some (Inr (s', \<lparr>dl_object = ob, dl_bytes = bs, dl_total = Some (length bs)\<rparr>))
    \<and> src_active s' = None \<and> ob \<in> set (src_unacked s') \<and> source_ack ob s' = Inr s"
proof -
  have idle: "src_active s = None" "ob \<notin> set (src_unacked s)"
    using assms(2) unfolding source_begin_def by (cases "src_active s"; simp split: if_splits)+
  have "length bs \<le> (length bs div CHUNK_BYTES + 1) * CHUNK_BYTES"
    using div_mult_mod_eq [of "length bs" CHUNK_BYTES] mod_less_divisor [of CHUNK_BYTES "length bs"] by (simp add: CHUNK_BYTES_def)
  then have "transfer ops r (length bs div CHUNK_BYTES + 1) s (download_new ob) =
      Some (Inr (s\<lparr>src_active := None, src_unacked := bs_insert ob (src_unacked s)\<rparr>, \<lparr>dl_object = ob, dl_bytes = bs, dl_total = Some (length bs)\<rparr>))"
    using transfer_completes [of ops r s ob bs 0 "download_new ob" "length bs div CHUNK_BYTES + 1"] assms
    by (simp add: serves_def download_new_def)
  moreover have "bs_remove ob (bs_insert ob (src_unacked s)) = src_unacked s"
    using assms(4) idle(2) increasing_unique [OF increasing_bs_remove [OF increasing_bs_insert [OF assms(4)]] assms(4)] by simp
  ultimately show ?thesis using idle assms(4) by (auto simp: source_ack_def)
qed

text \<open>A page of one record whose object is longer than a chunk.\<close>

definition long_key :: record_key where
  "long_key = RecordKey (OpId [1]) [9]"

definition long_source :: source where
  "long_source = source_default\<lparr>src_snapshot := Some (snapshot_default\<lparr>sn_records := [(long_key, replicate 100000 7)]\<rparr>),
     src_awaiting_check := True\<rparr>"

theorem object_transfer_exact_witness:
  "\<forall>(ops :: unit replication_storage). \<exists>s'. transfer ops () 2 long_source (download_new (Object long_key None)) =
      Some (Inr (s', \<lparr>dl_object = Object long_key None, dl_bytes = replicate 100000 7, dl_total = Some 100000\<rparr>))
    \<and> source_ack (Object long_key None) s' = Inr long_source"
proof
  fix ops :: "unit replication_storage"
  have "source_begin ops (Object long_key None) () long_source = Inr (Some (replicate 100000 7))"
    by (simp add: source_begin_def long_source_def source_default_def INVENTORY_PAGE_def sn_record_def)
  moreover have "src_awaiting_check long_source" "increasing (src_unacked long_source)"
    by (simp_all add: long_source_def source_default_def)
  moreover have rounds: "length (replicate 100000 (7 :: u8)) div CHUNK_BYTES + 1 = 2" and "length (replicate 100000 (7 :: u8)) \<le> MAX_OBJECT_BYTES"
    by (simp_all add: object_limits)
  ultimately show "\<exists>s'. transfer ops () 2 long_source (download_new (Object long_key None)) =
      Some (Inr (s', \<lparr>dl_object = Object long_key None, dl_bytes = replicate 100000 7, dl_total = Some 100000\<rparr>))
    \<and> source_ack (Object long_key None) s' = Inr long_source"
    using object_transfer_exact [of long_source ops "Object long_key None" "()" "replicate 100000 7", unfolded rounds]
    unfolding length_replicate by blast
qed

end
