(* ===== verification/SyncSession.thy ===== *)
theory SyncSession
  imports ObjectTransfer
begin

text \<open>
  Pull-based reconciliation (\<open>editchain-sync/src/session.rs\<close>): the state machine of one
  authenticated peer, over any \<open>ReplicationStorage\<close>. Every operation returns its result with the
  session after it, also on errors, because the storage and the reported progress outlive a failed
  session. The vector of replies that the sources pass by reference is the returned list, which is
  dropped on errors as in the sources. Queues are lists with their front first.
\<close>

section \<open>State\<close>

record pull =
  pl_waiting_page :: bool
  pl_position :: nat
  pl_after :: "record_key option"
  pl_more :: bool
  pl_keys :: "record_key list"
  pl_records :: "record_key list"
  pl_blobs :: "object list"
  pl_tried :: "object btree_set"
  pl_staged :: "(record_key \<times> bytes) list"
  pl_staged_bytes :: nat
  pl_download :: "download option"

definition pull_default :: pull where
  "pull_default = \<lparr>pl_waiting_page = False, pl_position = 0, pl_after = None, pl_more = False, pl_keys = [],
     pl_records = [], pl_blobs = [], pl_tried = [], pl_staged = [], pl_staged_bytes = 0, pl_download = None\<rparr>"

record 'r sync_session =
  ss_replica :: 'r
  ss_source :: source
  ss_local :: snapshot
  ss_pull :: pull
  ss_progress :: progress
  ss_failed :: bool

definition BATCH_BYTES :: nat where "BATCH_BYTES = 4 * 1024 * 1024"

definition session_new :: "'r \<Rightarrow> 'r sync_session" where
  "session_new r = \<lparr>ss_replica = r, ss_source = source_default, ss_local = snapshot_default, ss_pull = pull_default,
     ss_progress = progress_default, ss_failed = False\<rparr>"

definition session_hello :: "'r replication_storage \<Rightarrow> 'r sync_session \<Rightarrow> peer_message" where
  "session_hello ops s = Hello PEER_VERSION 1 (rs_namespace ops (ss_replica s))"

text \<open>The updates the operations make.\<close>

abbreviation upd_pull :: "(pull \<Rightarrow> pull) \<Rightarrow> 'r sync_session \<Rightarrow> 'r sync_session" where
  "upd_pull f s \<equiv> s\<lparr>ss_pull := f (ss_pull s)\<rparr>"

abbreviation upd_progress :: "(progress \<Rightarrow> progress) \<Rightarrow> 'r sync_session \<Rightarrow> 'r sync_session" where
  "upd_progress f s \<equiv> s\<lparr>ss_progress := f (ss_progress s)\<rparr>"

section \<open>The receiving side\<close>

definition update_work :: "'r sync_session \<Rightarrow> unit io_result \<times> 'r sync_session" where
  "update_work s =
     (let pl = ss_pull s;
          downloading = map_option dl_object (pl_download pl);
          s1 = upd_progress (\<lambda>p. p\<lparr>pr_outgoing := src_progress (ss_source s)\<rparr>) s in
      case to_u64 (sat_add 64 (sat_add 64 (length (pl_records pl)) (length (pl_staged pl)))
             (of_bool (case downloading of None \<Rightarrow> False | Some ob \<Rightarrow> obj_blob ob = None))) of
        Inl e \<Rightarrow> (Inl e, s1)
      | Inr n \<Rightarrow>
          let s2 = upd_progress (\<lambda>p. p\<lparr>pr_pending_records := unat n\<rparr>) s1 in
          case to_u64 (sat_add 64 (length (pl_blobs pl)) (of_bool (case downloading of None \<Rightarrow> False | Some ob \<Rightarrow> obj_blob ob \<noteq> None))) of
            Inl e \<Rightarrow> (Inl e, s2)
          | Inr m \<Rightarrow>
              let s3 = upd_progress (\<lambda>p. p\<lparr>pr_pending_blobs := unat m\<rparr>) s2 in
              case pl_download pl of
                None \<Rightarrow> (Inr (), upd_progress (\<lambda>p. p\<lparr>pr_download := None\<rparr>) s3)
              | Some d \<Rightarrow> (case download_progress_of d of
                    Inl e \<Rightarrow> (Inl e, s3)
                  | Inr dp \<Rightarrow> (Inr (), upd_progress (\<lambda>p. p\<lparr>pr_download := Some dp\<rparr>) s3)))"

definition start_round :: "'r replication_storage \<Rightarrow> 'r sync_session \<Rightarrow> peer_message list io_result \<times> 'r sync_session" where
  "start_round ops s = (case rs_ensure_scope ops (ss_replica s) of
       Inl e \<Rightarrow> (Inl e, s)
     | Inr _ \<Rightarrow>
         if \<not> pr_accepted (ss_progress s) \<or> pr_synchronizing (ss_progress s) then (Inr [], s)
         else (case rs_receiving_snapshot ops (ss_replica s) of
             (Inl e, r') \<Rightarrow> (Inl e, s\<lparr>ss_replica := r'\<rparr>)
           | (Inr local, r') \<Rightarrow>
               sbind (update_work (upd_progress (\<lambda>p. p\<lparr>pr_synchronizing := True, pr_unavailable := 0,
                   pr_incoming := check_default\<lparr>cp_pass := sat_add 64 (pr_rounds p) 1\<rparr>\<rparr>)
                   (s\<lparr>ss_replica := r', ss_local := local, ss_pull := pull_default\<lparr>pl_waiting_page := True\<rparr>\<rparr>)))
                 (\<lambda>_ s'. (Inr [Inventory None], s'))))"

definition ensure_open :: "'r sync_session \<Rightarrow> unit io_result" where
  "ensure_open s = (if ss_failed s then Inl (invalid ''failed replication session; reconnect'') else Inr ())"

definition mark_failed :: "'a io_result \<times> 'r sync_session \<Rightarrow> 'a io_result \<times> 'r sync_session" where
  "mark_failed m = (fst m, (snd m)\<lparr>ss_failed := isl (fst m)\<rparr>)"

definition session_tick :: "'r replication_storage \<Rightarrow> 'r sync_session \<Rightarrow> peer_message list io_result \<times> 'r sync_session" where
  "session_tick ops s = (case ensure_open s of Inl e \<Rightarrow> (Inl e, s) | Inr _ \<Rightarrow> mark_failed (start_round ops s))"

definition MAX_SAFE_TOTAL :: nat where "MAX_SAFE_TOTAL = 9007199254740991"

definition session_page :: "u64 \<Rightarrow> u64 \<Rightarrow> record_key list \<Rightarrow> bool \<Rightarrow> 'r sync_session \<Rightarrow> unit io_result \<times> 'r sync_session" where
  "session_page offset tot recs mo s =
     (let pl = ss_pull s in
      if \<not> pl_waiting_page pl \<or> length recs > INVENTORY_PAGE \<or> (mo \<and> recs = [])
      then (Inl (invalid ''unsolicited or oversized inventory page''), s)
      else if unat offset \<noteq> pl_position pl \<or> length (bs_extend recs []) \<noteq> length recs
      then (Inl (invalid ''invalid inventory position or duplicate keys''), s)
      else case checked_add 64 (unat offset) (length recs) of
          None \<Rightarrow> (Inl (invalid ''inventory position overflow''), s)
        | Some end \<Rightarrow>
            if unat tot > MAX_SAFE_TOTAL \<or> end > unat tot \<or> mo \<noteq> (end < unat tot)
              \<or> (case cp_total_records (pr_incoming (ss_progress s)) of None \<Rightarrow> False | Some known \<Rightarrow> known \<noteq> unat tot)
            then (Inl (invalid ''inconsistent inventory total''), s)
            else (Inr (), upd_progress (\<lambda>p. p\<lparr>pr_incoming := (pr_incoming p)\<lparr>cp_total_records := Some (unat tot)\<rparr>\<rparr>)
              (upd_pull (\<lambda>pl. pl\<lparr>pl_position := end, pl_after := last_opt recs, pl_waiting_page := False, pl_more := mo,
                 pl_records := filter (\<lambda>key. \<not> sn_contains (ss_local s) key) recs, pl_keys := recs, pl_tried := []\<rparr>) s)))"

definition acknowledge :: "object \<Rightarrow> 'r sync_session \<Rightarrow> unit io_result \<times> 'r sync_session" where
  "acknowledge ob s = (case source_ack ob (ss_source s) of
       Inl e \<Rightarrow> (Inl e, s)
     | Inr src \<Rightarrow> (Inr (), upd_progress (\<lambda>p. if obj_blob ob \<noteq> None then p\<lparr>pr_sent_blobs := sat_add 64 (pr_sent_blobs p) 1\<rparr>
         else p\<lparr>pr_sent_records := sat_add 64 (pr_sent_records p) 1\<rparr>) (s\<lparr>ss_source := src\<rparr>)))"

definition session_flush :: "'r replication_storage \<Rightarrow> 'r sync_session \<Rightarrow> peer_message list io_result \<times> 'r sync_session" where
  "session_flush ops s =
     (let staged = pl_staged (ss_pull s) in
      if staged = [] then (Inr [], s)
      else case rs_ingest_records ops staged (ss_local s) (ss_replica s) of
          (Inl e, sn', r') \<Rightarrow> (Inl e, s\<lparr>ss_local := sn', ss_replica := r'\<rparr>)
        | (Inr _, sn', r') \<Rightarrow>
            (Inr (map (\<lambda>(record, _). object_ack (Object record None)) staged),
             upd_progress (\<lambda>p. p\<lparr>pr_records := fold (\<lambda>_ n. sat_add 64 n 1) staged (pr_records p)\<rparr>)
               (upd_pull (\<lambda>pl. pl\<lparr>pl_staged := [], pl_staged_bytes := 0\<rparr>) (s\<lparr>ss_local := sn', ss_replica := r'\<rparr>))))"

text \<open>Stage a complete, verified record; a full batch is flushed.\<close>

definition stage_record :: "'r replication_storage \<Rightarrow> record_key \<Rightarrow> bytes \<Rightarrow> 'r sync_session \<Rightarrow> peer_message list io_result \<times> 'r sync_session" where
  "stage_record ops record bs s =
     sbind (if sat_add 64 (pl_staged_bytes (ss_pull s)) (length bs) > MAX_OBJECT_BYTES then session_flush ops s else (Inr [], s))
       (\<lambda>acks s1.
          let s2 = upd_pull (\<lambda>pl. pl\<lparr>pl_staged_bytes := sat_add 64 (pl_staged_bytes pl) (length bs),
                 pl_staged := pl_staged pl @ [(record, bs)]\<rparr>) s1 in
          if pl_staged_bytes (ss_pull s2) \<ge> BATCH_BYTES
          then sbind (session_flush ops s2) (\<lambda>acks' s3. (Inr (acks @ acks'), s3))
          else (Inr acks, s2))"

definition session_complete :: "derive_key \<Rightarrow> postcard \<Rightarrow> blake3 \<Rightarrow> 'r replication_storage \<Rightarrow> 'r sync_session
    \<Rightarrow> peer_message list io_result \<times> 'r sync_session" where
  "session_complete dk pc b3 ops s =
     (case pl_download (ss_pull s) of
        None \<Rightarrow> (Inl (invalid ''missing completed transfer''), s)
      | Some d \<Rightarrow>
          let s0 = upd_pull (\<lambda>pl. pl\<lparr>pl_download := None\<rparr>) s in
          case obj_blob (dl_object d) of
            Some hash \<Rightarrow>
              (case rs_ingest_blob ops (obj_record (dl_object d)) hash (dl_bytes d) (ss_replica s0) of
                 (Inl e, r') \<Rightarrow> (Inl e, s0\<lparr>ss_replica := r'\<rparr>)
               | (Inr _, r') \<Rightarrow>
                   (Inr [object_ack (dl_object d)],
                    upd_progress (\<lambda>p. p\<lparr>pr_blobs := sat_add 64 (pr_blobs p) 1\<rparr>)
                      (s0\<lparr>ss_replica := r', ss_local := received_blob hash (ss_local s0)\<rparr>)))
          | None \<Rightarrow>
              (case key_from_encoded dk pc b3 (dl_bytes d) of
                 Inl e \<Rightarrow> (Inl e, s0)
               | Inr key \<Rightarrow>
                   if key \<noteq> obj_record (dl_object d) then (Inl (invalid ''received record digest or identity mismatch''), s0)
                   else stage_record ops (obj_record (dl_object d)) (dl_bytes d) s0))"

text \<open>Confirm or queue the content of one page: the hashes of one record, then all its records.\<close>

fun confirm_hashes :: "'r replication_storage \<Rightarrow> record_key \<Rightarrow> bytes list \<Rightarrow> 'r sync_session \<Rightarrow> unit io_result \<times> 'r sync_session" where
  "confirm_hashes ops key [] s = (Inr (), s)"
| "confirm_hashes ops key (hash # hashes) s =
     (let ob = Object key (Some hash) in
      if ob \<in> set (pl_tried (ss_pull s)) then confirm_hashes ops key hashes s
      else
        let s1 = upd_pull (\<lambda>pl. pl\<lparr>pl_tried := bs_insert ob (pl_tried pl)\<rparr>) s in
        case rs_confirm_blob ops (ss_local s1) key hash (ss_replica s1) of
          (Inl e, r') \<Rightarrow> (Inl e, s1\<lparr>ss_replica := r'\<rparr>)
        | (Inr present, r') \<Rightarrow>
            confirm_hashes ops key hashes
              (let s2 = s1\<lparr>ss_replica := r'\<rparr> in
               if present then s2 else upd_pull (\<lambda>pl. pl\<lparr>pl_blobs := pl_blobs pl @ [ob]\<rparr>) s2))"

fun find_blobs :: "'r replication_storage \<Rightarrow> record_key list \<Rightarrow> 'r sync_session \<Rightarrow> unit io_result \<times> 'r sync_session" where
  "find_blobs ops [] s = (Inr (), s)"
| "find_blobs ops (key # keys) s = (case rs_blob_hashes ops (ss_local s) key (ss_replica s) of
       Inl e \<Rightarrow> (Inl e, s)
     | Inr hashes \<Rightarrow>
         if length hashes > 4096 then (Inl (invalid ''record content-reference limit exceeded''), s)
         else sbind (confirm_hashes ops key hashes s) (\<lambda>_ s'. find_blobs ops keys s'))"

definition session_download :: "object \<Rightarrow> 'r sync_session \<Rightarrow> peer_message list io_result \<times> 'r sync_session" where
  "session_download ob s = (case object_need ob 0 of
       Inl e \<Rightarrow> (Inl e, s)
     | Inr need \<Rightarrow> (Inr [need], upd_pull (\<lambda>pl. pl\<lparr>pl_download := Some (download_new ob)\<rparr>) s))"

definition finish_page :: "'r sync_session \<Rightarrow> peer_message list io_result \<times> 'r sync_session" where
  "finish_page s =
     (let pl = ss_pull s;
          s1 = upd_progress (\<lambda>p. p\<lparr>pr_incoming := (pr_incoming p)\<lparr>cp_checked_records := pl_position pl\<rparr>\<rparr>) s;
          checked = Checked (word_of_nat (pl_position pl)) in
      if pl_more pl
      then (Inr [checked, Inventory (pl_after pl)], upd_pull (\<lambda>pl. pl\<lparr>pl_waiting_page := True\<rparr>) s1)
      else (Inr [checked], upd_progress (\<lambda>p. p\<lparr>pr_synchronizing := False, pr_rounds := sat_add 64 (pr_rounds p) 1,
              pr_incoming := (pr_incoming p)\<lparr>cp_complete := True\<rparr>\<rparr>) s1))"

definition next_blob :: "'r sync_session \<Rightarrow> peer_message list io_result \<times> 'r sync_session" where
  "next_blob s = (case pl_blobs (ss_pull s) of
       ob # obs \<Rightarrow> session_download ob (upd_pull (\<lambda>pl. pl\<lparr>pl_blobs := obs\<rparr>) s)
     | [] \<Rightarrow> finish_page s)"

definition session_advance :: "'r replication_storage \<Rightarrow> 'r sync_session \<Rightarrow> peer_message list io_result \<times> 'r sync_session" where
  "session_advance ops s = (case pl_records (ss_pull s) of
       key # keys \<Rightarrow> session_download (Object key None) (upd_pull (\<lambda>pl. pl\<lparr>pl_records := keys\<rparr>) s)
     | [] \<Rightarrow>
         sbind (session_flush ops s) (\<lambda>acks s1.
         sbind (if pl_blobs (ss_pull s1) = [] then find_blobs ops (pl_keys (ss_pull s1)) s1 else (Inr (), s1)) (\<lambda>_ s2.
         sbind (next_blob s2) (\<lambda>msgs s3. (Inr (acks @ msgs), s3)))))"

section \<open>Messages\<close>

definition lift_source :: "'r sync_session \<Rightarrow> (peer_message \<times> source) io_result \<Rightarrow> peer_message list io_result \<times> 'r sync_session" where
  "lift_source s m = (case m of Inl e \<Rightarrow> (Inl e, s) | Inr (reply, src) \<Rightarrow> (Inr [reply], s\<lparr>ss_source := src\<rparr>))"

definition handle_chunk :: "derive_key \<Rightarrow> postcard \<Rightarrow> blake3 \<Rightarrow> 'r replication_storage \<Rightarrow> object \<Rightarrow> u32 \<Rightarrow> u32 \<Rightarrow> bytes
    \<Rightarrow> 'r sync_session \<Rightarrow> peer_message list io_result \<times> 'r sync_session" where
  "handle_chunk dk pc b3 ops ob offset tot bs s = (case pl_download (ss_pull s) of
       None \<Rightarrow> (Inl (invalid ''unsolicited object chunk''), s)
     | Some d \<Rightarrow> (case download_append ob offset tot bs d of
           Inl e \<Rightarrow> (Inl e, s)
         | Inr (done, d') \<Rightarrow>
             let s1 = upd_pull (\<lambda>pl. pl\<lparr>pl_download := Some d'\<rparr>) s in
             if done then
               sbind (session_complete dk pc b3 ops s1) (\<lambda>acks s2.
               sbind (session_advance ops s2) (\<lambda>msgs s3. (Inr (acks @ msgs), s3)))
             else (case object_need (dl_object d') (length (dl_bytes d')) of
                 Inl e \<Rightarrow> (Inl e, s1) | Inr need \<Rightarrow> (Inr [need], s1))))"

definition handle_missing :: "'r replication_storage \<Rightarrow> object \<Rightarrow> 'r sync_session \<Rightarrow> peer_message list io_result \<times> 'r sync_session" where
  "handle_missing ops ob s = (case pl_download (ss_pull s) of
       None \<Rightarrow> (Inl (invalid ''unsolicited missing response''), s)
     | Some d \<Rightarrow>
         let s1 = upd_pull (\<lambda>pl. pl\<lparr>pl_download := None\<rparr>) s in
         if dl_object d \<noteq> ob \<or> obj_blob ob = None \<or> dl_bytes d \<noteq> []
         then (Inl (invalid ''missing response for a different or partial object''), s1)
         else session_advance ops (upd_progress (\<lambda>p.
                let n = sat_add 64 (pr_unavailable p) 1 in
                p\<lparr>pr_unavailable := n, pr_incoming := (pr_incoming p)\<lparr>cp_unavailable := n\<rparr>\<rparr>) s1))"

definition handle_message :: "derive_key \<Rightarrow> postcard \<Rightarrow> blake3 \<Rightarrow> 'r replication_storage \<Rightarrow> peer_message \<Rightarrow> 'r sync_session
    \<Rightarrow> peer_message list io_result \<times> 'r sync_session" where
  "handle_message dk pc b3 ops m s = (case m of
       Hello _ _ _ \<Rightarrow> (Inl (invalid ''duplicate peer hello''), s)
     | Inventory after \<Rightarrow>
         let (res, r') = source_inventory dk pc ops after (ss_replica s) (ss_source s) in
         lift_source (s\<lparr>ss_replica := r'\<rparr>) res
     | Need record blob offset \<Rightarrow> lift_source s (source_need ops (Object record blob) offset (ss_replica s) (ss_source s))
     | Ack record blob \<Rightarrow> sbind (acknowledge (Object record blob) s) (\<lambda>_ s'. (Inr [], s'))
     | Checked end \<Rightarrow> (case source_checked end (ss_source s) of
           Inl e \<Rightarrow> (Inl e, s) | Inr src \<Rightarrow> (Inr [], s\<lparr>ss_source := src\<rparr>))
     | Page offset tot recs mo \<Rightarrow>
         sbind (session_page offset tot recs mo s) (\<lambda>_ s'. session_advance ops s')
     | Chunk record blob offset tot bs \<Rightarrow> handle_chunk dk pc b3 ops (Object record blob) offset tot bs s
     | Missing record blob \<Rightarrow> handle_missing ops (Object record blob) s)"

definition session_process :: "derive_key \<Rightarrow> postcard \<Rightarrow> blake3 \<Rightarrow> 'r replication_storage \<Rightarrow> peer_message \<Rightarrow> 'r sync_session
    \<Rightarrow> peer_message list io_result \<times> 'r sync_session" where
  "session_process dk pc b3 ops m s = (case rs_ensure_scope ops (ss_replica s) of
       Inl e \<Rightarrow> (Inl e, s)
     | Inr _ \<Rightarrow>
         if \<not> pr_accepted (ss_progress s) then
           if (case m of Hello version encoding _ \<Rightarrow> version \<noteq> PEER_VERSION \<or> encoding \<noteq> 1 | _ \<Rightarrow> False)
           then (Inl (IoError Unsupported ''incompatible peer protocol''), s)
           else if m \<noteq> session_hello ops s then (Inl (invalid ''peer version, encoding or space mismatch''), s)
           else session_tick ops (upd_progress (\<lambda>p. p\<lparr>pr_accepted := True\<rparr>) s)
         else
           sbind (handle_message dk pc b3 ops m s) (\<lambda>replies s1.
           sbind (update_work s1) (\<lambda>_ s2. (Inr replies, s2))))"

definition session_receive :: "derive_key \<Rightarrow> postcard \<Rightarrow> blake3 \<Rightarrow> 'r replication_storage \<Rightarrow> peer_message \<Rightarrow> 'r sync_session
    \<Rightarrow> peer_message list io_result \<times> 'r sync_session" where
  "session_receive dk pc b3 ops m s = (case ensure_open s of
       Inl e \<Rightarrow> (Inl e, s) | Inr _ \<Rightarrow> mark_failed (session_process dk pc b3 ops m s))"

definition into_storage :: "'r sync_session \<Rightarrow> 'r" where
  "into_storage s = ss_replica s"


text \<open>
  A history of a session: what its driver calls, and all the messages the calls return. A call that
  fails returns none; the driver may go on calling.
\<close>

datatype session_event = TickEvent | ReceiveEvent peer_message

definition session_step :: "derive_key \<Rightarrow> postcard \<Rightarrow> blake3 \<Rightarrow> 'r replication_storage \<Rightarrow> session_event \<Rightarrow> 'r sync_session
    \<Rightarrow> peer_message list io_result \<times> 'r sync_session" where
  "session_step dk pc b3 ops e s = (case e of TickEvent \<Rightarrow> session_tick ops s | ReceiveEvent m \<Rightarrow> session_receive dk pc b3 ops m s)"

fun session_run :: "derive_key \<Rightarrow> postcard \<Rightarrow> blake3 \<Rightarrow> 'r replication_storage \<Rightarrow> session_event list \<Rightarrow> 'r sync_session
    \<Rightarrow> peer_message list \<times> 'r sync_session" where
  "session_run dk pc b3 ops [] s = ([], s)"
| "session_run dk pc b3 ops (e # es) s = (case session_step dk pc b3 ops e s of
       (Inl _, s') \<Rightarrow> session_run dk pc b3 ops es s'
     | (Inr ms, s') \<Rightarrow> apfst ((@) ms) (session_run dk pc b3 ops es s'))"

section \<open>Acknowledgments\<close>

text \<open>What a message claims of the storage: an acknowledgment names something durable.\<close>

definition ack_ok :: "(record_key \<times> bytes) set \<Rightarrow> bytes set \<Rightarrow> peer_message \<Rightarrow> bool" where
  "ack_ok D B m = (case m of
     Ack k None \<Rightarrow> k \<in> fst ` D
   | Ack k (Some h) \<Rightarrow> h \<in> B
   | _ \<Rightarrow> True)"

text \<open>Every record of the current page is in the local snapshot or on its way there.\<close>

definition covered :: "record_key set \<Rightarrow> 'r sync_session \<Rightarrow> bool" where
  "covered X s \<longleftrightarrow> (\<forall>k\<in>set (pl_keys (ss_pull s)). k \<in> X \<or> sn_contains (ss_local s) k
     \<or> k \<in> set (pl_records (ss_pull s)) \<or> k \<in> fst ` set (pl_staged (ss_pull s))
     \<or> map_option dl_object (pl_download (ss_pull s)) = Some (Object k None))"

text \<open>The parts of a pull that a flush leaves alone.\<close>

definition same_queue :: "'r sync_session \<Rightarrow> 'r sync_session \<Rightarrow> bool" where
  "same_queue s s' \<longleftrightarrow> (let f = \<lambda>s. (ss_pull s)\<lparr>pl_staged := [], pl_staged_bytes := 0\<rparr> in f s = f s')"

lemma same_queue_parts:
  assumes "same_queue s s'"
  shows "pl_waiting_page (ss_pull s') = pl_waiting_page (ss_pull s)" "pl_position (ss_pull s') = pl_position (ss_pull s)"
    "pl_after (ss_pull s') = pl_after (ss_pull s)" "pl_more (ss_pull s') = pl_more (ss_pull s)"
    "pl_keys (ss_pull s') = pl_keys (ss_pull s)" "pl_records (ss_pull s') = pl_records (ss_pull s)"
    "pl_blobs (ss_pull s') = pl_blobs (ss_pull s)" "pl_tried (ss_pull s') = pl_tried (ss_pull s)"
    "pl_download (ss_pull s') = pl_download (ss_pull s)"
  using assms by (cases "ss_pull s"; cases "ss_pull s'"; simp add: same_queue_def Let_def)+

text \<open>Nothing in flight and no page awaited.\<close>

definition idle :: "'r sync_session \<Rightarrow> bool" where
  "idle s \<longleftrightarrow> pl_download (ss_pull s) = None \<and> \<not> pl_waiting_page (ss_pull s)"

lemma same_queue_idle: "same_queue s s' \<Longrightarrow> idle s \<Longrightarrow> idle s'"
  by (simp add: idle_def same_queue_parts)

lemma ack_ok_mono: "ack_ok D B m \<Longrightarrow> D \<subseteq> D' \<Longrightarrow> B \<subseteq> B' \<Longrightarrow> ack_ok D' B' m"
  by (auto simp: ack_ok_def image_iff split: peer_message.splits option.splits)

lemma received_blob_records [simp]: "sn_records (received_blob h sn) = sn_records sn"
  by (simp add: received_blob_def)

lemma snap_ok_received_blob [simp]: "snap_ok dk pc b3 (received_blob h sn) = snap_ok dk pc b3 sn"
  by (simp add: snap_ok_def)

lemma sn_contains_received_blob [simp]: "sn_contains (received_blob h sn) = sn_contains sn"
  by (simp add: sn_contains_def [abs_def])

lemma sn_contains_set: "sn_contains sn k \<longleftrightarrow> k \<in> fst ` set (sn_records sn)"
  by (auto simp: sn_contains_def map_of_eq_None_iff)

context replication_laws
begin

text \<open>
  The invariant of a session, without the records of \<open>X\<close>, and a step from a session: the storage
  only grows, and a successful result satisfies \<open>Q\<close>.
\<close>

definition sess_inv :: "record_key set \<Rightarrow> 'r sync_session \<Rightarrow> bool" where
  "sess_inv X s \<longleftrightarrow> inv (ss_replica s) \<and> snap_ok dk pc b3 (ss_local s) \<and> set (sn_records (ss_local s)) \<subseteq> dur (ss_replica s)
     \<and> covered X s \<and> (pl_waiting_page (ss_pull s) \<longrightarrow> pl_download (ss_pull s) = None)"

definition okr :: "'r sync_session \<Rightarrow> 'a io_result \<times> 'r sync_session \<Rightarrow> ('a \<Rightarrow> 'r sync_session \<Rightarrow> bool) \<Rightarrow> bool" where
  "okr s m Q \<longleftrightarrow> grows inv dur durb (ss_replica s) (ss_replica (snd m)) \<and> (\<forall>x. fst m = Inr x \<longrightarrow> Q x (snd m))"

definition acks_ok :: "peer_message list \<Rightarrow> 'r sync_session \<Rightarrow> bool" where
  "acks_ok ms s \<longleftrightarrow> (\<forall>m\<in>set ms. ack_ok (dur (ss_replica s)) (durb (ss_replica s)) m)"

lemma okr_return [simp]: "okr s (Inr x, s') Q \<longleftrightarrow> grows inv dur durb (ss_replica s) (ss_replica s') \<and> Q x s'"
  by (simp add: okr_def)

lemma okr_error [simp]: "okr s (Inl e, s') Q \<longleftrightarrow> grows inv dur durb (ss_replica s) (ss_replica s')"
  by (simp add: okr_def)

lemma okr_sbind:
  assumes "okr s m Q"
    and "\<And>x s1. Q x s1 \<Longrightarrow> grows inv dur durb (ss_replica s) (ss_replica s1) \<Longrightarrow> okr s1 (f x s1) R"
  shows "okr s (sbind m f) R"
proof (cases m)
  case (Pair res s1)
  then show ?thesis
    using assms grows_trans by (cases res) (auto simp: sbind_def okr_def)
qed

lemma okr_weaken: "okr s m Q \<Longrightarrow> (\<And>x s1. Q x s1 \<Longrightarrow> grows inv dur durb (ss_replica s) (ss_replica s1) \<Longrightarrow> R x s1) \<Longrightarrow> okr s m R"
  by (simp add: okr_def)

lemma okr_same_replica: "okr s m Q \<Longrightarrow> ss_replica s' = ss_replica s \<Longrightarrow> okr s' m Q"
  by (simp add: okr_def)

lemma acks_ok_mono: "acks_ok ms s \<Longrightarrow> grows inv dur durb (ss_replica s) (ss_replica s') \<Longrightarrow> acks_ok ms s'"
  unfolding acks_ok_def grows_def using ack_ok_mono by blast

lemma acks_ok_append [simp]: "acks_ok (ms @ ms') s \<longleftrightarrow> acks_ok ms s \<and> acks_ok ms' s"
  by (auto simp: acks_ok_def)

lemma sess_inv_grow:
  assumes "sess_inv X s" and "grows inv dur durb (ss_replica s) r'"
  shows "sess_inv X (s\<lparr>ss_replica := r'\<rparr>)"
  using assms by (auto simp: sess_inv_def grows_def covered_def)

lemma sess_inv_grows_refl: "sess_inv X s \<Longrightarrow> grows inv dur durb (ss_replica s) (ss_replica s)"
  by (simp add: sess_inv_def grows_refl)

lemma flush_ok:
  assumes "sess_inv X s"
  shows "okr s (session_flush ops s) (\<lambda>ms s'. sess_inv X s' \<and> acks_ok ms s' \<and> same_queue s s' \<and> pl_staged (ss_pull s') = []
    \<and> (\<forall>e. Checked e \<notin> set ms))"
proof (cases "pl_staged (ss_pull s) = []")
  case True
  then show ?thesis using assms sess_inv_grows_refl by (simp add: session_flush_def acks_ok_def same_queue_def)
next
  case False
  obtain res sn' r' where ing: "rs_ingest_records ops (pl_staged (ss_pull s)) (ss_local s) (ss_replica s) = (res, sn', r')"
    by (metis prod_cases3)
  note laws = ingest_laws [OF _ _ ing]
  have g: "grows inv dur durb (ss_replica s) r'" using laws assms by (simp add: sess_inv_def)
  show ?thesis
  proof (cases res)
    case (Inl e)
    then show ?thesis using False ing g by (simp add: session_flush_def)
  next
    case (Inr u)
    have new: "set (pl_staged (ss_pull s)) \<subseteq> dur r'" "snap_ok dk pc b3 sn'"
      "set (sn_records sn') = set (sn_records (ss_local s)) \<union> set (pl_staged (ss_pull s))"
      using laws assms Inr by (simp_all add: sess_inv_def)
    define s' where "s' = upd_progress (\<lambda>p. p\<lparr>pr_records := fold (\<lambda>_ n. sat_add 64 n 1) (pl_staged (ss_pull s)) (pr_records p)\<rparr>)
        (upd_pull (\<lambda>pl. pl\<lparr>pl_staged := [], pl_staged_bytes := 0\<rparr>) (s\<lparr>ss_local := sn', ss_replica := r'\<rparr>))"
    define acks where "acks = map (\<lambda>(record, _). object_ack (Object record None)) (pl_staged (ss_pull s))"
    have flush: "session_flush ops s = (Inr acks, s')"
      using False ing Inr by (simp add: session_flush_def s'_def acks_def Let_def)
    have "covered X s'"
      using assms new(3) unfolding sess_inv_def covered_def sn_contains_set s'_def by (auto simp: image_iff)
    moreover have "set (sn_records (ss_local s')) \<subseteq> dur (ss_replica s')"
      using assms new g by (auto simp: s'_def sess_inv_def grows_def)
    ultimately have "sess_inv X s'"
      using assms g new(2) by (simp add: sess_inv_def s'_def grows_def)
    moreover have "\<forall>(k, b)\<in>set (pl_staged (ss_pull s)). k \<in> fst ` dur r'" using new(1) by force
    then have "acks_ok acks s'"
      by (auto simp: acks_ok_def acks_def ack_ok_def object_ack_def s'_def)
    moreover have "same_queue s s'" "pl_staged (ss_pull s') = []" "ss_replica s' = r'" by (simp_all add: same_queue_def s'_def)
    moreover have "Checked e \<notin> set acks" for e by (auto simp: acks_def object_ack_def)
    ultimately show ?thesis unfolding flush using g by simp
  qed
qed

abbreviation quiet :: "record_key set \<Rightarrow> peer_message list \<Rightarrow> 'r sync_session \<Rightarrow> bool" where
  "quiet X ms s \<equiv> sess_inv X s \<and> acks_ok ms s \<and> idle s \<and> (\<forall>e. Checked e \<notin> set ms)"

lemma stage_ok:
  assumes "sess_inv {k} s" and "idle s"
  shows "okr s (stage_record ops k bs s) (quiet {})"
  unfolding stage_record_def
proof (rule okr_sbind [where Q = "quiet {k}"])
  have "okr s (session_flush ops s) (quiet {k})"
    by (rule okr_weaken [OF flush_ok [OF assms(1)]]) (use assms(2) same_queue_idle in blast)
  then show "okr s (if sat_add 64 (pl_staged_bytes (ss_pull s)) (length bs) > MAX_OBJECT_BYTES then session_flush ops s else (Inr [], s))
      (quiet {k})"
    using assms sess_inv_grows_refl by (simp add: acks_ok_def)
next
  fix acks s1 assume s1: "quiet {k} acks s1"
  let ?s2 = "upd_pull (\<lambda>pl. pl\<lparr>pl_staged_bytes := sat_add 64 (pl_staged_bytes pl) (length bs), pl_staged := pl_staged pl @ [(k, bs)]\<rparr>) s1"
  have s2: "sess_inv {} ?s2" using s1 by (auto simp: sess_inv_def covered_def)
  have "okr ?s2 (sbind (session_flush ops ?s2) (\<lambda>acks' s3. (Inr (acks @ acks'), s3))) (quiet {})"
  proof (rule okr_sbind [OF flush_ok [OF s2]])
    fix ms s3
    assume q: "sess_inv {} s3 \<and> acks_ok ms s3 \<and> same_queue ?s2 s3 \<and> pl_staged (ss_pull s3) = [] \<and> (\<forall>e. Checked e \<notin> set ms)"
      and g: "grows inv dur durb (ss_replica ?s2) (ss_replica s3)"
    then show "okr s3 (Inr (acks @ ms), s3) (quiet {})"
      using s1 acks_ok_mono [of acks s1 s3] sess_inv_grows_refl [of "{}" s3] same_queue_idle [of ?s2 s3]
      by (simp add: idle_def)
  qed
  then have "okr s1 (sbind (session_flush ops ?s2) (\<lambda>acks' s3. (Inr (acks @ acks'), s3))) (quiet {})"
    by (rule okr_same_replica) simp
  moreover have "okr s1 (Inr acks, ?s2) (quiet {})"
    using s1 s2 sess_inv_grows_refl [of "{k}" s1] by (simp add: acks_ok_def idle_def)
  ultimately show "okr s1 (let s2 = ?s2 in if pl_staged_bytes (ss_pull s2) \<ge> BATCH_BYTES
      then sbind (session_flush ops s2) (\<lambda>acks' s3. (Inr (acks @ acks'), s3)) else (Inr acks, s2)) (quiet {})"
    unfolding Let_def by presburger
qed

lemma complete_ok:
  assumes "sess_inv {} s" and "\<not> pl_waiting_page (ss_pull s)"
  shows "okr s (session_complete dk pc b3 ops s) (quiet {})"
proof (cases "pl_download (ss_pull s)")
  case None
  then show ?thesis using assms(1) sess_inv_grows_refl by (simp add: session_complete_def)
next
  case (Some d)
  let ?s0 = "upd_pull (\<lambda>pl. pl\<lparr>pl_download := None\<rparr>) s"
  show ?thesis
  proof (cases "obj_blob (dl_object d)")
    case None
    have "sess_inv {obj_record (dl_object d)} ?s0"
      using assms Some by (auto simp: sess_inv_def covered_def)
    then have "okr ?s0 (stage_record ops (obj_record (dl_object d)) (dl_bytes d) ?s0) (quiet {})"
      by (rule stage_ok) (use assms(2) in \<open>simp add: idle_def\<close>)
    then have "okr s (stage_record ops (obj_record (dl_object d)) (dl_bytes d) ?s0) (quiet {})"
      by (rule okr_same_replica) simp
    then show ?thesis
      using Some None sess_inv_grows_refl [OF assms(1)] by (simp add: session_complete_def Let_def split: sum.split)
  next
    case (Some h)
    obtain res r' where ing: "rs_ingest_blob ops (obj_record (dl_object d)) h (dl_bytes d) (ss_replica s) = (res, r')" by fastforce
    have laws: "grows inv dur durb (ss_replica s) r' \<and> (res = Inr () \<longrightarrow> h \<in> durb r')"
      using ingest_blob_laws [OF _ ing] assms by (simp add: sess_inv_def)
    have "covered {} ?s0" using assms \<open>pl_download (ss_pull s) = Some d\<close> Some
      by (fastforce simp: sess_inv_def covered_def)
    then have "covered {} (upd_progress f (?s0\<lparr>ss_replica := r', ss_local := received_blob h (ss_local s)\<rparr>))" for f
      by (simp add: covered_def)
    then show ?thesis
      using \<open>pl_download (ss_pull s) = Some d\<close> Some ing laws assms
      by (cases res)
        (auto simp: session_complete_def Let_def sess_inv_def grows_def acks_ok_def ack_ok_def object_ack_def idle_def)
  qed
qed

text \<open>Looking for content touches the storage, the tried objects and the queue of content.\<close>

lemma sess_inv_blobs:
  "sess_inv X (s\<lparr>ss_pull := (ss_pull s)\<lparr>pl_tried := f\<rparr>\<rparr>) = sess_inv X s"
  "sess_inv X (s\<lparr>ss_pull := (ss_pull s)\<lparr>pl_blobs := g\<rparr>\<rparr>) = sess_inv X s"
  by (simp_all add: sess_inv_def covered_def)

definition same_page :: "'r sync_session \<Rightarrow> 'r sync_session \<Rightarrow> bool" where
  "same_page s s' \<longleftrightarrow> pl_keys (ss_pull s') = pl_keys (ss_pull s) \<and> pl_records (ss_pull s') = pl_records (ss_pull s)
     \<and> pl_staged (ss_pull s') = pl_staged (ss_pull s) \<and> idle s' = idle s"

lemma confirm_hashes_ok:
  "sess_inv X s \<Longrightarrow> okr s (confirm_hashes ops k hs s) (\<lambda>_ s'. sess_inv X s' \<and> same_page s s')"
proof (induction hs arbitrary: s)
  case Nil
  then show ?case using sess_inv_grows_refl by (simp add: same_page_def)
next
  case (Cons h hs)
  show ?case
  proof (cases "Object k (Some h) \<in> set (pl_tried (ss_pull s))")
    case True
    then show ?thesis using Cons by simp
  next
    case False
    let ?s1 = "upd_pull (\<lambda>pl. pl\<lparr>pl_tried := bs_insert (Object k (Some h)) (pl_tried pl)\<rparr>) s"
    obtain res r' where conf: "rs_confirm_blob ops (ss_local s) k h (ss_replica s) = (res, r')" by fastforce
    have g: "grows inv dur durb (ss_replica s) r'"
      using confirm_laws [OF _ conf] Cons.prems by (simp add: sess_inv_def)
    show ?thesis
    proof (cases res)
      case (Inl e)
      then show ?thesis using False conf g by (simp add: Let_def)
    next
      case (Inr present)
      let ?s2 = "let s2 = ?s1\<lparr>ss_replica := r'\<rparr> in
        if present then s2 else upd_pull (\<lambda>pl. pl\<lparr>pl_blobs := pl_blobs pl @ [Object k (Some h)]\<rparr>) s2"
      have "sess_inv X ?s1" using Cons.prems by (simp only: sess_inv_blobs)
      then have "sess_inv X (?s1\<lparr>ss_replica := r'\<rparr>)" by (rule sess_inv_grow) (use g in simp)
      then have "sess_inv X ?s2" by (simp add: Let_def sess_inv_def covered_def)
      from Cons.IH [OF this]
      have "okr ?s2 (confirm_hashes ops k hs ?s2) (\<lambda>_ s'. sess_inv X s' \<and> same_page s s')"
        by (rule okr_weaken) (auto simp: same_page_def Let_def idle_def)
      then have "okr s (confirm_hashes ops k hs ?s2) (\<lambda>_ s'. sess_inv X s' \<and> same_page s s')"
        using g grows_trans by (auto simp: okr_def Let_def split: if_splits)
      then show ?thesis using False conf Inr by (simp add: Let_def)
    qed
  qed
qed

lemma find_blobs_ok:
  "sess_inv X s \<Longrightarrow> okr s (find_blobs ops ks s) (\<lambda>_ s'. sess_inv X s' \<and> same_page s s')"
proof (induction ks arbitrary: s)
  case Nil
  then show ?case using sess_inv_grows_refl by (simp add: same_page_def)
next
  case (Cons k ks)
  have "okr s (sbind (confirm_hashes ops k hs s) (\<lambda>_ s'. find_blobs ops ks s')) (\<lambda>_ s'. sess_inv X s' \<and> same_page s s')" for hs
  proof (rule okr_sbind [OF confirm_hashes_ok [OF Cons.prems]])
    fix s1 assume s1: "sess_inv X s1 \<and> same_page s s1"
    show "okr s1 (find_blobs ops ks s1) (\<lambda>_ s'. sess_inv X s' \<and> same_page s s')"
      by (rule okr_weaken [OF Cons.IH]) (use s1 in \<open>auto simp: same_page_def\<close>)
  qed
  then show ?case using sess_inv_grows_refl [OF Cons.prems] by (simp split: sum.split)
qed

text \<open>A page is confirmed only when every record of it is durable.\<close>

definition checks_ok :: "peer_message list \<Rightarrow> 'r sync_session \<Rightarrow> bool" where
  "checks_ok ms s \<longleftrightarrow> (\<forall>e. Checked e \<in> set ms \<longrightarrow> set (pl_keys (ss_pull s)) \<subseteq> fst ` dur (ss_replica s))"

abbreviation sound :: "peer_message list \<Rightarrow> 'r sync_session \<Rightarrow> bool" where
  "sound ms s \<equiv> sess_inv {} s \<and> acks_ok ms s \<and> checks_ok ms s"

lemma download_ok:
  assumes "sess_inv X s" and "idle s"
    and "X = {} \<or> obj_blob ob = None \<and> X = {obj_record ob}"
  shows "okr s (session_download ob s) sound"
proof (cases "object_need ob 0")
  case (Inr m)
  then have m: "ack_ok D B m" "m \<noteq> Checked e" for D B e
    by (auto simp: object_need_def rbind_Inr_iff ack_ok_def)
  have "sess_inv {} (upd_pull (\<lambda>pl. pl\<lparr>pl_download := Some (download_new ob)\<rparr>) s)"
    using assms by (cases ob) (auto simp: sess_inv_def covered_def download_new_def idle_def)
  then show ?thesis
    using Inr m assms(1) sess_inv_grows_refl by (auto simp: session_download_def acks_ok_def checks_ok_def)
qed (use assms sess_inv_grows_refl in \<open>simp add: session_download_def\<close>)

lemma finish_ok:
  assumes "sess_inv {} s" and "idle s" "pl_records (ss_pull s) = []" "pl_staged (ss_pull s) = []"
  shows "okr s (finish_page s) sound"
proof -
  have "set (pl_keys (ss_pull s)) \<subseteq> fst ` set (sn_records (ss_local s))"
    using assms by (auto simp: sess_inv_def covered_def sn_contains_set idle_def)
  then have "set (pl_keys (ss_pull s)) \<subseteq> fst ` dur (ss_replica s)"
    using assms(1) unfolding sess_inv_def by blast
  then show ?thesis
    using assms sess_inv_grows_refl [OF assms(1)]
    by (auto simp: finish_page_def Let_def acks_ok_def checks_ok_def ack_ok_def sess_inv_def covered_def idle_def)
qed

lemma advance_ok:
  assumes "sess_inv {} s" and "idle s"
  shows "okr s (session_advance ops s) sound"
proof (cases "pl_records (ss_pull s)")
  case (Cons k ks)
  let ?s = "upd_pull (\<lambda>pl. pl\<lparr>pl_records := ks\<rparr>) s"
  have "sess_inv {k} ?s" using assms Cons by (auto simp: sess_inv_def covered_def)
  then have "okr ?s (session_download (Object k None) ?s) sound"
    by (rule download_ok) (use assms in \<open>auto simp: idle_def\<close>)
  then show ?thesis using Cons okr_same_replica [of ?s _ _ s] by (simp add: session_advance_def)
next
  case Nil
  let ?found = "\<lambda>s1. if pl_blobs (ss_pull s1) = [] then find_blobs ops (pl_keys (ss_pull s1)) s1 else (Inr (), s1)"
  let ?P = "\<lambda>s. sess_inv {} s \<and> idle s \<and> pl_records (ss_pull s) = [] \<and> pl_staged (ss_pull s) = []"
  have found: "okr s1 (?found s1) (\<lambda>_ s'. ?P s')" if "?P s1" for s1
    using that sess_inv_grows_refl by (auto intro!: okr_weaken [OF find_blobs_ok] simp: same_page_def)
  have nb: "okr s2 (next_blob s2) sound" if s2: "?P s2" for s2
  proof (cases "pl_blobs (ss_pull s2)")
    case Nil
    then show ?thesis using finish_ok s2 by (simp add: next_blob_def)
  next
    case (Cons ob obs)
    let ?s = "upd_pull (\<lambda>pl. pl\<lparr>pl_blobs := obs\<rparr>) s2"
    have "sess_inv {} ?s" using s2 sess_inv_blobs(2) by simp
    then have "okr ?s (session_download ob ?s) sound" by (rule download_ok) (use s2 in \<open>simp_all add: idle_def\<close>)
    then show ?thesis using Cons okr_same_replica [of ?s _ _ s2] by (simp add: next_blob_def)
  qed
  have tail: "okr s2 (sbind (next_blob s2) (\<lambda>msgs s3. (Inr (acks @ msgs), s3))) sound"
    if "?P s2" "acks_ok acks s2" "\<forall>e. Checked e \<notin> set acks" for s2 acks
  proof (rule okr_sbind [OF nb [OF that(1)]])
    fix ms s3 assume "sound ms s3" "grows inv dur durb (ss_replica s2) (ss_replica s3)"
    then show "okr s3 (Inr (acks @ ms), s3) sound"
      using that(2,3) acks_ok_mono sess_inv_grows_refl [of "{}" s3] by (auto simp: checks_ok_def)
  qed
  have "okr s (sbind (session_flush ops s) (\<lambda>acks s1. sbind (?found s1) (\<lambda>_ s2.
      sbind (next_blob s2) (\<lambda>msgs s3. (Inr (acks @ msgs), s3))))) sound"
  proof (rule okr_sbind [OF flush_ok [OF assms(1)]])
    fix acks s1
    assume s1: "sess_inv {} s1 \<and> acks_ok acks s1 \<and> same_queue s s1 \<and> pl_staged (ss_pull s1) = [] \<and> (\<forall>e. Checked e \<notin> set acks)"
    then have P: "?P s1" using assms(2) Nil same_queue_idle same_queue_parts(6) by metis
    show "okr s1 (sbind (?found s1) (\<lambda>_ s2. sbind (next_blob s2) (\<lambda>msgs s3. (Inr (acks @ msgs), s3)))) sound"
      by (rule okr_sbind [OF found [OF P]], rule tail) (use s1 acks_ok_mono in blast)+
  qed
  then show ?thesis using Nil by (simp add: session_advance_def)
qed

lemma update_work_ok:
  assumes "grows inv dur durb (ss_replica s) (ss_replica s)"
  shows "okr s (update_work s) (\<lambda>_ s'. ss_replica s' = ss_replica s \<and> ss_local s' = ss_local s \<and> ss_pull s' = ss_pull s)"
  using assms by (simp add: update_work_def Let_def split: sum.split option.split)

lemma sound_cong:
  "ss_replica s' = ss_replica s \<Longrightarrow> ss_local s' = ss_local s \<Longrightarrow> ss_pull s' = ss_pull s \<Longrightarrow> sound ms s' = sound ms s"
  by (simp add: sess_inv_def covered_def acks_ok_def checks_ok_def)

lemma start_round_ok:
  assumes "sess_inv {} s"
  shows "okr s (start_round ops s) sound"
proof -
  obtain res r' where rec: "rs_receiving_snapshot ops (ss_replica s) = (res, r')" by fastforce
  have laws: "grows inv dur durb (ss_replica s) r' \<and> (\<forall>sn. res = Inr sn \<longrightarrow> snap_ok dk pc b3 sn \<and> set (sn_records sn) \<subseteq> dur r')"
    using receiving_laws [OF _ rec] assms by (simp add: sess_inv_def)
  have "okr s (sbind (update_work s1) (\<lambda>_ s'. (Inr [Inventory None], s'))) sound"
    if s1: "ss_replica s1 = r'" "sound [Inventory None] s1" for s1
  proof -
    have g: "grows inv dur durb r' r'" using s1 sess_inv_grows_refl by metis
    have "okr s1 (sbind (update_work s1) (\<lambda>_ s'. (Inr [Inventory None], s'))) sound"
    proof (rule okr_sbind [OF update_work_ok])
      show "grows inv dur durb (ss_replica s1) (ss_replica s1)" using g s1(1) by simp
      fix s2 :: "'r sync_session"
      assume "ss_replica s2 = ss_replica s1 \<and> ss_local s2 = ss_local s1 \<and> ss_pull s2 = ss_pull s1"
      then show "okr s2 (Inr [Inventory None], s2) sound"
        using s1 g sound_cong [of s2 s1 "[Inventory None]"] by simp
    qed
    then show ?thesis using laws s1(1) grows_trans by (auto simp: okr_def)
  qed
  moreover have "sound [Inventory None] (s\<lparr>ss_replica := r', ss_local := sn, ss_pull := pull_default\<lparr>pl_waiting_page := True\<rparr>, ss_progress := p\<rparr>)"
    if "res = Inr sn" for sn p
    using laws that by (simp add: sess_inv_def covered_def acks_ok_def ack_ok_def checks_ok_def pull_default_def grows_def)
  ultimately have go: "okr s (sbind (update_work (s\<lparr>ss_replica := r', ss_local := sn, ss_pull := pull_default\<lparr>pl_waiting_page := True\<rparr>, ss_progress := p\<rparr>))
      (\<lambda>_ s'. (Inr [Inventory None], s'))) sound" if "res = Inr sn" for sn p
    using that by simp
  have "sound [] s" using assms by (simp add: acks_ok_def checks_ok_def)
  then show ?thesis
    using rec laws go sess_inv_grows_refl [OF assms] by (simp add: start_round_def split: sum.split)
qed

lemma mark_failed_ok: "okr s m sound \<Longrightarrow> okr s (mark_failed m) sound"
  by (cases m) (auto simp: okr_def mark_failed_def sess_inv_def covered_def acks_ok_def checks_ok_def)

lemma tick_ok: "sess_inv {} s \<Longrightarrow> okr s (session_tick ops s) sound"
  using sess_inv_grows_refl mark_failed_ok [OF start_round_ok]
  by (auto simp: session_tick_def ensure_open_def)

lemma page_ok:
  assumes "sess_inv {} s"
  shows "okr s (session_page offset tot recs mo s) (\<lambda>_ s'. sess_inv {} s' \<and> idle s')"
proof -
  have "sess_inv {} (upd_progress f (upd_pull (\<lambda>pl. pl\<lparr>pl_position := n, pl_after := a, pl_waiting_page := False, pl_more := mo,
      pl_records := filter (\<lambda>key. \<not> sn_contains (ss_local s) key) recs, pl_keys := recs, pl_tried := []\<rparr>) s))" for f n a
    using assms by (simp add: sess_inv_def covered_def)
  then show ?thesis
    using assms sess_inv_grows_refl [OF assms]
    by (auto simp: session_page_def Let_def idle_def sess_inv_def split: option.split)
qed

lemma chunk_ok:
  assumes "sess_inv {} s"
  shows "okr s (handle_chunk dk pc b3 ops ob offset tot bs s) sound"
proof (cases "pl_download (ss_pull s)")
  case None
  then show ?thesis using sess_inv_grows_refl [OF assms] by (simp add: handle_chunk_def)
next
  case (Some d)
  have nw: "\<not> pl_waiting_page (ss_pull s)" using assms Some by (auto simp: sess_inv_def)
  show ?thesis
  proof (cases "download_append ob offset tot bs d")
    case (Inl e)
    then show ?thesis using Some sess_inv_grows_refl [OF assms] by (simp add: handle_chunk_def)
  next
    case (Inr v)
    obtain fin d' where v: "v = (fin, d')" by fastforce
    have ob: "dl_object d' = dl_object d"
      using Inr by (auto simp: v download_append_def rbind_Inr_iff split: if_splits)
    let ?s1 = "upd_pull (\<lambda>pl. pl\<lparr>pl_download := Some d'\<rparr>) s"
    have s1: "sess_inv {} ?s1" using assms Some ob nw by (simp add: sess_inv_def covered_def)
    have "okr ?s1 (sbind (session_complete dk pc b3 ops ?s1) (\<lambda>acks s2.
        sbind (session_advance ops s2) (\<lambda>msgs s3. (Inr (acks @ msgs), s3)))) sound"
    proof (rule okr_sbind [OF complete_ok [OF s1]])
      fix acks s2 assume q: "quiet {} acks s2"
      show "okr s2 (sbind (session_advance ops s2) (\<lambda>msgs s3. (Inr (acks @ msgs), s3))) sound"
      proof (rule okr_sbind [OF advance_ok])
        fix ms s3 assume "sound ms s3" "grows inv dur durb (ss_replica s2) (ss_replica s3)"
        then show "okr s3 (Inr (acks @ ms), s3) sound"
          using q acks_ok_mono sess_inv_grows_refl [of "{}" s3] by (auto simp: checks_ok_def)
      qed (use q in auto)
    qed (use nw in simp)
    then have "okr s (sbind (session_complete dk pc b3 ops ?s1) (\<lambda>acks s2.
        sbind (session_advance ops s2) (\<lambda>msgs s3. (Inr (acks @ msgs), s3)))) sound"
      by (rule okr_same_replica) simp
    moreover have "sound [m] ?s1" if "object_need (dl_object d') n = Inr m" for m n
      using s1 that by (auto simp: object_need_def rbind_Inr_iff acks_ok_def ack_ok_def checks_ok_def)
    ultimately show ?thesis
      using Some Inr v sess_inv_grows_refl [OF assms] by (simp add: handle_chunk_def Let_def split: sum.split)
  qed
qed

lemma missing_ok:
  assumes "sess_inv {} s"
  shows "okr s (handle_missing ops ob s) sound"
proof (cases "pl_download (ss_pull s)")
  case None
  then show ?thesis using sess_inv_grows_refl [OF assms] by (simp add: handle_missing_def)
next
  case (Some d)
  have nw: "\<not> pl_waiting_page (ss_pull s)" using assms Some by (auto simp: sess_inv_def)
  let ?s1 = "\<lambda>p. (upd_pull (\<lambda>pl. pl\<lparr>pl_download := None\<rparr>) s)\<lparr>ss_progress := p\<rparr>"
  have "okr s (session_advance ops (?s1 p)) sound" if "dl_object d = ob" "obj_blob ob \<noteq> None" for p
  proof -
    have "sess_inv {} (?s1 p)" using assms Some that by (auto simp: sess_inv_def covered_def)
    then have "okr (?s1 p) (session_advance ops (?s1 p)) sound" by (rule advance_ok) (use nw in \<open>simp add: idle_def\<close>)
    then show ?thesis by (rule okr_same_replica) simp
  qed
  then show ?thesis using Some sess_inv_grows_refl [OF assms] by (simp add: handle_missing_def Let_def)
qed

lemma inventory_ok:
  assumes "sess_inv {} s"
  shows "okr s (let (res, r') = source_inventory dk pc ops after (ss_replica s) (ss_source s) in lift_source (s\<lparr>ss_replica := r'\<rparr>) res) sound"
proof -
  obtain res r' where inv: "source_inventory dk pc ops after (ss_replica s) (ss_source s) = (res, r')" by fastforce
  obtain sres r2 where snap: "rs_snapshot ops (ss_replica s) = (sres, r2)" by fastforce
  have "grows inv dur durb (ss_replica s) r2" using snapshot_laws [OF _ snap] assms by (simp add: sess_inv_def)
  then have g: "grows inv dur durb (ss_replica s) r'"
    using inv snap sess_inv_grows_refl [OF assms] by (auto simp: source_inventory_def split: if_splits sum.splits)
  have "\<exists>a b c d. m = Page a b c d" if "res = Inr (m, src)" for m src
    using inv that by (auto simp: source_inventory_def source_page_def Let_def rbind_Inr_iff split: if_splits sum.splits prod.splits)
  then show ?thesis
    using inv g sess_inv_grow [OF assms g]
    by (cases res) (auto simp: lift_source_def acks_ok_def ack_ok_def checks_ok_def sess_inv_def covered_def)
qed

lemma need_ok:
  assumes "sess_inv {} s"
  shows "okr s (lift_source s (source_need ops ob offset (ss_replica s) (ss_source s))) sound"
proof (cases "source_need ops ob offset (ss_replica s) (ss_source s)")
  case (Inl e)
  then show ?thesis using sess_inv_grows_refl [OF assms] by (simp add: lift_source_def)
next
  case (Inr v)
  obtain m src where v: "v = (m, src)" by fastforce
  have "ack_ok D B m \<and> (\<forall>e. m \<noteq> Checked e)" for D B
    using Inr unfolding v
    by (auto simp: source_need_def source_chunk_def rbind_Inr_iff Let_def ack_ok_def split: if_splits option.splits prod.splits)
  then have "acks_ok [m] s'" "checks_ok [m] s'" for s' by (auto simp: acks_ok_def checks_ok_def)
  then show ?thesis
    using Inr v sess_inv_grows_refl [OF assms] assms by (simp add: lift_source_def sess_inv_def covered_def)
qed

lemma handle_ok:
  assumes "sess_inv {} s"
  shows "okr s (handle_message dk pc b3 ops m s) sound"
proof (cases m)
  case (Page offset tot recs mo)
  then show ?thesis
    unfolding handle_message_def by (simp, intro okr_sbind [OF page_ok [OF assms]] advance_ok) auto
next
  case (Ack k blob)
  have "okr s (acknowledge (Object k blob) s) (\<lambda>_ s'. sound [] s')"
    using sess_inv_grows_refl [OF assms] assms
    by (auto simp: acknowledge_def acks_ok_def checks_ok_def sess_inv_def covered_def split: sum.split)
  then have "okr s (sbind (acknowledge (Object k blob) s) (\<lambda>_ s'. (Inr [], s'))) sound"
    by (rule okr_sbind) (auto dest: sess_inv_grows_refl)
  then show ?thesis using Ack by (simp add: handle_message_def)
next
  case (Checked e)
  then show ?thesis
    using sess_inv_grows_refl [OF assms] assms
    by (auto simp: handle_message_def acks_ok_def checks_ok_def sess_inv_def covered_def split: sum.split)
qed (use assms inventory_ok need_ok chunk_ok missing_ok sess_inv_grows_refl in \<open>auto simp: handle_message_def\<close>)

lemma process_ok:
  assumes "sess_inv {} s"
  shows "okr s (session_process dk pc b3 ops m s) sound"
proof -
  have "okr s (sbind (handle_message dk pc b3 ops m s) (\<lambda>replies s1. sbind (update_work s1) (\<lambda>_ s2. (Inr replies, s2)))) sound"
  proof (rule okr_sbind [OF handle_ok [OF assms]])
    fix ms s1 assume s1: "sound ms s1"
    have "okr s1 (update_work s1) (\<lambda>_ s'. ss_replica s' = ss_replica s1 \<and> ss_local s' = ss_local s1 \<and> ss_pull s' = ss_pull s1)"
      by (rule update_work_ok) (use s1 sess_inv_grows_refl in blast)
    then show "okr s1 (sbind (update_work s1) (\<lambda>_ s2. (Inr ms, s2))) sound"
    proof (rule okr_sbind)
      fix s2 :: "'r sync_session"
      assume "ss_replica s2 = ss_replica s1 \<and> ss_local s2 = ss_local s1 \<and> ss_pull s2 = ss_pull s1"
      then show "okr s2 (Inr ms, s2) sound"
        using s1 sound_cong [of s2 s1 ms] sess_inv_grows_refl [of "{}" s2] by simp
    qed
  qed
  moreover have "okr s (session_tick ops (s\<lparr>ss_progress := p\<rparr>)) sound" for p
  proof -
    have "sess_inv {} (s\<lparr>ss_progress := p\<rparr>)" using assms by (simp add: sess_inv_def covered_def)
    then have "okr (s\<lparr>ss_progress := p\<rparr>) (session_tick ops (s\<lparr>ss_progress := p\<rparr>)) sound" by (rule tick_ok)
    then show ?thesis by (rule okr_same_replica) simp
  qed
  ultimately show ?thesis
    using sess_inv_grows_refl [OF assms] by (auto simp: session_process_def split: sum.split)
qed

lemma receive_ok: "sess_inv {} s \<Longrightarrow> okr s (session_receive dk pc b3 ops m s) sound"
  using sess_inv_grows_refl mark_failed_ok [OF process_ok]
  by (auto simp: session_receive_def ensure_open_def)

lemma new_ok: "inv r \<Longrightarrow> sess_inv {} (session_new r)"
  by (simp add: session_new_def sess_inv_def covered_def snapshot_default_def snap_ok_def pull_default_def)

text \<open>Any history: a failed session stays failed, an open one keeps its invariant.\<close>

definition run_inv :: "'r sync_session \<Rightarrow> bool" where
  "run_inv s \<longleftrightarrow> inv (ss_replica s) \<and> (ss_failed s \<or> sess_inv {} s)"

lemma step_ok:
  assumes "run_inv s" and "session_step dk pc b3 ops e s = (res, s')"
  shows "run_inv s' \<and> grows inv dur durb (ss_replica s) (ss_replica s') \<and> (\<forall>ms. res = Inr ms \<longrightarrow> acks_ok ms s' \<and> checks_ok ms s')"
proof (cases "ss_failed s")
  case True
  then have "isl res \<and> s' = s"
    using assms(2) by (auto simp: session_step_def session_tick_def session_receive_def ensure_open_def split: session_event.splits)
  then show ?thesis using assms(1) by (auto simp: run_inv_def grows_refl)
next
  case False
  then have "sess_inv {} s" using assms(1) by (simp add: run_inv_def)
  then have ok: "okr s (session_step dk pc b3 ops e s) sound"
    using tick_ok receive_ok by (simp add: session_step_def split: session_event.split)
  have "isl res \<Longrightarrow> ss_failed s'"
    using assms(2) False by (auto simp: session_step_def session_tick_def session_receive_def ensure_open_def mark_failed_def
      split: session_event.splits)
  then show ?thesis using ok assms(2) by (cases res) (auto simp: okr_def run_inv_def grows_def)
qed

lemma run_ok:
  "run_inv s \<Longrightarrow> session_run dk pc b3 ops es s = (out, s') \<Longrightarrow>
     run_inv s' \<and> grows inv dur durb (ss_replica s) (ss_replica s') \<and> acks_ok out s'"
proof (induction es arbitrary: s out)
  case Nil
  then show ?case by (auto simp: run_inv_def grows_refl acks_ok_def)
next
  case (Cons e es)
  obtain res s1 where step: "session_step dk pc b3 ops e s = (res, s1)" by fastforce
  note st = step_ok [OF Cons.prems(1) step]
  obtain out1 s2 where rest: "session_run dk pc b3 ops es s1 = (out1, s2)" by fastforce
  have s2: "s2 = s' \<and> out = (case res of Inl _ \<Rightarrow> out1 | Inr ms \<Rightarrow> ms @ out1)"
    using Cons.prems(2) step rest by (auto split: sum.splits)
  note ih = Cons.IH [of s1 out1]
  show ?case using s2 st ih rest acks_ok_mono grows_trans by (cases res) auto
qed

lemma new_run_inv: "inv r \<Longrightarrow> run_inv (session_new r)"
  using new_ok by (simp add: run_inv_def) (simp add: session_new_def)

end

end
