(* ===== verification/Blob.thy ===== *)
theory Blob
  imports RecordCodec
begin

text \<open>
  Content-addressed blobs (\<open>editchain-store/src/blob.rs\<close>, \<open>blob_adapter.rs\<close>) and the
  publication primitives below them (\<open>durable.rs\<close>). A blob directory maps file names to contents;
  for every name it also records whether the contents and whether the directory entry are
  guaranteed to survive a crash. Reads of the names in \<open>bd_unreadable\<close> fail; every other operation
  of the operating system consults the list \<open>bd_faults\<close>, and
  \<open>bd_races\<close> lists the files other writers publish right before this one links its own, so
  that the branch on an existing destination is live. BLAKE3 is the parameter \<open>b3\<close>; the process
  identifier in the names of temporary files is the parameter \<open>pid\<close>. The syncs of the ancestor
  directories are one call that may fail, and the temporary file of a failed write is always removed,
  where the code removes it as well as it can.

  The lemmas show that no operation changes or removes an addressable file, that an acknowledged
  write is durable under its content address, and that every read is verified.
\<close>

section \<open>The blob directory\<close>

datatype dir_state = AbsentDir | Directory | NotDirectory

record blob_disk =
  bd_dir :: dir_state
  bd_files :: "string \<rightharpoonup> bytes"
  bd_synced :: "string \<Rightarrow> bool"
  bd_entry :: "string \<Rightarrow> bool"
  bd_faults :: "bool list"
  bd_races :: "(string \<times> bytes) option list"
  bd_next :: nat
  bd_unreadable :: "string \<Rightarrow> bool"

definition io_failure :: io_error where
  "io_failure = IoError Other ''operating system error''"

text \<open>One operation of the operating system: it fails when the next fault says so.\<close>

definition os_call :: "blob_disk \<Rightarrow> unit io_result \<times> blob_disk" where
  "os_call d = (case bd_faults d of
       [] \<Rightarrow> (Inr (), d)
     | f # fs \<Rightarrow> (if f then Inl io_failure else Inr (), d\<lparr>bd_faults := fs\<rparr>))"

definition sync_dir :: "blob_disk \<Rightarrow> unit io_result \<times> blob_disk" where
  "sync_dir d = sbind (os_call d) (\<lambda>_ d1. (Inr (), d1\<lparr>bd_entry := (\<lambda>n. bd_entry d1 n \<or> bd_files d1 n \<noteq> None)\<rparr>))"

definition sync_parent_dir :: "blob_disk \<Rightarrow> unit io_result \<times> blob_disk" where
  "sync_parent_dir d = sync_dir d"

text \<open>Canonicalize, sync the directory itself, then its ancestors.\<close>

definition sync_directory_tree :: "blob_disk \<Rightarrow> unit io_result \<times> blob_disk" where
  "sync_directory_tree d = sbind (os_call d) (\<lambda>_ d1. sbind (sync_dir d1) (\<lambda>_ d2. os_call d2))"

definition create_dir_all :: "blob_disk \<Rightarrow> unit io_result \<times> blob_disk" where
  "create_dir_all d = sbind (os_call d) (\<lambda>_ d1.
     if bd_dir d1 = NotDirectory then (Inl io_failure, d1)
     else sync_directory_tree (d1\<lparr>bd_dir := Directory\<rparr>))"

section \<open>Temporary files and publication\<close>

definition temp_name :: "nat \<Rightarrow> string \<Rightarrow> nat \<Rightarrow> string" where
  "temp_name pid name sq = name @ ''.tmp.'' @ show_nat pid @ CHR ''.'' # show_nat sq"

text \<open>
  \<open>TemporaryFile::prepare\<close>: the first unused name of the process-wide sequence. The loop ends
  because the sequence is a checked 64-bit counter. A failed write leaves no temporary file: its
  guard removes it.
\<close>

function prepare :: "nat \<Rightarrow> string \<Rightarrow> bytes \<Rightarrow> blob_disk \<Rightarrow> string io_result \<times> blob_disk" where
  "prepare pid name bs d =
     (if bd_next d \<ge> umax 64 then (Inl (IoError Other ''temporary sequence exhausted''), d)
      else
        let temporary = temp_name pid name (bd_next d); d1 = d\<lparr>bd_next := bd_next d + 1\<rparr> in
        if bd_files d1 temporary \<noteq> None then prepare pid name bs d1
        else sbind (os_call d1) (\<lambda>_ d2. sbind (os_call d2) (\<lambda>_ d3.
          (Inr temporary, d3\<lparr>bd_files := (bd_files d3)(temporary \<mapsto> bs), bd_synced := (bd_synced d3)(temporary := False),
             bd_entry := (bd_entry d3)(temporary := False)\<rparr>))))"
  by pat_completeness auto
termination
  by (relation "measure (\<lambda>(_, _, _, d). umax 64 - bd_next d)") (auto simp: Let_def)

declare prepare.simps [simp del]

definition sync_file :: "string \<Rightarrow> blob_disk \<Rightarrow> unit io_result \<times> blob_disk" where
  "sync_file name d = sbind (os_call d) (\<lambda>_ d1. (Inr (), d1\<lparr>bd_synced := (bd_synced d1)(name := True)\<rparr>))"

text \<open>Dropping the guard removes the file; the removal is best effort.\<close>

definition drop_temporary :: "string \<Rightarrow> blob_disk \<Rightarrow> blob_disk" where
  "drop_temporary temporary d = (case os_call d of
       (Inl _, d1) \<Rightarrow> d1
     | (Inr _, d1) \<Rightarrow> d1\<lparr>bd_files := (bd_files d1)(temporary := None)\<rparr>)"

text \<open>
  \<open>fs::hard_link\<close>: another writer may have published the destination by then. The new name shares
  the contents and their durability; its directory entry is not durable yet.
\<close>

definition race :: "blob_disk \<Rightarrow> blob_disk" where
  "race d = (case bd_races d of
       [] \<Rightarrow> d
     | None # rs \<Rightarrow> d\<lparr>bd_races := rs\<rparr>
     | Some (n, c) # rs \<Rightarrow>
         if bd_files d n = None
         then d\<lparr>bd_races := rs, bd_files := (bd_files d)(n \<mapsto> c), bd_synced := (bd_synced d)(n := False), bd_entry := (bd_entry d)(n := False)\<rparr>
         else d\<lparr>bd_races := rs\<rparr>)"

definition hard_link :: "string \<Rightarrow> string \<Rightarrow> blob_disk \<Rightarrow> bool io_result \<times> blob_disk" where
  "hard_link temporary name d = sbind (os_call (race d)) (\<lambda>_ d1.
     if bd_files d1 name \<noteq> None then (Inr False, d1)
     else (Inr True, d1\<lparr>bd_files := (bd_files d1)(name := bd_files d1 temporary),
             bd_synced := (bd_synced d1)(name := bd_synced d1 temporary), bd_entry := (bd_entry d1)(name := False)\<rparr>))"

definition temporary_write :: "nat \<Rightarrow> string \<Rightarrow> bytes \<Rightarrow> blob_disk \<Rightarrow> string io_result \<times> blob_disk" where
  "temporary_write pid name bs d = sbind (prepare pid name bs d) (\<lambda>temporary d1.
     case sync_file temporary d1 of
       (Inl e, d2) \<Rightarrow> (Inl e, drop_temporary temporary d2)
     | (Inr _, d2) \<Rightarrow> (Inr temporary, d2))"

definition publish_new_with ::
  "nat \<Rightarrow> string \<Rightarrow> bytes \<Rightarrow> (blob_disk \<Rightarrow> unit io_result \<times> blob_disk) \<Rightarrow> blob_disk \<Rightarrow> bool io_result \<times> blob_disk" where
  "publish_new_with pid name bs sync d = sbind (temporary_write pid name bs d) (\<lambda>temporary d1.
     apsnd (drop_temporary temporary) (sbind (hard_link temporary name d1) (\<lambda>published d2.
       if published then sbind (sync d2) (\<lambda>_ d3. (Inr True, d3)) else (Inr False, d2))))"

definition publish_new :: "nat \<Rightarrow> string \<Rightarrow> bytes \<Rightarrow> blob_disk \<Rightarrow> bool io_result \<times> blob_disk" where
  "publish_new pid name bs d = publish_new_with pid name bs sync_directory_tree d"

section \<open>Blobs\<close>

definition path_for :: "bytes \<Rightarrow> string" where
  "path_for hash = concat (map hex_byte hash)"

text \<open>\<open>same_blob_bytes\<close>: the length of the file, then its bytes in pieces of 8192.\<close>

function same_pieces :: "bytes \<Rightarrow> bytes \<Rightarrow> bool" where
  "same_pieces file expected =
     (if expected = [] then file = []
      else take (min 8192 (length expected)) file = take 8192 expected \<and> same_pieces (drop 8192 file) (drop 8192 expected))"
  by pat_completeness auto
termination
  by (relation "measure (length \<circ> snd)") auto

declare same_pieces.simps [simp del]

definition same_blob_bytes :: "bytes \<Rightarrow> bytes \<Rightarrow> bool" where
  "same_blob_bytes file expected = (if length file \<noteq> length expected then False else same_pieces file expected)"

definition verify_existing :: "string \<Rightarrow> bytes \<Rightarrow> blob_disk \<Rightarrow> bool io_result \<times> blob_disk" where
  "verify_existing name bs d = sbind (os_call d) (\<lambda>_ d1. case bd_files d1 name of
       None \<Rightarrow> (Inr False, d1)
     | Some content \<Rightarrow>
         sbind (os_call d1) (\<lambda>_ d2.
         if \<not> same_blob_bytes content bs
         then (Inl (IoError InvalidData ''existing blob does not match its content address''), d2)
         else sbind (sync_file name d2) (\<lambda>_ d3. sbind (sync_parent_dir d3) (\<lambda>_ d4. (Inr True, d4)))))"

definition blob_new :: "blob_disk \<Rightarrow> unit io_result \<times> blob_disk" where
  "blob_new d = create_dir_all d"

definition open_read_only :: "blob_disk \<Rightarrow> bool io_result" where
  "open_read_only d = (case bd_dir d of
       Directory \<Rightarrow> Inr True
     | NotDirectory \<Rightarrow> Inl (IoError InvalidInput ''blob path is not a directory'')
     | AbsentDir \<Rightarrow> Inr False)"

definition blob_get :: "bytes \<Rightarrow> blob_disk \<Rightarrow> bytes option io_result" where
  "blob_get hash d = (if bd_unreadable d (path_for hash) then Inl io_failure else Inr (bd_files d (path_for hash)))"

definition blob_write :: "(bytes \<Rightarrow> bytes) \<Rightarrow> nat \<Rightarrow> bytes \<Rightarrow> blob_disk \<Rightarrow> unit io_result \<times> blob_disk" where
  "blob_write b3 pid bs d = sbind (create_dir_all d) (\<lambda>_ d1.
     let name = path_for (b3 bs) in
     sbind (verify_existing name bs d1) (\<lambda>present d2.
     if present then (Inr (), d2)
     else sbind (publish_new pid name bs d2) (\<lambda>published d3.
       if published then (Inr (), d3)
       else sbind (verify_existing name bs d3) (\<lambda>won d4.
         if won then (Inr (), d4) else (Inl (IoError NotFound ''published blob disappeared''), d4)))))"

text \<open>
  \<open>publish_batch_with\<close>: stage every distinct payload that is not stored yet, sync all staged
  files, link them, then sync the directory once. The staged files are dropped on every path. The
  source syncs the files on several threads and fails if one of them fails; here they are synced in
  order.
\<close>

type_synonym staged = "string \<times> string \<times> bytes"

fun stage_batch :: "nat \<Rightarrow> (string \<Rightarrow> bytes \<Rightarrow> blob_disk \<Rightarrow> bool io_result \<times> blob_disk) \<Rightarrow> (string \<times> bytes) list
    \<Rightarrow> (string \<times> bytes) list \<Rightarrow> staged list \<Rightarrow> blob_disk \<Rightarrow> unit io_result \<times> staged list \<times> blob_disk" where
  "stage_batch pid verify [] unique pending d = (Inr (), pending, d)"
| "stage_batch pid verify ((name, bs) # entries) unique pending d = (case map_of unique name of
       Some previous \<Rightarrow>
         if previous \<noteq> bs then (Inl (IoError InvalidData ''batch contains different bytes for one immutable destination''), pending, d)
         else stage_batch pid verify entries unique pending d
     | None \<Rightarrow> (case verify name bs d of
           (Inl e, d1) \<Rightarrow> (Inl e, pending, d1)
         | (Inr True, d1) \<Rightarrow> stage_batch pid verify entries ((name, bs) # unique) pending d1
         | (Inr False, d1) \<Rightarrow> (case prepare pid name bs d1 of
               (Inl e, d2) \<Rightarrow> (Inl e, pending, d2)
             | (Inr temporary, d2) \<Rightarrow>
                 stage_batch pid verify entries ((name, bs) # unique) (pending @ [(temporary, name, bs)]) d2)))"

fun sync_staged :: "staged list \<Rightarrow> blob_disk \<Rightarrow> unit io_result \<times> blob_disk" where
  "sync_staged [] d = (Inr (), d)"
| "sync_staged ((temporary, _, _) # pending) d = sbind (sync_file temporary d) (\<lambda>_ d1. sync_staged pending d1)"

fun link_staged :: "(string \<Rightarrow> bytes \<Rightarrow> blob_disk \<Rightarrow> bool io_result \<times> blob_disk) \<Rightarrow> staged list \<Rightarrow> bool \<Rightarrow> blob_disk
    \<Rightarrow> bool io_result \<times> blob_disk" where
  "link_staged verify [] linked d = (Inr linked, d)"
| "link_staged verify ((temporary, name, bs) # pending) linked d =
     sbind (hard_link temporary name d) (\<lambda>published d1.
     if published then link_staged verify pending True d1
     else sbind (verify name bs d1) (\<lambda>present d2.
       if present then link_staged verify pending linked d2
       else (Inl (IoError NotFound ''concurrent blob publication disappeared''), d2)))"

definition publish_batch_with :: "nat \<Rightarrow> (string \<Rightarrow> bytes \<Rightarrow> blob_disk \<Rightarrow> bool io_result \<times> blob_disk)
    \<Rightarrow> (blob_disk \<Rightarrow> unit io_result \<times> blob_disk) \<Rightarrow> (string \<times> bytes) list \<Rightarrow> blob_disk \<Rightarrow> unit io_result \<times> blob_disk" where
  "publish_batch_with pid verify sync entries d =
     (let (res, pending, d1) = stage_batch pid verify entries [] [] d in
      apsnd (fold (\<lambda>(temporary, _, _). drop_temporary temporary) pending)
        (sbind (res, d1) (\<lambda>_ d1. sbind (sync_staged pending d1) (\<lambda>_ d2.
           sbind (link_staged verify pending False d2) (\<lambda>linked d3.
           if linked then sync d3 else (Inr (), d3))))))"

definition publish_batch :: "nat \<Rightarrow> (string \<times> bytes) list \<Rightarrow> blob_disk \<Rightarrow> unit io_result \<times> blob_disk" where
  "publish_batch pid entries d = publish_batch_with pid verify_existing sync_directory_tree entries d"

text \<open>\<open>slice::chunks\<close>.\<close>

function chunks :: "nat \<Rightarrow> 'a list \<Rightarrow> 'a list list" where
  "chunks n xs = (if xs = [] \<or> n = 0 then [] else take n xs # chunks n (drop n xs))"
  by pat_completeness auto
termination
  by (relation "measure (length \<circ> snd)") auto

declare chunks.simps [simp del]

fun write_cohorts :: "(bytes \<Rightarrow> bytes) \<Rightarrow> nat \<Rightarrow> bytes list list \<Rightarrow> blob_disk \<Rightarrow> unit io_result \<times> blob_disk" where
  "write_cohorts b3 pid [] d = (Inr (), d)"
| "write_cohorts b3 pid (cohort # cohorts) d =
     sbind (publish_batch pid (map (\<lambda>bs. (path_for (b3 bs), bs)) cohort) d) (\<lambda>_ d1. write_cohorts b3 pid cohorts d1)"

definition write_batch :: "(bytes \<Rightarrow> bytes) \<Rightarrow> nat \<Rightarrow> bytes list \<Rightarrow> blob_disk \<Rightarrow> unit io_result \<times> blob_disk" where
  "write_batch b3 pid payloads d =
     (if payloads = [] then (Inr (), d)
      else sbind (create_dir_all d) (\<lambda>_ d1. write_cohorts b3 pid (chunks 64 payloads) d1))"

section \<open>Verified reads and the storage contract\<close>

datatype blob_resolution = Found (found_bytes: bytes) | MissingBlob | CorruptBlob | Unresolvable

definition addressable_hash :: "content_id \<Rightarrow> bytes option" where
  "addressable_hash i = (case i of Hash256 hash \<Rightarrow> Some hash | _ \<Rightarrow> None)"

definition blob_matches :: "(bytes \<Rightarrow> bytes) \<Rightarrow> bytes \<Rightarrow> blob_ref \<Rightarrow> bytes \<Rightarrow> bool" where
  "blob_matches b3 bs blob hash \<longleftrightarrow> unat (blob_len blob) = length bs \<and> b3 bs = hash"

definition blob_resolve :: "(bytes \<Rightarrow> bytes) \<Rightarrow> blob_ref \<Rightarrow> blob_disk \<Rightarrow> blob_resolution" where
  "blob_resolve b3 blob d = (case addressable_hash (blob_id blob) of
       None \<Rightarrow> Unresolvable
     | Some hash \<Rightarrow> (case blob_get hash d of
           Inr (Some bs) \<Rightarrow> if blob_matches b3 bs blob hash then Found bs else CorruptBlob
         | Inl _ \<Rightarrow> CorruptBlob
         | Inr None \<Rightarrow> MissingBlob))"

definition resolve_content :: "(bytes \<Rightarrow> bytes) \<Rightarrow> content_id \<Rightarrow> blob_disk \<Rightarrow> bytes option" where
  "resolve_content b3 i d = Option.bind (addressable_hash i) (\<lambda>hash. case blob_get hash d of
       Inr (Some bs) \<Rightarrow> if b3 bs = hash then Some bs else None
     | _ \<Rightarrow> None)"

text \<open>\<open>BlobReader::preview\<close>: the length is checked, the hash is not.\<close>

datatype blob_preview = PreviewFound bytes | PreviewMissing | PreviewCorrupt | PreviewUnresolvable

definition blob_preview_of :: "blob_ref \<Rightarrow> nat \<Rightarrow> blob_disk \<Rightarrow> blob_preview" where
  "blob_preview_of blob limit d = (case addressable_hash (blob_id blob) of
       None \<Rightarrow> PreviewUnresolvable
     | Some hash \<Rightarrow> (case bd_files d (path_for hash) of
           None \<Rightarrow> PreviewMissing
         | Some bs \<Rightarrow>
             if bd_unreadable d (path_for hash) \<or> length bs \<noteq> unat (blob_len blob) then PreviewCorrupt
             else PreviewFound (take limit bs)))"

definition read_content :: "(bytes \<Rightarrow> bytes) \<Rightarrow> content_id \<Rightarrow> blob_disk \<Rightarrow> blob_resolution io_result" where
  "read_content b3 i d = (case i of
       Hash256 hash \<Rightarrow> rbind (blob_get hash d) (\<lambda>found. Inr (case found of
           Some bs \<Rightarrow> if b3 bs = hash then Found bs else CorruptBlob
         | None \<Rightarrow> MissingBlob))
     | _ \<Rightarrow> Inr Unresolvable)"

text \<open>The default \<open>read_blob\<close> and \<open>put_batch\<close> of the traits.\<close>

definition read_blob_default :: "(content_id \<Rightarrow> 'b \<Rightarrow> blob_resolution io_result) \<Rightarrow> blob_ref \<Rightarrow> 'b \<Rightarrow> blob_resolution io_result" where
  "read_blob_default read blob b = rbind (read (blob_id blob) b) (\<lambda>r. Inr (case r of
       Found bs \<Rightarrow> if u32_try_from (length bs) \<noteq> Some (blob_len blob) then CorruptBlob else r
     | _ \<Rightarrow> r))"

fun put_batch_default :: "(bytes \<Rightarrow> 'b \<Rightarrow> blob_ref io_result \<times> 'b) \<Rightarrow> bytes list \<Rightarrow> 'b \<Rightarrow> (blob_ref list) io_result \<times> 'b" where
  "put_batch_default put [] b = (Inr [], b)"
| "put_batch_default put (bs # bss) b = sbind (put bs b) (\<lambda>r b1.
     sbind (put_batch_default put bss b1) (\<lambda>rs b2. (Inr (r # rs), b2)))"

definition blob_reference :: "(bytes \<Rightarrow> bytes) \<Rightarrow> bytes \<Rightarrow> blob_ref io_result" where
  "blob_reference b3 bs = rbind (ok_or (IoError InvalidInput ''out of range'') (u32_try_from (length bs))) (\<lambda>len.
     Inr \<lparr>blob_id = Hash256 (b3 bs), blob_len = len\<rparr>)"

definition blob_put :: "(bytes \<Rightarrow> bytes) \<Rightarrow> nat \<Rightarrow> bytes \<Rightarrow> blob_disk \<Rightarrow> blob_ref io_result \<times> blob_disk" where
  "blob_put b3 pid bs d = (case blob_reference b3 bs of
       Inl e \<Rightarrow> (Inl e, d)
     | Inr r \<Rightarrow> sbind (blob_write b3 pid bs d) (\<lambda>_ d1. (Inr r, d1)))"

definition blob_put_batch :: "(bytes \<Rightarrow> bytes) \<Rightarrow> nat \<Rightarrow> bytes list \<Rightarrow> blob_disk \<Rightarrow> (blob_ref list) io_result \<times> blob_disk" where
  "blob_put_batch b3 pid payloads d = (case traverse (blob_reference b3) payloads of
       Inl e \<Rightarrow> (Inl e, d)
     | Inr rs \<Rightarrow> sbind (write_batch b3 pid payloads d) (\<lambda>_ d1. (Inr rs, d1)))"

text \<open>The traits as a record of operations.\<close>

record 'b blob_storage =
  bs_read_content :: "content_id \<Rightarrow> 'b \<Rightarrow> blob_resolution io_result"
  bs_put :: "bytes \<Rightarrow> 'b \<Rightarrow> blob_ref io_result \<times> 'b"

definition blob_store :: "(bytes \<Rightarrow> bytes) \<Rightarrow> nat \<Rightarrow> blob_disk blob_storage" where
  "blob_store b3 pid = \<lparr>bs_read_content = read_content b3, bs_put = blob_put b3 pid\<rparr>"

section \<open>Nothing addressable is lost\<close>

text \<open>The names of \<open>P\<close> keep their contents, and what was durable stays durable.\<close>

definition kept :: "(string \<Rightarrow> bool) \<Rightarrow> blob_disk \<Rightarrow> blob_disk \<Rightarrow> bool" where
  "kept P d d' \<longleftrightarrow> (\<forall>n c. P n \<longrightarrow> bd_files d n = Some c \<longrightarrow> bd_files d' n = Some c
     \<and> (bd_synced d n \<longrightarrow> bd_synced d' n) \<and> (bd_entry d n \<longrightarrow> bd_entry d' n))"

definition addressable :: "string \<Rightarrow> bool" where
  "addressable n \<longleftrightarrow> (\<exists>h. n = path_for h)"

text \<open>A step that keeps the names of \<open>P\<close> and establishes \<open>Q\<close> when it succeeds.\<close>

definition keeps :: "(string \<Rightarrow> bool) \<Rightarrow> blob_disk \<Rightarrow> 'a io_result \<times> blob_disk \<Rightarrow> ('a \<Rightarrow> blob_disk \<Rightarrow> bool) \<Rightarrow> bool" where
  "keeps P d m Q \<longleftrightarrow> kept P d (snd m) \<and> (\<forall>x. fst m = Inr x \<longrightarrow> Q x (snd m))"

lemma kept_refl [simp]: "kept P d d"
  by (simp add: kept_def)

lemma kept_trans: "kept P d e \<Longrightarrow> kept P e f \<Longrightarrow> kept P d f"
  unfolding kept_def by blast

lemma kept_weaken: "kept P d e \<Longrightarrow> (\<And>n. R n \<Longrightarrow> P n) \<Longrightarrow> kept R d e"
  unfolding kept_def by blast

lemma keeps_return [simp]: "keeps P d (Inr x, d') Q \<longleftrightarrow> kept P d d' \<and> Q x d'"
  by (simp add: keeps_def)

lemma keeps_error [simp]: "keeps P d (Inl e, d') Q \<longleftrightarrow> kept P d d'"
  by (simp add: keeps_def)

lemma keeps_weaken: "keeps P d m Q \<Longrightarrow> (\<And>n. R n \<Longrightarrow> P n) \<Longrightarrow> (\<And>x d'. Q x d' \<Longrightarrow> kept P d d' \<Longrightarrow> S x d') \<Longrightarrow> keeps R d m S"
  unfolding keeps_def using kept_weaken by blast

lemma keeps_sbind:
  assumes "keeps P d m Q" and "\<And>x d1. Q x d1 \<Longrightarrow> kept P d d1 \<Longrightarrow> keeps P d1 (f x d1) R"
  shows "keeps P d (sbind m f) R"
proof (cases m)
  case (Pair res d1)
  then show ?thesis using assms kept_trans by (cases res) (auto simp: sbind_def keeps_def)
qed

abbreviation anything :: "string \<Rightarrow> bool" where
  "anything \<equiv> \<lambda>_. True"

lemma os_call_keeps: "keeps anything d (os_call d) (\<lambda>_ d'. \<exists>fs. d' = d\<lparr>bd_faults := fs\<rparr>)"
  by (auto simp: os_call_def keeps_def kept_def split: list.split intro: exI [of _ "bd_faults d"])

lemma sync_dir_keeps:
  "keeps anything d (sync_dir d) (\<lambda>_ d'. bd_files d' = bd_files d \<and> bd_synced d' = bd_synced d
     \<and> (\<forall>n. bd_files d n \<noteq> None \<longrightarrow> bd_entry d' n))"
  unfolding sync_dir_def by (rule keeps_sbind [OF os_call_keeps]) (auto simp: kept_def)

lemma sync_tree_keeps:
  "keeps anything d (sync_directory_tree d) (\<lambda>_ d'. bd_files d' = bd_files d \<and> bd_synced d' = bd_synced d
     \<and> (\<forall>n. bd_files d n \<noteq> None \<longrightarrow> bd_entry d' n))"
  unfolding sync_directory_tree_def
  by (rule keeps_sbind [OF os_call_keeps], rule keeps_sbind [OF sync_dir_keeps], rule keeps_weaken [OF os_call_keeps]) auto

lemma create_dir_keeps: "keeps anything d (create_dir_all d) (\<lambda>_ _. True)"
proof -
  have "keeps anything d1 (sync_directory_tree (d1\<lparr>bd_dir := x\<rparr>)) (\<lambda>_ _. True)" for d1 x
    using sync_tree_keeps [of "d1\<lparr>bd_dir := x\<rparr>"] by (simp add: keeps_def kept_def)
  then show ?thesis unfolding create_dir_all_def by (intro keeps_sbind [OF os_call_keeps]) auto
qed

lemma sync_file_keeps:
  "keeps anything d (sync_file n d) (\<lambda>_ d'. bd_files d' = bd_files d \<and> bd_synced d' n \<and> bd_entry d' = bd_entry d)"
  unfolding sync_file_def by (rule keeps_sbind [OF os_call_keeps]) (auto simp: kept_def)

lemma prepare_keeps:
  "keeps anything d (prepare pid n bs d) (\<lambda>t d'. bd_files d' t = Some bs \<and> (\<exists>sq. t = temp_name pid n sq))"
proof (induction pid n bs d rule: prepare.induct)
  case (1 pid n bs d)
  let ?t = "temp_name pid n (bd_next d)" and ?d = "d\<lparr>bd_next := bd_next d + 1\<rparr>"
  have inc: "keeps anything d m Q" if "keeps anything ?d m Q" for m and Q :: "string \<Rightarrow> blob_disk \<Rightarrow> bool"
    using that by (simp add: keeps_def kept_def)
  have fresh: "keeps anything ?d (sbind (os_call ?d) (\<lambda>_ d2. sbind (os_call d2) (\<lambda>_ d3.
      (Inr ?t, d3\<lparr>bd_files := (bd_files d3)(?t \<mapsto> bs), bd_synced := (bd_synced d3)(?t := False), bd_entry := (bd_entry d3)(?t := False)\<rparr>))))
      (\<lambda>t d'. bd_files d' t = Some bs \<and> (\<exists>sq. t = temp_name pid n sq))"
    if "bd_files d ?t = None"
    using that by (intro keeps_sbind [OF os_call_keeps] keeps_sbind [OF os_call_keeps]) (auto simp: kept_def)
  show ?case
  proof (cases "bd_next d \<ge> umax 64")
    case True
    then show ?thesis by (subst prepare.simps) simp
  next
    case False
    then show ?thesis
      using 1 [of ?t ?d] inc fresh by (subst prepare.simps) (simp add: Let_def)
  qed
qed

lemma race_keeps: "kept anything d (race d)"
  by (auto simp: race_def kept_def split: list.split option.split)

lemma race_existing: "bd_files d n = Some c \<Longrightarrow> bd_files (race d) n = Some c \<and> bd_synced (race d) n = bd_synced d n"
  by (auto simp: race_def split: list.split option.split)

lemma hard_link_keeps:
  assumes "bd_files d t = Some bs" and "bd_synced d t"
  shows "keeps anything d (hard_link t n d) (\<lambda>b d'. b \<longrightarrow> bd_files d' n = Some bs \<and> bd_synced d' n)"
proof -
  have "keeps anything (race d) (hard_link t n d) (\<lambda>b d'. b \<longrightarrow> bd_files d' n = Some bs \<and> bd_synced d' n)"
    unfolding hard_link_def
    by (rule keeps_sbind [OF os_call_keeps]) (use race_existing [OF assms(1)] assms in \<open>auto simp: kept_def\<close>)
  then show ?thesis using kept_trans [OF race_keeps] by (simp add: keeps_def)
qed

lemma dot_notin_path: "CHR ''.'' \<notin> set (path_for h)"
proof -
  have "hex_digit k \<noteq> CHR ''.''" if "k < 16" for k using that of_char_hex_digit [OF that] by (auto dest: arg_cong [of _ _ of_char] split: if_splits)
  moreover have "unat b div 16 < 16" "unat b mod 16 < 16" for b :: u8 using unat_u8_bound [of b] by auto
  ultimately have "CHR ''.'' \<notin> set (hex_byte b)" for b by (metis empty_set hex_byte.simps list.simps(15) empty_iff insert_iff)
  then show ?thesis by (auto simp: path_for_def simp del: hex_byte.simps)
qed

lemma temp_not_addressable: "\<not> addressable (temp_name pid n sq)"
  using dot_notin_path unfolding addressable_def by (metis temp_name_def append_Cons in_set_conv_decomp append.assoc)

lemma drop_keeps: "kept addressable d (drop_temporary (temp_name pid n sq) d)"
proof -
  obtain res fs where "os_call d = (res, d\<lparr>bd_faults := fs\<rparr>)"
    by (cases "bd_faults d") (auto simp: os_call_def intro: exI [of _ "bd_faults d"] that [of _ "bd_faults d"])
  then show ?thesis using temp_not_addressable [of pid n sq] by (auto simp: drop_temporary_def kept_def split: sum.split)
qed

lemma keeps_drop:
  "keeps addressable d m Q \<Longrightarrow> (\<And>x d'. Q x d' \<Longrightarrow> R x (drop_temporary (temp_name pid n sq) d'))
   \<Longrightarrow> keeps addressable d (apsnd (drop_temporary (temp_name pid n sq)) m) R"
  using kept_trans [OF _ drop_keeps] by (cases m) (auto simp: keeps_def)

text \<open>Exact bytes durable under a name.\<close>

definition durable :: "string \<Rightarrow> bytes \<Rightarrow> blob_disk \<Rightarrow> bool" where
  "durable n bs d \<longleftrightarrow> bd_files d n = Some bs \<and> bd_synced d n \<and> bd_entry d n"

lemma durable_kept: "kept P d d' \<Longrightarrow> P n \<Longrightarrow> durable n bs d \<Longrightarrow> durable n bs d'"
  by (auto simp: kept_def durable_def)

lemma same_pieces_eq: "length xs = length ys \<Longrightarrow> same_pieces xs ys \<longleftrightarrow> xs = ys"
proof (induction xs ys rule: same_pieces.induct)
  case (1 xs ys)
  show ?case
  proof (cases "ys = []")
    case False
    have "length (drop 8192 xs) = length (drop 8192 ys)" using "1.prems" by simp
    from "1.IH" [OF False this]
    have "same_pieces xs ys \<longleftrightarrow> take 8192 xs = take 8192 ys \<and> drop 8192 xs = drop 8192 ys"
      using False "1.prems" by (subst same_pieces.simps) (auto simp: min_def)
    then show ?thesis by (metis append_take_drop_id)
  qed (use 1 in \<open>simp add: same_pieces.simps\<close>)
qed

lemma same_blob_bytes_eq: "same_blob_bytes xs ys \<longleftrightarrow> xs = ys"
  using same_pieces_eq by (auto simp: same_blob_bytes_def)

lemma verify_keeps: "keeps anything d (verify_existing n bs d) (\<lambda>b d'. b \<longrightarrow> durable n bs d')"
proof -
  have sync: "keeps anything d2 (sbind (sync_file n d2) (\<lambda>_ d3. sbind (sync_parent_dir d3) (\<lambda>_ d4. (Inr True, d4))))
      (\<lambda>b d'. b \<longrightarrow> durable n bs d')" if "bd_files d2 n = Some bs" for d2
    unfolding sync_parent_dir_def
    by (rule keeps_sbind [OF sync_file_keeps], rule keeps_sbind [OF sync_dir_keeps]) (use that in \<open>auto simp: durable_def\<close>)
  show ?thesis
    unfolding verify_existing_def
  proof (rule keeps_sbind [OF os_call_keeps])
    fix d1 :: blob_disk assume d1: "\<exists>fs. d1 = d\<lparr>bd_faults := fs\<rparr>"
    show "keeps anything d1 (case bd_files d1 n of None \<Rightarrow> (Inr False, d1)
       | Some content \<Rightarrow> sbind (os_call d1) (\<lambda>_ d2. if \<not> same_blob_bytes content bs
           then (Inl (IoError InvalidData ''existing blob does not match its content address''), d2)
           else sbind (sync_file n d2) (\<lambda>_ d3. sbind (sync_parent_dir d3) (\<lambda>_ d4. (Inr True, d4)))))
       (\<lambda>b d'. b \<longrightarrow> durable n bs d')"
    proof (cases "bd_files d1 n")
      case (Some content)
      have "keeps anything d1 (sbind (os_call d1) (\<lambda>_ d2. if \<not> same_blob_bytes content bs
           then (Inl (IoError InvalidData ''existing blob does not match its content address''), d2)
           else sbind (sync_file n d2) (\<lambda>_ d3. sbind (sync_parent_dir d3) (\<lambda>_ d4. (Inr True, d4)))))
         (\<lambda>b d'. b \<longrightarrow> durable n bs d')"
        by (rule keeps_sbind [OF os_call_keeps]) (use Some sync in \<open>auto simp: same_blob_bytes_eq\<close>)
      then show ?thesis using Some by simp
    qed simp
  qed
qed

lemma publish_keeps:
  assumes "addressable n"
  shows "keeps addressable d (publish_new pid n bs d) (\<lambda>b d'. b \<longrightarrow> durable n bs d')"
  unfolding publish_new_def publish_new_with_def
proof (rule keeps_sbind [where Q = "\<lambda>t d'. bd_files d' t = Some bs \<and> bd_synced d' t \<and> (\<exists>sq. t = temp_name pid n sq)"])
  show "keeps addressable d (temporary_write pid n bs d)
      (\<lambda>t d'. bd_files d' t = Some bs \<and> bd_synced d' t \<and> (\<exists>sq. t = temp_name pid n sq))"
    unfolding temporary_write_def
  proof (rule keeps_sbind [OF keeps_weaken [OF prepare_keeps]])
    fix t :: string and d1 :: blob_disk
    assume t: "bd_files d1 t = Some bs \<and> (\<exists>sq. t = temp_name pid n sq)"
    then obtain sq where sq: "t = temp_name pid n sq" by blast
    obtain res d2 where s: "sync_file t d1 = (res, d2)" by fastforce
    have "kept anything d1 d2" "res = Inr () \<Longrightarrow> bd_files d2 = bd_files d1 \<and> bd_synced d2 t"
      using sync_file_keeps [of d1 t] s by (auto simp: keeps_def)
    then show "keeps addressable d1 (case sync_file t d1 of (Inl e, d2) \<Rightarrow> (Inl e, drop_temporary t d2) | (Inr _, d2) \<Rightarrow> (Inr t, d2))
        (\<lambda>t d'. bd_files d' t = Some bs \<and> bd_synced d' t \<and> (\<exists>sq. t = temp_name pid n sq))"
      using s t kept_weaken [of anything d1 d2 addressable] kept_trans [OF _ drop_keeps [of d2 pid n sq]] sq
      by (cases res) auto
  qed auto
next
  fix t :: string and d1 :: blob_disk
    assume t: "bd_files d1 t = Some bs \<and> bd_synced d1 t \<and> (\<exists>sq. t = temp_name pid n sq)"
  then obtain sq where sq: "t = temp_name pid n sq" by blast
  have "keeps anything d1 (sbind (hard_link t n d1) (\<lambda>published d2.
      if published then sbind (sync_directory_tree d2) (\<lambda>_ d3. (Inr True, d3)) else (Inr False, d2))) (\<lambda>b d'. b \<longrightarrow> durable n bs d')"
  proof (rule keeps_sbind [OF hard_link_keeps])
    fix b and d2 :: blob_disk assume "b \<longrightarrow> bd_files d2 n = Some bs \<and> bd_synced d2 n"
    then show "keeps anything d2 (if b then sbind (sync_directory_tree d2) (\<lambda>_ d3. (Inr True, d3)) else (Inr False, d2)) (\<lambda>b d'. b \<longrightarrow> durable n bs d')"
      by (cases b) (auto intro!: keeps_sbind [OF sync_tree_keeps] simp: durable_def)
  qed (use t in auto)
  then have "keeps addressable d1 (sbind (hard_link t n d1) (\<lambda>published d2.
      if published then sbind (sync_directory_tree d2) (\<lambda>_ d3. (Inr True, d3)) else (Inr False, d2))) (\<lambda>b d'. b \<longrightarrow> durable n bs d')"
    by (rule keeps_weaken) auto
  then show "keeps addressable d1 (apsnd (drop_temporary t) (sbind (hard_link t n d1) (\<lambda>published d2.
      if published then sbind (sync_directory_tree d2) (\<lambda>_ d3. (Inr True, d3)) else (Inr False, d2)))) (\<lambda>b d'. b \<longrightarrow> durable n bs d')"
    unfolding sq by (rule keeps_drop) (use durable_kept [OF drop_keeps assms] in blast)
qed

lemma write_keeps: "keeps addressable d (blob_write b3 pid bs d) (\<lambda>_ d'. durable (path_for (b3 bs)) bs d')"
proof -
  let ?n = "path_for (b3 bs)"
  have n: "addressable ?n" by (auto simp: addressable_def)
  note verify = keeps_weaken [OF verify_keeps, where R = addressable]
  show ?thesis
    unfolding blob_write_def Let_def
  proof (rule keeps_sbind [OF keeps_weaken [OF create_dir_keeps, where R = addressable and S = "\<lambda>_ _. True"]])
    fix d1 :: blob_disk
    show "keeps addressable d1 (sbind (verify_existing ?n bs d1) (\<lambda>present d2. if present then (Inr (), d2)
        else sbind (publish_new pid ?n bs d2) (\<lambda>published d3. if published then (Inr (), d3)
          else sbind (verify_existing ?n bs d3) (\<lambda>won d4. if won then (Inr (), d4) else (Inl (IoError NotFound ''published blob disappeared''), d4)))))
        (\<lambda>_ d'. durable ?n bs d')"
    proof (rule keeps_sbind [OF verify [where S = "\<lambda>b d'. b \<longrightarrow> durable ?n bs d'"]])
      fix b and d2 :: blob_disk assume b: "b \<longrightarrow> durable ?n bs d2"
      have "keeps addressable d3 (sbind (verify_existing ?n bs d3) (\<lambda>won d4. if won then (Inr (), d4)
          else (Inl (IoError NotFound ''published blob disappeared''), d4))) (\<lambda>_ d'. durable ?n bs d')" for d3
        by (rule keeps_sbind [OF verify [where S = "\<lambda>b d'. b \<longrightarrow> durable ?n bs d'"]]) auto
      then show "keeps addressable d2 (if b then (Inr (), d2)
        else sbind (publish_new pid ?n bs d2) (\<lambda>published d3. if published then (Inr (), d3)
          else sbind (verify_existing ?n bs d3) (\<lambda>won d4. if won then (Inr (), d4) else (Inl (IoError NotFound ''published blob disappeared''), d4))))
        (\<lambda>_ d'. durable ?n bs d')"
        using b by (auto intro!: keeps_sbind [OF publish_keeps [OF n]])
    qed auto
  qed auto
qed

section \<open>Batches\<close>

definition staged_ok :: "nat \<Rightarrow> staged list \<Rightarrow> blob_disk \<Rightarrow> bool" where
  "staged_ok pid pending d \<longleftrightarrow> (\<forall>(t, n, bs)\<in>set pending. bd_files d t = Some bs \<and> (\<exists>sq. t = temp_name pid n sq))"

definition stored_or_staged :: "(string \<times> bytes) set \<Rightarrow> staged list \<Rightarrow> blob_disk \<Rightarrow> bool" where
  "stored_or_staged E pending d \<longleftrightarrow> (\<forall>(n, bs)\<in>E. durable n bs d \<or> (\<exists>t. (t, n, bs) \<in> set pending))"

lemma staged_ok_kept: "staged_ok pid pending d \<Longrightarrow> kept anything d d' \<Longrightarrow> staged_ok pid pending d'"
  unfolding staged_ok_def kept_def by blast

lemma stored_kept: "stored_or_staged E pending d \<Longrightarrow> kept anything d d' \<Longrightarrow> stored_or_staged E (pending @ more_pending) d'"
  unfolding stored_or_staged_def using durable_kept [of anything d d'] by fastforce

lemma stage_batch_ok:
  "staged_ok pid pending d \<Longrightarrow> stored_or_staged (set uniq) pending d \<Longrightarrow>
   stage_batch pid verify_existing entries uniq pending d = (res, pending', d') \<Longrightarrow>
   kept anything d d' \<and> staged_ok pid pending' d' \<and> (res = Inr () \<longrightarrow> stored_or_staged (set uniq \<union> set entries) pending' d')"
proof (induction entries arbitrary: uniq pending d)
  case (Cons e entries)
  obtain n bs where e: "e = (n, bs)" by fastforce
  show ?case
  proof (cases "map_of uniq n")
    case (Some previous)
    then have "(n, previous) \<in> set uniq" by (rule map_of_SomeD)
    then show ?thesis using Cons.IH [OF Cons.prems(1,2)] Cons.prems Some by (auto simp: e insert_absorb split: if_splits)
  next
    case None
    obtain ver d1 where ver: "verify_existing n bs d = (ver, d1)" by fastforce
    have k1: "kept anything d d1" and dur: "ver = Inr True \<Longrightarrow> durable n bs d1"
      using verify_keeps [of d n bs] ver by (auto simp: keeps_def)
    note st1 = staged_ok_kept [OF Cons.prems(1) k1] and so1 = stored_kept [OF Cons.prems(2) k1, of "[]", simplified]
    show ?thesis
    proof (cases ver)
      case (Inl x)
      then show ?thesis using Cons.prems(3) None ver k1 st1 by (auto simp: e)
    next
      case (Inr b)
      show ?thesis
      proof (cases b)
        case True
        then have "stored_or_staged (set ((n, bs) # uniq)) pending d1" using so1 dur Inr by (simp add: stored_or_staged_def)
        from Cons.IH [OF st1 this] show ?thesis
          using Cons.prems(3) None ver Inr True kept_trans [OF k1] by (auto simp: e)
      next
        case False
        obtain pre d2 where pre: "prepare pid n bs d1 = (pre, d2)" by fastforce
        have k2: "kept anything d1 d2" and t: "\<And>t. pre = Inr t \<Longrightarrow> bd_files d2 t = Some bs \<and> (\<exists>sq. t = temp_name pid n sq)"
          using prepare_keeps [of d1 pid n bs] pre by (auto simp: keeps_def)
        note st2 = staged_ok_kept [OF st1 k2] and so2 = stored_kept [OF so1 k2]
        show ?thesis
        proof (cases pre)
          case (Inl x)
          then show ?thesis using Cons.prems(3) None ver Inr False pre kept_trans [OF k1 k2] st2 by (auto simp: e)
        next
          case (Inr t)
          have a: "staged_ok pid (pending @ [(t, n, bs)]) d2" using st2 t Inr by (auto simp: staged_ok_def)
          have b: "stored_or_staged (set ((n, bs) # uniq)) (pending @ [(t, n, bs)]) d2"
            using so2 [of "[(t, n, bs)]"] by (auto simp: stored_or_staged_def)
          from Cons.IH [OF a b] show ?thesis
            using Cons.prems(3) None ver \<open>ver = Inr b\<close> False pre Inr kept_trans [OF kept_trans [OF k1 k2]] by (auto simp: e)
        qed
      qed
    qed
  qed
qed simp

lemma sync_staged_keeps:
  "keeps anything d (sync_staged pending d) (\<lambda>_ d'. bd_files d' = bd_files d \<and> (\<forall>(t, _)\<in>set pending. bd_files d t \<noteq> None \<longrightarrow> bd_synced d' t))"
proof (induction pending arbitrary: d)
  case (Cons p pending)
  obtain t n bs where p: "p = (t, n, bs)" by (cases p)
  have "keeps anything d (sbind (sync_file t d) (\<lambda>_ d1. sync_staged pending d1))
      (\<lambda>_ d'. bd_files d' = bd_files d \<and> (\<forall>(t, _)\<in>set (p # pending). bd_files d t \<noteq> None \<longrightarrow> bd_synced d' t))"
  proof (rule keeps_sbind [OF sync_file_keeps], rule keeps_weaken [OF Cons.IH])
    fix d1 d' :: blob_disk and u :: unit
    assume d1: "bd_files d1 = bd_files d \<and> bd_synced d1 t \<and> bd_entry d1 = bd_entry d"
      and d': "bd_files d' = bd_files d1 \<and> (\<forall>(t, _)\<in>set pending. bd_files d1 t \<noteq> None \<longrightarrow> bd_synced d' t)"
      and k: "kept anything d1 d'"
    have "bd_files d t \<noteq> None \<longrightarrow> bd_synced d' t" using d1 k unfolding kept_def by auto
    then show "bd_files d' = bd_files d \<and> (\<forall>(t, _)\<in>set (p # pending). bd_files d t \<noteq> None \<longrightarrow> bd_synced d' t)"
      using d1 d' by (auto simp: p)
  qed
  then show ?case by (simp add: p)
qed simp

definition linked_ok :: "staged list \<Rightarrow> bool \<Rightarrow> blob_disk \<Rightarrow> bool" where
  "linked_ok pending synced d \<longleftrightarrow> (\<forall>(t, n, bs)\<in>set pending. bd_files d n = Some bs \<and> bd_synced d n \<and> (synced \<or> bd_entry d n))"

lemma link_staged_keeps:
  "(\<forall>(t, n, bs)\<in>set pending. bd_files d t = Some bs \<and> bd_synced d t) \<Longrightarrow>
   keeps anything d (link_staged verify_existing pending linked d) (\<lambda>b d'. (linked \<longrightarrow> b) \<and> linked_ok pending b d')"
proof (induction pending arbitrary: linked d)
  case (Cons p pending)
  obtain t n bs where p: "p = (t, n, bs)" by (cases p)
  have tail: "keeps anything d1 (link_staged verify_existing pending l d1) (\<lambda>b d'. (linked \<longrightarrow> b) \<and> linked_ok (p # pending) b d')"
    if d1: "bd_files d1 n = Some bs" "bd_synced d1 n" "l \<or> bd_entry d1 n" "linked \<longrightarrow> l" "kept anything d d1" for d1 l
  proof (rule keeps_weaken [OF Cons.IH])
    show "\<forall>(t, n, bs)\<in>set pending. bd_files d1 t = Some bs \<and> bd_synced d1 t"
      using Cons.prems d1(5) unfolding kept_def by fastforce
    fix b and d' :: blob_disk assume "(l \<longrightarrow> b) \<and> linked_ok pending b d'" "kept anything d1 d'"
    then show "(linked \<longrightarrow> b) \<and> linked_ok (p # pending) b d'"
      using d1 unfolding kept_def linked_ok_def p by auto
  qed simp
  have "keeps anything d (sbind (hard_link t n d) (\<lambda>published d1. if published then link_staged verify_existing pending True d1
      else sbind (verify_existing n bs d1) (\<lambda>present d2. if present then link_staged verify_existing pending linked d2
        else (Inl (IoError NotFound ''concurrent blob publication disappeared''), d2))))
      (\<lambda>b d'. (linked \<longrightarrow> b) \<and> linked_ok (p # pending) b d')"
  proof (rule keeps_sbind [OF hard_link_keeps])
    fix b and d1 :: blob_disk assume b: "b \<longrightarrow> bd_files d1 n = Some bs \<and> bd_synced d1 n" and k: "kept anything d d1"
    have "keeps anything d1 (sbind (verify_existing n bs d1) (\<lambda>present d2. if present then link_staged verify_existing pending linked d2
        else (Inl (IoError NotFound ''concurrent blob publication disappeared''), d2))) (\<lambda>b d'. (linked \<longrightarrow> b) \<and> linked_ok (p # pending) b d')"
      by (rule keeps_sbind [OF verify_keeps]) (use tail kept_trans [OF k] in \<open>auto simp: durable_def\<close>)
    then show "keeps anything d1 (if b then link_staged verify_existing pending True d1
      else sbind (verify_existing n bs d1) (\<lambda>present d2. if present then link_staged verify_existing pending linked d2
        else (Inl (IoError NotFound ''concurrent blob publication disappeared''), d2)))
      (\<lambda>b d'. (linked \<longrightarrow> b) \<and> linked_ok (p # pending) b d')"
      using b tail [of d1 True] k by (cases b) auto
  qed (use Cons.prems p in auto)
  then show ?case by (simp add: p)
qed (simp add: linked_ok_def)

lemma drop_all_kept: "staged_ok pid pending d0 \<Longrightarrow> kept addressable d (fold (\<lambda>(t, _, _). drop_temporary t) pending d)"
proof (induction pending arbitrary: d)
  case (Cons p pending)
  obtain t n bs where p: "p = (t, n, bs)" by (cases p)
  obtain sq where "t = temp_name pid n sq" and "staged_ok pid pending d0" using Cons.prems by (auto simp: staged_ok_def p)
  then show ?case using kept_trans [OF drop_keeps Cons.IH] by (simp add: p)
qed simp

lemma publish_batch_keeps:
  assumes "\<forall>(n, bs)\<in>set entries. addressable n"
  shows "keeps addressable d (publish_batch pid entries d) (\<lambda>_ d'. \<forall>(n, bs)\<in>set entries. durable n bs d')"
proof -
  obtain res pending d1 where st: "stage_batch pid verify_existing entries [] [] d = (res, pending, d1)" by (metis prod_cases3)
  have k1: "kept anything d d1" and ok: "staged_ok pid pending d1"
    and all: "res = Inr () \<Longrightarrow> stored_or_staged (set entries) pending d1"
    using stage_batch_ok [OF _ _ st] by (simp_all add: staged_ok_def stored_or_staged_def)
  let ?body = "sbind (res, d1) (\<lambda>_ d1. sbind (sync_staged pending d1) (\<lambda>_ d2.
      sbind (link_staged verify_existing pending False d2) (\<lambda>linked d3. if linked then sync_directory_tree d3 else (Inr (), d3))))"
  have "keeps anything d1 (sbind (sync_staged pending d1) (\<lambda>_ d2.
      sbind (link_staged verify_existing pending False d2) (\<lambda>linked d3. if linked then sync_directory_tree d3 else (Inr (), d3))))
      (\<lambda>_ d'. \<forall>(t, n, bs)\<in>set pending. durable n bs d')"
  proof (rule keeps_sbind [OF sync_staged_keeps], rule keeps_sbind [OF link_staged_keeps])
    fix d2 :: blob_disk
    assume "bd_files d2 = bd_files d1 \<and> (\<forall>(t, _)\<in>set pending. bd_files d1 t \<noteq> None \<longrightarrow> bd_synced d2 t)"
    then show "\<forall>(t, n, bs)\<in>set pending. bd_files d2 t = Some bs \<and> bd_synced d2 t"
      using ok unfolding staged_ok_def by fastforce
  next
    fix b and d3 :: blob_disk assume l: "(False \<longrightarrow> b) \<and> linked_ok pending b d3"
    have "keeps anything d3 (sync_directory_tree d3) (\<lambda>_ d'. \<forall>(t, n, bs)\<in>set pending. durable n bs d')"
      by (rule keeps_weaken [OF sync_tree_keeps]) (use l in \<open>auto simp: linked_ok_def durable_def\<close>)
    then show "keeps anything d3 (if b then sync_directory_tree d3 else (Inr (), d3)) (\<lambda>_ d'. \<forall>(t, n, bs)\<in>set pending. durable n bs d')"
      using l by (cases b) (auto simp: linked_ok_def durable_def)
  qed
  then have "keeps anything d1 ?body (\<lambda>_ d'. \<forall>(n, bs)\<in>set entries. durable n bs d')"
  proof (cases res)
    case (Inr u)
    assume body: "keeps anything d1 (sbind (sync_staged pending d1) (\<lambda>_ d2.
      sbind (link_staged verify_existing pending False d2) (\<lambda>linked d3. if linked then sync_directory_tree d3 else (Inr (), d3))))
      (\<lambda>_ d'. \<forall>(t, n, bs)\<in>set pending. durable n bs d')"
    have "keeps anything d1 (sbind (sync_staged pending d1) (\<lambda>_ d2.
      sbind (link_staged verify_existing pending False d2) (\<lambda>linked d3. if linked then sync_directory_tree d3 else (Inr (), d3))))
      (\<lambda>_ d'. \<forall>(n, bs)\<in>set entries. durable n bs d')"
    proof (rule keeps_weaken [OF body])
      fix u and d' :: blob_disk
      assume "\<forall>(t, n, bs)\<in>set pending. durable n bs d'" "kept anything d1 d'"
      then show "\<forall>(n, bs)\<in>set entries. durable n bs d'"
        using all Inr durable_kept [of anything d1 d'] unfolding stored_or_staged_def by fastforce
    qed simp
    then show ?thesis using Inr by (simp add: sbind_def)
  qed (simp add: sbind_def)
  then have "keeps addressable d ?body (\<lambda>_ d'. \<forall>(n, bs)\<in>set entries. durable n bs d')"
    using kept_weaken [OF kept_trans [OF k1], of _ addressable] by (auto simp: keeps_def)
  then have "keeps addressable d (apsnd (fold (\<lambda>(t, _, _). drop_temporary t) pending) ?body) (\<lambda>_ d'. \<forall>(n, bs)\<in>set entries. durable n bs d')"
    using kept_trans [OF _ drop_all_kept [OF ok]] durable_kept [OF drop_all_kept [OF ok]] assms
    by (cases ?body) (fastforce simp: keeps_def)
  then show ?thesis by (simp add: publish_batch_def publish_batch_with_def st)
qed

lemma concat_chunks: "0 < n \<Longrightarrow> concat (chunks n xs) = xs"
  by (induction n xs rule: chunks.induct) (subst chunks.simps, simp)

lemma write_cohorts_keeps:
  "keeps addressable d (write_cohorts b3 pid cs d) (\<lambda>_ d'. \<forall>bs\<in>set (concat cs). durable (path_for (b3 bs)) bs d')"
proof (induction cs arbitrary: d)
  case (Cons c cs)
  have "keeps addressable d (sbind (publish_batch pid (map (\<lambda>bs. (path_for (b3 bs), bs)) c) d) (\<lambda>_ d1. write_cohorts b3 pid cs d1))
      (\<lambda>_ d'. \<forall>bs\<in>set (concat (c # cs)). durable (path_for (b3 bs)) bs d')"
  proof (rule keeps_sbind [OF publish_batch_keeps], goal_cases)
    case 1
    then show ?case by (auto simp: addressable_def)
  next
    case (2 u d1)
    show ?case
      by (rule keeps_weaken [OF Cons.IH]) (use 2 durable_kept in \<open>fastforce simp: addressable_def\<close>)+
  qed
  then show ?case by simp
qed simp

lemma write_batch_keeps:
  "keeps addressable d (write_batch b3 pid payloads d) (\<lambda>_ d'. \<forall>bs\<in>set payloads. durable (path_for (b3 bs)) bs d')"
proof -
  have "keeps addressable d (sbind (create_dir_all d) (\<lambda>_ d1. write_cohorts b3 pid (chunks 64 payloads) d1))
      (\<lambda>_ d'. \<forall>bs\<in>set payloads. durable (path_for (b3 bs)) bs d')"
    by (rule keeps_sbind [OF keeps_weaken [OF create_dir_keeps, where R = addressable and S = "\<lambda>_ _. True"]])
      (use write_cohorts_keeps [where cs = "chunks 64 payloads"] in \<open>simp_all add: concat_chunks\<close>)
  then show ?thesis by (simp add: write_batch_def)
qed

lemma blob_reference_Inr:
  "blob_reference b3 bs = Inr r \<longleftrightarrow> length bs < 2 ^ 32 \<and> r = \<lparr>blob_id = Hash256 (b3 bs), blob_len = word_of_nat (length bs)\<rparr>"
  by (auto simp: blob_reference_def rbind_Inr_iff ok_or_Inr_iff u32_try_from_Some)

lemma put_keeps: "keeps addressable d (blob_put b3 pid bs d)
    (\<lambda>r d'. blob_reference b3 bs = Inr r \<and> durable (path_for (b3 bs)) bs d')"
  by (cases "blob_reference b3 bs") (auto simp: blob_put_def intro!: keeps_sbind [OF write_keeps])

lemma put_batch_keeps: "keeps addressable d (blob_put_batch b3 pid payloads d)
    (\<lambda>rs d'. traverse (blob_reference b3) payloads = Inr rs \<and> (\<forall>bs\<in>set payloads. durable (path_for (b3 bs)) bs d'))"
  by (cases "traverse (blob_reference b3) payloads") (auto simp: blob_put_batch_def intro!: keeps_sbind [OF write_batch_keeps])

section \<open>The contract\<close>

text \<open>
  What \<open>BlobSource\<close> and \<open>BlobStorage\<close> promise: verified reads, and acknowledged contents that
  stay durable. \<open>durb\<close> gives the content addresses whose exact bytes survive a crash.
\<close>

locale blob_storage_laws =
  fixes ops :: "'b blob_storage" and b3 :: "bytes \<Rightarrow> bytes" and durb :: "'b \<Rightarrow> bytes set"
  assumes read_found: "bs_read_content ops (Hash256 h) b = Inr (Found bs) \<Longrightarrow> b3 bs = h"
    and put_keeps_durable: "bs_put ops bs b = (res, b') \<Longrightarrow> durb b \<subseteq> durb b'"
    and put_durable: "bs_put ops bs b = (Inr r, b') \<Longrightarrow>
      blob_id r = Hash256 (b3 bs) \<and> unat (blob_len r) = length bs \<and> b3 bs \<in> durb b'"

definition durable_hashes :: "(bytes \<Rightarrow> bytes) \<Rightarrow> blob_disk \<Rightarrow> bytes set" where
  "durable_hashes b3 d = {h. \<exists>bs. b3 bs = h \<and> durable (path_for h) bs d}"

interpretation blob: blob_storage_laws "blob_store b3 pid" b3 "durable_hashes b3"
proof
  fix h bs d assume "bs_read_content (blob_store b3 pid) (Hash256 h) d = Inr (Found bs)"
  then show "b3 bs = h"
    by (auto simp: blob_store_def read_content_def rbind_Inr_iff split: option.splits if_splits)
next
  fix bs d res d' assume "bs_put (blob_store b3 pid) bs d = (res, d')"
  then have "kept addressable d d'" using put_keeps [of d b3 pid bs] by (auto simp: blob_store_def keeps_def)
  then show "durable_hashes b3 d \<subseteq> durable_hashes b3 d'"
    using durable_kept unfolding durable_hashes_def addressable_def by blast
next
  fix bs d r d' assume "bs_put (blob_store b3 pid) bs d = (Inr r, d')"
  then have "blob_reference b3 bs = Inr r" "durable (path_for (b3 bs)) bs d'"
    using put_keeps [of d b3 pid bs] by (auto simp: blob_store_def keeps_def)
  then show "blob_id r = Hash256 (b3 bs) \<and> unat (blob_len r) = length bs \<and> b3 bs \<in> durable_hashes b3 d'"
    by (auto simp: blob_reference_Inr durable_hashes_def)
qed

section \<open>Properties\<close>

text \<open>
  C4. Whatever fails and whatever other writers publish meanwhile, a write never changes or
  removes contents stored under an address and never makes durable contents less durable. An
  acknowledged write is durable under its content address, returns that address and the length,
  and unless reading its file fails both resolution paths then find exactly its bytes; a batch
  acknowledges all its payloads.
\<close>

theorem blob_put_durable:
  assumes "blob_put b3 pid bs d = (res, d')" and "blob_put_batch b3 pid payloads d = (ress, d'')"
  shows "(\<forall>h c. bd_files d (path_for h) = Some c \<longrightarrow> bd_files d' (path_for h) = Some c \<and> bd_files d'' (path_for h) = Some c)
    \<and> durable_hashes b3 d \<subseteq> durable_hashes b3 d' \<inter> durable_hashes b3 d''
    \<and> (\<forall>r. res = Inr r \<longrightarrow> durable (path_for (b3 bs)) bs d' \<and> blob_id r = Hash256 (b3 bs) \<and> unat (blob_len r) = length bs
        \<and> (\<not> bd_unreadable d' (path_for (b3 bs)) \<longrightarrow>
             blob_resolve b3 r d' = Found bs \<and> read_content b3 (blob_id r) d' = Inr (Found bs)))
    \<and> (\<forall>rs. ress = Inr rs \<longrightarrow> length rs = length payloads \<and> (\<forall>p\<in>set payloads. durable (path_for (b3 p)) p d''))"
proof -
  have put: "kept addressable d d'" "\<And>r. res = Inr r \<Longrightarrow> blob_reference b3 bs = Inr r \<and> durable (path_for (b3 bs)) bs d'"
    using put_keeps [of d b3 pid bs] assms(1) by (auto simp: keeps_def)
  have batch: "kept addressable d d''"
    "\<And>rs. ress = Inr rs \<Longrightarrow> traverse (blob_reference b3) payloads = Inr rs \<and> (\<forall>p\<in>set payloads. durable (path_for (b3 p)) p d'')"
    using put_batch_keeps [of d b3 pid payloads] assms(2) by (auto simp: keeps_def)
  have hashes: "durable_hashes b3 d \<subseteq> durable_hashes b3 e" if "kept addressable d e" for e
    using durable_kept [OF that] unfolding durable_hashes_def addressable_def by blast
  have addr: "addressable (path_for h)" for h by (auto simp: addressable_def)
  have files: "bd_files e (path_for h) = Some c" if "kept addressable d e" "bd_files d (path_for h) = Some c" for e h c
    using that addr [of h] unfolding kept_def by blast
  have reads: "blob_resolve b3 r d' = Found bs \<and> read_content b3 (blob_id r) d' = Inr (Found bs)"
    if "res = Inr r" "\<not> bd_unreadable d' (path_for (b3 bs))" for r
    using put(2) [OF that(1)] that(2)
    by (auto simp: blob_reference_Inr durable_def blob_resolve_def read_content_def blob_get_def addressable_hash_def blob_matches_def)
  have "durable (path_for (b3 bs)) bs d' \<and> blob_id r = Hash256 (b3 bs) \<and> unat (blob_len r) = length bs" if "res = Inr r" for r
    using put(2) [OF that] by (auto simp: blob_reference_Inr)
  moreover have "length rs = length payloads" if "ress = Inr rs" for rs
    using batch(2) [OF that] traverse_length by blast
  ultimately show ?thesis
    using files [OF put(1)] files [OF batch(1)] hashes [OF put(1)] hashes [OF batch(1)] reads batch(2) by blast
qed

text \<open>A directory in which another writer publishes the same blob just before this one links its own.\<close>

definition raced_disk :: blob_disk where
  "raced_disk = \<lparr>bd_dir = AbsentDir, bd_files = Map.empty, bd_synced = (\<lambda>_. False), bd_entry = (\<lambda>_. False), bd_faults = [],
     bd_races = [Some (path_for [1], [7])], bd_next = 0, bd_unreadable = (\<lambda>_. False)\<rparr>"

theorem blob_put_durable_witness:
  "\<exists>d'. blob_put (\<lambda>_. [1]) 3 [7] raced_disk = (Inr \<lparr>blob_id = Hash256 [1], blob_len = 1\<rparr>, d') \<and> durable (path_for [1]) [7] d'"
proof -
  let ?m = "blob_put (\<lambda>_. [1]) 3 [7] raced_disk"
  have names: "path_for [1] = ''01''" "temp_name 3 ''01'' 0 = ''01.tmp.3.0''"
    by code_simp+
  have same: "same_blob_bytes [7] [7]" by (simp add: same_blob_bytes_eq)
  have "fst ?m = Inr \<lparr>blob_id = Hash256 [1], blob_len = 1\<rparr>"
    unfolding raced_disk_def names
    by (simp add: names same blob_put_def blob_reference_def u32_try_from_def blob_write_def create_dir_all_def sync_directory_tree_def
        sync_dir_def sync_parent_dir_def os_call_def sbind_def verify_existing_def publish_new_def publish_new_with_def temporary_write_def
        prepare.simps sync_file_def drop_temporary_def hard_link_def race_def Let_def)
  then show ?thesis
    using blob_put_durable [of "\<lambda>_. [1]" 3 "[7]" raced_disk "fst ?m" "snd ?m" "[]"
      "fst (blob_put_batch (\<lambda>_. [1]) 3 [] raced_disk)" "snd (blob_put_batch (\<lambda>_. [1]) 3 [] raced_disk)"]
    by (cases ?m) simp
qed

end
