(* ===== verification/Segment.thy ===== *)
theory Segment
  imports Log "HOL-Library.AList"
begin

text \<open>
  Segment storage (\<open>editchain-store/src/segment.rs\<close>, \<open>visit.rs\<close>): packed EC03 frames
  in numbered files of a chain directory, size-based rotation, recovery of the frontier after
  an uncertain write, and replay of the complete records.

  A chain directory is a list of file names with their bytes. Writes may fail: the outcomes of
  the coming writes are a list in the disk, each either a success or an error after some of the
  bytes reached the file. \<open>dk_durable\<close> is the length of each file that is guaranteed to
  survive a crash: a successful append or sync raises it, a failed one promises nothing. Opening the
  file, writing, syncing it and syncing the directory are one such call, so a failed call may leave an empty
  new file even where opening it failed. Reading
  and listing a directory do not fail. The exclusive lock is a flag of the directory.
\<close>

section \<open>The chain directory\<close>

type_synonym write_fault = "(nat \<times> io_error) option"

record disk =
  dk_files :: "(string \<times> bytes) list"
  dk_durable :: "string \<Rightarrow> nat"
  dk_faults :: "write_fault list"
  dk_locked :: bool

definition next_fault :: "disk \<Rightarrow> write_fault \<times> disk" where
  "next_fault d = (case dk_faults d of [] \<Rightarrow> (None, d) | f # fs \<Rightarrow> (f, d\<lparr>dk_faults := fs\<rparr>))"

definition file_bytes :: "disk \<Rightarrow> string \<Rightarrow> bytes" where
  "file_bytes d name = (case map_of (dk_files d) name of None \<Rightarrow> [] | Some bs \<Rightarrow> bs)"

text \<open>Open for appending (creating the file), write, sync the file and its directory.\<close>

definition append_file :: "string \<Rightarrow> bytes \<Rightarrow> disk \<Rightarrow> unit io_result \<times> disk" where
  "append_file name bs d =
     (let old = file_bytes d name; (fault, d1) = next_fault d in
      case fault of
        None \<Rightarrow> (Inr (), d1\<lparr>dk_files := AList.update name (old @ bs) (dk_files d1),
                    dk_durable := (dk_durable d1)(name := length (old @ bs))\<rparr>)
      | Some (k, e) \<Rightarrow> (Inl e, d1\<lparr>dk_files := AList.update name (old @ take k bs) (dk_files d1)\<rparr>))"

text \<open>\<open>durable::atomic_write\<close>: the whole file or the old one; an error leaves either.\<close>

definition atomic_write :: "string \<Rightarrow> bytes \<Rightarrow> disk \<Rightarrow> unit io_result \<times> disk" where
  "atomic_write name bs d =
     (let (fault, d1) = next_fault d; written = d1\<lparr>dk_files := AList.update name bs (dk_files d1)\<rparr> in
      case fault of
        None \<Rightarrow> (Inr (), written\<lparr>dk_durable := (dk_durable d1)(name := length bs)\<rparr>)
      | Some (k, e) \<Rightarrow> (Inl e, if k = 0 then d1 else written))"

section \<open>Segment names\<close>

definition segment_name :: "nat \<Rightarrow> string" where
  "segment_name q = replicate (6 - length (show_nat q)) (CHR ''0'') @ show_nat q @ ''.eclog''"

definition strip_suffix :: "string \<Rightarrow> string \<Rightarrow> string option" where
  "strip_suffix suffix s =
     (if length suffix \<le> length s \<and> drop (length s - length suffix) s = suffix
      then Some (take (length s - length suffix) s) else None)"

fun segment_numbers :: "string list \<Rightarrow> (nat list) io_result" where
  "segment_numbers [] = Inr []"
| "segment_numbers (name # names) = (case strip_suffix ''.eclog'' name of
       None \<Rightarrow> segment_numbers names
     | Some number \<Rightarrow>
         (case from_str_radix (umax 32) 10 number of
            None \<Rightarrow> Inl (IoError InvalidData ''invalid segment number'')
          | Some q \<Rightarrow>
              if name \<noteq> segment_name q then Inl (IoError InvalidData ''noncanonical segment filename'')
              else rbind (segment_numbers names) (\<lambda>qs. Inr (q # qs))))"

definition segment_sequences :: "disk \<Rightarrow> (nat list) io_result" where
  "segment_sequences d = rbind (segment_numbers (map fst (dk_files d))) (\<lambda>qs.
     let sorted_qs = sort qs in
     if sorted_qs = [0..<length sorted_qs] then Inr sorted_qs
     else Inl (IoError InvalidData ''segment sequence has a gap''))"

section \<open>Replay\<close>

text \<open>The records one segment shows to a visitor, and whether it ends with an incomplete tail.\<close>

fun collect_records :: "(scan_error + scan_item) list \<Rightarrow> (log_record list \<times> bool) io_result" where
  "collect_records [] = Inr ([], False)"
| "collect_records (Inr (PageItem _ _) # items) = collect_records items"
| "collect_records (Inr (RecordItem r) # items) =
     rbind (collect_records items) (\<lambda>(rs, t). Inr ((rr_flags r, rr_data r) # rs, t))"
| "collect_records (Inl e # items) =
     (if se_kind e = IncompleteTail then Inr ([], True) else Inl (IoError InvalidData ''segment''))"

definition segment_records :: "(bytes \<Rightarrow> u32) \<Rightarrow> bytes \<Rightarrow> (log_record list \<times> bool) io_result" where
  "segment_records crc bs = collect_records (fst (scan_rest crc (page_scanner_new bs)))"

fun visit_sequences :: "(bytes \<Rightarrow> u32) \<Rightarrow> disk \<Rightarrow> nat list \<Rightarrow> (log_record list \<times> nat) io_result" where
  "visit_sequences crc d [] = Inr ([], 0)"
| "visit_sequences crc d (q # qs) =
     rbind (ok_or (IoError NotFound ''segment'') (map_of (dk_files d) (segment_name q))) (\<lambda>bs.
     rbind (segment_records crc bs) (\<lambda>(rs, torn).
     rbind (visit_sequences crc d qs) (\<lambda>(rs', n). Inr (rs @ rs', sat_add 64 n (if torn then 1 else 0)))))"

definition visit_disk :: "(bytes \<Rightarrow> u32) \<Rightarrow> disk \<Rightarrow> (log_record list \<times> nat) io_result" where
  "visit_disk crc d = rbind (segment_sequences d) (visit_sequences crc d)"

fun read_pages :: "(scan_error + scan_item) list \<Rightarrow> page list \<Rightarrow> (page list) io_result" where
  "read_pages [] pages = Inr pages"
| "read_pages (Inr (PageItem q _) # items) pages = read_pages items (pages @ [page_new q])"
| "read_pages (Inr (RecordItem r) # items) pages =
     (if pages = [] then Inl (IoError InvalidData ''record has no page'')
      else read_pages items (butlast pages @ [page_add_record (rr_flags r) (rr_data r) (last pages)]))"
| "read_pages (Inl e # items) pages =
     (if se_kind e = IncompleteTail then Inr pages else Inl (IoError InvalidData ''segment''))"

fun read_all_sequences :: "(bytes \<Rightarrow> u32) \<Rightarrow> disk \<Rightarrow> nat list \<Rightarrow> page list \<Rightarrow> (page list) io_result" where
  "read_all_sequences crc d [] pages = Inr pages"
| "read_all_sequences crc d (q # qs) pages =
     rbind (ok_or (IoError NotFound ''segment'') (map_of (dk_files d) (segment_name q))) (\<lambda>bs.
     rbind (read_pages (fst (scan_rest crc (page_scanner_new bs))) pages) (\<lambda>pages'.
       read_all_sequences crc d qs pages'))"

definition read_all :: "(bytes \<Rightarrow> u32) \<Rightarrow> disk \<Rightarrow> (page list) io_result" where
  "read_all crc d = rbind (segment_sequences d) (\<lambda>qs. read_all_sequences crc d qs [])"

section \<open>The store\<close>

record segment_store =
  sg_disk :: disk
  sg_next_seq :: nat
  sg_max_segment_bytes :: nat
  sg_length :: nat
  sg_needs_recovery :: bool
  sg_initialize_layout :: bool

definition DEFAULT_SEGMENT_BYTES :: nat where "DEFAULT_SEGMENT_BYTES = 32 * 1024 * 1024"
definition PACKING_MARKER :: string where "PACKING_MARKER = ''.segment-layout''"
definition PACKING_VERSION :: bytes where "PACKING_VERSION = str_bytes ''EC03-packed-v2'' @ [10]"
definition FRAME_TARGET_BYTES :: nat where "FRAME_TARGET_BYTES = 1024 * 1024"

definition current_name :: "segment_store \<Rightarrow> string" where
  "current_name s = segment_name (sg_next_seq s)"

definition rotate :: "segment_store \<Rightarrow> unit io_result \<times> segment_store" where
  "rotate s = (case map_of (dk_files (sg_disk s)) (current_name s) of
       None \<Rightarrow> (Inr (), s)
     | Some _ \<Rightarrow> (case checked_add 32 (sg_next_seq s) 1 of
         None \<Rightarrow> (Inl (IoError InvalidData ''segment sequence exhausted''), s)
       | Some q \<Rightarrow> (Inr (), s\<lparr>sg_next_seq := q, sg_length := 0\<rparr>)))"

definition recover_frontier :: "(bytes \<Rightarrow> u32) \<Rightarrow> segment_store \<Rightarrow> unit io_result \<times> segment_store" where
  "recover_frontier crc s = (case map_of (dk_files (sg_disk s)) (current_name s) of
       None \<Rightarrow> (Inr (), s\<lparr>sg_length := 0, sg_needs_recovery := False\<rparr>)
     | Some bs \<Rightarrow>
         let s1 = s\<lparr>sg_length := length bs\<rparr> in
         (case segment_records crc bs of
            Inl e \<Rightarrow> (Inl e, s1)
          | Inr (_, incomplete) \<Rightarrow>
              sbind (if incomplete \<or> sg_max_segment_bytes s \<le> sg_length s1 then rotate s1 else (Inr (), s1)) (\<lambda>_ s2.
                (Inr (), s2\<lparr>sg_needs_recovery := False\<rparr>))))"

definition append_page :: "(bytes \<Rightarrow> u32) \<Rightarrow> page \<Rightarrow> segment_store \<Rightarrow> unit io_result \<times> segment_store" where
  "append_page crc p s =
     (case encode_records crc (page_seq p) (map (\<lambda>r. (rec_flags r, rec_data r)) (pg_records p)) of
        Inl _ \<Rightarrow> (Inl (IoError InvalidInput ''frame''), s)
      | Inr encoded \<Rightarrow>
          sbind (if sg_needs_recovery s then recover_frontier crc s else (Inr (), s)) (\<lambda>_ s1.
          sbind (if 0 < sg_length s1 \<and> sg_max_segment_bytes s1 < sat_add 64 (sg_length s1) (length encoded)
                 then rotate s1 else (Inr (), s1)) (\<lambda>_ s2.
            let name = current_name s2; s3 = s2\<lparr>sg_needs_recovery := True\<rparr>;
                (persisted, d) = append_file name encoded (sg_disk s3); s4 = s3\<lparr>sg_disk := d\<rparr> in
            sbind (persisted, s4) (\<lambda>_ s4.
            sbind (if sg_initialize_layout s4
                   then (let (marked, d') = atomic_write PACKING_MARKER PACKING_VERSION (sg_disk s4)
                         in (case marked of Inl e \<Rightarrow> (Inl e, s4\<lparr>sg_disk := d'\<rparr>)
                             | Inr _ \<Rightarrow> (Inr (), s4\<lparr>sg_disk := d', sg_initialize_layout := False\<rparr>)))
                   else (Inr (), s4)) (\<lambda>_ s5.
              (Inr (), s5\<lparr>sg_length := length (file_bytes (sg_disk s5) name), sg_needs_recovery := False\<rparr>))))))"

text \<open>\<open>AppendLog::append_records\<close>: frames of at most the target size, one append each.\<close>

fun append_frames ::
  "(bytes \<Rightarrow> u32) \<Rightarrow> log_record list \<Rightarrow> page \<Rightarrow> nat \<Rightarrow> segment_store \<Rightarrow> unit io_result \<times> segment_store" where
  "append_frames crc [] p len s = (if pg_records p \<noteq> [] then append_page crc p s else (Inr (), s))"
| "append_frames crc ((flags, encoded) # rs) p len s =
     (let added = sat_add 64 (length encoded) RECORD_OVERHEAD in
      if pg_records p \<noteq> [] \<and> min FRAME_TARGET_BYTES (sg_max_segment_bytes s) < sat_add 64 len added
      then sbind (append_page crc p s) (\<lambda>_ s1.
        append_frames crc rs (page_add_record flags encoded (page_new (word_of_nat (sg_next_seq s1))))
          (sat_add 64 FRAME_OVERHEAD added) s1)
      else append_frames crc rs (page_add_record flags encoded p) (sat_add 64 len added) s)"

definition segment_append_records ::
  "(bytes \<Rightarrow> u32) \<Rightarrow> log_record list \<Rightarrow> segment_store \<Rightarrow> unit io_result \<times> segment_store" where
  "segment_append_records crc rs s =
     append_frames crc rs (page_new (word_of_nat (sg_next_seq s))) FRAME_OVERHEAD s"

definition sync_all :: "segment_store \<Rightarrow> unit io_result \<times> segment_store" where
  "sync_all s =
     (case segment_sequences (sg_disk s) of
        Inl e \<Rightarrow> (Inl e, s)
      | Inr qs \<Rightarrow>
          let (fault, d) = next_fault (sg_disk s) in
          (case fault of
             Some (_, e) \<Rightarrow> (Inl e, s\<lparr>sg_disk := d\<rparr>)
           | None \<Rightarrow> (Inr (), s\<lparr>sg_disk := d\<lparr>dk_durable := (\<lambda>name.
               if name \<in> segment_name ` set qs then length (file_bytes d name) else dk_durable d name)\<rparr>\<rparr>)))"

definition segment_log :: "(bytes \<Rightarrow> u32) \<Rightarrow> segment_store append_log" where
  "segment_log crc = \<lparr>visit_records = (\<lambda>s. visit_disk crc (sg_disk s)),
     append_records = segment_append_records crc, log_sync = sync_all\<rparr>"

section \<open>Opening\<close>

definition migration_required :: io_error where
  "migration_required = IoError Unsupported ''EC02 chain is read-only''"

fun require_current_format :: "disk \<Rightarrow> nat list \<Rightarrow> unit io_result" where
  "require_current_format d [] = Inr ()"
| "require_current_format d (q # qs) =
     (if take 4 (file_bytes d (segment_name q)) = PAGE_MAGIC then Inl migration_required
      else require_current_format d qs)"

definition packing_marker_missing :: "disk \<Rightarrow> bool io_result" where
  "packing_marker_missing d = (case map_of (dk_files d) PACKING_MARKER of
       None \<Rightarrow> Inr True
     | Some bs \<Rightarrow>
         if bs = PACKING_VERSION then Inr False
         else if bs = str_bytes ''EC02-packed-v1'' @ [10] then Inl migration_required
         else Inl (IoError InvalidData ''unsupported segment layout marker''))"

definition open_inner :: "(bytes \<Rightarrow> u32) \<Rightarrow> disk \<Rightarrow> nat \<Rightarrow> bool \<Rightarrow> segment_store io_result" where
  "open_inner crc d max_bytes migration =
     (if \<not> migration \<and> map_of (dk_files d) ''.migration.json'' \<noteq> None
      then Inl (IoError Other ''migration staging chain is not yet published'')
      else if max_bytes = 0 then Inl (IoError InvalidInput ''zero segment size'')
      else if dk_locked d then Inl (IoError WouldBlock ''lock'')
      else
        rbind (segment_sequences d) (\<lambda>qs.
        rbind (require_current_format d qs) (\<lambda>_.
        rbind (packing_marker_missing d) (\<lambda>initialize.
          let s = \<lparr>sg_disk = d\<lparr>dk_locked := True\<rparr>, sg_next_seq = (if qs = [] then 0 else last qs),
                sg_max_segment_bytes = max_bytes, sg_length = 0, sg_needs_recovery = True,
                sg_initialize_layout = initialize\<rparr>
          in case sbind (recover_frontier crc s) (\<lambda>_ s1. if initialize then rotate s1 else (Inr (), s1)) of
               (Inl e, _) \<Rightarrow> Inl e
             | (Inr _, s2) \<Rightarrow> Inr s2))))"

definition segment_open :: "(bytes \<Rightarrow> u32) \<Rightarrow> disk \<Rightarrow> segment_store io_result" where
  "segment_open crc d = open_inner crc d DEFAULT_SEGMENT_BYTES False"

definition segment_drop :: "segment_store \<Rightarrow> disk" where
  "segment_drop s = (sg_disk s)\<lparr>dk_locked := False\<rparr>"

end
