(* ===== verification/SegmentLog.thy ===== *)
theory SegmentLog
  imports Segment "HOL-Library.Multiset" "HOL-Library.Sublist"
begin

text \<open>
  The segment store keeps the append-log contract: names and numbers of segments, the layout of a
  segment as complete frames and possibly one torn frame, the invariant of a store, and the
  interpretation of \<open>append_log_laws\<close> on the model of \<open>segment.rs\<close>, from which
  the properties of \<open>LogStore\<close> over segments follow. A crash is a relation on directories: every file
  name survives, and of the bytes that were not synced a prefix does.
\<close>

section \<open>Names and numbers\<close>

lemma parse_zeros: "parse_digits mx 10 0 (replicate k (CHR ''0'') @ t) = parse_digits mx 10 0 t"
  by (induction k) (simp_all add: to_digit_def)

lemma strip_suffix_append [simp]: "strip_suffix suf (t @ suf) = Some t"
  by (simp add: strip_suffix_def)

lemma strip_segment_name:
  "strip_suffix ''.eclog'' (segment_name q) = Some (replicate (6 - length (show_nat q)) (CHR ''0'') @ show_nat q)"
  using strip_suffix_append [of "''.eclog''" "replicate (6 - length (show_nat q)) (CHR ''0'') @ show_nat q"]
  by (simp add: segment_name_def)

lemma parse_segment_number:
  assumes "q \<le> mx"
  shows "from_str_radix mx 10 (replicate k (CHR ''0'') @ show_nat q) = Some q"
proof (cases k)
  case 0
  then show ?thesis using from_str_radix_show_nat [OF assms] by simp
next
  case (Suc n)
  then show ?thesis
    using parse_zeros [of mx k "show_nat q"] parse_show_nat [OF assms] by (simp add: from_str_radix_def)
qed

lemma segment_name_inject: "segment_name q = segment_name q' \<Longrightarrow> q = q'"
proof -
  assume "segment_name q = segment_name q'"
  then have "replicate (6 - length (show_nat q)) (CHR ''0'') @ show_nat q
      = replicate (6 - length (show_nat q')) (CHR ''0'') @ show_nat q'"
    using strip_segment_name by (metis option.inject)
  then show ?thesis
    using parse_segment_number [of q "max q q'"] parse_segment_number [of q' "max q q'"]
    by (metis max.cobounded1 max.cobounded2 option.inject)
qed

lemma segment_name_eq [simp]: "segment_name q = segment_name q' \<longleftrightarrow> q = q'"
  using segment_name_inject by auto

lemma marker_not_segment: "strip_suffix ''.eclog'' PACKING_MARKER = None" "PACKING_MARKER \<noteq> segment_name q"
proof -
  show "strip_suffix ''.eclog'' PACKING_MARKER = None" by (simp add: strip_suffix_def PACKING_MARKER_def)
  then show "PACKING_MARKER \<noteq> segment_name q" by (metis strip_segment_name option.distinct(1))
qed

lemma segment_numbers_append:
  "segment_numbers (ns @ ms) = rbind (segment_numbers ns) (\<lambda>qs. rbind (segment_numbers ms) (\<lambda>rs. Inr (qs @ rs)))"
  by (induction ns) (auto simp: rbind_def split: option.splits sum.splits)

lemma segment_numbers_set:
  "segment_numbers ns = Inr qs \<Longrightarrow> q \<in> set qs \<longleftrightarrow> q \<le> umax 32 \<and> segment_name q \<in> set ns"
proof (induction ns arbitrary: qs)
  case (Cons n ns)
  show ?case
  proof (cases "strip_suffix ''.eclog'' n")
    case None
    then have "n \<noteq> segment_name q" by (metis strip_segment_name option.distinct(1))
    then show ?thesis using Cons None by auto
  next
    case (Some number)
    then obtain q0 qs0 where q0: "from_str_radix (umax 32) 10 number = Some q0" "n = segment_name q0"
      "segment_numbers ns = Inr qs0" "qs = q0 # qs0"
      using Cons.prems by (auto simp: rbind_Inr_iff split: option.splits if_splits)
    have "q0 \<le> umax 32"
      using q0(1) from_str_radix_bound by blast
    then show ?thesis using Cons.IH [OF q0(3)] q0 by auto
  qed
qed simp

lemma segment_numbers_bound:
  "segment_numbers ns = Inr qs \<Longrightarrow> segment_name q \<in> set ns \<Longrightarrow> q \<le> umax 32"
proof (induction ns arbitrary: qs)
  case (Cons n ns)
  show ?case
  proof (cases "strip_suffix ''.eclog'' n")
    case None
    then have "n \<noteq> segment_name q" by (metis strip_segment_name option.distinct(1))
    then show ?thesis using Cons None by auto
  next
    case (Some number)
    then obtain q0 qs0 where q0: "from_str_radix (umax 32) 10 number = Some q0" "n = segment_name q0" "segment_numbers ns = Inr qs0"
      using Cons.prems by (auto simp: rbind_Inr_iff split: option.splits if_splits)
    then show ?thesis using Cons.IH [OF q0(3)] Cons.prems(2) from_str_radix_bound by auto
  qed
qed simp

lemma segment_sequences_Inr:
  assumes "segment_sequences d = Inr [0..<n]"
  shows "q < n \<longleftrightarrow> q \<le> umax 32 \<and> map_of (dk_files d) (segment_name q) \<noteq> None"
proof -
  obtain ns where ns: "segment_numbers (map fst (dk_files d)) = Inr ns" "[0..<n] = sort ns"
    using assms by (auto simp: segment_sequences_def rbind_Inr_iff Let_def split: if_splits)
  have "q < n \<longleftrightarrow> q \<in> set [0..<n]" by simp
  also have "\<dots> \<longleftrightarrow> q \<le> umax 32 \<and> segment_name q \<in> set (map fst (dk_files d))"
    using segment_numbers_set [OF ns(1)] unfolding ns(2) by simp
  finally show ?thesis by (simp add: map_of_eq_None_iff)
qed

text \<open>Writing an existing segment, the next one, or another file.\<close>

lemma sequences_update:
  assumes seqs: "segment_sequences d = Inr [0..<n]"
    and d': "map fst (dk_files d') = map fst (AList.update name bs (dk_files d))"
    and name: "strip_suffix ''.eclog'' name = None \<or> name = segment_name q \<and> q \<le> n \<and> q \<le> umax 32"
  shows "segment_sequences d' = Inr [0..<(if name = segment_name n then Suc n else n)]"
proof -
  obtain ns where ns: "segment_numbers (map fst (dk_files d)) = Inr ns" "sort ns = [0..<n]"
    using seqs by (auto simp: segment_sequences_def rbind_Inr_iff Let_def split: if_splits)
  have mset: "mset ns = mset [0..<n]" using ns(2) by (metis mset_sort)
  have len: "length ns = n" using ns(2) by (metis diff_zero length_sort length_upt)
  have mem: "name = segment_name q \<Longrightarrow> q < n \<Longrightarrow> name \<in> set (map fst (dk_files d))"
    using segment_numbers_set [OF ns(1), of q] mset by (metis atLeast0LessThan atLeastLessThan_upt lessThan_iff set_mset_mset)
  have fresh: "segment_name n \<notin> set (map fst (dk_files d))" if "n \<le> umax 32"
    using segment_numbers_set [OF ns(1), of n] mset that by (metis atLeast_upt lessThan_iff nat_neq_iff set_mset_mset)
  show ?thesis
  proof (cases "name \<in> set (map fst (dk_files d))")
    case True
    then have "name \<noteq> segment_name n \<or> \<not> n \<le> umax 32" using fresh by metis
    moreover have "name = segment_name n \<Longrightarrow> n \<le> umax 32"
      using name strip_segment_name by (metis option.distinct(1) segment_name_eq)
    ultimately show ?thesis
      using ns True len by (auto simp: segment_sequences_def d' update_keys)
  next
    case False
    then have keys: "map fst (dk_files d') = map fst (dk_files d) @ [name]" by (simp add: d' update_keys)
    show ?thesis
    proof (cases "strip_suffix ''.eclog'' name")
      case None
      then have "name \<noteq> segment_name n" by (metis strip_segment_name option.distinct(1))
      then show ?thesis
        using ns None len by (simp add: segment_sequences_def keys segment_numbers_append)
    next
      case (Some number)
      then have q: "name = segment_name n" "n \<le> umax 32" using name mem False by (auto simp: le_less)
      have "segment_numbers [name] = Inr [n]"
        unfolding q(1) segment_numbers.simps strip_segment_name option.case parse_segment_number [OF q(2)] by simp
      moreover have "sort (ns @ [n]) = [0..<Suc n]"
        by (rule properties_for_sort) (simp_all add: mset sorted_append)
      ultimately show ?thesis
        using ns q(1) len by (simp add: segment_sequences_def keys segment_numbers_append del: segment_numbers.simps)
    qed
  qed
qed

section \<open>The layout of a segment\<close>

type_synonym frame = "u32 \<times> log_record list"

definition raw_frames :: "(bytes \<Rightarrow> u32) \<Rightarrow> frame list \<Rightarrow> bytes" where
  "raw_frames crc fs = concat (map (\<lambda>(sq, rs). raw_frame crc sq rs) fs)"

definition torn :: "(bytes \<Rightarrow> u32) \<Rightarrow> bytes \<Rightarrow> bool" where
  "torn crc t \<longleftrightarrow> (\<exists>sq rs k. frame_ok rs \<and> k < length (raw_frame crc sq rs) \<and> t = take k (raw_frame crc sq rs))"

definition seg_layout :: "(bytes \<Rightarrow> u32) \<Rightarrow> bytes \<Rightarrow> frame list \<Rightarrow> bytes \<Rightarrow> bool" where
  "seg_layout crc bs fs t \<longleftrightarrow> (\<forall>f\<in>set fs. frame_ok (snd f)) \<and> torn crc t \<and> bs = raw_frames crc fs @ t"

lemma torn_empty: "torn crc []"
proof -
  have "frame_ok []" "0 < length (raw_frame crc 0 [])"
    by (simp_all add: frame_ok_def ec03_consts length_raw_frame)
  then show ?thesis unfolding torn_def by (metis take0)
qed

lemma seg_layout_empty: "seg_layout crc [] [] []"
  by (simp add: seg_layout_def raw_frames_def torn_empty)

lemma raw_frames_append: "raw_frames crc (fs @ gs) = raw_frames crc fs @ raw_frames crc gs"
  by (simp add: raw_frames_def)

text \<open>Appending a whole frame, or a part of one, to a segment without a torn tail.\<close>

lemma seg_layout_append:
  assumes "seg_layout crc bs fs []" and "frame_ok rs"
  shows "seg_layout crc (bs @ raw_frame crc sq rs) (fs @ [(sq, rs)]) []"
    and "k < length (raw_frame crc sq rs) \<Longrightarrow> seg_layout crc (bs @ take k (raw_frame crc sq rs)) fs (take k (raw_frame crc sq rs))"
  using assms torn_empty by (auto simp: seg_layout_def raw_frames_def torn_def)

lemma collect_record_items:
  "collect_records (map Inr (record_items pad ck sq off (map to_record rs)) @ items)
     = rbind (collect_records items) (\<lambda>(rs', t). Inr (rs @ rs', t))"
  by (induction rs arbitrary: off) (auto simp: rbind_def to_record_def split: sum.splits)

abbreviation frame_chunk :: "(bytes \<Rightarrow> u32) \<Rightarrow> frame \<Rightarrow> chunk \<times> bytes" where
  "frame_chunk crc \<equiv> \<lambda>(sq, rs). (FrameChunk \<lparr>page_sequence = sq, records = map to_record rs\<rparr>, raw_frame crc sq rs)"

lemma frame_chunk_bytes:
  "frame_ok rs \<Longrightarrow> encode_ec03 crc \<lparr>page_sequence = sq, records = map to_record rs\<rparr> = Inr (raw_frame crc sq rs)"
  by (simp add: encode_ec03_def encode_records_eq comp_def to_record_def case_prod_beta)

lemma concat_frame_chunks: "concat (map snd (map (frame_chunk crc) fs)) = raw_frames crc fs"
  by (induction fs) (auto simp: raw_frames_def)

lemma collect_segment_items:
  "collect_records (map Inr (segment_items crc off (map (frame_chunk crc) fs)) @ items)
     = rbind (collect_records items) (\<lambda>(rs, t). Inr (concat (map snd fs) @ rs, t))"
proof (induction fs arbitrary: off)
  case Nil
  then show ?case by (cases "collect_records items") auto
next
  case (Cons f fs)
  then show ?case
    by (cases f; cases "collect_records items")
       (auto simp: chunk_items_def collect_record_items)
qed

lemma segment_records_layout:
  assumes "seg_layout crc bs fs t"
  shows "segment_records crc bs = Inr (concat (map snd fs), t \<noteq> [])"
proof -
  obtain sq rs k where t: "frame_ok rs" "k < length (raw_frame crc sq rs)" "t = take k (raw_frame crc sq rs)"
    and fs: "\<forall>f\<in>set fs. frame_ok (snd f)" and bs: "bs = raw_frames crc fs @ t"
    using assms by (auto simp: seg_layout_def torn_def)
  have "\<forall>(c, e)\<in>set (map (frame_chunk crc) fs). chunk_bytes crc c = Some e"
    using fs frame_chunk_bytes by (fastforce simp: chunk_bytes_def result_to_option_def)
  from scan_torn_segment [OF this frame_chunk_bytes [OF t(1)] t(2)]
  have "fst (scan_rest crc (page_scanner_new bs)) = map Inr (segment_items crc 0 (map (frame_chunk crc) fs))
      @ (if k = 0 then [] else [Inl \<lparr>se_offset = length (concat (map snd (map (frame_chunk crc) fs))), se_kind = IncompleteTail\<rparr>])"
    unfolding bs t(3) concat_frame_chunks by auto
  moreover have "k = 0 \<longleftrightarrow> t = []" using t(2,3) by auto
  ultimately show ?thesis
    unfolding segment_records_def by (simp add: collect_segment_items)
qed

definition recs_of :: "(bytes \<Rightarrow> u32) \<Rightarrow> bytes \<Rightarrow> log_record list" where
  "recs_of crc bs = (case segment_records crc bs of Inl _ \<Rightarrow> [] | Inr (rs, _) \<Rightarrow> rs)"

lemma recs_of_layout: "seg_layout crc bs fs t \<Longrightarrow> recs_of crc bs = concat (map snd fs)"
  by (simp add: recs_of_def segment_records_layout)

lemma recs_of_empty [simp]: "recs_of crc [] = []"
  using recs_of_layout [OF seg_layout_empty] by simp

lemma torn_take: "torn crc t \<Longrightarrow> torn crc (take m t)"
proof -
  assume "torn crc t"
  then obtain sq rs k where "frame_ok rs" "k < length (raw_frame crc sq rs)" "t = take k (raw_frame crc sq rs)"
    by (auto simp: torn_def)
  then have "frame_ok rs \<and> min m k < length (raw_frame crc sq rs) \<and> take m t = take (min m k) (raw_frame crc sq rs)"
    by simp
  then show ?thesis unfolding torn_def by blast
qed

text \<open>A shorter segment has a prefix of the frames.\<close>

lemma seg_layout_take:
  "seg_layout crc bs fs t \<Longrightarrow> \<exists>fs' t' gs. seg_layout crc (take m bs) fs' t' \<and> fs = fs' @ gs"
proof (induction fs arbitrary: bs m)
  case Nil
  then have "seg_layout crc (take m bs) [] (take m t)" by (simp add: seg_layout_def raw_frames_def torn_take)
  then show ?case by blast
next
  case (Cons f fs)
  obtain sq rs where f: "f = (sq, rs)" by (cases f)
  let ?f = "raw_frame crc sq rs" and ?rest = "raw_frames crc fs @ t"
  have ok: "frame_ok rs" and bs: "bs = ?f @ ?rest" and rest: "seg_layout crc ?rest fs t"
    using Cons.prems by (auto simp: f seg_layout_def raw_frames_def)
  show ?case
  proof (cases "m < length ?f")
    case True
    then have "torn crc (take m bs)" using ok by (auto simp: bs torn_def)
    then have "seg_layout crc (take m bs) [] (take m bs)" by (simp add: seg_layout_def raw_frames_def)
    then show ?thesis by (metis append_Nil)
  next
    case False
    obtain fs' t' gs where "seg_layout crc (take (m - length ?f) ?rest) fs' t'" "fs = fs' @ gs"
      using Cons.IH [OF rest] by blast
    then have "seg_layout crc (take m bs) (f # fs') t'" "f # fs = (f # fs') @ gs"
      using False ok by (simp_all add: f bs seg_layout_def raw_frames_def)
    then show ?thesis by blast
  qed
qed

lemma recs_of_take_mono:
  assumes "seg_layout crc bs fs t" and "m \<le> m'"
  shows "set (recs_of crc (take m bs)) \<subseteq> set (recs_of crc (take m' bs))"
proof -
  obtain fs1 t1 where l1: "seg_layout crc (take m' bs) fs1 t1" using seg_layout_take [OF assms(1)] by blast
  obtain fs2 t2 gs where "seg_layout crc (take m (take m' bs)) fs2 t2" "fs1 = fs2 @ gs" using seg_layout_take [OF l1] by blast
  then show ?thesis using recs_of_layout [OF l1] recs_of_layout [of crc "take m bs" fs2 t2] assms(2) by (auto simp: min_absorb1)
qed

section \<open>The invariant of a chain directory\<close>

abbreviation seg_file :: "disk \<Rightarrow> nat \<Rightarrow> bytes" where
  "seg_file d i \<equiv> file_bytes d (segment_name i)"

definition disk_inv :: "(bytes \<Rightarrow> u32) \<Rightarrow> disk \<Rightarrow> nat \<Rightarrow> bool" where
  "disk_inv crc d n \<longleftrightarrow> segment_sequences d = Inr [0..<n] \<and> (\<forall>i. \<exists>fs t. seg_layout crc (seg_file d i) fs t)
     \<and> (\<forall>i. dk_durable d (segment_name i) \<le> length (seg_file d i))"

definition disk_recs :: "(bytes \<Rightarrow> u32) \<Rightarrow> disk \<Rightarrow> log_record list" where
  "disk_recs crc d = (case visit_disk crc d of Inl _ \<Rightarrow> [] | Inr (rs, _) \<Rightarrow> rs)"

definition disk_dur :: "(bytes \<Rightarrow> u32) \<Rightarrow> disk \<Rightarrow> log_record set" where
  "disk_dur crc d = {r. \<exists>i. r \<in> set (recs_of crc (take (dk_durable d (segment_name i)) (seg_file d i)))}"

lemma disk_inv_file:
  assumes "disk_inv crc d n" and "i \<le> umax 32"
  shows "map_of (dk_files d) (segment_name i) = (if i < n then Some (seg_file d i) else None)"
  using segment_sequences_Inr [of d n i] assms
  by (cases "map_of (dk_files d) (segment_name i)") (auto simp: disk_inv_def file_bytes_def)

lemma disk_inv_bound: "disk_inv crc d n \<Longrightarrow> i < n \<Longrightarrow> i \<le> umax 32"
  using segment_sequences_Inr [of d n i] by (simp add: disk_inv_def)

lemma disk_file_bound:
  assumes inv: "disk_inv crc d n" and "seg_file d i \<noteq> []"
  shows "i < n"
proof -
  have some: "map_of (dk_files d) (segment_name i) \<noteq> None" using assms(2) by (auto simp: file_bytes_def split: option.splits)
  then have "segment_name i \<in> set (map fst (dk_files d))" by (simp add: map_of_eq_None_iff)
  moreover obtain qs where "segment_numbers (map fst (dk_files d)) = Inr qs"
    using inv by (auto simp: disk_inv_def segment_sequences_def rbind_Inr_iff)
  ultimately have "i \<le> umax 32" using segment_numbers_bound by blast
  then show ?thesis using some disk_inv_file [OF inv] by (auto split: if_splits)
qed

lemma visit_sequences_inv:
  assumes "disk_inv crc d n" and "set qs \<subseteq> {..<n}"
  shows "\<exists>k. visit_sequences crc d qs = Inr (concat (map (\<lambda>i. recs_of crc (seg_file d i)) qs), k)"
  using assms(2)
proof (induction qs)
  case (Cons q qs)
  obtain fs t where l: "seg_layout crc (seg_file d q) fs t" using assms(1) unfolding disk_inv_def by blast
  have "map_of (dk_files d) (segment_name q) = Some (seg_file d q)"
    using disk_inv_file [OF assms(1)] disk_inv_bound [OF assms(1)] Cons.prems by auto
  then show ?case
    using Cons segment_records_layout [OF l] recs_of_layout [OF l] by auto
qed simp

lemma visit_disk_inv:
  assumes "disk_inv crc d n"
  shows "\<exists>k. visit_disk crc d = Inr (disk_recs crc d, k)"
    and "disk_recs crc d = concat (map (\<lambda>i. recs_of crc (seg_file d i)) [0..<n])"
proof -
  have "set [0..<n] \<subseteq> {..<n}" by auto
  from visit_sequences_inv [OF assms this] obtain k where
    k: "visit_disk crc d = Inr (concat (map (\<lambda>i. recs_of crc (seg_file d i)) [0..<n]), k)"
    using assms by (auto simp: visit_disk_def disk_inv_def)
  then show "\<exists>k. visit_disk crc d = Inr (disk_recs crc d, k)"
    and "disk_recs crc d = concat (map (\<lambda>i. recs_of crc (seg_file d i)) [0..<n])"
    by (simp_all add: disk_recs_def)
qed

lemma file_bytes_update: "dk_files d' = AList.update name bs (dk_files d) \<Longrightarrow>
   file_bytes d' other = (if other = name then bs else file_bytes d other)"
  by (simp add: file_bytes_def update_conv)

lemma disk_write:
  assumes inv: "disk_inv crc d n" and cur: "cur \<le> umax 32" "n = cur \<or> n = Suc cur"
    and files: "dk_files d' = AList.update (segment_name cur) (seg_file d cur @ w) (dk_files d)"
    and durable: "\<forall>i. i \<noteq> cur \<longrightarrow> dk_durable d' (segment_name i) = dk_durable d (segment_name i)"
      "dk_durable d (segment_name cur) \<le> dk_durable d' (segment_name cur)"
      "dk_durable d' (segment_name cur) \<le> length (seg_file d cur @ w)"
    and layout: "seg_layout crc (seg_file d cur @ w) fs t"
  shows "disk_inv crc d' (Suc cur)"
    and "recs_of crc (seg_file d cur @ w) = recs_of crc (seg_file d cur) @ new \<Longrightarrow> disk_recs crc d' = disk_recs crc d @ new"
    and "disk_dur crc d \<union> set (recs_of crc (take (dk_durable d' (segment_name cur)) (seg_file d cur @ w))) \<subseteq> disk_dur crc d'"
proof -
  have contents: "seg_file d' i = (if i = cur then seg_file d cur @ w else seg_file d i)" for i
    using file_bytes_update [OF files] by simp
  have "segment_sequences d' = Inr [0..<Suc cur]"
    using sequences_update [of d n d' "segment_name cur" "seg_file d cur @ w" cur] inv files cur
    by (auto simp: disk_inv_def dest: disk_inv_bound)
  then show inv': "disk_inv crc d' (Suc cur)"
    using inv layout durable unfolding disk_inv_def contents by (auto simp: contents)
  have absent: "n = cur \<Longrightarrow> seg_file d cur = []"
    using disk_inv_file [OF inv cur(1)] by (simp add: file_bytes_def)
  show "disk_recs crc d' = disk_recs crc d @ new"
    if "recs_of crc (seg_file d cur @ w) = recs_of crc (seg_file d cur) @ new"
  proof -
    have "concat (map (\<lambda>i. recs_of crc (seg_file d' i)) [0..<cur]) = concat (map (\<lambda>i. recs_of crc (seg_file d i)) [0..<cur])"
      by (intro arg_cong [where f = concat] map_cong) (simp_all add: contents)
    then show ?thesis
      using that cur(2) absent by (auto simp: visit_disk_inv(2) [OF inv] visit_disk_inv(2) [OF inv'] contents [of cur])
  qed
  have keep: "r \<in> disk_dur crc d'" if r: "r \<in> set (recs_of crc (take (dk_durable d (segment_name i)) (seg_file d i)))" for r i
  proof (cases "i = cur")
    case True
    have "take (dk_durable d (segment_name cur)) (seg_file d cur)
        = take (dk_durable d (segment_name cur)) (seg_file d cur @ w)"
      using inv by (simp add: disk_inv_def)
    then show ?thesis
      using r True recs_of_take_mono [OF layout durable(2)] by (auto simp: disk_dur_def contents)
  next
    case False
    then show ?thesis using r durable(1) False unfolding disk_dur_def by (auto simp: contents)
  qed
  show "disk_dur crc d \<union> set (recs_of crc (take (dk_durable d' (segment_name cur)) (seg_file d cur @ w))) \<subseteq> disk_dur crc d'"
  proof (intro Un_least subsetI)
    show "r \<in> disk_dur crc d'" if "r \<in> disk_dur crc d" for r using that keep unfolding disk_dur_def by blast
    show "r \<in> disk_dur crc d'" if "r \<in> set (recs_of crc (take (dk_durable d' (segment_name cur)) (seg_file d cur @ w)))" for r
      using that contents [of cur] unfolding disk_dur_def by (auto intro!: exI [of _ cur] simp del: take_append)
  qed
qed

text \<open>Writing one encoded frame at the frontier, with or without a fault.\<close>

lemma append_file_frame:
  assumes inv: "disk_inv crc d n" and cur: "cur \<le> umax 32" "n = cur \<or> n = Suc cur"
    and layout: "seg_layout crc (seg_file d cur) fs []" and ok: "frame_ok rs"
    and app: "append_file (segment_name cur) (raw_frame crc sq rs) d = (res, d')"
  shows "disk_inv crc d' (Suc cur) \<and> disk_dur crc d \<subseteq> disk_dur crc d' \<and>
    (case res of
       Inr _ \<Rightarrow> seg_layout crc (seg_file d' cur) (fs @ [(sq, rs)]) [] \<and> disk_recs crc d' = disk_recs crc d @ rs
         \<and> set rs \<subseteq> disk_dur crc d'
     | Inl _ \<Rightarrow> disk_recs crc d' = disk_recs crc d \<or> disk_recs crc d' = disk_recs crc d @ rs)"
proof -
  let ?f = "raw_frame crc sq rs" and ?old = "seg_file d cur" and ?name = "segment_name cur"
  obtain fault d1 where nf: "next_fault d = (fault, d1)" by (cases "next_fault d")
  then have d1: "dk_files d1 = dk_files d" "dk_durable d1 = dk_durable d"
    by (auto simp: next_fault_def split: list.splits)
  have dl: "dk_durable d ?name \<le> length ?old" using inv by (simp add: disk_inv_def)
  have old: "recs_of crc ?old = concat (map snd fs)" by (rule recs_of_layout [OF layout])
  note lay = seg_layout_append [OF layout ok]
  have full: "recs_of crc (?old @ ?f) = recs_of crc ?old @ rs" using recs_of_layout [OF lay(1)] old by simp
  show ?thesis
  proof (cases fault)
    case None
    then have r: "res = Inr ()" "dk_files d' = AList.update ?name (?old @ ?f) (dk_files d)"
      "dk_durable d' = (dk_durable d)(?name := length (?old @ ?f))"
      using app nf d1 by (auto simp: append_file_def Let_def)
    have dur: "dk_durable d ?name \<le> dk_durable d' ?name" "dk_durable d' ?name \<le> length (?old @ ?f)"
      "\<forall>i. i \<noteq> cur \<longrightarrow> dk_durable d' (segment_name i) = dk_durable d (segment_name i)"
      using dl by (simp_all add: r(3))
    note w = disk_write [OF inv cur r(2) dur(3,1,2) lay(1)]
    have "seg_file d' cur = ?old @ ?f" using file_bytes_update [OF r(2)] by simp
    then show ?thesis using w(1) w(2) [OF full] w(3) lay(1) full r(1,3) by auto
  next
    case (Some ke)
    obtain k e where ke: "ke = (k, e)" by (cases ke)
    then have r: "res = Inl e" "dk_files d' = AList.update ?name (?old @ take k ?f) (dk_files d)"
      "dk_durable d' = dk_durable d" using app nf d1 Some by (auto simp: append_file_def Let_def)
    have dur: "dk_durable d ?name \<le> dk_durable d' ?name" "dk_durable d' ?name \<le> length (?old @ take k ?f)"
      "\<forall>i. i \<noteq> cur \<longrightarrow> dk_durable d' (segment_name i) = dk_durable d (segment_name i)"
      using dl by (simp_all add: r(3))
    show ?thesis
    proof (cases "k < length ?f")
      case True
      note w = disk_write [OF inv cur r(2) dur(3,1,2) lay(2) [OF True]]
      have "recs_of crc (?old @ take k ?f) = recs_of crc ?old @ []" using recs_of_layout [OF lay(2) [OF True]] old by simp
      then show ?thesis using w(1,3) w(2) [of "[]"] r(1) by simp
    next
      case False
      then have f: "take k ?f = ?f" by simp
      note w = disk_write [OF inv cur r(2) dur(3,1,2), unfolded f, OF lay(1)]
      then show ?thesis using full r(1) by simp
    qed
  qed
qed

lemma atomic_write_marker:
  assumes inv: "disk_inv crc d n" and w: "atomic_write PACKING_MARKER bs d = (res, d')"
  shows "disk_inv crc d' n" and "disk_recs crc d' = disk_recs crc d" and "disk_dur crc d' = disk_dur crc d"
    and "seg_file d' i = seg_file d i"
proof -
  obtain fault d1 where nf: "next_fault d = (fault, d1)" by (cases "next_fault d")
  then have d1: "dk_files d1 = dk_files d" "dk_durable d1 = dk_durable d"
    by (auto simp: next_fault_def split: list.splits)
  have d': "dk_files d' = dk_files d \<or> dk_files d' = AList.update PACKING_MARKER bs (dk_files d)"
    "\<And>i. dk_durable d' (segment_name i) = dk_durable d (segment_name i)"
    using w nf d1 by (auto simp: atomic_write_def Let_def marker_not_segment(2) [symmetric] split: option.splits if_splits)
  have contents: "seg_file d' i = seg_file d i" for i
    using d'(1) file_bytes_update [of d' PACKING_MARKER bs d] marker_not_segment(2) [of i] by (auto simp: file_bytes_def)
  then show "seg_file d' i = seg_file d i" .
  have "segment_sequences d' = Inr [0..<n]"
    using d'(1)
  proof
    assume "dk_files d' = AList.update PACKING_MARKER bs (dk_files d)"
    then show ?thesis
      using sequences_update [of d n d' PACKING_MARKER bs 0] inv marker_not_segment by (simp add: disk_inv_def)
  qed (use inv in \<open>simp add: disk_inv_def segment_sequences_def\<close>)
  then show inv': "disk_inv crc d' n" using inv d'(2) contents by (simp add: disk_inv_def)
  show "disk_recs crc d' = disk_recs crc d" by (simp add: visit_disk_inv(2) [OF inv] visit_disk_inv(2) [OF inv'] contents)
  show "disk_dur crc d' = disk_dur crc d" by (simp add: disk_dur_def contents d'(2))
qed

section \<open>The invariant of a store\<close>

definition seg_inv :: "(bytes \<Rightarrow> u32) \<Rightarrow> segment_store \<Rightarrow> bool" where
  "seg_inv crc s \<longleftrightarrow> (\<exists>n. disk_inv crc (sg_disk s) n \<and> sg_next_seq s \<le> umax 32
     \<and> (n = sg_next_seq s \<or> n = Suc (sg_next_seq s))
     \<and> (sg_needs_recovery s \<or> sg_length s = length (seg_file (sg_disk s) (sg_next_seq s))
        \<and> (\<exists>fs. seg_layout crc (seg_file (sg_disk s) (sg_next_seq s)) fs [])))"

text \<open>The store is at a frontier where a frame can be appended.\<close>

definition at_frontier :: "(bytes \<Rightarrow> u32) \<Rightarrow> segment_store \<Rightarrow> bool" where
  "at_frontier crc s \<longleftrightarrow> (\<exists>n. disk_inv crc (sg_disk s) n \<and> sg_next_seq s \<le> umax 32
     \<and> (n = sg_next_seq s \<or> n = Suc (sg_next_seq s))
     \<and> sg_length s = length (seg_file (sg_disk s) (sg_next_seq s))
     \<and> (\<exists>fs. seg_layout crc (seg_file (sg_disk s) (sg_next_seq s)) fs []))"

lemma at_frontierI:
  assumes "disk_inv crc (sg_disk s) n" "sg_next_seq s \<le> umax 32" "n = sg_next_seq s \<or> n = Suc (sg_next_seq s)"
    "sg_length s = length (seg_file (sg_disk s) (sg_next_seq s))" "seg_layout crc (seg_file (sg_disk s) (sg_next_seq s)) fs []"
  shows "at_frontier crc s"
  using assms unfolding at_frontier_def by blast

lemma frontier_inv: "at_frontier crc s \<Longrightarrow> seg_inv crc s"
  by (auto simp: at_frontier_def seg_inv_def)

lemma inv_frontier: "seg_inv crc s \<Longrightarrow> \<not> sg_needs_recovery s \<Longrightarrow> at_frontier crc s"
  by (auto simp: at_frontier_def seg_inv_def)

lemma rotate_disk: "rotate s = (res, s') \<Longrightarrow> sg_disk s' = sg_disk s"
  by (auto simp: rotate_def split: option.splits)

lemma rotate_frontier:
  assumes inv: "disk_inv crc (sg_disk s) n" "sg_next_seq s \<le> umax 32" "n = sg_next_seq s \<or> n = Suc (sg_next_seq s)"
    and r: "rotate s = (Inr u, s')" and len: "n = sg_next_seq s \<Longrightarrow> sg_length s = 0"
  shows "at_frontier crc s'"
proof (cases "map_of (dk_files (sg_disk s)) (current_name s)")
  case None
  then have s': "s' = s" using r by (simp add: rotate_def)
  have "n = sg_next_seq s" using None disk_inv_file [OF inv(1,2)] inv(3) by (auto simp: current_name_def split: if_splits)
  moreover have "seg_file (sg_disk s) (sg_next_seq s) = []" using None by (simp add: file_bytes_def current_name_def)
  ultimately show ?thesis
    unfolding s' using inv len by (intro at_frontierI [of crc s n "[]"]) (simp_all add: seg_layout_empty)
next
  case (Some bs)
  then have n: "n = Suc (sg_next_seq s)" using disk_inv_file [OF inv(1,2)] inv(3) by (auto simp: current_name_def)
  have s': "s' = s\<lparr>sg_next_seq := Suc (sg_next_seq s), sg_length := 0\<rparr>" "Suc (sg_next_seq s) \<le> umax 32"
    using r Some by (auto simp: rotate_def checked_add_def split: option.splits if_splits)
  have "seg_file (sg_disk s) (Suc (sg_next_seq s)) = []"
    using disk_inv_file [OF inv(1) s'(2)] n by (simp add: file_bytes_def)
  then show ?thesis
    using inv(1) n s' by (intro at_frontierI [of crc s' n "[]"]) (simp_all add: seg_layout_empty)
qed

lemma rotate_error: "rotate s = (Inl e, s') \<Longrightarrow> s' = s"
  by (auto simp: rotate_def split: option.splits)

lemma recover_frontier_spec:
  assumes inv: "seg_inv crc s" and nr: "sg_needs_recovery s" and r: "recover_frontier crc s = (res, s')"
  shows "sg_disk s' = sg_disk s \<and> seg_inv crc s' \<and> (\<forall>u. res = Inr u \<longrightarrow> at_frontier crc s')"
proof -
  obtain n where n: "disk_inv crc (sg_disk s) n" "sg_next_seq s \<le> umax 32" "n = sg_next_seq s \<or> n = Suc (sg_next_seq s)"
    using inv by (auto simp: seg_inv_def)
  obtain fs t where lay: "seg_layout crc (seg_file (sg_disk s) (sg_next_seq s)) fs t"
    using n(1) unfolding disk_inv_def by blast
  show ?thesis
  proof (cases "map_of (dk_files (sg_disk s)) (current_name s)")
    case None
    then have "res = Inr ()" "s' = s\<lparr>sg_length := 0, sg_needs_recovery := False\<rparr>"
      using r by (auto simp: recover_frontier_def)
    moreover have "seg_file (sg_disk s) (sg_next_seq s) = []" using None by (simp add: file_bytes_def current_name_def)
    ultimately have "at_frontier crc s'"
      using n by (intro at_frontierI [of crc s' n "[]"]) (simp_all add: seg_layout_empty)
    then show ?thesis using \<open>s' = _\<close> frontier_inv by simp
  next
    case (Some bs)
    then have bs: "bs = seg_file (sg_disk s) (sg_next_seq s)" by (simp add: file_bytes_def current_name_def)
    let ?s1 = "s\<lparr>sg_length := length bs\<rparr>"
    have step: "recover_frontier crc s = sbind (if t \<noteq> [] \<or> sg_max_segment_bytes s \<le> length bs then rotate ?s1 else (Inr (), ?s1))
        (\<lambda>_ s2. (Inr (), s2\<lparr>sg_needs_recovery := False\<rparr>))"
      using Some segment_records_layout [OF lay] by (simp add: recover_frontier_def bs)
    have n': "n = Suc (sg_next_seq s)" using Some disk_inv_file [OF n(1,2)] n(3) by (auto simp: current_name_def)
    have inv1: "seg_inv crc ?s1" using n nr by (auto simp: seg_inv_def)
    have front: "at_frontier crc (s2\<lparr>sg_needs_recovery := False\<rparr>) = at_frontier crc s2" for s2
      by (simp add: at_frontier_def)
    show ?thesis
    proof (cases "t \<noteq> [] \<or> sg_max_segment_bytes s \<le> length bs")
      case True
      show ?thesis
      proof (cases "rotate ?s1")
        case (Pair res2 s2)
        show ?thesis
        proof (cases res2)
          case (Inl e)
          then have "res = Inl e \<and> s' = ?s1" using r step True Pair rotate_error [of ?s1 e s2] by (simp add: sbind_def)
          then show ?thesis using inv1 by simp
        next
          case (Inr u)
          have "at_frontier crc s2"
            using rotate_frontier [of crc ?s1 n u s2] n n' Pair Inr by simp
          then show ?thesis
            using r step True Pair Inr rotate_disk [OF Pair] front [of s2] frontier_inv [of crc s'] by (auto simp: sbind_def)
        qed
      qed
    next
      case False
      then have s': "res = Inr ()" "s' = ?s1\<lparr>sg_needs_recovery := False\<rparr>" using r step by (simp_all add: sbind_def)
      have "at_frontier crc s'"
        using n lay False s' by (intro at_frontierI [of crc s' n fs]) (simp_all add: bs)
      then show ?thesis using s' frontier_inv by simp
    qed
  qed
qed

abbreviation page_log :: "page \<Rightarrow> log_record list" where
  "page_log p \<equiv> map (\<lambda>r. (rec_flags r, rec_data r)) (pg_records p)"

text \<open>The outcome of an operation that appends \<open>rs\<close>: all of it durably, or an error after none or all of it.\<close>

definition appended :: "(bytes \<Rightarrow> u32) \<Rightarrow> disk \<Rightarrow> log_record list \<Rightarrow> unit io_result \<Rightarrow> disk \<Rightarrow> bool" where
  "appended crc d rs res d' \<longleftrightarrow> disk_dur crc d \<subseteq> disk_dur crc d' \<and>
     (case res of Inr _ \<Rightarrow> disk_recs crc d' = disk_recs crc d @ rs \<and> set rs \<subseteq> disk_dur crc d'
      | Inl _ \<Rightarrow> \<exists>k. disk_recs crc d' = disk_recs crc d @ take k rs)"

lemma appended_nothing: "appended crc d rs (Inl e) d" "appended crc d [] (Inr u) d"
  by (auto simp: appended_def intro: exI [of _ 0])

lemma write_frame_spec:
  assumes f: "at_frontier crc sa" and ok: "frame_ok rs" and nr: "sg_needs_recovery sb"
    and sb: "sg_disk sb = sg_disk sa" "sg_next_seq sb = sg_next_seq sa"
    and w: "(case append_file (current_name sa) (raw_frame crc sq rs) (sg_disk sb) of (persisted, d) \<Rightarrow>
        let s4 = sb\<lparr>sg_disk := d\<rparr> in
        sbind (persisted, s4) (\<lambda>_ s4.
            sbind (if sg_initialize_layout s4
                   then (let (marked, d') = atomic_write PACKING_MARKER PACKING_VERSION (sg_disk s4)
                         in (case marked of Inl e \<Rightarrow> (Inl e, s4\<lparr>sg_disk := d'\<rparr>)
                             | Inr _ \<Rightarrow> (Inr (), s4\<lparr>sg_disk := d', sg_initialize_layout := False\<rparr>)))
                   else (Inr (), s4)) (\<lambda>_ s5.
              (Inr (), s5\<lparr>sg_length := length (file_bytes (sg_disk s5) (current_name sa)), sg_needs_recovery := False\<rparr>))))
      = (res, s')"
  shows "seg_inv crc s' \<and> appended crc (sg_disk sa) rs res (sg_disk s')"
proof -
  obtain n fs where n: "disk_inv crc (sg_disk sa) n" "sg_next_seq sa \<le> umax 32" "n = sg_next_seq sa \<or> n = Suc (sg_next_seq sa)"
    "seg_layout crc (seg_file (sg_disk sa) (sg_next_seq sa)) fs []"
    using f by (auto simp: at_frontier_def)
  obtain p d where p: "append_file (segment_name (sg_next_seq sa)) (raw_frame crc sq rs) (sg_disk sa) = (p, d)" by fastforce
  note app = append_file_frame [OF n ok p]
  have inv: "seg_inv crc (sb\<lparr>sg_disk := d\<rparr>)" using app n(2) nr sb by (auto simp: seg_inv_def)
  show ?thesis
  proof (cases p)
    case (Inl e)
    then have "res = Inl e" "s' = sb\<lparr>sg_disk := d\<rparr>" using w p sb by (auto simp: current_name_def sbind_def)
    moreover have "appended crc (sg_disk sa) rs (Inl e) d"
      using app Inl by (auto simp: appended_def intro: exI [of _ 0] exI [of _ "length rs"])
    ultimately show ?thesis using inv by simp
  next
    case (Inr u)
    have a: "appended crc (sg_disk sa) rs (Inr ()) d" using app Inr by (simp add: appended_def)
    have e: "\<exists>k. disk_recs crc d = disk_recs crc (sg_disk sa) @ take k rs"
      using app Inr by (auto intro: exI [of _ "length rs"])
    obtain m d2 where m: "atomic_write PACKING_MARKER PACKING_VERSION d = (m, d2)" by fastforce
    note mark = atomic_write_marker [OF conjunct1 [OF app] m]
    have front: "seg_inv crc (s5\<lparr>sg_length := length (file_bytes (sg_disk s5) (current_name sa)), sg_needs_recovery := False\<rparr>)"
      if "sg_disk s5 = d \<or> sg_disk s5 = d2" "sg_next_seq s5 = sg_next_seq sa" for s5
      using that app Inr n(2) mark(1,4) by (intro frontier_inv at_frontierI) (auto simp: current_name_def)
    show ?thesis
    proof (cases "sg_initialize_layout sb")
      case False
      then show ?thesis using w p sb Inr a front [of "sb\<lparr>sg_disk := d\<rparr>"] by (auto simp: current_name_def sbind_def)
    next
      case True
      show ?thesis
      proof (cases m)
        case (Inl e)
        then have "res = Inl e" "s' = sb\<lparr>sg_disk := d2\<rparr>" using w p sb \<open>p = Inr u\<close> True m by (auto simp: current_name_def sbind_def)
        moreover have "seg_inv crc (sb\<lparr>sg_disk := d2\<rparr>)" using mark(1) n(2) nr sb by (auto simp: seg_inv_def)
        ultimately show ?thesis using mark(2,3) a e by (auto simp: appended_def)
      next
        case (Inr v)
        then show ?thesis
          using w p sb \<open>p = Inr u\<close> True m a mark(2,3) front [of "sb\<lparr>sg_disk := d2, sg_initialize_layout := False\<rparr>"]
          by (auto simp: current_name_def sbind_def appended_def)
      qed
    qed
  qed
qed

lemma append_page_spec:
  assumes inv: "seg_inv crc s" and r: "append_page crc p s = (res, s')"
  shows "seg_inv crc s' \<and> appended crc (sg_disk s) (page_log p) res (sg_disk s')"
proof (cases "frame_ok (page_log p)")
  case False
  then have "res = Inl (IoError InvalidInput ''frame'')" "s' = s" using r by (auto simp: append_page_def encode_records_eq)
  then show ?thesis using inv appended_nothing by simp
next
  case ok: True
  let ?e = "raw_frame crc (page_seq p) (page_log p)"
  let ?rest = "\<lambda>s2. let name = current_name s2; s3 = s2\<lparr>sg_needs_recovery := True\<rparr>;
                (persisted, d) = append_file name ?e (sg_disk s3); s4 = s3\<lparr>sg_disk := d\<rparr> in
            sbind (persisted, s4) (\<lambda>_ s4.
            sbind (if sg_initialize_layout s4
                   then (let (marked, d') = atomic_write PACKING_MARKER PACKING_VERSION (sg_disk s4)
                         in (case marked of Inl e \<Rightarrow> (Inl e, s4\<lparr>sg_disk := d'\<rparr>)
                             | Inr _ \<Rightarrow> (Inr (), s4\<lparr>sg_disk := d', sg_initialize_layout := False\<rparr>)))
                   else (Inr (), s4)) (\<lambda>_ s5.
              (Inr (), s5\<lparr>sg_length := length (file_bytes (sg_disk s5) name), sg_needs_recovery := False\<rparr>)))"
  obtain r1 s1 where r1: "(if sg_needs_recovery s then recover_frontier crc s else (Inr (), s)) = (r1, s1)" by fastforce
  have one: "sg_disk s1 = sg_disk s \<and> seg_inv crc s1 \<and> (\<forall>u. r1 = Inr u \<longrightarrow> at_frontier crc s1)"
    using r1 recover_frontier_spec [OF inv, of r1 s1] inv inv_frontier [OF inv] by (auto split: if_splits)
  obtain r2 s2 where r2: "(if 0 < sg_length s1 \<and> sg_max_segment_bytes s1 < sat_add 64 (sg_length s1) (length ?e)
                 then rotate s1 else (Inr (), s1)) = (r2, s2)" by fastforce
  have two: "sg_disk s2 = sg_disk s1" using r2 rotate_disk by (auto split: if_splits)
  have front2: "at_frontier crc s2" if ok1: "r1 = Inr ()" and ok2: "r2 = Inr ()"
  proof -
    obtain n where n: "disk_inv crc (sg_disk s1) n" "sg_next_seq s1 \<le> umax 32" "n = sg_next_seq s1 \<or> n = Suc (sg_next_seq s1)"
      "sg_length s1 = length (seg_file (sg_disk s1) (sg_next_seq s1))" using one ok1 by (auto simp: at_frontier_def)
    have "n = sg_next_seq s1 \<Longrightarrow> sg_length s1 = 0" using n disk_inv_file [OF n(1,2)] by (simp add: file_bytes_def)
    then show ?thesis using r2 ok1 ok2 one rotate_frontier [OF n(1-3), of "()" s2] by (auto split: if_splits)
  qed
  have r': "sbind (r1, s1) (\<lambda>_ s1. sbind (if 0 < sg_length s1 \<and> sg_max_segment_bytes s1 < sat_add 64 (sg_length s1) (length ?e)
                 then rotate s1 else (Inr (), s1)) (\<lambda>_ s2. ?rest s2)) = (res, s')"
    using r unfolding append_page_def encode_records_eq r1 by (simp only: ok if_True sum.case)
  show ?thesis
  proof (cases r1)
    case (Inl e)
    then have "res = Inl e" "s' = s1" using r' by (auto simp: sbind_def)
    then show ?thesis using one appended_nothing by simp
  next
    case r1': (Inr u)
    then have r'': "sbind (r2, s2) (\<lambda>_ s2. ?rest s2) = (res, s')"
      using r' r2 by (simp only: sbind_def [of "(Inr _, _)"] prod.case sum.case)
    show ?thesis
    proof (cases r2)
      case (Inl e)
      then have "res = Inl e" "s' = s2" using r'' by (auto simp: sbind_def)
      moreover have "s2 = s1" using r2 Inl rotate_error [of s1 e s2] by (auto split: if_splits)
      ultimately show ?thesis using one appended_nothing by simp
    next
      case (Inr v)
      have "?rest s2 = (res, s')" using r'' Inr by (simp only: sbind_def [of "(Inr _, _)"] prod.case sum.case)
      then have "seg_inv crc s' \<and> appended crc (sg_disk s2) (page_log p) res (sg_disk s')"
        using front2 r1' Inr ok
        by (intro write_frame_spec [where sa = s2 and sb = "s2\<lparr>sg_needs_recovery := True\<rparr>" and sq = "page_seq p"])
           (simp_all add: Let_def)
      then show ?thesis using one two by simp
    qed
  qed
qed

lemma appended_trans:
  assumes "appended crc d xs (Inr u) d1" and "appended crc d1 ys res d2"
  shows "appended crc d (xs @ ys) res d2"
proof (cases res)
  case (Inl e)
  then obtain k where "disk_recs crc d2 = disk_recs crc d1 @ take k ys" using assms(2) by (auto simp: appended_def)
  then have "disk_recs crc d2 = disk_recs crc d @ take (length xs + k) (xs @ ys)"
    using assms(1) by (simp add: appended_def)
  then have "\<exists>k. disk_recs crc d2 = disk_recs crc d @ take k (xs @ ys)" by blast
  then show ?thesis using assms Inl unfolding appended_def by simp blast
qed (use assms in \<open>auto simp: appended_def\<close>)

lemma appended_error_more:
  assumes "appended crc d xs (Inl e) d1"
  shows "appended crc d (xs @ ys) (Inl e) d1"
proof -
  obtain k where k: "disk_recs crc d1 = disk_recs crc d @ take k xs" using assms by (auto simp: appended_def)
  have "take k xs = take (min k (length xs)) (xs @ ys)" by (simp add: min_def)
  then have "\<exists>k. disk_recs crc d1 = disk_recs crc d @ take k (xs @ ys)" using k by metis
  then show ?thesis using assms unfolding appended_def by simp
qed

lemma page_log_add [simp]: "page_log (page_add_record fl bs p) = page_log p @ [(fl, bs)]"
  by (simp add: page_add_record_def)

lemma page_log_new [simp]: "page_log (page_new q) = []"
  by (simp add: page_new_def)

lemma append_frames_spec:
  "seg_inv crc s \<Longrightarrow> append_frames crc rs p len s = (res, s') \<Longrightarrow>
     seg_inv crc s' \<and> appended crc (sg_disk s) (page_log p @ rs) res (sg_disk s')"
proof (induction crc rs p len s arbitrary: res s' rule: append_frames.induct)
  case (1 crc p len s)
  then show ?case using append_page_spec [of crc s p res s'] appended_nothing(2) [of crc "sg_disk s"]
    by (auto split: if_splits)
next
  case (2 crc flags encoded rs p len s)
  let ?added = "sat_add 64 (length encoded) RECORD_OVERHEAD"
  show ?case
  proof (cases "pg_records p \<noteq> [] \<and> min FRAME_TARGET_BYTES (sg_max_segment_bytes s) < sat_add 64 len ?added")
    case True
    obtain r1 s1 where ap: "append_page crc p s = (r1, s1)" by fastforce
    note one = append_page_spec [OF "2.prems"(1) ap]
    show ?thesis
    proof (cases r1)
      case (Inl e)
      then have "res = Inl e" "s' = s1" using "2.prems"(2) True ap by (auto simp: sbind_def)
      then show ?thesis using one Inl appended_error_more [of crc "sg_disk s" "page_log p" e "sg_disk s1"] by simp
    next
      case (Inr u)
      then have rest: "append_frames crc rs (page_add_record flags encoded (page_new (word_of_nat (sg_next_seq s1))))
          (sat_add 64 FRAME_OVERHEAD ?added) s1 = (res, s')"
        using "2.prems"(2) True ap by (simp add: sbind_def)
      from "2.IH"(1) [OF refl True _ rest] one Inr ap show ?thesis
        using appended_trans [of crc "sg_disk s" "page_log p" u "sg_disk s1"] by auto
    qed
  next
    case False
    have "append_frames crc rs (page_add_record flags encoded p) (sat_add 64 len ?added) s = (res, s')"
      using "2.prems"(2) unfolding append_frames.simps Let_def if_not_P [OF False] .
    from "2.IH"(2) [OF refl False "2.prems"(1) this] show ?thesis by simp
  qed
qed

section \<open>The contract holds\<close>

lemma disk_cong:
  assumes "dk_files d' = dk_files d"
  shows "segment_sequences d' = segment_sequences d" and "file_bytes d' = file_bytes d"
    and "disk_recs crc d' = disk_recs crc d"
proof -
  show sq: "segment_sequences d' = segment_sequences d" and "file_bytes d' = file_bytes d"
    using assms by (simp_all add: segment_sequences_def file_bytes_def fun_eq_iff)
  have "visit_sequences crc d' qs = visit_sequences crc d qs" for qs
    by (induction qs) (simp_all add: assms)
  then have "visit_sequences crc d' = visit_sequences crc d" by (rule ext)
  then show "disk_recs crc d' = disk_recs crc d" by (simp add: disk_recs_def visit_disk_def sq)
qed

lemma sync_all_spec:
  assumes inv: "seg_inv crc s" and r: "sync_all s = (res, s')"
  shows "seg_inv crc s' \<and> disk_recs crc (sg_disk s') = disk_recs crc (sg_disk s)
    \<and> disk_dur crc (sg_disk s) \<subseteq> disk_dur crc (sg_disk s')
    \<and> (\<forall>u. res = Inr u \<longrightarrow> set (disk_recs crc (sg_disk s)) \<subseteq> disk_dur crc (sg_disk s'))"
proof -
  obtain n where n: "disk_inv crc (sg_disk s) n" "sg_next_seq s \<le> umax 32" "n = sg_next_seq s \<or> n = Suc (sg_next_seq s)"
    "sg_needs_recovery s \<or> sg_length s = length (seg_file (sg_disk s) (sg_next_seq s))
        \<and> (\<exists>fs. seg_layout crc (seg_file (sg_disk s) (sg_next_seq s)) fs [])"
    using inv by (auto simp: seg_inv_def)
  then have seqs: "segment_sequences (sg_disk s) = Inr [0..<n]" by (simp add: disk_inv_def)
  obtain fault d1 where nf: "next_fault (sg_disk s) = (fault, d1)" by fastforce
  then have d1: "dk_files d1 = dk_files (sg_disk s)" "dk_durable d1 = dk_durable (sg_disk s)"
    by (auto simp: next_fault_def split: list.splits)
  note same = disk_cong [OF d1(1)]
  show ?thesis
  proof (cases fault)
    case (Some ke)
    then have s': "res = Inl (snd ke)" "s' = s\<lparr>sg_disk := d1\<rparr>" using r seqs nf by (auto simp: sync_all_def split: prod.splits)
    have "disk_inv crc d1 n" "disk_dur crc d1 = disk_dur crc (sg_disk s)"
      using n(1) by (simp_all add: disk_inv_def disk_dur_def same d1(2))
    then show ?thesis using n s' same by (auto simp: seg_inv_def)
  next
    case None
    let ?d = "d1\<lparr>dk_durable := (\<lambda>name. if name \<in> segment_name ` set [0..<n] then length (file_bytes d1 name) else dk_durable d1 name)\<rparr>"
    have s': "res = Inr ()" "s' = s\<lparr>sg_disk := ?d\<rparr>" using r seqs nf None by (auto simp: sync_all_def)
    have files: "dk_files ?d = dk_files (sg_disk s)" by (simp add: d1)
    note same' = disk_cong [OF files]
    have durable: "dk_durable ?d (segment_name i) = (if i < n then length (seg_file (sg_disk s) i) else dk_durable (sg_disk s) (segment_name i))" for i
      by (auto simp: d1 same(2))
    have inv': "disk_inv crc ?d n"
      using n(1) unfolding disk_inv_def durable same' by auto
    have keep: "r \<in> disk_dur crc ?d" if r: "r \<in> set (recs_of crc (take (dk_durable (sg_disk s) (segment_name i)) (seg_file (sg_disk s) i)))" for r i
    proof -
      obtain fs t where l: "seg_layout crc (seg_file (sg_disk s) i) fs t" using n(1) unfolding disk_inv_def by blast
      have "dk_durable (sg_disk s) (segment_name i) \<le> dk_durable ?d (segment_name i)"
        using n(1) unfolding durable by (auto simp: disk_inv_def)
      from recs_of_take_mono [OF l this] r show ?thesis unfolding disk_dur_def same' by blast
    qed
    have all: "r \<in> disk_dur crc ?d" if r: "r \<in> set (disk_recs crc (sg_disk s))" for r
    proof -
      obtain i where "i < n" "r \<in> set (recs_of crc (seg_file (sg_disk s) i))" using r visit_disk_inv(2) [OF n(1)] by auto
      then show ?thesis unfolding disk_dur_def same' using durable [of i] by (auto intro!: exI [of _ i])
    qed
    have "seg_inv crc s'" unfolding s'(2) seg_inv_def
      by (rule exI [of _ n]) (use inv' n(2-4) same' in simp)
    moreover have "disk_dur crc (sg_disk s) \<subseteq> disk_dur crc ?d" using keep unfolding disk_dur_def [of crc "sg_disk s"] by blast
    ultimately show ?thesis using s' same' all by auto
  qed
qed

interpretation sl: append_log_laws "segment_log crc" "\<lambda>s. disk_recs crc (sg_disk s)" "\<lambda>s. disk_dur crc (sg_disk s)" "seg_inv crc"
  for crc
proof unfold_locales
  fix l rs n
  assume "seg_inv crc l" "visit_records (segment_log crc) l = Inr (rs, n)"
  then show "rs = disk_recs crc (sg_disk l)" by (simp add: segment_log_def disk_recs_def)
next
  fix l ps u l'
  assume "seg_inv crc l" "append_records (segment_log crc) ps l = (Inr u, l')"
  then show "seg_inv crc l' \<and> disk_recs crc (sg_disk l') = disk_recs crc (sg_disk l) @ ps
      \<and> disk_dur crc (sg_disk l) \<union> set ps \<subseteq> disk_dur crc (sg_disk l')"
    using append_frames_spec [of crc l ps "page_new (word_of_nat (sg_next_seq l))" FRAME_OVERHEAD "Inr u" l']
    by (simp add: segment_log_def segment_append_records_def appended_def)
next
  fix l ps e l'
  assume "seg_inv crc l" "append_records (segment_log crc) ps l = (Inl e, l')"
  then show "seg_inv crc l' \<and> (\<exists>k. disk_recs crc (sg_disk l') = disk_recs crc (sg_disk l) @ take k ps)
      \<and> disk_dur crc (sg_disk l) \<subseteq> disk_dur crc (sg_disk l')"
    using append_frames_spec [of crc l ps "page_new (word_of_nat (sg_next_seq l))" FRAME_OVERHEAD "Inl e" l']
    by (simp add: segment_log_def segment_append_records_def appended_def)
next
  fix l u l'
  assume "seg_inv crc l" "log_sync (segment_log crc) l = (Inr u, l')"
  then show "seg_inv crc l' \<and> disk_recs crc (sg_disk l') = disk_recs crc (sg_disk l)
      \<and> disk_dur crc (sg_disk l) \<union> set (disk_recs crc (sg_disk l)) \<subseteq> disk_dur crc (sg_disk l')"
    using sync_all_spec [of crc l "Inr u" l'] by (simp add: segment_log_def)
next
  fix l e l'
  assume "seg_inv crc l" "log_sync (segment_log crc) l = (Inl e, l')"
  then show "seg_inv crc l' \<and> disk_recs crc (sg_disk l') = disk_recs crc (sg_disk l)
      \<and> disk_dur crc (sg_disk l) \<subseteq> disk_dur crc (sg_disk l')"
    using sync_all_spec [of crc l "Inl e" l'] by (simp add: segment_log_def)
qed

section \<open>Acknowledged records are durable\<close>

text \<open>The invariant of a \<open>LogStore\<close> over segments.\<close>

definition log_inv :: "derive_key \<Rightarrow> postcard \<Rightarrow> (bytes \<Rightarrow> u32) \<Rightarrow> segment_store log_store \<Rightarrow> bool" where
  "log_inv dk pc crc st \<longleftrightarrow> seg_inv crc (ls_log st) \<and>
     (case ls_evidence st of None \<Rightarrow> True | Some ev \<Rightarrow> ev = evidence_of dk pc (disk_recs crc (sg_disk (ls_log st))))"

lemma log_inv_store: "log_inv dk pc crc st = sl.store_inv crc dk pc st"
  by (simp add: log_inv_def sl.store_inv_def)

lemma seg_inv_empty:
  "seg_inv crc \<lparr>sg_disk = \<lparr>dk_files = [], dk_durable = (\<lambda>_. 0), dk_faults = fs, dk_locked = lk\<rparr>, sg_next_seq = 0,
     sg_max_segment_bytes = m, sg_length = 0, sg_needs_recovery = nr, sg_initialize_layout = il\<rparr>"
proof -
  have "segment_sequences \<lparr>dk_files = [], dk_durable = (\<lambda>_. 0), dk_faults = fs, dk_locked = lk\<rparr> = Inr [0..<0]"
    by (simp add: segment_sequences_def)
  then show ?thesis
    unfolding seg_inv_def disk_inv_def using seg_layout_empty by (intro exI [of _ 0]) (auto simp: file_bytes_def)
qed

text \<open>
  C1. Admission over segments acknowledges only what survives: whatever the outcome, the store
  stays consistent with its directory and nothing durable is lost. On success the verdicts are
  those of exact-byte admission to the records the directory held, the directory has grown by exactly
  the records of the batch whose bytes are new for their identity, each once and in order
  (\<open>fresh_records\<close>: no duplicate is written again), and every record of the batch, a duplicate
  included, is durable. On an error nothing was written if a record of the batch is invalid, and
  otherwise the directory has grown by a prefix of those new records, which a retry reads again.
\<close>

theorem log_store_ack_durable:
  assumes inv: "log_inv dk pc crc st" and r: "append_encoded_batch dk pc (segment_log crc) bss st = (res, st')"
  defines "before \<equiv> disk_recs crc (sg_disk (ls_log st))" and "after \<equiv> disk_recs crc (sg_disk (ls_log st'))"
  shows "log_inv dk pc crc st' \<and> disk_dur crc (sg_disk (ls_log st)) \<subseteq> disk_dur crc (sg_disk (ls_log st'))
    \<and> (case res of
        Inr adms \<Rightarrow> \<exists>ids. traverse (validate_record dk pc) bss = Inr ids
          \<and> adms = verdicts (evidence_rel (evidence_of dk pc before)) (zip ids bss)
          \<and> after = before @ fresh_records (evidence_rel (evidence_of dk pc before)) (zip ids bss)
          \<and> set bss \<subseteq> snd ` disk_dur crc (sg_disk (ls_log st'))
      | Inl _ \<Rightarrow> \<exists>new. after = before @ new
          \<and> (case traverse (validate_record dk pc) bss of
               Inl _ \<Rightarrow> new = []
             | Inr ids \<Rightarrow> \<exists>k. new = take k (fresh_records (evidence_rel (evidence_of dk pc before)) (zip ids bss))))"
proof (cases res)
  case (Inl e)
  then show ?thesis
    using sl.batch_err [of crc dk pc st bss e st'] inv r unfolding log_inv_store before_def after_def by simp
next
  case (Inr adms)
  then obtain ids where ids: "traverse (validate_record dk pc) bss = Inr ids"
    using r unfolding append_encoded_batch_def by (auto split: sum.splits)
  show ?thesis
  proof (cases "bss = []")
    case True
    then have "st' = st" "adms = []" "ids = []" using r ids Inr by (simp_all add: append_encoded_batch_def)
    then show ?thesis using inv True Inr by (simp add: before_def after_def admit_batch_def)
  next
    case False
    note ok = sl.batch_ok [OF inv [unfolded log_inv_store] False ids r [unfolded Inr]]
    show ?thesis
      using ok ids Inr admit_batch_spec(3,4) [OF wf_evidence_of] unfolding log_inv_store before_def after_def by simp
  qed
qed

definition empty_log :: "segment_store log_store" where
  "empty_log = log_store_new \<lparr>sg_disk = \<lparr>dk_files = [], dk_durable = (\<lambda>_. 0), dk_faults = [], dk_locked = True\<rparr>,
     sg_next_seq = 0, sg_max_segment_bytes = 64, sg_length = 0, sg_needs_recovery = True, sg_initialize_layout = True\<rparr>"

lemma empty_log_inv: "log_inv dk pc crc empty_log"
  unfolding log_inv_def empty_log_def log_store_new_def using seg_inv_empty by simp

abbreviation one_record :: bytes where
  "one_record \<equiv> RECORD_MAGIC @ [1, 7]"

lemma decode_one_record: "decode_op (\<lambda>_ b. b) one_postcard one_record = Inr one_op"
  by (rule decode_encode_op)
     (simp_all add: encode_op_def one_op_def one_postcard_def gen_op_new_def source_mismatch_def RECORD_SCHEMA_def postcard_ok_def)

lemma one_record_run:
  "fst (append_encoded_batch (\<lambda>_ b. b) one_postcard (segment_log (\<lambda>_. 0)) [one_record, one_record] empty_log)
    = Inr [Accepted, Duplicate]"
proof -
  have "length one_record \<le> MAX_RECORD_BYTES" by (simp add: MAX_RECORD_BYTES_def RECORD_MAGIC_def str_bytes_def)
  then have valid: "validate_record (\<lambda>_ b. b) one_postcard one_record = Inr (op_id one_op)"
    by (simp add: validate_record_Inr decode_one_record)
  have none: "read_evidence (\<lambda>_ b. b) one_postcard (segment_log (\<lambda>_. 0)) (ls_log empty_log) = Inr op_set_new"
    by (simp add: read_evidence_def segment_log_def empty_log_def log_store_new_def visit_disk_def segment_sequences_def)
  have admit: "as_admissions (admit_batch op_set_new [(op_id one_op, one_record), (op_id one_op, one_record)]) = [Accepted, Duplicate]"
    "as_pending (admit_batch op_set_new [(op_id one_op, one_record), (op_id one_op, one_record)]) = [(0, one_record)]"
    "as_fence (admit_batch op_set_new [(op_id one_op, one_record), (op_id one_op, one_record)])"
    by (simp_all add: admit_batch_def op_insert_def variants_def op_set_new_def Let_def)
  have sync: "sync_all (ls_log empty_log) = (Inr (), ls_log empty_log)"
    by (simp add: sync_all_def empty_log_def log_store_new_def segment_sequences_def next_fault_def)
  have ok: "frame_ok [(0, one_record)]"
    by (simp add: frame_ok_def ec03_consts RECORD_MAGIC_def str_bytes_def)
  have app: "fst (segment_append_records (\<lambda>_. 0) [(0, one_record)] (ls_log empty_log)) = Inr ()"
    using ok by (simp add: segment_append_records_def empty_log_def log_store_new_def append_page_def encode_records_eq
        page_add_record_def page_new_def recover_frontier_def current_name_def sbind_def append_file_def next_fault_def
        atomic_write_def Let_def)
  obtain l where l: "append_records (segment_log (\<lambda>_. 0)) [(0, one_record)] (ls_log empty_log) = (Inr (), l)"
    using app by (cases "segment_append_records (\<lambda>_. 0) [(0, one_record)] (ls_log empty_log)") (simp add: segment_log_def)
  have "ls_evidence empty_log = None" "log_sync (segment_log (\<lambda>_. 0)) = sync_all"
    by (simp_all add: empty_log_def log_store_new_def segment_log_def)
  then show ?thesis
    using valid none admit l sync by (simp add: append_encoded_batch_def Let_def)
qed

theorem log_store_ack_durable_witness:
  "\<exists>st'. append_encoded_batch (\<lambda>_ b. b) one_postcard (segment_log (\<lambda>_. 0)) [one_record, one_record] empty_log
      = (Inr [Accepted, Duplicate], st') \<and> log_inv (\<lambda>_ b. b) one_postcard (\<lambda>_. 0) st'
      \<and> one_record \<in> snd ` disk_dur (\<lambda>_. 0) (sg_disk (ls_log st'))"
proof -
  obtain st' where run: "append_encoded_batch (\<lambda>_ b. b) one_postcard (segment_log (\<lambda>_. 0)) [one_record, one_record] empty_log
      = (Inr [Accepted, Duplicate], st')"
    using one_record_run by (metis prod.collapse)
  from log_store_ack_durable [OF empty_log_inv run] show ?thesis
    using run by auto
qed

section \<open>Recovery after a crash\<close>

text \<open>
  A crash: file names survive, every segment keeps at least its durable bytes and an arbitrary
  part of what was written after them, other files were replaced atomically, the lock is gone.
\<close>

definition crash :: "disk \<Rightarrow> disk \<Rightarrow> bool" where
  "crash d d' \<longleftrightarrow> map fst (dk_files d') = map fst (dk_files d) \<and> \<not> dk_locked d'
     \<and> (\<forall>i. \<exists>m. dk_durable d (segment_name i) \<le> m \<and> seg_file d' i = take m (seg_file d i)
          \<and> dk_durable d' (segment_name i) \<le> length (seg_file d' i))
     \<and> (\<forall>name. strip_suffix ''.eclog'' name = None \<longrightarrow> map_of (dk_files d') name = map_of (dk_files d) name)"

lemma crash_disk_inv: "disk_inv crc d n \<Longrightarrow> crash d d' \<Longrightarrow> disk_inv crc d' n"
  unfolding disk_inv_def crash_def segment_sequences_def using seg_layout_take by metis

lemma prefix_recs_of: "seg_layout crc bs fs t \<Longrightarrow> prefix (recs_of crc (take m bs)) (recs_of crc bs)"
proof -
  assume l: "seg_layout crc bs fs t"
  then obtain fs' t' gs where "seg_layout crc (take m bs) fs' t'" "fs = fs' @ gs" using seg_layout_take by blast
  then show ?thesis using recs_of_layout [OF l] recs_of_layout [of crc "take m bs"] by simp
qed

lemma subseq_concat: "list_all2 subseq xss yss \<Longrightarrow> subseq (concat xss) (concat yss)"
  by (induction rule: list_all2_induct) (auto intro: list_emb_append_mono)

text \<open>What a crash leaves: every durable record, and nothing that was not written, in order.\<close>

lemma crash_records:
  assumes inv: "disk_inv crc d n" and c: "crash d d'"
  shows "disk_dur crc d \<subseteq> set (disk_recs crc d')" and "subseq (disk_recs crc d') (disk_recs crc d)"
proof -
  have lay: "\<exists>fs t. seg_layout crc (seg_file d i) fs t" for i using inv by (simp add: disk_inv_def)
  note recs = visit_disk_inv(2) [OF inv] visit_disk_inv(2) [OF crash_disk_inv [OF inv c]]
  have "subseq (recs_of crc (seg_file d' i)) (recs_of crc (seg_file d i))" for i
    using lay [of i] c prefix_recs_of unfolding crash_def by (metis prefix_imp_subseq)
  then show "subseq (disk_recs crc d') (disk_recs crc d)"
    unfolding recs by (intro subseq_concat) (simp add: list_all2_conv_all_nth)
  show "disk_dur crc d \<subseteq> set (disk_recs crc d')"
  proof
    fix r
    assume "r \<in> disk_dur crc d"
    then obtain i where i: "r \<in> set (recs_of crc (take (dk_durable d (segment_name i)) (seg_file d i)))"
      by (auto simp: disk_dur_def)
    obtain m where "dk_durable d (segment_name i) \<le> m" "seg_file d' i = take m (seg_file d i)"
      using c unfolding crash_def by blast
    then have r: "r \<in> set (recs_of crc (seg_file d' i))" using i lay [of i] recs_of_take_mono by fastforce
    have "i < n"
      using disk_file_bound [OF crash_disk_inv [OF inv c], of i] r by fastforce
    then show "r \<in> set (disk_recs crc d')" unfolding recs using r by auto
  qed
qed

text \<open>A current segment never starts with the magic of the old page format.\<close>

lemma take4_raw_frame: "take 4 (raw_frame crc sq rs @ xs) = MAGIC" "4 \<le> length (raw_frame crc sq rs)"
  by (simp_all add: raw_frame_def Let_def encode_header_def MAGIC_def)

lemma layout_not_legacy:
  assumes "seg_layout crc bs fs t"
  shows "take 4 bs \<noteq> PAGE_MAGIC"
proof
  assume legacy: "take 4 bs = PAGE_MAGIC"
  have "length (take 4 bs) = 4" unfolding legacy by (simp add: PAGE_MAGIC_def)
  then have len: "4 \<le> length bs" by simp
  show False
  proof (cases fs)
    case Nil
    then obtain sq rs k where "bs = take k (raw_frame crc sq rs)" using assms by (auto simp: seg_layout_def torn_def raw_frames_def)
    then have "take 4 bs = MAGIC" using len take4_raw_frame(1) [of crc sq rs "[]"] by (simp add: min_absorb1)
    then show False using legacy by (simp add: MAGIC_def PAGE_MAGIC_def)
  next
    case (Cons f gs)
    obtain sq rs where "f = (sq, rs)" by (cases f)
    then have "bs = raw_frame crc sq rs @ raw_frames crc gs @ t" using assms Cons by (simp add: seg_layout_def raw_frames_def)
    then have "take 4 bs = MAGIC" by (simp only: take4_raw_frame(1))
    then show False using legacy by (simp add: MAGIC_def PAGE_MAGIC_def)
  qed
qed

lemma require_current_format_inv:
  assumes "disk_inv crc d n"
  shows "require_current_format d qs = Inr ()"
proof -
  have "take 4 (seg_file d q) \<noteq> PAGE_MAGIC" for q using assms layout_not_legacy unfolding disk_inv_def by blast
  then show ?thesis by (induction qs) simp_all
qed

lemma rotate_ok:
  "sg_next_seq s < umax 32 \<Longrightarrow> rotate s = (Inr (), if map_of (dk_files (sg_disk s)) (current_name s) = None then s
     else s\<lparr>sg_next_seq := Suc (sg_next_seq s), sg_length := 0\<rparr>)"
  by (auto simp: rotate_def checked_add_def split: option.splits)

text \<open>Recovery succeeds while segment numbers remain, and moves to an unused segment or stays.\<close>

lemma recover_frontier_ok:
  assumes inv: "disk_inv crc (sg_disk s) n" and q: "sg_next_seq s < umax 32" "n = sg_next_seq s \<or> n = Suc (sg_next_seq s)"
  shows "\<exists>s'. recover_frontier crc s = (Inr (), s') \<and> \<not> sg_needs_recovery s' \<and> sg_disk s' = sg_disk s
    \<and> (sg_next_seq s' = sg_next_seq s \<or> map_of (dk_files (sg_disk s)) (current_name s') = None)"
proof (cases "map_of (dk_files (sg_disk s)) (current_name s)")
  case None
  then show ?thesis by (simp add: recover_frontier_def)
next
  case (Some bs)
  then have "n = Suc (sg_next_seq s)" using q disk_inv_file [OF inv, of "sg_next_seq s"] by (auto simp: current_name_def split: if_splits)
  then have none: "map_of (dk_files (sg_disk s)) (segment_name (Suc (sg_next_seq s))) = None"
    using disk_inv_file [OF inv, of "Suc (sg_next_seq s)"] q(1) by simp
  have bs: "bs = seg_file (sg_disk s) (sg_next_seq s)" using Some by (simp add: file_bytes_def current_name_def)
  obtain fs t where "seg_layout crc bs fs t" using inv unfolding disk_inv_def bs by blast
  from segment_records_layout [OF this] show ?thesis
    using q(1) none Some rotate_ok [of "s\<lparr>sg_length := length bs\<rparr>"]
    by (simp add: recover_frontier_def sbind_def Let_def current_name_def)
qed

lemma rotate_inv:
  assumes f: "at_frontier crc s" and r: "rotate s = (Inr u, s')"
  shows "seg_inv crc s' \<and> sg_disk s' = sg_disk s \<and> sg_needs_recovery s' = sg_needs_recovery s"
proof -
  obtain n where n: "disk_inv crc (sg_disk s) n" "sg_next_seq s \<le> umax 32" "n = sg_next_seq s \<or> n = Suc (sg_next_seq s)"
    "sg_length s = length (seg_file (sg_disk s) (sg_next_seq s))"
    using f by (auto simp: at_frontier_def)
  have "n = sg_next_seq s \<Longrightarrow> sg_length s = 0"
    using n(4) disk_inv_file [OF n(1,2)] by (simp add: file_bytes_def)
  from rotate_frontier [OF n(1-3) r this] frontier_inv r show ?thesis
    by (auto simp: rotate_def split: option.splits)
qed

text \<open>
  C2. Recovery after a crash: however much of the unacknowledged writes a crash loses, the
  writer opens again while a segment number is left, ready to append, with the invariant; every
  durable record is still there, and the records are those written before the crash, in order,
  less some that were not durable.
\<close>

theorem crash_recovery:
  assumes inv: "seg_inv crc s" and c: "crash (sg_disk s) d" and q: "sg_next_seq s < umax 32" and m: "0 < m"
    and mig: "map_of (dk_files (sg_disk s)) ''.migration.json'' = None"
    and marker: "packing_marker_missing (sg_disk s) = Inr initialize"
  shows "\<exists>s'. open_inner crc d m False = Inr s' \<and> seg_inv crc s' \<and> \<not> sg_needs_recovery s'
    \<and> disk_dur crc (sg_disk s) \<subseteq> set (disk_recs crc (sg_disk s'))
    \<and> subseq (disk_recs crc (sg_disk s')) (disk_recs crc (sg_disk s))"
proof -
  obtain n where n: "disk_inv crc (sg_disk s) n" "n = sg_next_seq s \<or> n = Suc (sg_next_seq s)"
    using inv by (auto simp: seg_inv_def)
  have inv': "disk_inv crc d n" using crash_disk_inv [OF n(1) c] .
  then have seqs: "segment_sequences d = Inr [0..<n]" by (simp add: disk_inv_def)
  have other: "strip_suffix ''.eclog'' name = None \<Longrightarrow> map_of (dk_files d) name = map_of (dk_files (sg_disk s)) name" for name
    using c unfolding crash_def by blast
  have marker': "packing_marker_missing d = Inr initialize"
    using marker other [OF marker_not_segment(1)] by (simp add: packing_marker_missing_def)
  have mig': "map_of (dk_files d) ''.migration.json'' = None" using mig other by (simp add: strip_suffix_def)
  define s0 where "s0 = \<lparr>sg_disk = d\<lparr>dk_locked := True\<rparr>, sg_next_seq = (if [0..<n] = [] then 0 else last [0..<n]),
      sg_max_segment_bytes = m, sg_length = 0, sg_needs_recovery = True, sg_initialize_layout = initialize\<rparr>"
  have d0: "sg_disk s0 = d\<lparr>dk_locked := True\<rparr>" "sg_needs_recovery s0" by (simp_all add: s0_def)
  have files: "dk_files (sg_disk s0) = dk_files d" by (simp add: d0)
  have inv0: "disk_inv crc (sg_disk s0) n"
    using inv' by (simp add: d0 disk_inv_def segment_sequences_def file_bytes_def)
  have next0: "sg_next_seq s0 = n - 1" by (cases "n = 0") (simp_all add: s0_def last_upt)
  have seq: "sg_next_seq s0 < umax 32" "n = sg_next_seq s0 \<or> n = Suc (sg_next_seq s0)"
    using q n(2) next0 by arith+
  have "seg_inv crc s0" unfolding seg_inv_def using inv0 seq d0(2) by (intro exI [of _ n]) simp
  note spec = recover_frontier_spec [OF this d0(2)]
  obtain s1 where s1: "recover_frontier crc s0 = (Inr (), s1)" "\<not> sg_needs_recovery s1" "sg_disk s1 = sg_disk s0"
    "sg_next_seq s1 = sg_next_seq s0 \<or> map_of (dk_files (sg_disk s0)) (current_name s1) = None"
    using recover_frontier_ok [OF inv0 seq] by blast
  have f1: "at_frontier crc s1" using spec [OF s1(1)] by blast
  define s2 where "s2 = (if initialize then snd (rotate s1) else s1)"
  have r1: "rotate s1 = (Inr (), snd (rotate s1))"
    using s1(3,4) seq(1) by (auto simp: rotate_def checked_add_def split: option.splits)
  have inv2: "seg_inv crc s2 \<and> \<not> sg_needs_recovery s2 \<and> sg_disk s2 = sg_disk s0"
    using rotate_inv [OF f1 r1] s1 f1 frontier_inv by (simp add: s2_def)
  have "open_inner crc d m False = (case sbind (recover_frontier crc s0) (\<lambda>_ s1. if initialize then rotate s1 else (Inr (), s1)) of
      (Inl e, _) \<Rightarrow> Inl e | (Inr _, s2) \<Rightarrow> Inr s2)"
    using c m mig' seqs require_current_format_inv [OF inv'] marker' unfolding open_inner_def crash_def s0_def Let_def by simp
  then have "open_inner crc d m False = Inr s2"
    unfolding s1(1) using r1 by (cases "rotate s1") (simp add: sbind_def s2_def)
  then show ?thesis using inv2 crash_records [OF n(1) c] disk_cong(3) [OF files] by auto
qed

lemma strip_suffix_json: "strip_suffix ''.eclog'' ''.migration.json'' = None"
  by (simp add: strip_suffix_def)

text \<open>A store whose writer was interrupted in the middle of its second frame.\<close>

definition torn_disk :: "nat \<Rightarrow> bool \<Rightarrow> disk" where
  "torn_disk k locked = \<lparr>dk_files = [(segment_name 0, raw_frame (\<lambda>_. 0) 0 [(0, [7])] @ take k (raw_frame (\<lambda>_. 0) 0 []))],
     dk_durable = (\<lambda>name. if name = segment_name 0 then length (raw_frame (\<lambda>_. 0) 0 [(0, [7])]) else 0), dk_faults = [], dk_locked = locked\<rparr>"

definition torn_store :: segment_store where
  "torn_store = \<lparr>sg_disk = torn_disk 5 True, sg_next_seq = 0, sg_max_segment_bytes = 100, sg_length = 0,
     sg_needs_recovery = True, sg_initialize_layout = True\<rparr>"

lemma torn_disk_file: "seg_file (torn_disk k l) i = (if i = 0 then raw_frame (\<lambda>_. 0) 0 [(0, [7])] @ take k (raw_frame (\<lambda>_. 0) 0 []) else [])"
  by (simp add: torn_disk_def file_bytes_def)

lemma torn_disk_inv: "k < 36 \<Longrightarrow> disk_inv (\<lambda>_. 0) (torn_disk k l) 1"
proof -
  assume k: "k < 36"
  have ok: "frame_ok [(0, [7])]" "frame_ok []" by (simp_all add: frame_ok_def ec03_consts)
  have "k < length (raw_frame (\<lambda>_. 0) 0 [])" using k by (simp add: length_raw_frame ec03_consts)
  then have "seg_layout (\<lambda>_. 0) (raw_frame (\<lambda>_. 0) 0 [(0, [7])] @ take k (raw_frame (\<lambda>_. 0) 0 [])) [(0, [(0, [7])])] (take k (raw_frame (\<lambda>_. 0) 0 []))"
    using ok by (auto simp: seg_layout_def raw_frames_def torn_def)
  moreover have "segment_sequences (torn_disk k l) = Inr [0..<1]"
    using strip_segment_name [of 0] parse_segment_number [of 0 "umax 32"] by (simp add: segment_sequences_def torn_disk_def)
  moreover have "dk_durable (torn_disk k l) (segment_name i) \<le> length (seg_file (torn_disk k l) i)" for i
    unfolding torn_disk_file by (simp add: torn_disk_def)
  ultimately show ?thesis unfolding disk_inv_def torn_disk_file using seg_layout_empty by auto
qed

lemma torn_disk_dur: "(0, [7]) \<in> disk_dur (\<lambda>_. 0) (torn_disk k l)"
proof -
  have "frame_ok [(0, [7])]" by (simp add: frame_ok_def ec03_consts)
  from seg_layout_append(1) [OF seg_layout_empty this, of "\<lambda>_. 0" 0]
  have "recs_of (\<lambda>_. 0) (raw_frame (\<lambda>_. 0) 0 [(0, [7])]) = [(0, [7])]" using recs_of_layout by fastforce
  moreover have "take (dk_durable (torn_disk k l) (segment_name 0)) (seg_file (torn_disk k l) 0) = raw_frame (\<lambda>_. 0) 0 [(0, [7])]"
    unfolding torn_disk_file by (simp add: torn_disk_def)
  ultimately have "(0, [7]) \<in> set (recs_of (\<lambda>_. 0) (take (dk_durable (torn_disk k l) (segment_name 0)) (seg_file (torn_disk k l) 0)))"
    by simp
  then show ?thesis unfolding disk_dur_def by blast
qed

theorem crash_recovery_witness:
  "\<exists>s'. open_inner (\<lambda>_. 0) (torn_disk 3 False) 100 False = Inr s' \<and> (0, [7]) \<in> set (disk_recs (\<lambda>_. 0) (sg_disk s'))"
proof -
  have inv: "seg_inv (\<lambda>_. 0) torn_store"
    using torn_disk_inv [of 5 True] unfolding seg_inv_def by (intro exI [of _ 1]) (simp add: torn_store_def)
  have "\<exists>m. dk_durable (torn_disk 5 True) (segment_name i) \<le> m \<and> seg_file (torn_disk 3 False) i = take m (seg_file (torn_disk 5 True) i)
      \<and> dk_durable (torn_disk 3 False) (segment_name i) \<le> length (seg_file (torn_disk 3 False) i)" for i
    by (rule exI [of _ "length (raw_frame (\<lambda>_. 0) 0 [(0, [7])]) + 3"])
       (simp add: torn_disk_file, simp add: torn_disk_def)
  then have crash: "crash (sg_disk torn_store) (torn_disk 3 False)"
    unfolding crash_def by (simp add: torn_store_def) (auto simp: torn_disk_def strip_segment_name)
  have name: "''.migration.json'' \<noteq> segment_name 0" by (metis strip_segment_name option.distinct(1) strip_suffix_json)
  have "packing_marker_missing (sg_disk torn_store) = Inr True" "map_of (dk_files (sg_disk torn_store)) ''.migration.json'' = None"
    using marker_not_segment(2) [of 0] name by (simp_all add: torn_store_def torn_disk_def packing_marker_missing_def)
  from crash_recovery [OF inv crash _ _ this(2,1), of 100] show ?thesis
    using torn_disk_dur [of 5 True] by (auto simp: torn_store_def)
qed

end
