(* ===== verification/StoreReplica.thy ===== *)
theory StoreReplica
  imports SyncSession Blob SegmentLog
begin

text \<open>
  Replication over portable storage adapters (\<open>editchain-sync/src/adapter.rs\<close>): export policies,
  the immutable export scope, and \<open>StoreReplica\<close>, which implements \<open>ReplicationStorage\<close> for
  any append log, blob storage and policy. The cell \<open>retained\<close> that caches the evidence of the log is a
  field of the state. The locale \<open>store_replica_laws\<close> joins the contracts of the two adapters and
  proves from them the contract a replication session relies on.
\<close>

section \<open>Export policies\<close>

record 'p export_policy =
  ep_namespace :: "'p \<Rightarrow> string"
  ep_check :: "'p \<Rightarrow> unit io_result"
  ep_share_record :: "'p \<Rightarrow> record_key \<Rightarrow> bytes \<Rightarrow> bool io_result"
  ep_share_blob :: "'p \<Rightarrow> record_key \<Rightarrow> bytes \<Rightarrow> bool io_result"

record export_scope =
  es_namespace :: string
  es_records :: "record_key btree_set option"
  es_blobs :: "bytes btree_set option"

definition scope_all :: "string \<Rightarrow> export_scope io_result" where
  "scope_all namespace =
     (if namespace = [] \<or> length namespace > 1024 then Inl (invalid ''invalid replication namespace'')
      else Inr \<lparr>es_namespace = namespace, es_records = None, es_blobs = None\<rparr>)"

definition scope_selected :: "string \<Rightarrow> record_key btree_set \<Rightarrow> bytes btree_set \<Rightarrow> export_scope io_result" where
  "scope_selected namespace recs blobs = rbind (scope_all namespace) (\<lambda>scope.
     Inr (scope\<lparr>es_records := Some recs, es_blobs := Some blobs\<rparr>))"

definition scope_policy :: "export_scope export_policy" where
  "scope_policy = \<lparr>ep_namespace = es_namespace, ep_check = (\<lambda>_. Inr ()),
     ep_share_record = (\<lambda>scope key _. Inr (case es_records scope of None \<Rightarrow> True | Some keys \<Rightarrow> key \<in> set keys)),
     ep_share_blob = (\<lambda>scope _ hash. Inr (case es_blobs scope of None \<Rightarrow> True | Some hashes \<Rightarrow> hash \<in> set hashes))\<rparr>"

section \<open>The replica\<close>

record ('l, 'b, 'p) store_replica =
  sr_log :: 'l
  sr_blobs :: 'b
  sr_policy :: 'p
  sr_retained :: "snapshot option"

record ('l, 'b, 'p) adapters =
  ad_log :: "'l append_log"
  ad_blobs :: "'b blob_storage"
  ad_policy :: "'p export_policy"

definition replica_new :: "'l \<Rightarrow> 'b \<Rightarrow> 'p \<Rightarrow> ('l, 'b, 'p) store_replica" where
  "replica_new l b p = \<lparr>sr_log = l, sr_blobs = b, sr_policy = p, sr_retained = None\<rparr>"

definition into_parts :: "('l, 'b, 'p) store_replica \<Rightarrow> 'l \<times> 'b \<times> 'p" where
  "into_parts r = (sr_log r, sr_blobs r, sr_policy r)"

definition replica_scope :: "('l, 'b, 'p) adapters \<Rightarrow> ('l, 'b, 'p) store_replica \<Rightarrow> unit io_result" where
  "replica_scope ad r = ep_check (ad_policy ad) (sr_policy r)"

fun insert_all :: "derive_key \<Rightarrow> postcard \<Rightarrow> blake3 \<Rightarrow> bytes list \<Rightarrow> snapshot \<Rightarrow> unit io_result \<times> snapshot" where
  "insert_all dk pc b3 [] sn = (Inr (), sn)"
| "insert_all dk pc b3 (bs # bss) sn = (case insert_encoded dk pc b3 bs sn of
       Inl e \<Rightarrow> (Inl e, sn) | Inr (_, sn') \<Rightarrow> insert_all dk pc b3 bss sn')"

definition read_retained :: "derive_key \<Rightarrow> postcard \<Rightarrow> blake3 \<Rightarrow> ('l, 'b, 'p) adapters \<Rightarrow> ('l, 'b, 'p) store_replica
    \<Rightarrow> snapshot io_result \<times> ('l, 'b, 'p) store_replica" where
  "read_retained dk pc b3 ad r =
     (let (synced, l) = log_sync (ad_log ad) (sr_log r); r1 = r\<lparr>sr_log := l\<rparr> in
      (rbind synced (\<lambda>_. rbind (visit_records (ad_log ad) l) (\<lambda>(rs, _).
         case insert_all dk pc b3 (map snd rs) snapshot_default of (Inl e, _) \<Rightarrow> Inl e | (Inr _, sn) \<Rightarrow> Inr sn)), r1))"

definition replica_retained :: "derive_key \<Rightarrow> postcard \<Rightarrow> blake3 \<Rightarrow> ('l, 'b, 'p) adapters \<Rightarrow> ('l, 'b, 'p) store_replica
    \<Rightarrow> snapshot io_result \<times> ('l, 'b, 'p) store_replica" where
  "replica_retained dk pc b3 ad r = (case sr_retained r of
       Some sn \<Rightarrow> (Inr sn, r)
     | None \<Rightarrow> sbind (read_retained dk pc b3 ad r) (\<lambda>sn r1. (Inr sn, r1\<lparr>sr_retained := Some sn\<rparr>)))"

definition replica_records :: "derive_key \<Rightarrow> postcard \<Rightarrow> blake3 \<Rightarrow> ('l, 'b, 'p) adapters \<Rightarrow> bool \<Rightarrow> ('l, 'b, 'p) store_replica
    \<Rightarrow> snapshot io_result \<times> ('l, 'b, 'p) store_replica" where
  "replica_records dk pc b3 ad exporting r = (case replica_scope ad r of
       Inl e \<Rightarrow> (Inl e, r)
     | Inr _ \<Rightarrow> (case log_sync (ad_log ad) (sr_log r) of
           (Inl e, l) \<Rightarrow> (Inl e, r\<lparr>sr_log := l, sr_retained := None\<rparr>)
         | (Inr _, l) \<Rightarrow> sbind (replica_retained dk pc b3 ad (r\<lparr>sr_log := l\<rparr>)) (\<lambda>sn r1.
             (filtered (\<lambda>key bs. if exporting then ep_share_record (ad_policy ad) (sr_policy r1) key bs else Inr True) sn, r1))))"

definition replica_references :: "derive_key \<Rightarrow> postcard \<Rightarrow> ('l, 'b, 'p) adapters \<Rightarrow> snapshot \<Rightarrow> record_key \<Rightarrow> bool
    \<Rightarrow> ('l, 'b, 'p) store_replica \<Rightarrow> references io_result" where
  "replica_references dk pc ad sn key exporting r = rbind (replica_scope ad r) (\<lambda>_.
     rbind (ok_or (invalid ''record outside replication snapshot'') (sn_record sn key)) (\<lambda>encoded.
     rbind (if exporting then ep_share_record (ad_policy ad) (sr_policy r) key encoded else Inr True) (\<lambda>shared.
     if \<not> shared then Inl (invalid ''record outside export scope'')
     else rbind (map_err io_other (decode_op dk pc encoded)) (\<lambda>p. Inr (references_of p)))))"

definition validate_content :: "blake3 \<Rightarrow> references \<Rightarrow> bytes \<Rightarrow> bytes \<Rightarrow> unit io_result" where
  "validate_content b3 refs hash bs =
     (if length bs > MAX_OBJECT_BYTES \<or> b3 bs \<noteq> hash \<or> \<not> matches_len refs hash (length bs)
      then Inl (invalid ''replication blob hash, size or reference mismatch'') else Inr ())"

definition replica_content :: "blake3 \<Rightarrow> ('l, 'b, 'p) adapters \<Rightarrow> references \<Rightarrow> bytes \<Rightarrow> ('l, 'b, 'p) store_replica \<Rightarrow> bytes option io_result" where
  "replica_content b3 ad refs hash r =
     (if map_of refs hash = None then Inl (invalid ''blob is not referenced by this record'')
      else rbind (bs_read_content (ad_blobs ad) (Hash256 hash) (sr_blobs r)) (\<lambda>resolution. case resolution of
          Found bs \<Rightarrow> rbind (validate_content b3 refs hash bs) (\<lambda>_. Inr (Some bs))
        | MissingBlob \<Rightarrow> Inr None
        | _ \<Rightarrow> Inl (invalid ''invalid stored replication blob'')))"

definition publish_blob :: "('l, 'b, 'p) adapters \<Rightarrow> bytes \<Rightarrow> bytes \<Rightarrow> ('l, 'b, 'p) store_replica \<Rightarrow> unit io_result \<times> ('l, 'b, 'p) store_replica" where
  "publish_blob ad hash bs r = (case to_u32 (length bs) of
       Inl e \<Rightarrow> (Inl e, r)
     | Inr len \<Rightarrow>
         let (res, b) = bs_put (ad_blobs ad) bs (sr_blobs r); r1 = r\<lparr>sr_blobs := b\<rparr> in
         (rbind res (\<lambda>ref. if ref \<noteq> \<lparr>blob_id = Hash256 hash, blob_len = len\<rparr>
            then Inl (invalid ''blob adapter returned a different content identity'') else Inr ()), r1))"

section \<open>The replica as replication storage\<close>

text \<open>The batch split into known and new records; the known evidence grows by the new ones.\<close>

fun split_batch :: "derive_key \<Rightarrow> postcard \<Rightarrow> blake3 \<Rightarrow> (record_key \<times> bytes) list \<Rightarrow> snapshot \<Rightarrow> log_record list \<Rightarrow> bool
    \<Rightarrow> (snapshot \<times> log_record list \<times> bool) io_result" where
  "split_batch dk pc b3 [] known pending duplicate = Inr (known, pending, duplicate)"
| "split_batch dk pc b3 ((key, bs) # rs) known pending duplicate = (case sn_record known key of
       Some previous \<Rightarrow>
         if previous \<noteq> bs then Inl (invalid ''record digest collision'')
         else split_batch dk pc b3 rs known pending True
     | None \<Rightarrow> rbind (insert_encoded dk pc b3 bs known) (\<lambda>(_, known').
         split_batch dk pc b3 rs known' (pending @ [(0, bs)]) duplicate))"

definition commit_batch :: "derive_key \<Rightarrow> postcard \<Rightarrow> blake3 \<Rightarrow> ('l, 'b, 'p) adapters \<Rightarrow> (record_key \<times> bytes) list \<Rightarrow> snapshot
    \<Rightarrow> ('l, 'b, 'p) store_replica \<Rightarrow> unit io_result \<times> ('l, 'b, 'p) store_replica" where
  "commit_batch dk pc b3 ad rs known r = (case split_batch dk pc b3 rs known [] False of
       Inl e \<Rightarrow> (Inl e, r)
     | Inr (known', pending, duplicate) \<Rightarrow>
         let (synced, l1) = (if duplicate then log_sync (ad_log ad) (sr_log r) else (Inr (), sr_log r)) in
         case synced of
           Inl e \<Rightarrow> (Inl e, r\<lparr>sr_log := l1\<rparr>)
         | Inr _ \<Rightarrow> (case append_records (ad_log ad) pending l1 of
               (Inl e, l2) \<Rightarrow> (Inl e, r\<lparr>sr_log := l2\<rparr>)
             | (Inr _, l2) \<Rightarrow> (Inr (), r\<lparr>sr_log := l2, sr_retained := Some known'\<rparr>)))"

definition replica_ingest :: "derive_key \<Rightarrow> postcard \<Rightarrow> blake3 \<Rightarrow> ('l, 'b, 'p) adapters \<Rightarrow> (record_key \<times> bytes) list \<Rightarrow> snapshot
    \<Rightarrow> ('l, 'b, 'p) store_replica \<Rightarrow> unit io_result \<times> snapshot \<times> ('l, 'b, 'p) store_replica" where
  "replica_ingest dk pc b3 ad rs sn r = (case rbind (validate_records dk pc b3 rs) (\<lambda>_. replica_scope ad r) of
       Inl e \<Rightarrow> (Inl e, sn, r)
     | Inr _ \<Rightarrow> (case replica_retained dk pc b3 ad r of
           (Inl e, r1) \<Rightarrow> (Inl e, sn, r1)
         | (Inr known, r1) \<Rightarrow> (case commit_batch dk pc b3 ad rs known (r1\<lparr>sr_retained := None\<rparr>) of
               (Inl e, r2) \<Rightarrow> (Inl e, sn, r2)
             | (Inr _, r2) \<Rightarrow> (case insert_all dk pc b3 (map snd rs) sn of (res, sn') \<Rightarrow> (res, sn', r2)))))"

definition replica_read_blob :: "derive_key \<Rightarrow> postcard \<Rightarrow> blake3 \<Rightarrow> ('l, 'b, 'p) adapters \<Rightarrow> snapshot \<Rightarrow> record_key \<Rightarrow> bytes
    \<Rightarrow> ('l, 'b, 'p) store_replica \<Rightarrow> bytes option io_result" where
  "replica_read_blob dk pc b3 ad sn key hash r = rbind (replica_references dk pc ad sn key True r) (\<lambda>refs.
     rbind (ep_share_blob (ad_policy ad) (sr_policy r) key hash) (\<lambda>shared.
     if \<not> shared then Inr None else replica_content b3 ad refs hash r))"

definition replica_ingest_blob :: "derive_key \<Rightarrow> postcard \<Rightarrow> blake3 \<Rightarrow> ('l, 'b, 'p) adapters \<Rightarrow> record_key \<Rightarrow> bytes \<Rightarrow> bytes
    \<Rightarrow> ('l, 'b, 'p) store_replica \<Rightarrow> unit io_result \<times> ('l, 'b, 'p) store_replica" where
  "replica_ingest_blob dk pc b3 ad key hash bs r = sbind (replica_retained dk pc b3 ad r) (\<lambda>sn r1.
     case rbind (replica_references dk pc ad sn key False r1) (\<lambda>refs. validate_content b3 refs hash bs) of
       Inl e \<Rightarrow> (Inl e, r1)
     | Inr _ \<Rightarrow> publish_blob ad hash bs r1)"

definition replica_confirm :: "derive_key \<Rightarrow> postcard \<Rightarrow> blake3 \<Rightarrow> ('l, 'b, 'p) adapters \<Rightarrow> snapshot \<Rightarrow> record_key \<Rightarrow> bytes
    \<Rightarrow> ('l, 'b, 'p) store_replica \<Rightarrow> bool io_result \<times> ('l, 'b, 'p) store_replica" where
  "replica_confirm dk pc b3 ad sn key hash r =
     (case rbind (replica_references dk pc ad sn key False r) (\<lambda>refs. replica_content b3 ad refs hash r) of
        Inl e \<Rightarrow> (Inl e, r)
      | Inr None \<Rightarrow> (Inr False, r)
      | Inr (Some bs) \<Rightarrow> sbind (publish_blob ad hash bs r) (\<lambda>_ r1. (Inr True, r1)))"

definition replica_storage :: "derive_key \<Rightarrow> postcard \<Rightarrow> blake3 \<Rightarrow> ('l, 'b, 'p) adapters \<Rightarrow> ('l, 'b, 'p) store_replica replication_storage" where
  "replica_storage dk pc b3 ad = \<lparr>
     rs_namespace = (\<lambda>r. ep_namespace (ad_policy ad) (sr_policy r)),
     rs_ensure_scope = replica_scope ad,
     rs_snapshot = replica_records dk pc b3 ad True,
     rs_receiving_snapshot = replica_records dk pc b3 ad False,
     rs_ingest_records = replica_ingest dk pc b3 ad,
     rs_blob_hashes = (\<lambda>sn key r. rbind (replica_references dk pc ad sn key False r) (\<lambda>refs. Inr (map fst refs))),
     rs_read_blob = replica_read_blob dk pc b3 ad,
     rs_ingest_blob = replica_ingest_blob dk pc b3 ad,
     rs_confirm_blob = replica_confirm dk pc b3 ad\<rparr>"

section \<open>Evidence kept in memory\<close>

lemma insert_all_ok:
  "snap_ok dk pc b3 sn \<Longrightarrow> insert_all dk pc b3 bss sn = (Inr u, sn') \<Longrightarrow>
     snap_ok dk pc b3 sn' \<and> set (sn_records sn') = set (sn_records sn) \<union> {(k, bs). bs \<in> set bss \<and> key_from_encoded dk pc b3 bs = Inr k}
     \<and> (\<forall>bs\<in>set bss. \<exists>k. key_from_encoded dk pc b3 bs = Inr k)"
proof (induction bss arbitrary: sn)
  case (Cons bs bss)
  from Cons.prems(2) obtain k sn1 where ins: "insert_encoded dk pc b3 bs sn = Inr (k, sn1)"
    and rest: "insert_all dk pc b3 bss sn1 = (Inr u, sn')"
    by (auto split: sum.splits)
  note ok = insert_encoded_ok [OF Cons.prems(1) ins]
  have "(k', b') \<in> set (sn_records sn1) \<longleftrightarrow> (k', b') \<in> set (sn_records sn) \<or> (k', b') = (k, bs)" for k' b'
    using sn_record_iff [OF ok(2), of k' b'] sn_record_iff [OF Cons.prems(1), of k' b'] ok(3,4)
    by (cases "k' = k") auto
  then have "set (sn_records sn1) = insert (k, bs) (set (sn_records sn))" by auto
  then show ?case using Cons.IH [OF ok(2) rest] ok(1) by auto
qed simp

lemma split_batch_ok:
  "snap_ok dk pc b3 known \<Longrightarrow> \<forall>(k, bs)\<in>set rs. key_from_encoded dk pc b3 bs = Inr k \<Longrightarrow>
   split_batch dk pc b3 rs known pending dup = Inr (known', pending', dup') \<Longrightarrow>
     snap_ok dk pc b3 known' \<and> set (sn_records known') = set (sn_records known) \<union> set rs
     \<and> set pending \<subseteq> set pending'
     \<and> (\<forall>(k, bs)\<in>set rs. (0, bs) \<in> set pending' \<or> (k, bs) \<in> set (sn_records known) \<and> dup') \<and> (dup \<longrightarrow> dup')"
proof (induction rs arbitrary: known pending dup)
  case (Cons e rs)
  obtain k bs where e: "e = (k, bs)" by fastforce
  have kbs: "key_from_encoded dk pc b3 bs = Inr k" using Cons.prems(2) by (simp add: e)
  show ?case
  proof (cases "sn_record known k")
    case (Some previous)
    then have "previous = bs" and rest: "split_batch dk pc b3 rs known pending True = Inr (known', pending', dup')"
      using Cons.prems(3) by (auto simp: e split: if_splits)
    moreover have "(k, previous) \<in> set (sn_records known)" using Some sn_record_iff [OF Cons.prems(1)] by blast
    ultimately show ?thesis using Cons.IH [OF Cons.prems(1) _ rest] Cons.prems(2) by (auto simp: e)
  next
    case None
    then obtain k' known1 where ins: "insert_encoded dk pc b3 bs known = Inr (k', known1)"
      and rest: "split_batch dk pc b3 rs known1 (pending @ [(0, bs)]) dup = Inr (known', pending', dup')"
      using Cons.prems(3) by (auto simp: e rbind_Inr_iff)
    note ok = insert_encoded_ok [OF Cons.prems(1) ins]
    have k': "k' = k" using ok(1) kbs by simp
    have "(j, b') \<in> set (sn_records known1) \<longleftrightarrow> (j, b') \<in> set (sn_records known) \<or> (j, b') = (k, bs)" for j b'
      using sn_record_iff [OF ok(2), of j b'] sn_record_iff [OF Cons.prems(1), of j b'] ok(3) None k'
      by (cases "j = k") auto
    then have "set (sn_records known1) = insert (k, bs) (set (sn_records known))" by auto
    moreover note Cons.IH [OF ok(2) _ rest]
    ultimately show ?thesis using Cons.prems(2) by (auto simp: e)
  qed
qed auto

lemma validate_content_Inr: "validate_content b3 refs hash bs = Inr u \<Longrightarrow> b3 bs = hash"
  by (auto simp: validate_content_def split: if_splits)

section \<open>The contract of the replica\<close>

locale store_replica_laws =
  l: append_log_laws lops recs ldur linv + b: blob_storage_laws bops b3 bdur
  for lops :: "'l append_log" and recs ldur linv and bops :: "'b blob_storage" and b3 bdur +
  fixes dk :: derive_key and pc :: postcard and pol :: "'p export_policy"
begin

definition ad :: "('l, 'b, 'p) adapters" where
  "ad = \<lparr>ad_log = lops, ad_blobs = bops, ad_policy = pol\<rparr>"

definition rinv :: "('l, 'b, 'p) store_replica \<Rightarrow> bool" where
  "rinv r \<longleftrightarrow> linv (sr_log r) \<and> (\<forall>sn. sr_retained r = Some sn \<longrightarrow>
     snap_ok dk pc b3 sn \<and> snd ` set (sn_records sn) \<subseteq> snd ` set (recs (sr_log r)))"

text \<open>Durable records by their key, and durable content.\<close>

definition rdur :: "('l, 'b, 'p) store_replica \<Rightarrow> (record_key \<times> bytes) set" where
  "rdur r = {(k, bs). key_from_encoded dk pc b3 bs = Inr k \<and> bs \<in> snd ` ldur (sr_log r)}"

definition rdurb :: "('l, 'b, 'p) store_replica \<Rightarrow> bytes set" where
  "rdurb r = bdur (sr_blobs r)"

abbreviation rgrows :: "('l, 'b, 'p) store_replica \<Rightarrow> ('l, 'b, 'p) store_replica \<Rightarrow> bool" where
  "rgrows \<equiv> grows rinv rdur rdurb"

lemma ad_sel [simp]: "ad_log ad = lops" "ad_blobs ad = bops" "ad_policy ad = pol"
  by (simp_all add: ad_def)

lemma rdur_mono: "ldur (sr_log r) \<subseteq> ldur (sr_log r') \<Longrightarrow> rdur r \<subseteq> rdur r'"
  by (auto simp: rdur_def)

lemma sync_cases:
  assumes "rinv r" and "log_sync lops (sr_log r) = (res, l')"
  shows "rinv (r\<lparr>sr_log := l'\<rparr>)" "recs l' = recs (sr_log r)" "ldur (sr_log r) \<subseteq> ldur l'"
    "res = Inr u \<Longrightarrow> set (recs l') \<subseteq> ldur l'"
proof -
  have inv: "linv (sr_log r)" using assms(1) by (simp add: rinv_def)
  have "linv l' \<and> recs l' = recs (sr_log r) \<and> ldur (sr_log r) \<subseteq> ldur l' \<and> (\<forall>u. res = Inr u \<longrightarrow> set (recs l') \<subseteq> ldur l')"
  proof (cases res)
    case (Inl e)
    then show ?thesis using l.sync_err [OF inv] assms(2) by fastforce
  next
    case (Inr u)
    then show ?thesis using l.sync_ok [OF inv] assms(2) by fastforce
  qed
  then show "rinv (r\<lparr>sr_log := l'\<rparr>)" "recs l' = recs (sr_log r)" "ldur (sr_log r) \<subseteq> ldur l'"
    "res = Inr u \<Longrightarrow> set (recs l') \<subseteq> ldur l'"
    using assms(1) by (auto simp: rinv_def)
qed

text \<open>The cached evidence only shows records of the log.\<close>

lemma retained_ok:
  assumes "rinv r" and "replica_retained dk pc b3 ad r = (res, r')"
  shows "rgrows r r'" "recs (sr_log r') = recs (sr_log r)" "sr_policy r' = sr_policy r"
    "res = Inr sn \<Longrightarrow> snap_ok dk pc b3 sn \<and> snd ` set (sn_records sn) \<subseteq> snd ` set (recs (sr_log r'))"
proof -
  have "rgrows r r' \<and> recs (sr_log r') = recs (sr_log r) \<and> sr_policy r' = sr_policy r
    \<and> (\<forall>sn. res = Inr sn \<longrightarrow> snap_ok dk pc b3 sn \<and> snd ` set (sn_records sn) \<subseteq> snd ` set (recs (sr_log r')))"
  proof (cases "sr_retained r")
    case (Some sn)
    then show ?thesis using assms by (auto simp: replica_retained_def grows_def rinv_def)
  next
    case None
    obtain synced l1 where sync: "log_sync lops (sr_log r) = (synced, l1)" by fastforce
    note s = sync_cases [OF assms(1) sync]
    let ?r1 = "r\<lparr>sr_log := l1\<rparr>"
    have g: "rgrows r ?r1" using s rdur_mono [of r ?r1] by (simp add: grows_def rdurb_def)
    show ?thesis
    proof (cases "fst (read_retained dk pc b3 ad r)")
      case (Inl e)
      then have "read_retained dk pc b3 ad r = (Inl e, ?r1)" using sync by (simp add: read_retained_def)
      then have "res = Inl e \<and> r' = ?r1" using assms(2) None by (simp add: replica_retained_def sbind_def)
      then show ?thesis using g s(2) by simp
    next
      case (Inr sn)
      then have rd: "read_retained dk pc b3 ad r = (Inr sn, ?r1)" using sync by (simp add: read_retained_def)
      then obtain rs n where vis: "visit_records lops l1 = Inr (rs, n)"
        and res: "(case insert_all dk pc b3 (map snd rs) snapshot_default of (Inl e, _) \<Rightarrow> Inl e | (Inr _, sn) \<Rightarrow> Inr sn) = Inr sn"
        using sync by (auto simp: read_retained_def rbind_Inr_iff)
      then obtain u where ins: "insert_all dk pc b3 (map snd rs) snapshot_default = (Inr u, sn)"
        by (auto split: prod.splits sum.splits)
      have "rs = recs l1" using l.visit [OF _ vis] s(1) by (simp add: rinv_def)
      then have sn: "snap_ok dk pc b3 sn" "snd ` set (sn_records sn) \<subseteq> snd ` set (recs l1)"
        using insert_all_ok [OF snap_ok_default ins] by (auto simp: snapshot_default_def intro: rev_image_eqI)
      have "res = Inr sn \<and> r' = ?r1\<lparr>sr_retained := Some sn\<rparr>"
        using assms(2) None rd by (simp add: replica_retained_def sbind_def)
      then show ?thesis
        using sn g s by (auto simp: grows_def rinv_def rdur_def rdurb_def)
    qed
  qed
  then show "rgrows r r'" "recs (sr_log r') = recs (sr_log r)" "sr_policy r' = sr_policy r"
    "res = Inr sn \<Longrightarrow> snap_ok dk pc b3 sn \<and> snd ` set (sn_records sn) \<subseteq> snd ` set (recs (sr_log r'))" by blast+
qed

lemma retained_fenced:
  assumes "rinv r" and "replica_retained dk pc b3 ad r = (res, r')" and "set (recs (sr_log r)) \<subseteq> ldur (sr_log r)"
  shows "set (recs (sr_log r')) \<subseteq> ldur (sr_log r')"
proof (cases "sr_retained r")
  case None
  obtain synced l1 where sync: "log_sync lops (sr_log r) = (synced, l1)" by fastforce
  note s = sync_cases [OF assms(1) sync]
  have "sr_log r' = l1"
    using assms(2) None sync by (auto simp: replica_retained_def read_retained_def sbind_def split: sum.splits)
  then show ?thesis using s(2,3) assms(3) by simp
qed (use assms in \<open>simp add: replica_retained_def\<close>)

text \<open>Evidence shown after a fence is durable.\<close>

lemma fenced_durable:
  assumes "snap_ok dk pc b3 sn" and "snd ` set (sn_records sn) \<subseteq> snd ` set (recs (sr_log r))" and "set (recs (sr_log r)) \<subseteq> ldur (sr_log r)"
  shows "set (sn_records sn) \<subseteq> rdur r"
proof
  fix e assume e: "e \<in> set (sn_records sn)"
  obtain k bs where "e = (k, bs)" by fastforce
  moreover from this have "key_from_encoded dk pc b3 bs = Inr k" using e assms(1) by (auto simp: snap_ok_def)
  moreover have "snd e \<in> snd ` ldur (sr_log r)" using e assms(2,3) by (meson image_eqI image_mono subsetD)
  ultimately show "e \<in> rdur r" by (simp add: rdur_def)
qed

lemma rgrows_trans: "rgrows r s \<Longrightarrow> rgrows s t \<Longrightarrow> rgrows r t"
  by (auto simp: grows_def)

lemma rgrows_refl: "rinv r \<Longrightarrow> rgrows r r"
  by (simp add: grows_def)

lemma sync_grows: "rinv r \<Longrightarrow> log_sync lops (sr_log r) = (res, l') \<Longrightarrow> rgrows r (r\<lparr>sr_log := l'\<rparr>)"
  using sync_cases [of r res l'] rdur_mono [of r "r\<lparr>sr_log := l'\<rparr>"] by (simp add: grows_def rdurb_def)

lemma records_ok:
  assumes "rinv r" and "replica_records dk pc b3 ad exporting r = (res, r')"
  shows "rgrows r r' \<and> (\<forall>sn. res = Inr sn \<longrightarrow> snap_ok dk pc b3 sn \<and> set (sn_records sn) \<subseteq> rdur r')"
proof (cases "replica_scope ad r")
  case (Inl e)
  then show ?thesis using assms by (auto simp: replica_records_def rgrows_refl)
next
  case scope: (Inr u)
  obtain synced l1 where sync: "log_sync lops (sr_log r) = (synced, l1)" by fastforce
  let ?r1 = "r\<lparr>sr_log := l1\<rparr>"
  note s = sync_cases [OF assms(1) sync] and g = sync_grows [OF assms(1) sync]
  show ?thesis
  proof (cases synced)
    case (Inl e)
    then have "res = Inl e \<and> r' = ?r1\<lparr>sr_retained := None\<rparr>" using assms(2) sync scope by (simp add: replica_records_def)
    then show ?thesis using g by (auto simp: grows_def rinv_def rdur_def rdurb_def)
  next
    case (Inr u)
    obtain got r2 where ret: "replica_retained dk pc b3 ad ?r1 = (got, r2)" by fastforce
    note t = retained_ok [OF s(1) ret]
    have all: "set (recs (sr_log r2)) \<subseteq> ldur (sr_log r2)" if "got = Inr sn" for sn
      using retained_fenced [OF s(1) ret] s(4) Inr by simp
    let ?permits = "\<lambda>key bs. if exporting then ep_share_record pol (sr_policy r2) key bs else Inr True"
    have run: "(res, r') = (case got of Inl e \<Rightarrow> (Inl e, r2) | Inr sn \<Rightarrow> (filtered ?permits sn, r2))"
      using assms(2) sync scope Inr ret by (cases got) (auto simp: replica_records_def sbind_def cong: if_cong)
    have "snap_ok dk pc b3 sn' \<and> set (sn_records sn') \<subseteq> rdur r2" if "got = Inr sn" "filtered ?permits sn = Inr sn'" for sn sn'
    proof -
      have sn: "snap_ok dk pc b3 sn" "set (sn_records sn) \<subseteq> rdur r2"
        using t(4) [OF that(1)] fenced_durable all [OF that(1)] by blast+
      have "set (sn_records sn') \<subseteq> set (sn_records sn)"
        using filtered_ok(2) [OF sn(1) that(2)] sn_record_iff [OF sn(1)] sn_record_iff [OF filtered_ok(1) [OF sn(1) that(2)]]
        by (intro subrelI) simp
      then show ?thesis using sn filtered_ok(1) [OF sn(1) that(2)] by blast
    qed
    then show ?thesis using run rgrows_trans [OF g t(1)] by (cases got) auto
  qed
qed

lemma commit_ok:
  assumes "rinv r" and "snap_ok dk pc b3 known" and known: "snd ` set (sn_records known) \<subseteq> snd ` set (recs (sr_log r))"
    and keys: "\<forall>(k, bs)\<in>set rs. key_from_encoded dk pc b3 bs = Inr k" and none: "sr_retained r = None"
    and run: "commit_batch dk pc b3 ad rs known r = (res, r')"
  shows "rgrows r r' \<and> (res = Inr () \<longrightarrow> set rs \<subseteq> rdur r')"
proof (cases "split_batch dk pc b3 rs known [] False")
  case (Inl e)
  then show ?thesis using run assms(1) by (auto simp: commit_batch_def rgrows_refl)
next
  case (Inr out)
  obtain known' pending dup where out: "out = (known', pending, dup)" by (cases out)
  note sp = split_batch_ok [OF assms(2) keys Inr [unfolded out]]
  obtain synced l1 where m: "(if dup then log_sync (ad_log ad) (sr_log r) else (Inr (), sr_log r)) = (synced, l1)"
    by (rule prod.exhaust)
  have l1: "rgrows r (r\<lparr>sr_log := l1\<rparr>)" "recs l1 = recs (sr_log r)" "synced = Inr () \<Longrightarrow> dup \<Longrightarrow> set (recs l1) \<subseteq> ldur l1"
  proof -
    have "rgrows r (r\<lparr>sr_log := l1\<rparr>) \<and> recs l1 = recs (sr_log r) \<and> (synced = Inr () \<longrightarrow> dup \<longrightarrow> set (recs l1) \<subseteq> ldur l1)"
    proof (cases dup)
      case True
      then have "log_sync lops (sr_log r) = (synced, l1)" using m by simp
      then show ?thesis using sync_cases [OF assms(1)] sync_grows [OF assms(1)] by blast
    next
      case False
      then show ?thesis using m rgrows_refl [OF assms(1)] by auto
    qed
    then show "rgrows r (r\<lparr>sr_log := l1\<rparr>)" "recs l1 = recs (sr_log r)" "synced = Inr () \<Longrightarrow> dup \<Longrightarrow> set (recs l1) \<subseteq> ldur l1"
      by blast+
  qed
  show ?thesis
  proof (cases synced)
    case (Inl e)
    then have "res = Inl e \<and> r' = r\<lparr>sr_log := l1\<rparr>" using run by (simp add: commit_batch_def Inr out m Inl del: ad_sel)
    then show ?thesis using l1 by simp
  next
    case synced: (Inr u)
    obtain appended l2 where app1: "append_records (ad_log ad) pending l1 = (appended, l2)" by (rule prod.exhaust)
    then have app: "append_records lops pending l1 = (appended, l2)" by simp
    have inv: "linv l1" using l1(1) by (simp add: grows_def rinv_def)
    have l2: "linv l2" "ldur l1 \<subseteq> ldur l2" using l.append_ok [OF inv] l.append_err [OF inv] app by (cases appended; fastforce)+
    have g: "rgrows r (r\<lparr>sr_log := l2\<rparr>)"
      using l1(1) l2 none rdur_mono [of "r\<lparr>sr_log := l1\<rparr>" "r\<lparr>sr_log := l2\<rparr>"] by (auto simp: grows_def rinv_def rdurb_def)
    show ?thesis
    proof (cases appended)
      case (Inl e)
      then have "res = Inl e \<and> r' = r\<lparr>sr_log := l2\<rparr>"
        using run by (simp add: commit_batch_def Inr out m synced app1 Inl del: ad_sel)
      then show ?thesis using g by simp
    next
      case ok: (Inr u)
      have r': "r' = r\<lparr>sr_log := l2, sr_retained := Some known'\<rparr>"
        using run by (simp add: commit_batch_def Inr out m synced app1 ok del: ad_sel)
      have app': "recs l2 = recs l1 @ pending" "ldur l1 \<union> set pending \<subseteq> ldur l2" using l.append_ok [OF inv] app ok by blast+
      have stored: "bs \<in> snd ` set (recs l2) \<and> bs \<in> snd ` ldur l2" if "(k, bs) \<in> set rs" for k bs
      proof (cases "(0, bs) \<in> set pending")
        case True
        then show ?thesis using app' by (auto intro: rev_image_eqI)
      next
        case False
        then have "(k, bs) \<in> set (sn_records known)" and dup using sp that by auto
        moreover from this have "bs \<in> snd ` set (sn_records known)" by (auto intro: rev_image_eqI)
        ultimately have "bs \<in> snd ` set (recs l1)" and "set (recs l1) \<subseteq> ldur l1"
          using subsetD [OF known] l1(2,3) synced by auto
        then show ?thesis using app' by auto
      qed
      have "snd ` set (sn_records known') \<subseteq> snd ` set (recs l2)"
        using sp known stored app'(1) l1(2) by auto
      then have "rinv r'" using l2(1) sp by (simp add: r' rinv_def)
      then have "rgrows r r'" using g by (simp add: grows_def r' rdur_def rdurb_def)
      moreover have "set rs \<subseteq> rdur r'" using stored keys by (auto simp: rdur_def r')
      ultimately show ?thesis by simp
    qed
  qed
qed

lemma ingest_ok:
  assumes "rinv r" and "snap_ok dk pc b3 sn" and run: "replica_ingest dk pc b3 ad rs sn r = (res, sn', r')"
  shows "rgrows r r' \<and> (res = Inr () \<longrightarrow>
    set rs \<subseteq> rdur r' \<and> snap_ok dk pc b3 sn' \<and> set (sn_records sn') = set (sn_records sn) \<union> set rs)"
proof (cases "rbind (validate_records dk pc b3 rs) (\<lambda>_. replica_scope ad r)")
  case (Inl e)
  then show ?thesis using run assms(1) by (auto simp: replica_ingest_def rgrows_refl)
next
  case valid: (Inr u)
  then have keys: "\<forall>(k, bs)\<in>set rs. key_from_encoded dk pc b3 bs = Inr k"
    using validate_records_Inr by (fastforce simp: rbind_Inr_iff)
  obtain got r1 where ret: "replica_retained dk pc b3 ad r = (got, r1)" by fastforce
  note t = retained_ok [OF assms(1) ret]
  show ?thesis
  proof (cases got)
    case (Inl e)
    then show ?thesis using run valid ret t(1) by (auto simp: replica_ingest_def)
  next
    case (Inr known)
    let ?r1 = "r1\<lparr>sr_retained := None\<rparr>"
    obtain committed r2 where com: "commit_batch dk pc b3 ad rs known ?r1 = (committed, r2)" by fastforce
    have "rgrows r ?r1" using t(1) by (auto simp: grows_def rinv_def rdur_def rdurb_def)
    moreover from this have c: "rgrows ?r1 r2 \<and> (committed = Inr () \<longrightarrow> set rs \<subseteq> rdur r2)"
      using commit_ok [OF _ _ _ keys _ com] t(4) [OF Inr] by (simp add: grows_def)
    ultimately have g: "rgrows r r2" using rgrows_trans by blast
    show ?thesis
    proof (cases committed)
      case (Inl e)
      then show ?thesis using run valid ret Inr com g by (auto simp: replica_ingest_def)
    next
      case ok: (Inr u)
      then have out: "insert_all dk pc b3 (map snd rs) sn = (res, sn')" "r' = r2"
        using run valid ret Inr com by (auto simp: replica_ingest_def split: prod.splits)
      have "{(k, bs). bs \<in> set (map snd rs) \<and> key_from_encoded dk pc b3 bs = Inr k} = set rs"
        using keys by (force simp: image_iff)
      then show ?thesis using out g c ok insert_all_ok [OF assms(2), of "map snd rs" _ sn'] by auto
    qed
  qed
qed

lemma publish_ok:
  assumes "rinv r" and "publish_blob ad hash bs r = (res, r')"
  shows "rgrows r r' \<and> (res = Inr () \<longrightarrow> hash \<in> rdurb r')"
proof (cases "to_u32 (length bs)")
  case (Inl e)
  then show ?thesis using assms by (auto simp: publish_blob_def rgrows_refl)
next
  case (Inr len)
  obtain put b1 where put: "bs_put bops bs (sr_blobs r) = (put, b1)" by fastforce
  have r': "r' = r\<lparr>sr_blobs := b1\<rparr>"
    and res: "res = rbind put (\<lambda>ref. if ref \<noteq> \<lparr>blob_id = Hash256 hash, blob_len = len\<rparr>
      then Inl (invalid ''blob adapter returned a different content identity'') else Inr ())"
    using assms(2) Inr put by (auto simp: publish_blob_def)
  have "rgrows r r'" using b.put_keeps_durable [OF put] assms(1) by (simp add: r' grows_def rinv_def rdur_def rdurb_def)
  moreover have "hash \<in> rdurb r'" if "res = Inr ()"
  proof -
    have "put = Inr \<lparr>blob_id = Hash256 hash, blob_len = len\<rparr>"
      using that by (auto simp: res rbind_Inr_iff split: if_splits)
    then show ?thesis using b.put_durable put by (fastforce simp: r' rdurb_def)
  qed
  ultimately show ?thesis by blast
qed

lemma ingest_blob_ok:
  assumes "rinv r" and run: "replica_ingest_blob dk pc b3 ad k h bs r = (res, r')"
  shows "rgrows r r' \<and> (res = Inr () \<longrightarrow> h \<in> rdurb r')"
proof -
  obtain got r1 where ret: "replica_retained dk pc b3 ad r = (got, r1)" by fastforce
  note t = retained_ok [OF assms(1) ret]
  have inv: "rinv r1" using t(1) by (simp add: grows_def)
  show ?thesis
  proof (cases got)
    case (Inl e)
    then show ?thesis using run ret t(1) by (auto simp: replica_ingest_blob_def sbind_def)
  next
    case (Inr sn)
    show ?thesis
    proof (cases "rbind (replica_references dk pc ad sn k False r1) (\<lambda>refs. validate_content b3 refs h bs)")
      case (Inl e)
      then show ?thesis using run ret Inr t(1) by (auto simp: replica_ingest_blob_def sbind_def)
    next
      case ok: (Inr u)
      then have "publish_blob ad h bs r1 = (res, r')" using run ret Inr by (simp add: replica_ingest_blob_def sbind_def)
      then show ?thesis using publish_ok [OF inv] rgrows_trans [OF t(1)] by blast
    qed
  qed
qed

lemma confirm_ok:
  assumes "rinv r" and run: "replica_confirm dk pc b3 ad sn k h r = (res, r')"
  shows "rgrows r r' \<and> (res = Inr True \<longrightarrow> h \<in> rdurb r')"
proof (cases "\<exists>bs. rbind (replica_references dk pc ad sn k False r) (\<lambda>refs. replica_content b3 ad refs h r) = Inr (Some bs)")
  case True
  then obtain bs where found: "rbind (replica_references dk pc ad sn k False r) (\<lambda>refs. replica_content b3 ad refs h r) = Inr (Some bs)" by blast
  obtain put r1 where put: "publish_blob ad h bs r = (put, r1)" by fastforce
  then have "r' = r1 \<and> (res = Inr True \<longrightarrow> put = Inr ())"
    using run by (cases put) (auto simp: replica_confirm_def found sbind_def)
  then show ?thesis using publish_ok [OF assms(1) put] by blast
next
  case False
  then show ?thesis using run rgrows_refl [OF assms(1)] by (auto simp: replica_confirm_def split: sum.splits option.splits)
qed

end

text \<open>A replica over lawful adapters keeps the contract of a replication storage.\<close>

sublocale store_replica_laws \<subseteq> replica: replication_laws "replica_storage dk pc b3 ad" dk pc b3 rinv rdur rdurb
proof
  fix r res r' assume "rinv r" "rs_snapshot (replica_storage dk pc b3 ad) r = (res, r')"
  then show "rgrows r r' \<and> (\<forall>sn. res = Inr sn \<longrightarrow> snap_ok dk pc b3 sn \<and> set (sn_records sn) \<subseteq> rdur r')"
    using records_ok by (simp add: replica_storage_def)
next
  fix r res r' assume "rinv r" "rs_receiving_snapshot (replica_storage dk pc b3 ad) r = (res, r')"
  then show "rgrows r r' \<and> (\<forall>sn. res = Inr sn \<longrightarrow> snap_ok dk pc b3 sn \<and> set (sn_records sn) \<subseteq> rdur r')"
    using records_ok by (simp add: replica_storage_def)
next
  fix r sn rs res sn' r' assume "rinv r" "snap_ok dk pc b3 sn" "rs_ingest_records (replica_storage dk pc b3 ad) rs sn r = (res, sn', r')"
  then show "rgrows r r' \<and> (res = Inr () \<longrightarrow> set rs \<subseteq> rdur r' \<and> snap_ok dk pc b3 sn' \<and> set (sn_records sn') = set (sn_records sn) \<union> set rs)"
    using ingest_ok by (simp add: replica_storage_def)
next
  fix r k h bs res r' assume "rinv r" "rs_ingest_blob (replica_storage dk pc b3 ad) k h bs r = (res, r')"
  then show "rgrows r r' \<and> (res = Inr () \<longrightarrow> h \<in> rdurb r')"
    using ingest_blob_ok by (simp add: replica_storage_def)
next
  fix r sn k h res r' assume "rinv r" "rs_confirm_blob (replica_storage dk pc b3 ad) sn k h r = (res, r')"
  then show "rgrows r r' \<and> (res = Inr True \<longrightarrow> h \<in> rdurb r')"
    using confirm_ok by (simp add: replica_storage_def)
qed

section \<open>Acknowledgments over the filesystem adapters\<close>

text \<open>The replica the program runs: a segment store and a blob directory, with any policy.\<close>

definition disk_adapters :: "(bytes \<Rightarrow> u32) \<Rightarrow> blake3 \<Rightarrow> nat \<Rightarrow> 'p export_policy \<Rightarrow> (segment_store, blob_disk, 'p) adapters" where
  "disk_adapters crc b3 pid pol = \<lparr>ad_log = segment_log crc, ad_blobs = blob_store b3 pid, ad_policy = pol\<rparr>"

definition durable_records :: "derive_key \<Rightarrow> postcard \<Rightarrow> blake3 \<Rightarrow> (bytes \<Rightarrow> u32) \<Rightarrow> (segment_store, blob_disk, 'p) store_replica
    \<Rightarrow> (record_key \<times> bytes) set" where
  "durable_records dk pc b3 crc r =
     {(k, bs). key_from_encoded dk pc b3 bs = Inr k \<and> bs \<in> snd ` disk_dur crc (sg_disk (sr_log r))}"

abbreviation disk_storage :: "derive_key \<Rightarrow> postcard \<Rightarrow> blake3 \<Rightarrow> (bytes \<Rightarrow> u32) \<Rightarrow> nat \<Rightarrow> 'p export_policy
    \<Rightarrow> (segment_store, blob_disk, 'p) store_replica replication_storage" where
  "disk_storage dk pc b3 crc pid pol \<equiv> replica_storage dk pc b3 (disk_adapters crc b3 pid pol)"

text \<open>The messages a call returns.\<close>

abbreviation replies :: "peer_message list io_result \<Rightarrow> peer_message list" where
  "replies res \<equiv> (case res of Inl _ \<Rightarrow> [] | Inr ms \<Rightarrow> ms)"

interpretation disk: store_replica_laws "segment_log crc" "\<lambda>s. disk_recs crc (sg_disk s)" "\<lambda>s. disk_dur crc (sg_disk s)" "seg_inv crc"
    "blob_store b3 pid" b3 "durable_hashes b3" dk pc pol
  for crc b3 pid dk pc and pol :: "'p export_policy"
  by unfold_locales

lemma disk_ad: "disk.ad crc b3 pid pol = disk_adapters crc b3 pid pol"
  by (simp add: disk.ad_def disk_adapters_def)

text \<open>
  C3. What a session acknowledges is durable. Whatever messages a peer sends, in any order and however
  malformed, and whatever operating-system calls fail: no durable record or content is ever lost, every
  acknowledged record is on disk under exactly that key and survives a crash, so does every
  acknowledged content, and a page of an inventory is confirmed only when all its records are durable.
\<close>

theorem session_ack_durable:
  assumes "seg_inv crc l"
    and "session_run dk pc b3 (disk_storage dk pc b3 crc pid pol) es (session_new (replica_new l bl p)) = (out, s)"
    and "session_step dk pc b3 (disk_storage dk pc b3 crc pid pol) e s = (res, s')"
  shows "seg_inv crc (sr_log (ss_replica s'))
    \<and> durable_records dk pc b3 crc (replica_new l bl p) \<subseteq> durable_records dk pc b3 crc (ss_replica s')
    \<and> durable_hashes b3 bl \<subseteq> durable_hashes b3 (sr_blobs (ss_replica s'))
    \<and> (\<forall>k. Ack k None \<in> set (out @ replies res) \<longrightarrow> (\<exists>bs. (k, bs) \<in> durable_records dk pc b3 crc (ss_replica s')))
    \<and> (\<forall>k h. Ack k (Some h) \<in> set (out @ replies res) \<longrightarrow> h \<in> durable_hashes b3 (sr_blobs (ss_replica s')))
    \<and> (\<forall>n. Checked n \<in> set (replies res) \<longrightarrow>
         (\<forall>k\<in>set (pl_keys (ss_pull s')). \<exists>bs. (k, bs) \<in> durable_records dk pc b3 crc (ss_replica s')))"
proof -
  let ?r = "replica_new l bl p"
  have new: "disk.rinv crc b3 dk pc ?r" using assms(1) by (simp add: disk.rinv_def replica_new_def)
  note run = disk.replica.run_ok [OF disk.replica.new_run_inv [OF new] assms(2) [folded disk_ad]]
  note step = disk.replica.step_ok [OF conjunct1 [OF run] assms(3) [folded disk_ad]]
  have acks: "disk.replica.acks_ok crc b3 dk pc (out @ replies res) s'"
    using run step disk.replica.acks_ok_mono by (cases res) auto
  have checks: "disk.replica.checks_ok crc b3 dk pc (replies res) s'"
    using step by (cases res) (auto simp: disk.replica.checks_ok_def)
  have grows: "disk.rgrows crc b3 dk pc ?r (ss_replica s')"
    using disk.replica.grows_trans [OF conjunct1 [OF conjunct2 [OF run]] conjunct1 [OF conjunct2 [OF step]]]
    by (simp add: session_new_def)
  have rdur: "disk.rdur crc b3 dk pc r = durable_records dk pc b3 crc r" "disk.rdurb b3 r = durable_hashes b3 (sr_blobs r)" for r
    by (simp_all add: disk.rdur_def disk.rdurb_def durable_records_def)
  have ack: "ack_ok (durable_records dk pc b3 crc (ss_replica s')) (durable_hashes b3 (sr_blobs (ss_replica s'))) m"
    if "m \<in> set (out @ replies res)" for m
    using acks that unfolding disk.replica.acks_ok_def rdur by (rule bspec)
  have "\<exists>bs. (k, bs) \<in> durable_records dk pc b3 crc (ss_replica s')" if "Ack k None \<in> set (out @ replies res)" for k
    using ack [OF that] unfolding ack_ok_def by force
  moreover have "h \<in> durable_hashes b3 (sr_blobs (ss_replica s'))" if "Ack k (Some h) \<in> set (out @ replies res)" for k h
    using ack [OF that] by (simp add: ack_ok_def)
  moreover have "\<exists>bs. (k, bs) \<in> durable_records dk pc b3 crc (ss_replica s')"
    if c: "Checked n \<in> set (replies res)" and k: "k \<in> set (pl_keys (ss_pull s'))" for n k
  proof -
    have "k \<in> fst ` durable_records dk pc b3 crc (ss_replica s')"
      using checks c k unfolding disk.replica.checks_ok_def rdur by blast
    then show ?thesis by force
  qed
  moreover have "durable_hashes b3 bl \<subseteq> durable_hashes b3 (sr_blobs (ss_replica s'))"
    using grows by (simp add: grows_def rdur replica_new_def)
  ultimately show ?thesis
    using grows unfolding grows_def rdur disk.rinv_def by blast
qed

text \<open>A peer offers one record to an empty replica, which asks for it, stores it and acknowledges it.\<close>

definition shared_key :: record_key where "shared_key = RecordKey (OpId [1]) [9]"

definition empty_replica :: "(segment_store, blob_disk, export_scope) store_replica" where
  "empty_replica = replica_new (ls_log empty_log) raced_disk \<lparr>es_namespace = ''ns'', es_records = None, es_blobs = None\<rparr>"

abbreviation shared_ops :: "(segment_store, blob_disk, export_scope) store_replica replication_storage" where
  "shared_ops \<equiv> disk_storage (\<lambda>_ b. b) graph_postcard (\<lambda>_. [9]) (\<lambda>_. 0) 3 scope_policy"

lemmas eval_session = session_step_def session_receive_def ensure_open_def session_new_def mark_failed_def session_process_def
     session_hello_def session_tick_def start_round_def progress_default_def replica_storage_def replica_scope_def disk_adapters_def
     scope_policy_def replica_records_def segment_log_def 
     replica_retained_def read_retained_def sbind_def filtered_def snapshot_default_def
     update_work_def to_u64_def pull_default_def source_default_def Let_def sat_add_def check_default_def

lemma empty_log_calls: "sync_all (ls_log empty_log) = (Inr (), ls_log empty_log)" "visit_disk (\<lambda>_. 0) (sg_disk (ls_log empty_log)) = Inr ([], 0)"
  by (simp_all add: sync_all_def empty_log_def log_store_new_def segment_sequences_def next_fault_def visit_disk_def)


lemma shared_length: "length (graph_record [1]) = 16" "graph_record [1] \<noteq> []"
  by (simp_all add: graph_record_def RECORD_MAGIC_def str_bytes_def)

lemma key_shared: "key_from_encoded (\<lambda>_ b. b) graph_postcard (\<lambda>_. [9]) (graph_record [1]) = Inr shared_key"
  by (simp add: key_from_encoded_Inr MAX_OBJECT_BYTES_def shared_key_def graph_op_def gen_op_new_def shared_length)

lemma append_shared: "\<exists>l. segment_append_records (\<lambda>_. 0) [(0, graph_record [1])] (ls_log empty_log) = (Inr (), l)"
proof -
  have ok: "frame_ok [(0, graph_record [1])]"
    by (simp add: frame_ok_def ec03_consts graph_record_def RECORD_MAGIC_def str_bytes_def)
  then have "fst (segment_append_records (\<lambda>_. 0) [(0, graph_record [1])] (ls_log empty_log)) = Inr ()"
    by (simp add: segment_append_records_def empty_log_def log_store_new_def append_page_def encode_records_eq
        page_add_record_def page_new_def recover_frontier_def current_name_def sbind_def append_file_def next_fault_def
        atomic_write_def Let_def)
  then show ?thesis by (metis prod.collapse)
qed

lemma shared_run: "fst (session_run (\<lambda>_ b. b) graph_postcard (\<lambda>_. [9]) shared_ops [ReceiveEvent (Hello PEER_VERSION 1 ''ns''), ReceiveEvent (Page 0 1 [shared_key] False),
   ReceiveEvent (Chunk shared_key None 0 16 (graph_record [1]))] (session_new empty_replica)) = [Inventory None, Need shared_key None 0, Ack shared_key None, Checked 1]"
proof -
  obtain l where l: "segment_append_records (\<lambda>_. 0) [(0, graph_record [1])] (ls_log empty_log) = (Inr (), l)" using append_shared by blast
  show ?thesis
    by (simp add: eval_session empty_replica_def replica_new_def empty_log_calls handle_message_def session_page_def INVENTORY_PAGE_def checked_add_def MAX_SAFE_TOTAL_def
     sn_contains_def session_advance_def session_download_def object_need_def to_u32_def u32_try_from_def
     download_progress_of_def download_new_def bs_extend_def last_opt_def handle_chunk_def download_append_def shared_length MAX_OBJECT_BYTES_def CHUNK_BYTES_def
     session_complete_def key_shared stage_record_def BATCH_BYTES_def session_flush_def replica_ingest_def validate_records_def batch_bytes_def
     commit_batch_def sn_record_def insert_encoded_def l object_ack_def replica_references_def references_of_def graph_op_def gen_op_new_def kind_references_def
     payload_insert_def next_blob_def finish_page_def)
qed

theorem session_ack_durable_witness:
  "\<exists>out s res s'. session_run (\<lambda>_ b. b) graph_postcard (\<lambda>_. [9]) shared_ops [ReceiveEvent (Hello PEER_VERSION 1 ''ns''),
      ReceiveEvent (Page 0 1 [shared_key] False), ReceiveEvent (Chunk shared_key None 0 16 (graph_record [1]))] (session_new empty_replica) = (out, s)
    \<and> session_step (\<lambda>_ b. b) graph_postcard (\<lambda>_. [9]) shared_ops TickEvent s = (res, s')
    \<and> out = [Inventory None, Need shared_key None 0, Ack shared_key None, Checked 1]
    \<and> (\<exists>bs. (shared_key, bs) \<in> durable_records (\<lambda>_ b. b) graph_postcard (\<lambda>_. [9]) (\<lambda>_. 0) (ss_replica s'))"
proof -
  obtain out s where run: "session_run (\<lambda>_ b. b) graph_postcard (\<lambda>_. [9]) shared_ops [ReceiveEvent (Hello PEER_VERSION 1 ''ns''),
      ReceiveEvent (Page 0 1 [shared_key] False), ReceiveEvent (Chunk shared_key None 0 16 (graph_record [1]))] (session_new empty_replica) = (out, s)"
    by fastforce
  obtain res s' where step: "session_step (\<lambda>_ b. b) graph_postcard (\<lambda>_. [9]) shared_ops TickEvent s = (res, s')" by fastforce
  have "seg_inv (\<lambda>_. 0) (ls_log empty_log)" using empty_log_inv by (simp add: log_inv_def)
  note durable = session_ack_durable [OF this run [unfolded empty_replica_def] step]
  have out: "out = [Inventory None, Need shared_key None 0, Ack shared_key None, Checked 1]" using shared_run run by simp
  then show ?thesis using durable run step by force
qed

end
