(* ===== verification/IndexContent.thy ===== *)
theory IndexContent
  imports Blob Compat "HOL-Library.AList"
begin

text \<open>
  What the chain index derives from one operation, and two of its tables
  (\<open>editchain-index/src/references.rs\<close>, \<open>keys.rs\<close>, \<open>content.rs\<close>, \<open>changes.rs\<close>): the content
  references and the factual keys of an operation, the availability of referenced content with its
  owners, and the bounded journal of changes. A page-backed hash map is an association list whose order
  stands for the order of its trie, an ordered map or set is the sorted list it is proved to implement.
  A blob source is the function \<open>rc\<close> that reads one content identity.
\<close>

section \<open>References\<close>

record content_reference =
  rf_id :: content_id
  rf_len :: "u32 option"

definition blob_reference_of :: "blob_ref \<Rightarrow> content_reference" where
  "blob_reference_of b = \<lparr>rf_id = blob_id b, rf_len = Some (blob_len b)\<rparr>"

definition id_reference_of :: "content_id \<Rightarrow> content_reference" where
  "id_reference_of i = \<lparr>rf_id = i, rf_len = None\<rparr>"

definition kind_payloads :: "(op_id, operation) op_kind \<Rightarrow> payload list" where
  "kind_payloads k = (case k of
       Activity r \<Rightarrow> map snd (ActivityOps.fields (op_kind r))
     | ChainStart _ \<Rightarrow> []
     | Actor v \<Rightarrow> [ao_label v, ao_role v]
     | Session v \<Rightarrow> [so_label v, so_metadata v]
     | Message v \<Rightarrow> [mo_content v, mo_content_type v]
     | Tool v \<Rightarrow> [to_tool_call_id v, to_tool_name v, to_content v]
     | Command v \<Rightarrow> [co_command_id v, co_content v]
     | File v \<Rightarrow> (case fo_edit v of NoEdit \<Rightarrow> [] | BlobEdit _ \<Rightarrow> [] | ReplaceBytes _ bs \<Rightarrow> [bs] | UnifiedDiff bs \<Rightarrow> [bs])
     | Reflection v \<Rightarrow> [ro_summary v, ro_anchors v]
     | Import v \<Rightarrow> [io_raw_ref v]
     | Note v \<Rightarrow> [no_content v]
     | Error v \<Rightarrow> [eo_code v, eo_message v]
     | Unknown v \<Rightarrow> [uo_raw_bytes v]
     | GitCommit v \<Rightarrow> [sig_name (gc_author v), sig_email (gc_author v), sig_name (gc_committer v),
         sig_email (gc_committer v), gc_message v] @ gc_imported_refs v @ gc_live_refs v
     | GitLink v \<Rightarrow> (case gl_kind v of CustomLink p \<Rightarrow> [p] | _ \<Rightarrow> []))"

text \<open>\<open>retain(|reference| seen.insert(*reference))\<close>: the first occurrence of every element stays.\<close>

fun retain_first :: "'a list \<Rightarrow> 'a list \<Rightarrow> 'a list" where
  "retain_first seen [] = []"
| "retain_first seen (x # xs) = (if x \<in> set seen then retain_first seen xs else x # retain_first (x # seen) xs)"

definition op_references :: "op \<Rightarrow> content_reference list" where
  "op_references p = (case op_op_kind p of
       Activity r \<Rightarrow> map (\<lambda>(i, len). \<lparr>rf_id = i, rf_len = len\<rparr>) (content_addresses (op_kind r))
     | k \<Rightarrow> retain_first []
         ((case k of
             File v \<Rightarrow> map id_reference_of (option_list (fo_base v) @ option_list (fo_after v))
               @ (case fo_edit v of BlobEdit b \<Rightarrow> [blob_reference_of b] | _ \<Rightarrow> [])
           | _ \<Rightarrow> [])
          @ List.map_filter (\<lambda>q. case q of BlobPayload b \<Rightarrow> Some (blob_reference_of b) | _ \<Rightarrow> None) (kind_payloads k)))"

section \<open>Factual keys\<close>

datatype index_key =
  ItemKey item_id
| SessionItemKey item_id
| TurnItemKey item_id
| AuthorItemKey item_id
| RecorderKey item_id
| KindKey kind_name
| AliasKey op_id
| ActorKey actor_id
| ChainKey chain_id
| SessionKey Ids.session_id
| TurnKey Ids.turn_id
| FileKey path_id
| ParentKey op_id
| ContentKey content_id

definition activity_keys :: "operation \<Rightarrow> index_key list" where
  "activity_keys r = [ItemKey (item r), KindKey (kind_name (op_kind r)), RecorderKey (recorder r)]
     @ map SessionItemKey (option_list (ActivityModel.session_id r)) @ map TurnItemKey (option_list (ActivityModel.turn_id r))
     @ map AuthorItemKey (option_list (author_id r))
     @ map (\<lambda>l. AliasKey (lm_operation l)) (option_list (legacy r))
     @ concat (map (\<lambda>l. map AliasKey (lm_folded l)) (option_list (legacy r)))
     @ (case op_kind r of KFile f \<Rightarrow> [FileKey (fi_path f)] | _ \<Rightarrow> [])
     @ (case op_kind r of KCommit c \<Rightarrow> map FileKey (gc_changed_paths c) | _ \<Rightarrow> [])"

definition op_keys :: "op \<Rightarrow> content_reference list \<Rightarrow> index_key list" where
  "op_keys p refs = [ActorKey (op_actor p)] @ map ParentKey (causal_parents p) @ map (\<lambda>r. ContentKey (rf_id r)) refs
     @ (case op_scope p of NoScope \<Rightarrow> [] | ChainScope i \<Rightarrow> [ChainKey i] | SessionScope i \<Rightarrow> [SessionKey i]
          | TurnScope i \<Rightarrow> [TurnKey i] | FileScope i \<Rightarrow> [FileKey i])
     @ (case op_op_kind p of
          Activity r \<Rightarrow> activity_keys r
        | File v \<Rightarrow> [FileKey (fo_path v)]
        | Session v \<Rightarrow> [SessionKey (so_id v)]
        | GitCommit c \<Rightarrow> map FileKey (gc_changed_paths c)
        | _ \<Rightarrow> [])"

section \<open>Availability of content\<close>

datatype content_state = Available | MissingContent | CorruptContent | UnresolvableContent

type_synonym blob_source = "content_id \<Rightarrow> blob_resolution io_result"

definition reference_resolve :: "blob_source \<Rightarrow> content_reference \<Rightarrow> blob_resolution io_result" where
  "reference_resolve rc r = (case rf_len r of
       Some len \<Rightarrow> read_blob_default (\<lambda>i _. rc i) \<lparr>blob_id = rf_id r, blob_len = len\<rparr> ()
     | None \<Rightarrow> rc (rf_id r))"

definition reference_state :: "blob_source \<Rightarrow> content_reference \<Rightarrow> content_state io_result" where
  "reference_state rc r = rbind (reference_resolve rc r) (\<lambda>resolution. Inr (case resolution of
       Found _ \<Rightarrow> Available | MissingBlob \<Rightarrow> MissingContent | CorruptBlob \<Rightarrow> CorruptContent | Unresolvable \<Rightarrow> UnresolvableContent))"

record content_status =
  cs_reference :: content_reference
  cs_state :: content_state

record dependency =
  dp_state :: content_state
  dp_owners :: "op_id btree_set"

record content_index =
  ci_entries :: "(content_reference \<times> dependency) list"
  ci_pending :: "content_reference list"

definition content_default :: content_index where
  "content_default = \<lparr>ci_entries = [], ci_pending = []\<rparr>"

text \<open>The keys of a \<open>Map<_, ()>\<close>.\<close>

definition key_insert :: "'a \<Rightarrow> 'a list \<Rightarrow> 'a list" where
  "key_insert x xs = (if x \<in> set xs then xs else xs @ [x])"

text \<open>An error of the source ends the refresh or the build, whose state is dropped then.\<close>

definition content_add :: "blob_source \<Rightarrow> content_reference \<Rightarrow> op_id \<Rightarrow> nat \<times> content_index \<Rightarrow> (nat \<times> content_index) io_result" where
  "content_add rc r own rci = rbind
     (if map_of (ci_entries (snd rci)) r \<noteq> None then Inr rci
      else rbind (reference_state rc r) (\<lambda>st. Inr (sat_add 64 (fst rci) 1,
        \<lparr>ci_entries = AList.update r \<lparr>dp_state = st, dp_owners = []\<rparr> (ci_entries (snd rci)),
         ci_pending = (if st \<noteq> Available then key_insert r (ci_pending (snd rci)) else ci_pending (snd rci))\<rparr>)))
     (\<lambda>(reads, ci). Inr (reads, ci\<lparr>ci_entries := (case map_of (ci_entries ci) r of
          None \<Rightarrow> ci_entries ci
        | Some e \<Rightarrow> AList.update r (e\<lparr>dp_owners := bs_insert own (dp_owners e)\<rparr>) (ci_entries ci))\<rparr>))"

definition content_remove :: "content_reference \<Rightarrow> op_id \<Rightarrow> content_index \<Rightarrow> content_index" where
  "content_remove r own ci = (case map_of (ci_entries ci) r of
       None \<Rightarrow> ci
     | Some e \<Rightarrow>
         let owners = bs_remove own (dp_owners e) in
         if owners = [] then \<lparr>ci_entries = AList.delete r (ci_entries ci), ci_pending = removeAll r (ci_pending ci)\<rparr>
         else ci\<lparr>ci_entries := AList.update r (e\<lparr>dp_owners := owners\<rparr>) (ci_entries ci)\<rparr>)"

definition content_status_of :: "content_index \<Rightarrow> content_reference \<Rightarrow> content_status option" where
  "content_status_of ci r = map_option (\<lambda>e. \<lparr>cs_reference = r, cs_state = dp_state e\<rparr>) (map_of (ci_entries ci) r)"

text \<open>Retry the references that were pending when the refresh began; the owners of changed ones.\<close>

fun content_retry :: "blob_source \<Rightarrow> content_reference list \<Rightarrow> nat \<times> content_index \<times> op_id btree_set
    \<Rightarrow> (nat \<times> content_index \<times> op_id btree_set) io_result" where
  "content_retry rc [] acc = Inr acc"
| "content_retry rc (r # rs) (reads, ci, changed) = rbind (reference_state rc r) (\<lambda>st.
     let (entries, changed') = (case map_of (ci_entries ci) r of
           Some e \<Rightarrow> if dp_state e \<noteq> st then (AList.update r (e\<lparr>dp_state := st\<rparr>) (ci_entries ci), bs_extend (dp_owners e) changed)
                     else (ci_entries ci, changed)
         | None \<Rightarrow> (ci_entries ci, changed)) in
     content_retry rc rs (sat_add 64 reads 1,
       \<lparr>ci_entries = entries, ci_pending = (if st = Available then removeAll r (ci_pending ci) else ci_pending ci)\<rparr>, changed'))"

definition content_refresh :: "blob_source \<Rightarrow> nat \<times> content_index \<Rightarrow> (nat \<times> content_index \<times> op_id btree_set) io_result" where
  "content_refresh rc rci = content_retry rc (ci_pending (snd rci)) (fst rci, snd rci, [])"

definition content_matches :: "content_index \<Rightarrow> content_index \<Rightarrow> bool" where
  "content_matches a b \<longleftrightarrow> length (ci_entries a) = length (ci_entries b)
     \<and> list_all (\<lambda>(r, e). case map_of (ci_entries b) r of None \<Rightarrow> False
          | Some e' \<Rightarrow> dp_state e = dp_state e' \<and> dp_owners e = dp_owners e') (ci_entries a)
     \<and> length (ci_pending a) = length (ci_pending b) \<and> list_all (\<lambda>r. r \<in> set (ci_pending b)) (ci_pending a)"

section \<open>The journal of changes\<close>

definition RETAINED_CHANGES :: nat where "RETAINED_CHANGES = 100000"

record index_revision =
  iv_generation :: string
  iv_position :: nat

definition revision_default :: index_revision where
  "revision_default = \<lparr>iv_generation = [], iv_position = 0\<rparr>"

datatype index_change_kind = AddedChange | RemovedChange | ContentChange

record index_change =
  ix_operation :: op_id
  ix_kind :: index_change_kind

record index_changes =
  ig_revision :: index_revision
  ig_next :: index_revision
  ig_changes :: "index_change list"
  ig_complete :: bool

record change_log =
  cl_revision :: index_revision
  cl_entries :: "(nat, index_change) btree_map"

definition change_log_default :: change_log where
  "change_log_default = \<lparr>cl_revision = revision_default, cl_entries = []\<rparr>"

text \<open>\<open>initialize\<close>: the generation is a fresh text of the clock, the process and a counter.\<close>

definition log_initialize :: "string io_result \<Rightarrow> change_log \<Rightarrow> (bool \<times> change_log) io_result" where
  "log_initialize fresh l =
     (if iv_generation (cl_revision l) \<noteq> [] then Inr (False, l)
      else rbind fresh (\<lambda>g. Inr (True, l\<lparr>cl_revision := (cl_revision l)\<lparr>iv_generation := g\<rparr>\<rparr>)))"

text \<open>\<open>while entries.len() > RETAINED\<close>, which removes the first key.\<close>

fun log_trim :: "nat \<Rightarrow> (nat, index_change) btree_map \<Rightarrow> (nat, index_change) btree_map" where
  "log_trim n [] = []"
| "log_trim n (e # m) = (if n < length (e # m) then log_trim n m else e # m)"

definition log_append :: "op_id \<Rightarrow> index_change_kind \<Rightarrow> change_log \<Rightarrow> change_log io_result" where
  "log_append operation k l =
     rbind (ok_or (IoError Other ''index revision exhausted'') (checked_add 64 (iv_position (cl_revision l)) 1)) (\<lambda>pos.
     Inr \<lparr>cl_revision = (cl_revision l)\<lparr>iv_position := pos\<rparr>,
          cl_entries = log_trim RETAINED_CHANGES (bm_insert pos \<lparr>ix_operation = operation, ix_kind = k\<rparr> (cl_entries l))\<rparr>)"

definition log_since :: "index_revision \<Rightarrow> nat \<Rightarrow> change_log \<Rightarrow> index_changes option io_result" where
  "log_since after limit l =
     (if \<not> (1 \<le> limit \<and> limit \<le> 10000) then Inl (IoError InvalidInput ''change limit must be between 1 and 10000'')
      else if iv_generation after \<noteq> iv_generation (cl_revision l) \<or> iv_position (cl_revision l) < iv_position after
        \<or> (case cl_entries l of [] \<Rightarrow> False | (first, _) # _ \<Rightarrow> sat_add 64 (iv_position after) 1 < first)
      then Inr None
      else
        let page = take limit (filter (\<lambda>(pos, _). iv_position after < pos) (cl_entries l));
            next = (if page = [] then after else after\<lparr>iv_position := fst (last page)\<rparr>) in
        Inr (Some \<lparr>ig_revision = cl_revision l, ig_next = next, ig_changes = map snd page,
          ig_complete = (next = cl_revision l)\<rparr>))"

section \<open>The journal is exact\<close>

text \<open>The journal of a generation in which the changes \<open>h\<close> were appended: the last of them, numbered from one.\<close>

definition numbered :: "'a list \<Rightarrow> (nat \<times> 'a) list" where
  "numbered h = zip [1..<Suc (length h)] h"

lemma length_numbered [simp]: "length (numbered h) = length h"
  by (simp add: numbered_def del: upt_Suc)

definition log_holds :: "string \<Rightarrow> index_change list \<Rightarrow> change_log \<Rightarrow> bool" where
  "log_holds g h l \<longleftrightarrow> cl_revision l = \<lparr>iv_generation = g, iv_position = length h\<rparr> \<and> length h \<le> umax 64
     \<and> cl_entries l = drop (length h - RETAINED_CHANGES) (numbered h)"

lemma log_trim_drop: "log_trim n m = drop (length m - n) m"
  by (induction m) (auto simp: Suc_diff_le not_less)

lemma bm_insert_last: "\<forall>(k', v')\<in>set m. k' < k \<Longrightarrow> bm_insert k v m = m @ [(k, v)]"
  by (induction m) auto

lemma numbered_snoc: "numbered (h @ [x]) = numbered h @ [(Suc (length h), x)]"
  by (simp add: numbered_def upt_Suc_append zip_append del: upt_Suc)

lemma keep_last_snoc:
  assumes "0 < n"
  shows "drop (Suc (length (drop (length z - n) z)) - n) (drop (length z - n) z @ [e]) = drop (Suc (length z) - n) (z @ [e])"
proof (cases "length z < n")
  case False
  then have "Suc (length z) - n = Suc (length z - n)" by simp
  then show ?thesis using False assms by (simp add: drop_Suc tl_drop flip: drop_drop)
qed (use assms in simp)

lemma log_append_holds:
  assumes "log_holds g h l" and "log_append i k l = Inr l'"
  shows "log_holds g (h @ [\<lparr>ix_operation = i, ix_kind = k\<rparr>]) l'"
proof -
  let ?x = "\<lparr>ix_operation = i, ix_kind = k\<rparr>" and ?z = "numbered h"
  have l: "cl_entries l = drop (length h - RETAINED_CHANGES) ?z" "iv_position (cl_revision l) = length h" "iv_generation (cl_revision l) = g"
    using assms(1) by (simp_all add: log_holds_def)
  have "\<forall>(k', v')\<in>set (cl_entries l). k' < Suc (length h)"
    unfolding l(1) numbered_def by (auto dest!: in_set_dropD set_zip_leftD)
  then have ins: "bm_insert (Suc (length h)) ?x (cl_entries l) = cl_entries l @ [(Suc (length h), ?x)]" by (rule bm_insert_last)
  have "log_trim RETAINED_CHANGES (cl_entries l @ [(Suc (length h), ?x)])
      = drop (Suc (length h) - RETAINED_CHANGES) (?z @ [(Suc (length h), ?x)])"
    using keep_last_snoc [of RETAINED_CHANGES ?z "(Suc (length h), ?x)"] unfolding log_trim_drop l(1)
    by (simp add: RETAINED_CHANGES_def del: drop_append)
  then show ?thesis
    using assms(2) l ins unfolding log_holds_def numbered_snoc
    by (auto simp: log_append_def rbind_Inr_iff ok_or_Inr_iff checked_add_Some)
qed

lemma filter_numbered: "filter (\<lambda>(pos, _). n < pos) (drop k (numbered h)) = drop (max n k) (numbered h)"
proof -
  have "filter (\<lambda>(pos, _). n < pos) (drop k (zip [Suc a..<Suc (a + length h)] h)) = drop (max (n - a) k) (zip [Suc a..<Suc (a + length h)] h)" for a
  proof (induction h arbitrary: a k n)
    case (Cons x h)
    have "[Suc a..<Suc (a + length (x # h))] = Suc a # [Suc (Suc a)..<Suc (Suc a + length h)]" by (simp add: upt_rec)
    then show ?case using Cons.IH [of n "k - 1" "Suc a"] Cons.IH [of n 0 "Suc a"] 
      by (cases k) (auto simp: max_def not_le drop_Cons' Suc_le_eq not_less split: nat.splits)
  qed simp
  from this [of 0] show ?thesis by (simp add: numbered_def)
qed

lemma map_snd_numbered: "map snd (take m (drop n (numbered h))) = take m (drop n h)"
  by (simp add: numbered_def take_map [symmetric] drop_map [symmetric] del: upt_Suc)

lemma nth_numbered: "i < length h \<Longrightarrow> numbered h ! i = (Suc i, h ! i)"
  by (simp add: numbered_def del: upt_Suc)

lemma log_since_page:
  assumes l: "log_holds g h l" and limit: "1 \<le> limit" "limit \<le> 10000"
  shows "log_since \<lparr>iv_generation = g, iv_position = n\<rparr> limit l = Inr
    (if length h < n \<or> n + RETAINED_CHANGES < length h then None
     else Some \<lparr>ig_revision = cl_revision l, ig_next = \<lparr>iv_generation = g, iv_position = min (length h) (n + limit)\<rparr>,
       ig_changes = take limit (drop n h), ig_complete = (length h \<le> n + limit)\<rparr>)"
proof -
  let ?k = "length h - RETAINED_CHANGES" and ?page = "take limit (drop n (numbered h))"
  have e: "cl_entries l = drop ?k (numbered h)" "cl_revision l = \<lparr>iv_generation = g, iv_position = length h\<rparr>" "length h \<le> umax 64"
    using l by (simp_all add: log_holds_def)
  show ?thesis
  proof (cases "h = []")
    case True
    then show ?thesis using limit by (auto simp: log_since_def e numbered_def Let_def)
  next
    case False
    then have k: "?k < length h" by (simp add: RETAINED_CHANGES_def)
    then have first: "cl_entries l = (Suc ?k, h ! ?k) # drop (Suc ?k) (numbered h)"
      unfolding e(1) using Cons_nth_drop_Suc [of ?k "numbered h"] by (simp add: nth_numbered)
    show ?thesis
    proof (cases "length h < n \<or> n < ?k")
      case True
      then have "length h < n \<or> sat_add 64 n 1 < Suc ?k" by (auto simp: sat_add_def)
      then show ?thesis using True limit e(2) by (auto simp: log_since_def first)
    next
      case False
      have "\<not> sat_add 64 n 1 < Suc ?k" using False e(3) by (auto simp: sat_add_def RETAINED_CHANGES_def)
      moreover have "filter (\<lambda>(pos, _). n < pos) (cl_entries l) = drop n (numbered h)"
        using False unfolding e(1) filter_numbered by (auto simp: max_def)
      moreover have "last ?page = (min (length h) (n + limit), h ! (min (length h) (n + limit) - 1))" if "?page \<noteq> []"
      proof -
        have "n < length h" using that by auto
        then show ?thesis
          using that limit by (auto simp: last_conv_nth nth_numbered min_def)
      qed
      moreover have "?page = [] \<longleftrightarrow> n = length h" using False limit by auto
      ultimately show ?thesis
        using False limit e(2) unfolding log_since_def by (auto simp: first Let_def map_snd_numbered min_def)
    qed
  qed
qed

text \<open>A consumer that reads pages until one is complete. No rounds left is \<open>None\<close>.\<close>

fun catch_up :: "nat \<Rightarrow> nat \<Rightarrow> index_revision \<Rightarrow> change_log \<Rightarrow> (index_change list \<times> index_revision) option io_result option" where
  "catch_up 0 limit after l = None"
| "catch_up (Suc k) limit after l = (case log_since after limit l of
       Inl e \<Rightarrow> Some (Inl e)
     | Inr None \<Rightarrow> Some (Inr None)
     | Inr (Some page) \<Rightarrow>
         if ig_complete page then Some (Inr (Some (ig_changes page, ig_next page)))
         else map_option (map_sum id (map_option (apfst ((@) (ig_changes page))))) (catch_up k limit (ig_next page) l))"

lemma catch_up_all:
  assumes "log_holds g h l" and "1 \<le> limit" "limit \<le> 10000"
  shows "n \<le> length h \<Longrightarrow> length h \<le> n + RETAINED_CHANGES \<Longrightarrow> 0 < k \<Longrightarrow> length h \<le> n + k * limit \<Longrightarrow>
    catch_up k limit \<lparr>iv_generation = g, iv_position = n\<rparr> l = Some (Inr (Some (drop n h, cl_revision l)))"
proof (induction k arbitrary: n)
  case (Suc k)
  have rev: "cl_revision l = \<lparr>iv_generation = g, iv_position = length h\<rparr>" using assms(1) by (simp add: log_holds_def)
  note page = log_since_page [OF assms, of n]
  show ?case
  proof (cases "length h \<le> n + limit")
    case True
    then show ?thesis using page Suc.prems rev by simp
  next
    case False
    have "catch_up k limit \<lparr>iv_generation = g, iv_position = n + limit\<rparr> l = Some (Inr (Some (drop (n + limit) h, cl_revision l)))"
      using Suc.prems False by (intro Suc.IH) (auto intro: gr0I)
    moreover have "take limit (drop n h) @ drop (n + limit) h = drop n h"
      by (metis add.commute append_take_drop_id drop_drop)
    ultimately show ?thesis using page Suc.prems False by (simp add: min_def)
  qed
qed simp

fun append_all :: "(op_id \<times> index_change_kind) list \<Rightarrow> change_log \<Rightarrow> change_log io_result" where
  "append_all [] l = Inr l"
| "append_all ((i, k) # xs) l = rbind (log_append i k l) (append_all xs)"

lemma append_all_holds:
  "log_holds g h l \<Longrightarrow> append_all xs l = Inr l' \<Longrightarrow> log_holds g (h @ map (\<lambda>(i, k). \<lparr>ix_operation = i, ix_kind = k\<rparr>) xs) l'"
proof (induction xs arbitrary: h l)
  case (Cons x xs)
  obtain i k where x: "x = (i, k)" by fastforce
  from Cons.prems(2) obtain l1 where "log_append i k l = Inr l1" "append_all xs l1 = Inr l'" by (auto simp: x rbind_Inr_iff)
  then show ?case using Cons.IH [OF log_append_holds [OF Cons.prems(1)]] by (simp add: x)
qed simp

text \<open>
  C11. The journal of changes loses nothing silently. A consumer that remembers a revision and reads pages
  until one is complete gets, in order and once each, exactly the changes recorded since, and the
  revision they lead to; if the bounded journal has dropped one of them, or the generation is
  another, it is told to rebuild instead.
\<close>

theorem changes_since_exact:
  assumes "g \<noteq> []" and "log_initialize (Inr g) change_log_default = Inr (b, l0)"
    and "append_all xs l0 = Inr l1" and "append_all ys l1 = Inr l2" and "1 \<le> limit" "limit \<le> 10000"
  shows "(length ys \<le> RETAINED_CHANGES \<longrightarrow> catch_up (length ys div limit + 1) limit (cl_revision l1) l2
      = Some (Inr (Some (map (\<lambda>(i, k). \<lparr>ix_operation = i, ix_kind = k\<rparr>) ys, cl_revision l2))))
    \<and> (RETAINED_CHANGES < length ys \<longrightarrow> log_since (cl_revision l1) limit l2 = Inr None)
    \<and> (\<forall>g' n. g' \<noteq> g \<longrightarrow> log_since \<lparr>iv_generation = g', iv_position = n\<rparr> limit l2 = Inr None)"
proof -
  let ?c = "map (\<lambda>(i, k). \<lparr>ix_operation = i, ix_kind = k\<rparr>)"
  have "log_holds g [] l0"
    using assms(1,2) by (auto simp: log_initialize_def change_log_default_def revision_default_def log_holds_def numbered_def)
  note l1 = append_all_holds [OF this assms(3)]
  note l2 = append_all_holds [OF l1 assms(4)]
  have r1: "cl_revision l1 = \<lparr>iv_generation = g, iv_position = length xs\<rparr>" using l1 by (simp add: log_holds_def)
  have "length ys \<le> (length ys div limit + 1) * limit"
    using assms(5) dividend_less_times_div [of limit "length ys"] by (simp add: algebra_simps)
  then have "catch_up (length ys div limit + 1) limit (cl_revision l1) l2 = Some (Inr (Some (?c ys, cl_revision l2)))"
    if "length ys \<le> RETAINED_CHANGES"
    using that catch_up_all [OF l2 assms(5,6), of "length xs" "length ys div limit + 1"] by (simp add: r1)
  moreover have "log_since (cl_revision l1) limit l2 = Inr None" if "RETAINED_CHANGES < length ys"
    using that log_since_page [OF l2 assms(5,6), of "length xs"] by (simp add: r1)
  moreover have "log_since \<lparr>iv_generation = g', iv_position = n\<rparr> limit l2 = Inr None" if "g' \<noteq> g" for g' n
    using that l2 assms(5,6) by (simp add: log_since_def log_holds_def)
  ultimately show ?thesis by blast
qed

theorem changes_since_exact_witness:
  "\<exists>l0 l1 l2. log_initialize (Inr ''g'') change_log_default = Inr (True, l0) \<and> append_all [(OpId [1], AddedChange)] l0 = Inr l1
     \<and> append_all [(OpId [2], AddedChange), (OpId [1], RemovedChange)] l1 = Inr l2
     \<and> catch_up 3 1 (cl_revision l1) l2
       = Some (Inr (Some ([\<lparr>ix_operation = OpId [2], ix_kind = AddedChange\<rparr>, \<lparr>ix_operation = OpId [1], ix_kind = RemovedChange\<rparr>], cl_revision l2)))"
proof -
  let ?l = "\<lambda>n es. \<lparr>cl_revision = \<lparr>iv_generation = ''g'', iv_position = n\<rparr>, cl_entries = es\<rparr>"
  let ?a = "\<lparr>ix_operation = OpId [1], ix_kind = AddedChange\<rparr>" and ?b = "\<lparr>ix_operation = OpId [2], ix_kind = AddedChange\<rparr>"
    and ?c = "\<lparr>ix_operation = OpId [1], ix_kind = RemovedChange\<rparr>"
  have l0: "log_initialize (Inr ''g'') change_log_default = Inr (True, ?l 0 [])"
    by (simp add: log_initialize_def change_log_default_def revision_default_def)
  have l1: "append_all [(OpId [1], AddedChange)] (?l 0 []) = Inr (?l 1 [(1, ?a)])"
    by (simp add: log_append_def checked_add_def RETAINED_CHANGES_def)
  have l2: "append_all [(OpId [2], AddedChange), (OpId [1], RemovedChange)] (?l 1 [(1, ?a)]) = Inr (?l 3 [(1, ?a), (2, ?b), (3, ?c)])"
    by (simp add: log_append_def checked_add_def RETAINED_CHANGES_def)
  have three: "length [(OpId [2], AddedChange), (OpId [1], RemovedChange)] div 1 + 1 = (3 :: nat)" by simp
  have "catch_up 3 1 (cl_revision (?l 1 [(1, ?a)])) (?l 3 [(1, ?a), (2, ?b), (3, ?c)]) = Some (Inr (Some ([?b, ?c], cl_revision (?l 3 [(1, ?a), (2, ?b), (3, ?c)]))))"
    using changes_since_exact [OF _ l0 l1 l2, of 1, THEN conjunct1, unfolded three] by (simp add: RETAINED_CHANGES_def del: One_nat_def)
  then show ?thesis using l0 l1 l2 by (intro exI [of _ "?l 0 []"] exI [of _ "?l 1 [(1, ?a)]"] exI [of _ "?l 3 [(1, ?a), (2, ?b), (3, ?c)]"] conjI)
qed

end
