(* ===== verification/Reader.thy ===== *)
theory Reader
  imports Segment
begin

text \<open>
  Canonical reading of a chain (\<open>editchain-store/src/reader.rs\<close>): every complete record is
  decoded and admitted by its exact bytes, conflicted identities are withdrawn from the accepted
  view, and the outcome is counted. \<open>Option<OpRecordLocation>\<close> is absent for records of a
  portable log and for candidates held in memory only.
\<close>

section \<open>Records and statistics\<close>

record chain_read_stats =
  crs_records :: nat
  crs_accepted :: nat
  crs_duplicates :: nat
  crs_quarantined :: nat
  crs_undecodable :: nat
  crs_incomplete_tails :: nat

definition stats_default :: chain_read_stats where
  "stats_default = \<lparr>crs_records = 0, crs_accepted = 0, crs_duplicates = 0, crs_quarantined = 0,
     crs_undecodable = 0, crs_incomplete_tails = 0\<rparr>"

record op_record_location =
  loc_segment_seq :: nat
  loc_data_offset :: nat
  loc_data_len :: nat
  loc_checksum :: "u32 option"

record canonical_chain =
  cc_evidence :: op_set
  cc_accepted :: "(op_id, op \<times> op_record_location option) btree_map"
  cc_stats :: chain_read_stats

definition chain_default :: canonical_chain where
  "chain_default = \<lparr>cc_evidence = op_set_new, cc_accepted = [], cc_stats = stats_default\<rparr>"

section \<open>Admission to a chain\<close>

definition admit :: "op \<Rightarrow> bytes \<Rightarrow> op_record_location option \<Rightarrow> canonical_chain \<Rightarrow> admission \<times> canonical_chain" where
  "admit p encoded location c =
     (let st = (cc_stats c)\<lparr>crs_records := sat_add 64 (crs_records (cc_stats c)) 1\<rparr>;
          was_accepted = op_contains (cc_evidence c) (op_id p);
          (ev, result) = op_insert (cc_evidence c) (op_id p) encoded in
      (result, case result of
         Accepted \<Rightarrow> \<lparr>cc_evidence = ev, cc_accepted = bm_insert (op_id p) (p, location) (cc_accepted c), cc_stats = st\<rparr>
       | Duplicate \<Rightarrow> \<lparr>cc_evidence = ev, cc_accepted = cc_accepted c,
           cc_stats = st\<lparr>crs_duplicates := sat_add 64 (crs_duplicates st) 1\<rparr>\<rparr>
       | Conflict \<Rightarrow> \<lparr>cc_evidence = ev, cc_accepted = bm_remove (op_id p) (cc_accepted c),
           cc_stats = st\<lparr>crs_quarantined := sat_add 64 (crs_quarantined st) (if was_accepted then 2 else 1)\<rparr>\<rparr>))"

definition record_undecodable :: "canonical_chain \<Rightarrow> canonical_chain" where
  "record_undecodable c = c\<lparr>cc_stats := (cc_stats c)\<lparr>crs_undecodable := sat_add 64 (crs_undecodable (cc_stats c)) 1\<rparr>\<rparr>"

definition record_tail_change :: "bool \<Rightarrow> canonical_chain \<Rightarrow> canonical_chain" where
  "record_tail_change is_incomplete c = c\<lparr>cc_stats := (cc_stats c)\<lparr>crs_incomplete_tails :=
     (if is_incomplete then sat_add 64 (crs_incomplete_tails (cc_stats c)) 1 else crs_incomplete_tails (cc_stats c) - 1)\<rparr>\<rparr>"

text \<open>\<open>CanonicalChain::insert\<close>: a candidate is admitted by the bytes it would be stored as.\<close>

definition chain_insert :: "derive_key \<Rightarrow> postcard \<Rightarrow> op \<Rightarrow> canonical_chain \<Rightarrow> (admission \<times> canonical_chain) io_result" where
  "chain_insert dk pc p c =
     rbind (map_err (\<lambda>_. IoError Other ''encode'') (encode_op dk pc p)) (\<lambda>encoded.
       if MAX_RECORD_BYTES < length encoded then Inl (IoError InvalidInput ''operation is too large'')
       else Inr (admit p encoded None c))"

definition chain_stats :: "canonical_chain \<Rightarrow> chain_read_stats" where
  "chain_stats c = (cc_stats c)\<lparr>crs_accepted := length (cc_accepted c)\<rparr>"

definition chain_get :: "canonical_chain \<Rightarrow> op_id \<Rightarrow> op option" where
  "chain_get c i = map_option fst (map_of (cc_accepted c) i)"

definition located_ops :: "canonical_chain \<Rightarrow> (op \<times> op_record_location option) list" where
  "located_ops c = map snd (cc_accepted c)"

section \<open>Reading\<close>

definition admit_log_record :: "derive_key \<Rightarrow> postcard \<Rightarrow> log_record \<Rightarrow> canonical_chain \<Rightarrow> canonical_chain" where
  "admit_log_record dk pc r c = (case decode_op dk pc (snd r) of
       Inr p \<Rightarrow> snd (admit p (snd r) None c) | Inl _ \<Rightarrow> record_undecodable c)"

definition read_log :: "derive_key \<Rightarrow> postcard \<Rightarrow> 'l append_log \<Rightarrow> 'l \<Rightarrow> canonical_chain io_result" where
  "read_log dk pc ops l = rbind (visit_records ops l) (\<lambda>(rs, tails).
     let c = fold (admit_log_record dk pc) rs chain_default in
     Inr (c\<lparr>cc_stats := (cc_stats c)\<lparr>crs_incomplete_tails := tails\<rparr>\<rparr>))"

definition snapshot :: "derive_key \<Rightarrow> postcard \<Rightarrow> 'l append_log \<Rightarrow> 'l log_store \<Rightarrow> canonical_chain io_result" where
  "snapshot dk pc ops st = read_log dk pc ops (ls_log st)"

definition record_location :: "nat \<Rightarrow> nat \<Rightarrow> record_ref \<Rightarrow> op_record_location io_result" where
  "record_location seq base r = rbind (ok_or (IoError Other ''record length'') (u32_try_from (length (rr_data r)))) (\<lambda>len.
     Inr \<lparr>loc_segment_seq = seq, loc_data_offset = base + rr_data_offset r, loc_data_len = unat len,
          loc_checksum = rr_checksum r\<rparr>)"

fun chain_scan :: "derive_key \<Rightarrow> postcard \<Rightarrow> nat \<Rightarrow> (scan_error + scan_item) list \<Rightarrow> canonical_chain \<Rightarrow> canonical_chain io_result" where
  "chain_scan dk pc seq [] c = Inr c"
| "chain_scan dk pc seq (Inr (PageItem _ _) # items) c = chain_scan dk pc seq items c"
| "chain_scan dk pc seq (Inr (RecordItem r) # items) c =
     rbind (record_location seq 0 r) (\<lambda>location.
       chain_scan dk pc seq items (case decode_op dk pc (rr_data r) of
           Inr p \<Rightarrow> snd (admit p (rr_data r) (Some location) c)
         | Inl _ \<Rightarrow> record_undecodable c))"
| "chain_scan dk pc seq (Inl e # items) c =
     (if se_kind e = IncompleteTail then Inr (record_tail_change True c) else Inl (IoError InvalidData ''segment''))"

fun chain_read_sequences ::
  "derive_key \<Rightarrow> postcard \<Rightarrow> (bytes \<Rightarrow> u32) \<Rightarrow> disk \<Rightarrow> nat list \<Rightarrow> canonical_chain \<Rightarrow> canonical_chain io_result" where
  "chain_read_sequences dk pc crc d [] c = Inr c"
| "chain_read_sequences dk pc crc d (q # qs) c =
     rbind (ok_or (IoError NotFound ''segment'') (map_of (dk_files d) (segment_name q))) (\<lambda>bs.
     rbind (chain_scan dk pc q (fst (scan_rest crc (page_scanner_new bs))) c) (\<lambda>c'.
       chain_read_sequences dk pc crc d qs c'))"

definition chain_read :: "derive_key \<Rightarrow> postcard \<Rightarrow> (bytes \<Rightarrow> u32) \<Rightarrow> disk \<Rightarrow> canonical_chain io_result" where
  "chain_read dk pc crc d = rbind (segment_sequences d) (\<lambda>qs. chain_read_sequences dk pc crc d qs chain_default)"

section \<open>Reading one record at its location\<close>

definition read_encoded_at :: "(bytes \<Rightarrow> u32) \<Rightarrow> disk \<Rightarrow> op_record_location \<Rightarrow> bytes io_result" where
  "read_encoded_at crc d location =
     (if MAX_RECORD_BYTES < loc_data_len location then Inl (IoError InvalidData ''record location is too large'')
      else rbind (ok_or (IoError NotFound ''segment'') (map_of (dk_files d) (segment_name (loc_segment_seq location)))) (\<lambda>bs.
        rbind (ok_or (IoError UnexpectedEof ''failed to fill whole buffer'')
            (slice_get bs (loc_data_offset location) (loc_data_offset location + loc_data_len location))) (\<lambda>encoded.
          if (case loc_checksum location of None \<Rightarrow> False | Some stored \<Rightarrow> crc encoded \<noteq> stored)
          then Inl (IoError InvalidData ''record checksum mismatch'')
          else Inr encoded)))"

definition read_op_at :: "derive_key \<Rightarrow> postcard \<Rightarrow> (bytes \<Rightarrow> u32) \<Rightarrow> disk \<Rightarrow> op_record_location \<Rightarrow> op io_result" where
  "read_op_at dk pc crc d location = rbind (read_encoded_at crc d location) (\<lambda>bs.
     map_err (\<lambda>_. IoError InvalidData ''undecodable record'') (decode_op dk pc bs))"

section \<open>The accepted view is a function of the evidence\<close>

definition quarantined_pairs :: "(op_id \<times> bytes) set \<Rightarrow> (op_id \<times> bytes) set" where
  "quarantined_pairs R = {(i, b) \<in> R. \<not> (\<exists>c. sole R i c)}"

lemma sole_iff: "sole R i b \<longleftrightarrow> (\<forall>c. (i, c) \<in> R \<longleftrightarrow> c = b)"
  by (auto simp: sole_def)

lemma sole_insert_other: "j \<noteq> i \<Longrightarrow> sole (insert (i, b) R) j c \<longleftrightarrow> sole R j c"
  by (simp add: sole_iff)

lemma sole_insert_new: "{c. (i, c) \<in> R} = {} \<Longrightarrow> sole (insert (i, b) R) i c \<longleftrightarrow> c = b"
  unfolding sole_iff by blast

lemma sole_insert_conflict: "{c. (i, c) \<in> R} \<noteq> {} \<Longrightarrow> (i, b) \<notin> R \<Longrightarrow> \<not> sole (insert (i, b) R) i c"
proof
  assume some: "{c. (i, c) \<in> R} \<noteq> {}" and b: "(i, b) \<notin> R" and sole: "sole (insert (i, b) R) i c"
  from some obtain c' where "(i, c') \<in> R" by blast
  then have "c' = c" "b = c" using sole unfolding sole_iff by blast+
  then show False using \<open>(i, c') \<in> R\<close> b by simp
qed

lemma quarantined_insert:
  assumes "(i, b) \<notin> R"
  shows "quarantined_pairs (insert (i, b) R) = (if {c. (i, c) \<in> R} = {} then quarantined_pairs R
    else insert (i, b) (quarantined_pairs R \<union> {(i, c) | c. sole R i c}))"
proof (cases "{c. (i, c) \<in> R} = {}")
  case True
  have "(j, c) \<in> quarantined_pairs (insert (i, b) R) \<longleftrightarrow> (j, c) \<in> quarantined_pairs R" for j c
    using sole_insert_other [of j i b R] sole_insert_new [OF True] True by (cases "j = i") (auto simp: quarantined_pairs_def)
  then show ?thesis using True by auto
next
  case False
  have "(j, c) \<in> quarantined_pairs (insert (i, b) R)
      \<longleftrightarrow> (j, c) \<in> insert (i, b) (quarantined_pairs R \<union> {(i, c) | c. sole R i c})" for j c
  proof (cases "j = i")
    case True
    then show ?thesis
      using sole_insert_conflict [OF False assms] by (auto simp: quarantined_pairs_def sole_iff)
  next
    case neq: False
    then show ?thesis using sole_insert_other [OF neq] by (auto simp: quarantined_pairs_def)
  qed
  then show ?thesis using False by auto
qed

lemma finite_quarantined: "finite R \<Longrightarrow> finite (quarantined_pairs R)"
  by (rule finite_subset [of _ R]) (auto simp: quarantined_pairs_def)

lemma quarantined_card:
  assumes "finite R" and "(i, b) \<notin> R" and "{c. (i, c) \<in> R} \<noteq> {}"
  shows "card (quarantined_pairs (insert (i, b) R)) = card (quarantined_pairs R) + (if \<exists>c. sole R i c then 2 else 1)"
proof -
  let ?Q = "quarantined_pairs R" and ?S = "{(i, c) | c. sole R i c}"
  have fin: "finite ?Q" using finite_quarantined [OF assms(1)] .
  have fresh: "(i, b) \<notin> ?Q \<union> ?S" using assms(2) by (auto simp: quarantined_pairs_def sole_iff)
  show ?thesis
  proof (cases "\<exists>c. sole R i c")
    case True
    then obtain c where c: "sole R i c" by blast
    then have "?S = {(i, c)}" "(i, c) \<notin> ?Q" by (auto simp: sole_iff quarantined_pairs_def)
    then show ?thesis using True fin fresh assms quarantined_insert [OF assms(2)] by simp
  next
    case False
    then have "?S = {}" by simp
    then show ?thesis using False fin fresh assms quarantined_insert [OF assms(2)] by simp
  qed
qed

text \<open>Every pair of the evidence is quarantined or is the representation of its identity.\<close>

lemma card_split_sole:
  assumes "finite R"
  shows "card R = card {i. \<exists>b. sole R i b} + card (quarantined_pairs R)"
proof -
  let ?S = "{(i, b). sole R i b}"
  have "(i, b) \<in> R \<longleftrightarrow> sole R i b \<or> (i, b) \<in> quarantined_pairs R" for i b
    by (simp add: quarantined_pairs_def) (metis sole_iff)
  then have R: "R = ?S \<union> quarantined_pairs R" by auto
  have "?S \<inter> quarantined_pairs R = {}" by (auto simp: quarantined_pairs_def)
  then have "card R = card ?S + card (quarantined_pairs R)"
    using assms R by (metis card_Un_disjoint finite_Un)
  moreover have "inj_on fst ?S" by (auto simp: inj_on_def sole_def)
  moreover have "fst ` ?S = {i. \<exists>b. sole R i b}" by force
  ultimately show ?thesis by (metis card_image)
qed

text \<open>
  What a chain knows, with \<open>P\<close> relating a retained location, the exact bytes and the decoded
  operation: the accepted view holds the identities with a single byte representation, and the
  counters are those of the evidence.
\<close>

definition chain_view :: "(op_record_location option \<Rightarrow> bytes \<Rightarrow> op \<Rightarrow> bool) \<Rightarrow> canonical_chain \<Rightarrow> bool" where
  "chain_view P c \<longleftrightarrow> wf_op_set (cc_evidence c) \<and> finite (evidence_rel (cc_evidence c)) \<and> bm_wf (cc_accepted c)
     \<and> (\<forall>i. map_of (cc_accepted c) i \<noteq> None \<longleftrightarrow> (\<exists>b. sole (evidence_rel (cc_evidence c)) i b))
     \<and> (\<forall>i p loc b. map_of (cc_accepted c) i = Some (p, loc) \<longrightarrow> sole (evidence_rel (cc_evidence c)) i b \<longrightarrow> op_id p = i \<and> P loc b p)"

definition chain_counts :: "canonical_chain \<Rightarrow> bool" where
  "chain_counts c \<longleftrightarrow> crs_records (cc_stats c) = crs_duplicates (cc_stats c) + card (evidence_rel (cc_evidence c))
     \<and> crs_quarantined (cc_stats c) = card (quarantined_pairs (evidence_rel (cc_evidence c)))"

lemma chain_view_default: "chain_view P chain_default"
  by (auto simp: chain_view_def chain_default_def sole_def)

lemma chain_counts_default: "chain_counts chain_default"
  by (auto simp: chain_counts_def chain_default_def stats_default_def quarantined_pairs_def)

lemma chain_view_cong:
  "cc_evidence c' = cc_evidence c \<Longrightarrow> cc_accepted c' = cc_accepted c \<Longrightarrow> chain_view P c' = chain_view P c"
  by (simp add: chain_view_def)

text \<open>The verdict of exact-byte admission to a set of evidence.\<close>

definition verdict :: "(op_id \<times> bytes) set \<Rightarrow> op_id \<Rightarrow> bytes \<Rightarrow> admission" where
  "verdict R i b = (if (i, b) \<in> R then Duplicate else if {c. (i, c) \<in> R} = {} then Accepted else Conflict)"

lemma verdict_cases:
  obtains (dup) "(i, b) \<in> R" "verdict R i b = Duplicate"
  | (new) "(i, b) \<notin> R" "{c. (i, c) \<in> R} = {}" "verdict R i b = Accepted"
  | (conf) "(i, b) \<notin> R" "{c. (i, c) \<in> R} \<noteq> {}" "verdict R i b = Conflict"
  unfolding verdict_def by (metis (full_types))

text \<open>One admission in terms of the evidence.\<close>

lemma admit_verdict:
  assumes "wf_op_set (cc_evidence c)"
  defines "R \<equiv> evidence_rel (cc_evidence c)"
  shows "admit p b loc c = (verdict R (op_id p) b,
    \<lparr>cc_evidence = fst (op_insert (cc_evidence c) (op_id p) b),
     cc_accepted = (case verdict R (op_id p) b of Accepted \<Rightarrow> bm_insert (op_id p) (p, loc) (cc_accepted c)
       | Duplicate \<Rightarrow> cc_accepted c | Conflict \<Rightarrow> bm_remove (op_id p) (cc_accepted c)),
     cc_stats = (cc_stats c)\<lparr>crs_records := sat_add 64 (crs_records (cc_stats c)) 1,
       crs_duplicates := (if verdict R (op_id p) b = Duplicate then sat_add 64 (crs_duplicates (cc_stats c)) 1 else crs_duplicates (cc_stats c)),
       crs_quarantined := (if verdict R (op_id p) b = Conflict
         then sat_add 64 (crs_quarantined (cc_stats c)) (if \<exists>b. sole R (op_id p) b then 2 else 1) else crs_quarantined (cc_stats c))\<rparr>\<rparr>)"
proof -
  have "snd (op_insert (cc_evidence c) (op_id p) b) = verdict R (op_id p) b"
    using op_insert_outcome [OF assms(1)] by (simp add: R_def verdict_def)
  then show ?thesis
    using contains_iff_sole [OF assms(1)] unfolding admit_def R_def
    by (cases "op_insert (cc_evidence c) (op_id p) b") (simp add: Let_def split: admission.splits)
qed

lemma chain_view_admit:
  assumes inv: "chain_view P c" and p: "P loc b p"
  shows "chain_view P (snd (admit p b loc c))"
    and "evidence_rel (cc_evidence (snd (admit p b loc c))) = insert (op_id p, b) (evidence_rel (cc_evidence c))"
proof -
  define R i where "R = evidence_rel (cc_evidence c)" and "i = op_id p"
  have wf: "wf_op_set (cc_evidence c)" and fin: "finite R" and bm: "bm_wf (cc_accepted c)"
    and acc: "\<And>j. map_of (cc_accepted c) j \<noteq> None \<longleftrightarrow> (\<exists>b. sole R j b)"
    and op: "\<And>j q l b'. map_of (cc_accepted c) j = Some (q, l) \<Longrightarrow> sole R j b' \<Longrightarrow> op_id q = j \<and> P l b' q"
    using inv unfolding chain_view_def R_def by blast+
  let ?c = "snd (admit p b loc c)" and ?R = "insert (i, b) R"
  note adm = admit_verdict [OF wf, of p b loc, folded R_def i_def]
  have wf': "wf_op_set (cc_evidence ?c)" using wf by (simp add: adm wf_op_insert)
  show rel: "evidence_rel (cc_evidence ?c) = insert (op_id p, b) (evidence_rel (cc_evidence c))"
    using wf by (simp add: adm evidence_rel_insert R_def i_def)
  have rel': "evidence_rel (cc_evidence ?c) = ?R" using rel by (simp add: R_def i_def)
  show "chain_view P ?c"
  proof (cases R i b rule: verdict_cases)
    case dup
    then have "?R = R" by auto
    then show ?thesis using wf' fin bm acc op dup unfolding chain_view_def rel' by (simp add: adm)
  next
    case new
    have "map_of (bm_insert i (p, loc) (cc_accepted c)) j \<noteq> None \<longleftrightarrow> (\<exists>b. sole ?R j b)" for j
      using acc [of j] bm new sole_insert_other [of j i b R] sole_insert_new [of i R b] by (cases "j = i") auto
    moreover have "op_id q = j \<and> P l b' q" if "map_of (bm_insert i (p, loc) (cc_accepted c)) j = Some (q, l)" "sole ?R j b'" for j q l b'
      using that op [of j q l b'] bm new p sole_insert_other [of j i b R] sole_insert_new [of i R b] by (cases "j = i") (auto simp: i_def)
    ultimately show ?thesis using wf' fin bm new unfolding chain_view_def rel' by (simp add: adm bm_wf_insert)
  next
    case conf
    have "map_of (bm_remove i (cc_accepted c)) j \<noteq> None \<longleftrightarrow> (\<exists>b. sole ?R j b)" for j
      using acc [of j] sole_insert_other [of j i b R] sole_insert_conflict [OF conf(2,1)] by (cases "j = i") auto
    moreover have "op_id q = j \<and> P l b' q" if "map_of (bm_remove i (cc_accepted c)) j = Some (q, l)" "sole ?R j b'" for j q l b'
      using that op [of j q l b'] sole_insert_other [of j i b R] by (auto split: if_splits)
    ultimately show ?thesis using wf' fin bm conf unfolding chain_view_def rel' by (simp add: adm bm_wf_remove)
  qed
qed

lemma chain_counts_admit:
  assumes wf: "wf_op_set (cc_evidence c)" and fin: "finite (evidence_rel (cc_evidence c))" and st: "chain_counts c"
    and small: "crs_records (cc_stats c) < umax 64"
  shows "chain_counts (snd (admit p b loc c)) \<and> crs_records (cc_stats (snd (admit p b loc c))) = Suc (crs_records (cc_stats c))"
proof -
  define R i where "R = evidence_rel (cc_evidence c)" and "i = op_id p"
  let ?c = "snd (admit p b loc c)" and ?R = "insert (i, b) R"
  note adm = admit_verdict [OF wf, of p b loc, folded R_def i_def]
  have rel: "evidence_rel (cc_evidence ?c) = ?R" using wf by (simp add: adm evidence_rel_insert R_def)
  have st: "crs_records (cc_stats c) = crs_duplicates (cc_stats c) + card R" "crs_quarantined (cc_stats c) = card (quarantined_pairs R)"
    and fin: "finite R"
    using st fin by (simp_all add: chain_counts_def R_def)
  show ?thesis
  proof (cases R i b rule: verdict_cases)
    case dup
    then have "?R = R" by auto
    then show ?thesis using st small dup unfolding chain_counts_def rel by (simp add: adm sat_add_exact)
  next
    case new
    then show ?thesis
      using st small fin quarantined_insert [OF new(1)] unfolding chain_counts_def rel by (simp add: adm sat_add_exact)
  next
    case conf
    have "card (quarantined_pairs ?R) \<le> card ?R" using fin by (intro card_mono) (auto simp: quarantined_pairs_def)
    then have "card (quarantined_pairs R) + (if \<exists>c. sole R i c then 2 else 1) \<le> umax 64"
      unfolding quarantined_card [OF fin conf(1,2)] using st small conf fin by simp
    then show ?thesis
      using st small fin conf quarantined_card [OF fin conf(1,2)] unfolding chain_counts_def rel by (simp add: adm sat_add_exact)
  qed
qed

section \<open>Properties\<close>

abbreviation decodable :: "derive_key \<Rightarrow> postcard \<Rightarrow> log_record list \<Rightarrow> log_record list" where
  "decodable dk pc rs \<equiv> filter (\<lambda>r. \<exists>p. decode_op dk pc (snd r) = Inr p) rs"

lemma read_log_fold:
  assumes "chain_view (\<lambda>_ b p. decode_op dk pc b = Inr p) c" and "chain_counts c"
    and "crs_records (cc_stats c) + length (decodable dk pc rs) \<le> umax 64"
    and "crs_undecodable (cc_stats c) + length rs \<le> umax 64"
  defines "c' \<equiv> fold (admit_log_record dk pc) rs c"
  shows "chain_view (\<lambda>_ b p. decode_op dk pc b = Inr p) c' \<and> chain_counts c'
    \<and> cc_evidence c' = fold (admit_evidence dk pc) rs (cc_evidence c)
    \<and> crs_records (cc_stats c') = crs_records (cc_stats c) + length (decodable dk pc rs)
    \<and> crs_undecodable (cc_stats c') + length (decodable dk pc rs) = crs_undecodable (cc_stats c) + length rs"
  using assms(1-4) unfolding c'_def
proof (induction rs arbitrary: c)
  case (Cons r rs)
  let ?c = "admit_log_record dk pc r c"
  show ?case
  proof (cases "decode_op dk pc (snd r)")
    case (Inl e)
    have st: "crs_undecodable (cc_stats ?c) = Suc (crs_undecodable (cc_stats c))" "crs_records (cc_stats ?c) = crs_records (cc_stats c)"
      "cc_evidence ?c = admit_evidence dk pc r (cc_evidence c)" "cc_evidence ?c = cc_evidence c" "cc_accepted ?c = cc_accepted c"
      using Inl Cons.prems(4) by (simp_all add: admit_log_record_def record_undecodable_def sat_add_exact admit_evidence_def)
    have "chain_view (\<lambda>_ b p. decode_op dk pc b = Inr p) ?c" "chain_counts ?c"
      using Cons.prems(1,2) chain_view_cong [OF st(4,5)] Inl
      by (simp_all add: chain_counts_def admit_log_record_def record_undecodable_def)
    from Cons.IH [OF this] show ?thesis using Cons.prems st(1-3) Inl by simp
  next
    case (Inr p)
    have c: "?c = snd (admit p (snd r) None c)" by (simp add: admit_log_record_def Inr)
    have view: "chain_view (\<lambda>_ b p. decode_op dk pc b = Inr p) ?c" unfolding c by (rule chain_view_admit(1) [OF Cons.prems(1) Inr])
    have "crs_records (cc_stats c) < umax 64" using Cons.prems(3) Inr by simp
    then have counts: "chain_counts ?c" "crs_records (cc_stats ?c) = Suc (crs_records (cc_stats c))"
      using chain_counts_admit [OF _ _ Cons.prems(2)] Cons.prems(1) unfolding c chain_view_def by blast+
    have same: "crs_undecodable (cc_stats ?c) = crs_undecodable (cc_stats c)" "cc_evidence ?c = admit_evidence dk pc r (cc_evidence c)"
      unfolding c by (auto simp: admit_def Let_def admit_evidence_def Inr split: prod.splits admission.splits)
    show ?thesis using Cons.IH [OF view counts(1)] counts(2) Cons.prems same Inr by simp
  qed
qed simp

text \<open>
  C16. A chain read of any log is a function of the set of its records: the evidence is exactly
  the decodable bytes, an identity is readable if and only if it has a single byte
  representation, and then as the operation those bytes decode to. Every record is counted once:
  as undecodable, as a repetition, as quarantined variant of a conflicted identity, or as the
  representation of an accepted one.
\<close>

theorem read_log_canonical:
  assumes read: "read_log dk pc ops l = Inr c" and visit: "visit_records ops l = Inr (rs, tails)"
    and small: "length rs \<le> umax 64"
  defines "R \<equiv> {(i, b). b \<in> snd ` set rs \<and> (\<exists>p. decode_op dk pc b = Inr p \<and> op_id p = i)}"
  shows "evidence_rel (cc_evidence c) = R
    \<and> (\<forall>i p. chain_get c i = Some p \<longleftrightarrow> (\<exists>b. sole R i b \<and> decode_op dk pc b = Inr p))
    \<and> (let st = chain_stats c in crs_records st + crs_undecodable st = length rs
        \<and> crs_records st = crs_accepted st + crs_quarantined st + crs_duplicates st
        \<and> crs_accepted st = card {i. \<exists>b. sole R i b} \<and> crs_quarantined st = card (quarantined_pairs R)
        \<and> crs_incomplete_tails st = tails)"
proof -
  let ?P = "\<lambda>_ b p. decode_op dk pc b = Inr p"
  define c0 where "c0 = fold (admit_log_record dk pc) rs chain_default"
  have c: "c = c0\<lparr>cc_stats := (cc_stats c0)\<lparr>crs_incomplete_tails := tails\<rparr>\<rparr>"
    using read visit by (simp add: read_log_def c0_def Let_def)
  have len: "length (decodable dk pc rs) \<le> umax 64" using small length_filter_le le_trans by blast
  have all: "chain_view ?P c0 \<and> chain_counts c0 \<and> cc_evidence c0 = evidence_of dk pc rs
      \<and> crs_records (cc_stats c0) = length (decodable dk pc rs)
      \<and> crs_undecodable (cc_stats c0) + length (decodable dk pc rs) = length rs"
    using read_log_fold [OF chain_view_default chain_counts_default, of dk pc rs] len small
    unfolding c0_def evidence_of_def by (simp add: chain_default_def stats_default_def)
  then have ev: "evidence_rel (cc_evidence c) = R" unfolding R_def c by (simp add: evidence_rel_of)
  have "chain_view ?P c" "chain_counts c"
    using all chain_view_cong [of c c0] by (simp_all add: c chain_counts_def)
  then have bm: "bm_wf (cc_accepted c)" and fin: "finite R"
    and acc: "\<And>i. map_of (cc_accepted c) i \<noteq> None \<longleftrightarrow> (\<exists>b. sole R i b)"
    and op: "\<And>i p loc b. map_of (cc_accepted c) i = Some (p, loc) \<Longrightarrow> sole R i b \<Longrightarrow> decode_op dk pc b = Inr p"
    and st: "crs_records (cc_stats c) = crs_duplicates (cc_stats c) + card R"
      "crs_quarantined (cc_stats c) = card (quarantined_pairs R)"
    unfolding chain_view_def chain_counts_def ev by blast+
  have dom: "dom (map_of (cc_accepted c)) = {i. \<exists>b. sole R i b}" using acc by auto
  have len_acc: "length (cc_accepted c) = card {i. \<exists>b. sole R i b}"
    using bm unfolding dom [symmetric] dom_map_of_conv_image_fst
    by (metis distinct_card increasing_distinct length_map list.set_map)
  have get: "chain_get c i = Some p \<longleftrightarrow> (\<exists>b. sole R i b \<and> decode_op dk pc b = Inr p)" for i p
    using acc [of i] op [of i] by (cases "map_of (cc_accepted c) i") (auto simp: chain_get_def)
  have "card R = card {i. \<exists>b. sole R i b} + card (quarantined_pairs R)" using card_split_sole [OF fin] .
  then show ?thesis
    using ev get st len_acc all by (simp add: chain_stats_def Let_def c)
qed

text \<open>A log of three records: two equal ones and one that nothing decodes.\<close>

definition three_log :: "unit append_log" where
  "three_log = \<lparr>visit_records = (\<lambda>_. Inr ([(0, RECORD_MAGIC @ [1, 7]), (1, [9]), (0, RECORD_MAGIC @ [1, 7])], 1)),
     append_records = (\<lambda>_ l. (Inr (), l)), log_sync = (\<lambda>l. (Inr (), l))\<rparr>"

lemma decode_one_op: "decode_op (\<lambda>_ b. b) one_postcard (RECORD_MAGIC @ [1, 7]) = Inr one_op"
  by (rule decode_encode_op)
     (simp_all add: encode_op_def one_op_def one_postcard_def gen_op_new_def source_mismatch_def RECORD_SCHEMA_def postcard_ok_def)

theorem read_log_canonical_witness:
  "\<exists>c. read_log (\<lambda>_ b. b) one_postcard three_log () = Inr c \<and> chain_get c (op_id one_op) = Some one_op
     \<and> crs_records (chain_stats c) + crs_undecodable (chain_stats c) = 3"
proof -
  let ?rs = "[(0, RECORD_MAGIC @ [1, 7]), (1, [9]), (0, RECORD_MAGIC @ [1, 7])] :: log_record list"
  obtain c where c: "read_log (\<lambda>_ b. b) one_postcard three_log () = Inr c"
    by (simp add: read_log_def three_log_def Let_def)
  have visit: "visit_records three_log () = Inr (?rs, 1)" by (simp add: three_log_def)
  have "\<exists>e. decode_op (\<lambda>_ b. b) one_postcard [9] = Inl e"
    by (simp add: decode_op_def decode_body_def strip_magic_def RECORD_MAGIC_def str_bytes_def decode_legacy_def one_postcard_def)
  then have "sole {(i, b). b \<in> snd ` set ?rs \<and> (\<exists>p. decode_op (\<lambda>_ b. b) one_postcard b = Inr p \<and> op_id p = i)}
      (op_id one_op) (RECORD_MAGIC @ [1, 7])"
    using decode_one_op by (auto simp: sole_iff)
  moreover have "length ?rs \<le> umax 64" by simp
  ultimately show ?thesis
    using read_log_canonical [OF c visit] c decode_one_op unfolding Let_def by fastforce
qed

end
