(* ===== verification/Tail.thy ===== *)
theory Tail
  imports Reader
begin

text \<open>
  Retained reading of an append-only chain (\<open>editchain-store/src/tail.rs\<close>,
  \<open>indexed.rs\<close>): a frontier that admits only newly appended records, over one of two
  corpora, the portable \<open>CanonicalChain\<close> and the \<open>IndexedChain\<close> that keeps the
  exact bytes in the segments. The \<open>TailCorpus\<close> trait is a record of operations with its
  contract as the locale \<open>tail_corpus_laws\<close>. The maps of an \<open>IndexedChain\<close> are
  represented by their bindings, as the refinement of the hash trie shows them.

  One poll reads a snapshot of the directory; the stamps read again while the writer lock is
  held are a separate field, because the writer may have finished in between. A segment that disappears
  while its stamps are read again, and errors of opening the lock file other than its absence, are not
  modelled.
\<close>

section \<open>Corpora\<close>

record 'c tail_corpus =
  tc_empty :: 'c
  tc_admit_record :: "op \<Rightarrow> bytes \<Rightarrow> op_record_location \<Rightarrow> 'c \<Rightarrow> admission io_result \<times> 'c"
  tc_record_undecodable :: "'c \<Rightarrow> 'c"
  tc_record_tail_change :: "bool \<Rightarrow> 'c \<Rightarrow> 'c"

definition canonical_corpus :: "canonical_chain tail_corpus" where
  "canonical_corpus = \<lparr>tc_empty = chain_default,
     tc_admit_record = (\<lambda>p encoded location c. apfst Inr (admit p encoded (Some location) c)),
     tc_record_undecodable = record_undecodable, tc_record_tail_change = record_tail_change\<rparr>"

record index_entry =
  en_location :: op_record_location
  en_accepted :: "op option"

record indexed_chain =
  ic_entries :: "op_id \<rightharpoonup> index_entry"
  ic_conflicts :: "op_id \<rightharpoonup> op_record_location list"
  ic_stats :: chain_read_stats

definition conflict_locations :: "indexed_chain \<Rightarrow> op_id \<Rightarrow> op_record_location list" where
  "conflict_locations c i = (case ic_conflicts c i of None \<Rightarrow> [] | Some ls \<Rightarrow> ls)"

definition record_locations :: "indexed_chain \<Rightarrow> op_id \<Rightarrow> op_record_location list" where
  "record_locations c i = (case ic_entries c i of None \<Rightarrow> [] | Some e \<Rightarrow> [en_location e]) @ conflict_locations c i"

fun find_bytes :: "(op_record_location \<Rightarrow> bytes io_result) \<Rightarrow> bytes \<Rightarrow> op_record_location list \<Rightarrow> bool io_result" where
  "find_bytes rd encoded [] = Inr False"
| "find_bytes rd encoded (l # ls) =
     (if loc_data_len l = length encoded
      then rbind (rd l) (\<lambda>bs. if bs = encoded then Inr True else find_bytes rd encoded ls)
      else find_bytes rd encoded ls)"

definition indexed_classify :: "(bytes \<Rightarrow> u32) \<Rightarrow> disk \<Rightarrow> indexed_chain \<Rightarrow> op_id \<Rightarrow> bytes \<Rightarrow> admission io_result" where
  "indexed_classify crc d c i encoded = (case ic_entries c i of
       None \<Rightarrow> Inr Accepted
     | Some e \<Rightarrow> rbind (find_bytes (read_encoded_at crc d) encoded (en_location e # conflict_locations c i)) (\<lambda>found.
         Inr (if found then Duplicate else Conflict)))"

definition indexed_get :: "indexed_chain \<Rightarrow> op_id \<Rightarrow> op option" where
  "indexed_get c i = Option.bind (ic_entries c i) en_accepted"

definition indexed_empty :: indexed_chain where
  "indexed_empty = \<lparr>ic_entries = Map.empty, ic_conflicts = Map.empty, ic_stats = stats_default\<rparr>"

definition indexed_admit ::
  "(bytes \<Rightarrow> u32) \<Rightarrow> disk \<Rightarrow> op \<Rightarrow> bytes \<Rightarrow> op_record_location \<Rightarrow> indexed_chain \<Rightarrow> admission io_result \<times> indexed_chain" where
  "indexed_admit crc d p encoded location c =
     (case indexed_classify crc d c (op_id p) encoded of
        Inl e \<Rightarrow> (Inl e, c)
      | Inr admission \<Rightarrow>
          let i = op_id p; st = (ic_stats c)\<lparr>crs_records := sat_add 64 (crs_records (ic_stats c)) 1\<rparr>; c = c\<lparr>ic_stats := st\<rparr> in
          (case admission of
             Accepted \<Rightarrow> (Inr Accepted, c\<lparr>ic_stats := st\<lparr>crs_accepted := sat_add 64 (crs_accepted st) 1\<rparr>,
                 ic_entries := (ic_entries c)(i \<mapsto> \<lparr>en_location = location, en_accepted = Some p\<rparr>)\<rparr>)
           | Duplicate \<Rightarrow> (Inr Duplicate, c\<lparr>ic_stats := st\<lparr>crs_duplicates := sat_add 64 (crs_duplicates st) 1\<rparr>\<rparr>)
           | Conflict \<Rightarrow> (case ic_entries c i of
               None \<Rightarrow> (Inl (IoError Other ''missing conflicted identity''), c)
             | Some e \<Rightarrow>
                 let was_accepted = (en_accepted e \<noteq> None);
                     st1 = (if was_accepted then st\<lparr>crs_accepted := crs_accepted st - 1\<rparr> else st) in
                 (Inr Conflict, c\<lparr>
                    ic_stats := st1\<lparr>crs_quarantined := sat_add 64 (crs_quarantined st1) (if was_accepted then 2 else 1)\<rparr>,
                    ic_entries := (ic_entries c)(i \<mapsto> e\<lparr>en_accepted := None\<rparr>),
                    ic_conflicts := (ic_conflicts c)(i \<mapsto> conflict_locations c i @ [location])\<rparr>))))"

definition indexed_undecodable :: "indexed_chain \<Rightarrow> indexed_chain" where
  "indexed_undecodable c = c\<lparr>ic_stats := (ic_stats c)\<lparr>crs_undecodable := sat_add 64 (crs_undecodable (ic_stats c)) 1\<rparr>\<rparr>"

definition indexed_tail_change :: "bool \<Rightarrow> indexed_chain \<Rightarrow> indexed_chain" where
  "indexed_tail_change incomplete c = c\<lparr>ic_stats := (ic_stats c)\<lparr>crs_incomplete_tails :=
     (if incomplete then sat_add 64 (crs_incomplete_tails (ic_stats c)) 1 else crs_incomplete_tails (ic_stats c) - 1)\<rparr>\<rparr>"

definition indexed_corpus :: "(bytes \<Rightarrow> u32) \<Rightarrow> disk \<Rightarrow> indexed_chain tail_corpus" where
  "indexed_corpus crc d = \<lparr>tc_empty = indexed_empty, tc_admit_record = indexed_admit crc d,
     tc_record_undecodable = indexed_undecodable, tc_record_tail_change = indexed_tail_change\<rparr>"

section \<open>File stamps\<close>

record file_stamp =
  st_identity :: "nat \<times> nat"
  st_length :: nat
  st_modified :: nat

definition invalid_data :: "string \<Rightarrow> io_error" where
  "invalid_data message = IoError InvalidData message"

definition validate_successor :: "file_stamp \<Rightarrow> file_stamp \<Rightarrow> unit io_result" where
  "validate_successor previous current =
     (if st_identity current \<noteq> st_identity previous \<or> st_length current < st_length previous
         \<or> st_length current = st_length previous \<and> st_modified current \<noteq> st_modified previous
      then Inl (invalid_data ''chain frontier changed non-monotonically; reload required'') else Inr ())"

record chain_fs =
  cf_disk :: disk
  cf_identity :: "string \<Rightarrow> nat \<times> nat"
  cf_modified :: "string \<Rightarrow> nat"
  cf_lock_file :: bool
  cf_settled :: "string \<Rightarrow> file_stamp"

definition stamp_read :: "chain_fs \<Rightarrow> string \<Rightarrow> file_stamp" where
  "stamp_read fs name = \<lparr>st_identity = cf_identity fs name, st_length = length (file_bytes (cf_disk fs) name),
     st_modified = cf_modified fs name\<rparr>"

section \<open>The frontier\<close>

record tail_work =
  tw_bytes_read :: nat
  tw_records_decoded :: nat
  tw_undecodable :: nat

record chain_delta =
  cd_added :: "(op_id, op \<times> op_record_location) btree_map"
  cd_removed :: "op_id btree_set"
  cd_work :: tail_work

definition delta_default :: chain_delta where
  "delta_default = \<lparr>cd_added = [], cd_removed = [], cd_work = \<lparr>tw_bytes_read = 0, tw_records_decoded = 0, tw_undecodable = 0\<rparr>\<rparr>"

record 'c tail =
  tl_root :: string
  tl_chain :: 'c
  tl_segment :: nat
  tl_offset :: nat
  tl_page :: "u32 option"
  tl_observed :: "file_stamp option"
  tl_sealed :: "(nat, file_stamp) btree_map"
  tl_incomplete :: bool

definition tail_empty :: "'c tail_corpus \<Rightarrow> string \<Rightarrow> 'c tail" where
  "tail_empty tc root = \<lparr>tl_root = root, tl_chain = tc_empty tc, tl_segment = 0, tl_offset = 0, tl_page = None,
     tl_observed = None, tl_sealed = [], tl_incomplete = False\<rparr>"

definition validate_frontier :: "chain_fs \<Rightarrow> 'c tail \<Rightarrow> file_stamp \<Rightarrow> unit io_result" where
  "validate_frontier fs t current = (case tl_observed t of
       None \<Rightarrow> Inr ()
     | Some previous \<Rightarrow>
         if st_identity current = st_identity previous \<and> st_length current = st_length previous
            \<and> st_modified current \<noteq> st_modified previous
         then (if \<not> cf_lock_file fs then validate_successor previous current
               else if dk_locked (cf_disk fs) then Inl (IoError WouldBlock ''lock'')
               else validate_successor previous (cf_settled fs (segment_name (tl_segment t))))
         else validate_successor previous current)"

fun scan_records :: "(scan_error + scan_item) list \<Rightarrow> (record_ref list) io_result" where
  "scan_records [] = Inr []"
| "scan_records (Inr (PageItem _ _) # items) = scan_records items"
| "scan_records (Inr (RecordItem r) # items) = rbind (scan_records items) (\<lambda>rs. Inr (r # rs))"
| "scan_records (Inl e # items) = (if se_kind e = IncompleteTail then Inr [] else Inl (invalid_data ''segment''))"

definition admit_delta :: "admission \<Rightarrow> op \<Rightarrow> op_record_location \<Rightarrow> chain_delta \<Rightarrow> chain_delta" where
  "admit_delta a p location delta = (case a of
       Accepted \<Rightarrow> delta\<lparr>cd_added := bm_insert (op_id p) (p, location) (cd_added delta)\<rparr>
     | Duplicate \<Rightarrow> delta
     | Conflict \<Rightarrow> delta\<lparr>cd_added := bm_remove (op_id p) (cd_added delta), cd_removed := bs_insert (op_id p) (cd_removed delta)\<rparr>)"

fun tail_admit :: "'c tail_corpus \<Rightarrow> derive_key \<Rightarrow> postcard \<Rightarrow> record_ref list \<Rightarrow> 'c tail \<times> chain_delta
   \<Rightarrow> unit io_result \<times> 'c tail \<times> chain_delta" where
  "tail_admit tc dk pc [] td = (Inr (), td)"
| "tail_admit tc dk pc (r # rs) (t, delta) = (case decode_op dk pc (rr_data r) of
       Inl _ \<Rightarrow> tail_admit tc dk pc rs (t\<lparr>tl_chain := tc_record_undecodable tc (tl_chain t)\<rparr>,
         delta\<lparr>cd_work := (cd_work delta)\<lparr>tw_undecodable := sat_add 64 (tw_undecodable (cd_work delta)) 1\<rparr>\<rparr>)
     | Inr p \<Rightarrow>
         let delta1 = delta\<lparr>cd_work := (cd_work delta)\<lparr>tw_records_decoded := sat_add 64 (tw_records_decoded (cd_work delta)) 1\<rparr>\<rparr> in
         (case checked_add 64 (tl_offset t) (rr_data_offset r) of
            None \<Rightarrow> (Inl (invalid_data ''record offset exhausted''), t, delta1)
          | Some offset \<Rightarrow> (case u32_try_from (length (rr_data r)) of
            None \<Rightarrow> (Inl (IoError Other ''record length''), t, delta1)
          | Some len \<Rightarrow>
              let location = \<lparr>loc_segment_seq = tl_segment t, loc_data_offset = offset, loc_data_len = unat len, loc_checksum = rr_checksum r\<rparr> in
              (case tc_admit_record tc p (rr_data r) location (tl_chain t) of
                 (Inl e, c) \<Rightarrow> (Inl e, t\<lparr>tl_chain := c\<rparr>, delta1)
               | (Inr a, c) \<Rightarrow> tail_admit tc dk pc rs (t\<lparr>tl_chain := c\<rparr>, admit_delta a p location delta1)))))"

definition tail_scan :: "'c tail_corpus \<Rightarrow> derive_key \<Rightarrow> postcard \<Rightarrow> (bytes \<Rightarrow> u32) \<Rightarrow> bytes \<Rightarrow> 'c tail \<times> chain_delta
   \<Rightarrow> bool io_result \<times> 'c tail \<times> chain_delta" where
  "tail_scan tc dk pc crc bytes td =
     (let (items, scanner) = scan_rest crc (scanner_resume bytes (tl_page (fst td))) in
      case scan_records items of
        Inl e \<Rightarrow> (Inl e, td)
      | Inr rs \<Rightarrow> (case tail_admit tc dk pc rs td of
          (Inl e, td') \<Rightarrow> (Inl e, td')
        | (Inr _, t, delta) \<Rightarrow> (case checked_add 64 (tl_offset t) (ps_offset scanner) of
            None \<Rightarrow> (Inl (invalid_data ''segment offset exhausted''), t, delta)
          | Some offset \<Rightarrow> (Inr (ps_offset scanner < length bytes),
              t\<lparr>tl_offset := offset, tl_page := ps_page_sequence scanner\<rparr>, delta))))"

text \<open>
  One turn of the loop of \<open>poll\<close>: it returns, or it seals a segment that yields nothing
  new and goes on at its successor, so the loop ends at the last segment number at the latest.
\<close>

definition poll_finish :: "'c tail_corpus \<Rightarrow> chain_fs \<Rightarrow> 'c tail \<Rightarrow> file_stamp \<Rightarrow> nat \<Rightarrow> bool \<Rightarrow> 'c tail \<Rightarrow> chain_delta
   \<Rightarrow> chain_delta io_result \<times> 'c tail + 'c tail \<times> chain_delta" where
  "poll_finish tc fs t current len rest t1 delta =
     (let incomplete = (rest \<and> st_length current \<le> sat_add 64 (tl_offset t) len);
          t2 = t1\<lparr>tl_chain := (if tl_incomplete t1 \<noteq> incomplete then tc_record_tail_change tc incomplete (tl_chain t1) else tl_chain t1),
                  tl_incomplete := incomplete, tl_observed := Some current\<rparr> in
      if tl_offset t < tl_offset t2 then Inl (Inr delta, t2)
      else (case checked_add 32 (tl_segment t) 1 of
          None \<Rightarrow> Inl (Inl (invalid_data ''segment sequence exhausted''), t2)
        | Some q \<Rightarrow>
            if map_of (dk_files (cf_disk fs)) (segment_name q) = None then Inl (Inr delta, t2)
            else Inr (t2\<lparr>tl_sealed := bm_insert (tl_segment t) current (tl_sealed t2), tl_segment := q, tl_offset := 0,
                  tl_page := None, tl_observed := None, tl_incomplete := False\<rparr>, delta)))"

definition poll_segment :: "'c tail_corpus \<Rightarrow> derive_key \<Rightarrow> postcard \<Rightarrow> (bytes \<Rightarrow> u32) \<Rightarrow> chain_fs \<Rightarrow> 'c tail \<Rightarrow> chain_delta
   \<Rightarrow> chain_delta io_result \<times> 'c tail + 'c tail \<times> chain_delta" where
  "poll_segment tc dk pc crc fs t delta =
     (let name = segment_name (tl_segment t) in
      case map_of (dk_files (cf_disk fs)) name of
        None \<Rightarrow> Inl (if tl_observed t = None then Inr delta else Inl (IoError NotFound ''segment''), t)
      | Some content \<Rightarrow>
        let current = stamp_read fs name in
        (case validate_frontier fs t current of
           Inl e \<Rightarrow> Inl (if io_error_kind e = WouldBlock then Inr delta else Inl e, t)
         | Inr _ \<Rightarrow>
           let bytes = take MAX_FRAME_BYTES (drop (tl_offset t) content);
               delta1 = delta\<lparr>cd_work := (cd_work delta)\<lparr>tw_bytes_read := sat_add 64 (tw_bytes_read (cd_work delta)) (length bytes)\<rparr>\<rparr> in
           (case tail_scan tc dk pc crc bytes (t, delta1) of
              (Inl e, t1, _) \<Rightarrow> Inl (Inl e, t1)
            | (Inr rest, t1, delta2) \<Rightarrow>
              poll_finish tc fs t current (length bytes) rest t1 delta2)))"

lemma poll_segment_next:
  "poll_segment tc dk pc crc fs t delta = Inr (t', delta') \<Longrightarrow> tl_segment t' = Suc (tl_segment t) \<and> tl_segment t' \<le> umax 32"
  unfolding poll_segment_def poll_finish_def Let_def
  by (auto simp: checked_add_Some split: option.splits sum.splits prod.splits if_splits)

function poll_from :: "'c tail_corpus \<Rightarrow> derive_key \<Rightarrow> postcard \<Rightarrow> (bytes \<Rightarrow> u32) \<Rightarrow> chain_fs \<Rightarrow> 'c tail \<Rightarrow> chain_delta
   \<Rightarrow> chain_delta io_result \<times> 'c tail" where
  "poll_from tc dk pc crc fs t delta = (case poll_segment tc dk pc crc fs t delta of
       Inl result \<Rightarrow> result
     | Inr (t', delta') \<Rightarrow> poll_from tc dk pc crc fs t' delta')"
  by pat_completeness auto
termination
proof (relation "measure (\<lambda>(tc, dk, pc, crc, fs, t, delta). umax 32 - tl_segment t)", goal_cases)
  case (2 tc dk pc crc fs t delta x t' delta')
  then show ?case using poll_segment_next [of tc dk pc crc fs t delta t' delta'] by (auto dest: sym)
qed simp

declare poll_from.simps [simp del]

definition poll :: "'c tail_corpus \<Rightarrow> derive_key \<Rightarrow> postcard \<Rightarrow> (bytes \<Rightarrow> u32) \<Rightarrow> chain_fs \<Rightarrow> 'c tail \<Rightarrow> chain_delta io_result \<times> 'c tail" where
  "poll tc dk pc crc fs t = poll_from tc dk pc crc fs t delta_default"

text \<open>\<open>Tail::resume\<close>: sealed segments unchanged, the active one at most grown.\<close>

definition resume :: "chain_fs \<Rightarrow> string \<Rightarrow> 'c tail \<Rightarrow> unit io_result" where
  "resume fs root t =
     (if tl_root t \<noteq> root then Inl (invalid_data ''checkpoint belongs to another chain'')
      else rbind (traverse (\<lambda>(q, stamp). case map_of (dk_files (cf_disk fs)) (segment_name q) of
            None \<Rightarrow> Inl (IoError NotFound ''segment'')
          | Some _ \<Rightarrow> if stamp_read fs (segment_name q) \<noteq> stamp
              then Inl (invalid_data ''sealed checkpoint segment changed'') else Inr ()) (tl_sealed t)) (\<lambda>_.
        if tl_observed t = None then Inr ()
        else (case map_of (dk_files (cf_disk fs)) (segment_name (tl_segment t)) of
            None \<Rightarrow> Inl (IoError NotFound ''segment'')
          | Some _ \<Rightarrow> validate_frontier fs t (stamp_read fs (segment_name (tl_segment t))))))"

section \<open>Progress of a poll\<close>

definition scanner_ok :: "page_scanner \<Rightarrow> bool" where
  "scanner_ok s \<longleftrightarrow> ps_offset s \<le> length (ps_bytes s) \<and> (\<forall>e. ps_frame_end s = Some e \<longrightarrow> e \<le> length (ps_bytes s))"

lemma next_item_ok:
  assumes "next_item crc s = Inr (it, s')" and "scanner_ok s"
  shows "scanner_ok s' \<and> ps_bytes s' = ps_bytes s"
  using assms
  by (auto simp: scanner_ok_def next_item_def next_frame_record_def next_frame_def next_page_def
      next_page_record_def result_iffs map_err_Inr_iff Let_def slice_from_def slice_get_Some
      HEADER_BYTES_def split: option.splits if_splits dest!: scan_record_length scan_frame_length)

lemma scan_rest_ok: "scanner_ok s \<Longrightarrow> scanner_ok (snd (scan_rest crc s)) \<and> ps_bytes (snd (scan_rest crc s)) = ps_bytes s"
proof (induction crc s rule: scan_rest.induct)
  case (1 crc s)
  show ?case
  proof (cases "scanner_next crc s")
    case (Pair r s')
    show ?thesis
    proof (cases r)
      case None
      then have "s' = s" using Pair by (auto simp: scanner_next_def split: if_splits sum.splits prod.splits)
      then show ?thesis using Pair None "1.prems" scan_rest.simps [of crc s] by simp
    next
      case (Some it)
      then have "scanner_ok s' \<and> ps_bytes s' = ps_bytes s"
        using Pair "1.prems" next_item_ok [of crc s _ s'] by (auto simp: scanner_next_def scanner_ok_def split: if_splits sum.splits prod.splits)
      then show ?thesis using "1.IH" [OF Pair [symmetric] Some] Pair Some scan_rest.simps [of crc s] by (simp add: case_prod_beta)
    qed
  qed
qed

lemma scan_consumed: "ps_offset (snd (scan_rest crc (scanner_resume bs q))) \<le> length bs"
  using scan_rest_ok [of "scanner_resume bs q" crc] by (auto simp: scanner_ok_def scanner_resume_def)

lemma tail_admit_frame:
  "tail_admit tc dk pc rs (t, delta) = (r, t', delta') \<Longrightarrow>
     tl_segment t' = tl_segment t \<and> tl_offset t' = tl_offset t \<and> tl_observed t' = tl_observed t \<and> tl_sealed t' = tl_sealed t
     \<and> tl_incomplete t' = tl_incomplete t \<and> tl_page t' = tl_page t \<and> tl_root t' = tl_root t"
  by (induction tc dk pc rs "(t, delta)" arbitrary: t delta rule: tail_admit.induct)
     (fastforce split: sum.splits option.splits prod.splits simp: Let_def)+

lemma tail_scan_frame:
  assumes "tail_scan tc dk pc crc bs (t, delta) = (r, t', delta')"
  shows "tl_segment t' = tl_segment t \<and> tl_offset t \<le> tl_offset t' \<and> tl_offset t' \<le> tl_offset t + length bs
    \<and> tl_observed t' = tl_observed t \<and> tl_sealed t' = tl_sealed t \<and> tl_incomplete t' = tl_incomplete t"
proof -
  obtain items sc where sc: "scan_rest crc (scanner_resume bs (tl_page t)) = (items, sc)" by fastforce
  show ?thesis
  proof (cases "scan_records items")
    case (Inl e)
    then show ?thesis using assms sc by (simp add: tail_scan_def)
  next
    case (Inr rs)
    obtain r1 t1 d1 where adm: "tail_admit tc dk pc rs (t, delta) = (r1, t1, d1)" by (metis prod_cases3)
    show ?thesis
      using assms sc Inr adm tail_admit_frame [OF adm] scan_consumed [of crc bs "tl_page t"]
      by (auto simp: tail_scan_def checked_add_Some split: sum.splits option.splits)
  qed
qed

text \<open>How far one turn and one poll move the frontier.\<close>

definition advanced :: "chain_fs \<Rightarrow> 'c tail \<Rightarrow> 'c tail \<Rightarrow> bool" where
  "advanced fs t t' \<longleftrightarrow> tl_segment t < tl_segment t' \<and> tl_segment t' \<le> umax 32
     \<or> tl_segment t' = tl_segment t \<and> tl_offset t < tl_offset t'
       \<and> tl_offset t' \<le> length (file_bytes (cf_disk fs) (segment_name (tl_segment t)))"

lemma poll_segment_progress:
  assumes "poll_segment tc dk pc crc fs t delta = Inl (r, t')"
  shows "tl_segment t' = tl_segment t \<and> tl_offset t' = tl_offset t \<or> advanced fs t t'"
proof (cases "map_of (dk_files (cf_disk fs)) (segment_name (tl_segment t))")
  case None
  then show ?thesis using assms by (simp add: poll_segment_def Let_def)
next
  case (Some content)
  let ?bytes = "take MAX_FRAME_BYTES (drop (tl_offset t) content)"
  let ?d = "delta\<lparr>cd_work := (cd_work delta)\<lparr>tw_bytes_read := sat_add 64 (tw_bytes_read (cd_work delta)) (length ?bytes)\<rparr>\<rparr>"
  obtain r1 t1 d1 where scan: "tail_scan tc dk pc crc ?bytes (t, ?d) = (r1, t1, d1)" by (metis prod_cases3)
  note fr = tail_scan_frame [OF scan]
  have content: "file_bytes (cf_disk fs) (segment_name (tl_segment t)) = content" using Some by (simp add: file_bytes_def)
  show ?thesis
  proof (cases "validate_frontier fs t (stamp_read fs (segment_name (tl_segment t)))")
    case (Inl e)
    then show ?thesis using assms Some by (simp add: poll_segment_def Let_def)
  next
    case (Inr u)
    have "tl_segment t' = tl_segment t1" "tl_offset t' = tl_offset t1"
      using assms Some Inr scan unfolding poll_segment_def poll_finish_def Let_def
      by (auto split: sum.splits option.splits if_splits)
    then show ?thesis using fr unfolding advanced_def content by auto
  qed
qed

lemma poll_progress:
  "poll_from tc dk pc crc fs t delta = (r, t') \<Longrightarrow> tl_segment t' = tl_segment t \<and> tl_offset t' = tl_offset t \<or> advanced fs t t'"
proof (induction tc dk pc crc fs t delta rule: poll_from.induct)
  case (1 tc dk pc crc fs t delta)
  show ?case
  proof (cases "poll_segment tc dk pc crc fs t delta")
    case (Inl res)
    then show ?thesis using "1.prems" poll_segment_progress poll_from.simps [of tc dk pc crc fs t delta] by (cases res) simp
  next
    case (Inr td)
    obtain t1 d1 where td: "td = (t1, d1)" by (cases td)
    note step = poll_segment_next [OF Inr [unfolded td]]
    have "poll_from tc dk pc crc fs t1 d1 = (r, t')"
      using "1.prems" Inr td poll_from.simps [of tc dk pc crc fs t delta] by simp
    from "1.IH" [OF Inr td [symmetric] this] step show ?thesis by (auto simp: advanced_def)
  qed
qed

section \<open>Draining\<close>

definition delta_merge :: "chain_delta \<Rightarrow> chain_delta \<Rightarrow> chain_delta" where
  "delta_merge result delta =
     (let w = cd_work result; v = cd_work delta;
          added = fold (\<lambda>(i, pl) m. bm_insert i pl m) (cd_added delta) (cd_added result) in
      \<lparr>cd_added = fold bm_remove (cd_removed delta) added,
       cd_removed = fold bs_insert (cd_removed delta) (cd_removed result),
       cd_work = \<lparr>tw_bytes_read = sat_add 64 (tw_bytes_read w) (tw_bytes_read v),
                  tw_records_decoded = sat_add 64 (tw_records_decoded w) (tw_records_decoded v),
                  tw_undecodable = sat_add 64 (tw_undecodable w) (tw_undecodable v)\<rparr>\<rparr>)"

text \<open>The loop of \<open>drain\<close> over one snapshot of the directory: it polls until the frontier stays.\<close>

function drain_from :: "'c tail_corpus \<Rightarrow> derive_key \<Rightarrow> postcard \<Rightarrow> (bytes \<Rightarrow> u32) \<Rightarrow> chain_fs \<Rightarrow> 'c tail \<Rightarrow> chain_delta
   \<Rightarrow> chain_delta io_result \<times> 'c tail" where
  "drain_from tc dk pc crc fs t result = (case poll tc dk pc crc fs t of
       (Inl e, t') \<Rightarrow> (Inl e, t')
     | (Inr delta, t') \<Rightarrow>
         if tl_segment t' = tl_segment t \<and> tl_offset t' = tl_offset t then (Inr (delta_merge result delta), t')
         else drain_from tc dk pc crc fs t' (delta_merge result delta))"
  by pat_completeness auto
termination
proof (relation "inv_image (less_than <*lex*> less_than) (\<lambda>(tc, dk, pc, crc, fs, t, result).
    (umax 32 - tl_segment t, length (file_bytes (cf_disk fs) (segment_name (tl_segment t))) - tl_offset t))", goal_cases)
  case (2 tc dk pc crc fs t result x t' delta)
  then have "poll_from tc dk pc crc fs t delta_default = (Inr delta, t')" by (simp add: poll_def)
  from poll_progress [OF this] 2 have "advanced fs t t'" by blast
  then show ?case by (auto simp: advanced_def)
qed auto

declare drain_from.simps [simp del]

definition drain :: "'c tail_corpus \<Rightarrow> derive_key \<Rightarrow> postcard \<Rightarrow> (bytes \<Rightarrow> u32) \<Rightarrow> chain_fs \<Rightarrow> 'c tail \<Rightarrow> chain_delta io_result \<times> 'c tail" where
  "drain tc dk pc crc fs t = drain_from tc dk pc crc fs t delta_default"

text \<open>\<open>Tail::open\<close> polls from an empty frontier in the same loop and drops the changes.\<close>

definition tail_open :: "'c tail_corpus \<Rightarrow> derive_key \<Rightarrow> postcard \<Rightarrow> (bytes \<Rightarrow> u32) \<Rightarrow> chain_fs \<Rightarrow> string \<Rightarrow> 'c tail io_result" where
  "tail_open tc dk pc crc fs root = rbind (segment_sequences (cf_disk fs)) (\<lambda>_.
     case drain tc dk pc crc fs (tail_empty tc root) of (Inl e, _) \<Rightarrow> Inl e | (Inr _, t) \<Rightarrow> Inr t)"

end
