(* ===== verification/TailRead.thy ===== *)
theory TailRead
  imports Tail SegmentLog
begin

text \<open>
  What a tail reads: the contract of a corpus (\<open>TailCorpus\<close> in \<open>tail.rs\<close>), its
  interpretation on the canonical and on the indexed chain, and the proof, once for every corpus,
  that draining catches up with the segments and reports exactly the changes of the accepted view.
\<close>

section \<open>Scanning what a segment holds\<close>

lemma collect_scan_records:
  "collect_records items = Inr (ls, tn) \<Longrightarrow> \<exists>rs. scan_records items = Inr rs \<and> map (\<lambda>r. (rr_flags r, rr_data r)) rs = ls
     \<and> RecordItem ` set rs \<subseteq> {it. Inr it \<in> set items}"
proof (induction items arbitrary: ls tn rule: collect_records.induct)
  case (3 r items)
  then obtain ls' where "collect_records items = Inr (ls', tn)" "ls = (rr_flags r, rr_data r) # ls'"
    by (auto simp: rbind_Inr_iff)
  with "3.IH" obtain rs where "scan_records items = Inr rs" "map (\<lambda>r. (rr_flags r, rr_data r)) rs = ls'"
    "RecordItem ` set rs \<subseteq> {it. Inr it \<in> set items}" by blast
  then show ?case using \<open>ls = _\<close> by auto
qed (fastforce split: if_splits)+

lemma scan_layout:
  assumes l: "seg_layout crc bs fs t"
  shows "\<exists>items rs sc. scan_rest crc (scanner_resume bs page) = (items, sc)
    \<and> ps_offset sc = length (raw_frames crc fs) \<and> scan_records items = Inr rs
    \<and> map (\<lambda>r. (rr_flags r, rr_data r)) rs = concat (map snd fs) \<and> (\<forall>r\<in>set rs. located crc bs (RecordItem r))"
proof -
  obtain sq rs k where t: "frame_ok rs" "k < length (raw_frame crc sq rs)" "t = take k (raw_frame crc sq rs)"
    and fs: "\<forall>f\<in>set fs. frame_ok (snd f)" and bs: "bs = raw_frames crc fs @ t"
    using l by (auto simp: seg_layout_def torn_def)
  have "\<forall>(c, e)\<in>set (map (frame_chunk crc) fs). chunk_bytes crc c = Some e"
    using fs frame_chunk_bytes by (fastforce simp: chunk_bytes_def result_to_option_def)
  note scan = scan_torn_resume [OF this frame_chunk_bytes [OF t(1)] t(2), unfolded concat_frame_chunks, folded t(3), folded bs]
  obtain sc where sc: "scan_rest crc (scanner_resume bs page) = (fst (scan_rest crc (scanner_resume bs page)), sc)"
    "ps_offset sc = length (raw_frames crc fs)"
    using scan [of page] by auto
  have same: "fst (scan_rest crc (scanner_resume bs page)) = fst (scan_rest crc (page_scanner_new bs))"
    using scan [of page] scan [of None] by (auto simp: scanner_new_resume)
  have "collect_records (fst (scan_rest crc (scanner_resume bs page))) = Inr (concat (map snd fs), t \<noteq> [])"
    using segment_records_layout [OF l] unfolding segment_records_def same .
  from collect_scan_records [OF this] obtain rs where rs: "scan_records (fst (scan_rest crc (scanner_resume bs page))) = Inr rs"
    "map (\<lambda>r. (rr_flags r, rr_data r)) rs = concat (map snd fs)"
    "RecordItem ` set rs \<subseteq> {it. Inr it \<in> set (fst (scan_rest crc (scanner_resume bs page)))}" by blast
  have "located crc bs (RecordItem r)" if "r \<in> set rs" for r
  proof -
    have "Inr (RecordItem r) \<in> set (fst (scan_rest crc (scanner_resume bs page)))" using rs(3) that by auto
    then show ?thesis using scan_rest_safe [of crc "scanner_resume bs page"] by (auto simp: list_all_iff scanner_resume_def)
  qed
  then show ?thesis using sc rs by blast
qed

text \<open>A frame always fits in one read, so a read that starts at a complete frame sees it.\<close>

lemma seg_layout_take_first:
  assumes "seg_layout crc bs (f # fs) t" and "length (raw_frame crc (fst f) (snd f)) \<le> m"
  shows "\<exists>fs' t' gs. seg_layout crc (take m bs) (f # fs') t' \<and> fs = fs' @ gs"
proof -
  obtain sq rs where f: "f = (sq, rs)" by (cases f)
  let ?f = "raw_frame crc sq rs" and ?rest = "raw_frames crc fs @ t"
  have ok: "frame_ok rs" and bs: "bs = ?f @ ?rest" and rest: "seg_layout crc ?rest fs t"
    using assms(1) by (auto simp: f seg_layout_def raw_frames_def)
  obtain fs' t' gs where "seg_layout crc (take (m - length ?f) ?rest) fs' t'" "fs = fs' @ gs"
    using seg_layout_take [OF rest] by blast
  then have "seg_layout crc (take m bs) (f # fs') t'"
    using assms(2) ok by (simp add: f bs seg_layout_def raw_frames_def)
  then show ?thesis using \<open>fs = _\<close> by blast
qed

lemma raw_frame_fits: "frame_ok rs \<Longrightarrow> length (raw_frame crc sq rs) \<le> MAX_FRAME_BYTES \<and> 0 < length (raw_frame crc sq rs)"
  by (auto simp: length_raw_frame frame_ok_def ec03_consts)

section \<open>The contract of a corpus\<close>

definition view_step :: "admission \<Rightarrow> op_id \<Rightarrow> 'v \<Rightarrow> (op_id \<rightharpoonup> 'v) \<Rightarrow> op_id \<rightharpoonup> 'v" where
  "view_step a i x v = (case a of Accepted \<Rightarrow> v(i \<mapsto> x) | Duplicate \<Rightarrow> v | Conflict \<Rightarrow> v(i := None))"

definition holds_at :: "(bytes \<Rightarrow> u32) \<Rightarrow> disk \<Rightarrow> bytes \<Rightarrow> op_record_location \<Rightarrow> bool" where
  "holds_at crc d b loc \<longleftrightarrow> read_encoded_at crc d loc = Inr b \<and> loc_data_len loc = length b"

text \<open>
  A position in the segments: the end of a complete frame, in a file that was at most appended to
  since the tail last looked at it; and the records before it.
\<close>

definition tail_at :: "(bytes \<Rightarrow> u32) \<Rightarrow> disk \<Rightarrow> chain_fs \<Rightarrow> nat \<Rightarrow> 'c tail \<Rightarrow> bool" where
  "tail_at crc d fs n t \<longleftrightarrow> cf_disk fs = d \<and> (tl_segment t < n \<or> n = 0 \<and> tl_segment t = 0 \<and> tl_observed t = None)
     \<and> (\<exists>fs1. seg_layout crc (take (tl_offset t) (seg_file d (tl_segment t))) fs1 []
          \<and> tl_offset t = length (raw_frames crc fs1) \<and> tl_offset t \<le> length (seg_file d (tl_segment t)))
     \<and> (\<exists>fs2 rest. seg_layout crc (drop (tl_offset t) (seg_file d (tl_segment t))) fs2 rest)
     \<and> validate_frontier fs t (stamp_read fs (segment_name (tl_segment t))) = Inr ()"

definition recs_upto :: "(bytes \<Rightarrow> u32) \<Rightarrow> disk \<Rightarrow> nat \<Rightarrow> nat \<Rightarrow> log_record list" where
  "recs_upto crc d q off = concat (map (\<lambda>i. recs_of crc (seg_file d i)) [0..<q]) @ recs_of crc (take off (seg_file d q))"

text \<open>The tail has seen the present state of its file, if there is one.\<close>

definition observed_current :: "chain_fs \<Rightarrow> 'c tail \<Rightarrow> bool" where
  "observed_current fs t \<longleftrightarrow> tl_observed t = None \<or> tl_observed t = Some (stamp_read fs (segment_name (tl_segment t)))"

text \<open>The evidence a list of records gives.\<close>

definition evset :: "derive_key \<Rightarrow> postcard \<Rightarrow> bytes set \<Rightarrow> (op_id \<times> bytes) set" where
  "evset dk pc B = {(i, b). b \<in> B \<and> (\<exists>p. decode_op dk pc b = Inr p \<and> op_id p = i)}"

lemma evset_simps [simp]:
  "evset dk pc {} = {}"
  "evset dk pc (A \<union> B) = evset dk pc A \<union> evset dk pc B"
  "evset dk pc (insert b B) = (case decode_op dk pc b of Inl _ \<Rightarrow> evset dk pc B | Inr p \<Rightarrow> insert (op_id p, b) (evset dk pc B))"
  by (auto simp: evset_def split: sum.splits)

locale tail_corpus_laws =
  fixes tc :: "'c tail_corpus" and ev :: "'c \<Rightarrow> (op_id \<times> bytes) set" and view :: "'c \<Rightarrow> op_id \<rightharpoonup> 'v"
    and val :: "op \<Rightarrow> op_record_location \<Rightarrow> 'v" and inv :: "'c \<Rightarrow> bool"
    and crc :: "bytes \<Rightarrow> u32" and d :: disk and dk :: derive_key and pc :: postcard
  assumes empty: "inv (tc_empty tc)" "ev (tc_empty tc) = {}" "view (tc_empty tc) = Map.empty"
    and admit: "inv c \<Longrightarrow> holds_at crc d b loc \<Longrightarrow> decode_op dk pc b = Inr p \<Longrightarrow>
      \<exists>c'. tc_admit_record tc p b loc c = (Inr (verdict (ev c) (op_id p) b), c') \<and> inv c'
        \<and> ev c' = insert (op_id p, b) (ev c) \<and> view c' = view_step (verdict (ev c) (op_id p) b) (op_id p) (val p loc) (view c)"
    and undecodable: "inv c \<Longrightarrow> inv (tc_record_undecodable tc c)"
      "ev (tc_record_undecodable tc c) = ev c" "view (tc_record_undecodable tc c) = view c"
    and tail_change: "inv c \<Longrightarrow> inv (tc_record_tail_change tc change c)"
      "ev (tc_record_tail_change tc change c) = ev c" "view (tc_record_tail_change tc change c) = view c"
begin

text \<open>A delta describes how the accepted view went from one corpus to another.\<close>

definition delta_rel :: "'c \<Rightarrow> chain_delta \<Rightarrow> 'c \<Rightarrow> bool" where
  "delta_rel c0 delta c \<longleftrightarrow> bm_wf (cd_added delta) \<and> ev c0 \<subseteq> ev c
     \<and> (\<forall>i\<in>set (cd_removed delta). map_of (cd_added delta) i = None \<and> (\<exists>b. (i, b) \<in> ev c))
     \<and> (\<forall>i pl. map_of (cd_added delta) i = Some pl \<longrightarrow> (\<forall>b. (i, b) \<notin> ev c0))
     \<and> (\<forall>i. view c i = (if i \<in> set (cd_removed delta) then None
          else case map_of (cd_added delta) i of Some pl \<Rightarrow> Some (val (fst pl) (snd pl)) | None \<Rightarrow> view c0 i))
     \<and> (\<forall>i b. (i, b) \<in> ev c \<longrightarrow> (i, b) \<in> ev c0 \<or> i \<in> set (cd_removed delta) \<or> map_of (cd_added delta) i \<noteq> None)"

lemma delta_rel_refl: "delta_rel c delta_default c"
  by (simp add: delta_rel_def delta_default_def)

lemma delta_rel_work: "delta_rel c0 (delta\<lparr>cd_work := w\<rparr>) c = delta_rel c0 delta c"
  by (simp add: delta_rel_def)

lemma delta_rel_same: "delta_rel c0 delta c \<Longrightarrow> ev c' = ev c \<Longrightarrow> view c' = view c \<Longrightarrow> delta_rel c0 delta c'"
  by (simp add: delta_rel_def)

lemma delta_rel_admit:
  assumes rel: "delta_rel c0 delta c" and ev': "ev c' = insert (op_id p, b) (ev c)"
    and view': "view c' = view_step (verdict (ev c) (op_id p) b) (op_id p) (val p loc) (view c)"
  shows "delta_rel c0 (admit_delta (verdict (ev c) (op_id p) b) p loc delta) c'"
proof (cases "ev c" "op_id p" b rule: verdict_cases)
  case dup
  then show ?thesis using assms by (auto simp: admit_delta_def view_step_def delta_rel_def)
next
  case new
  then have "op_id p \<notin> set (cd_removed delta)" "\<forall>b. (op_id p, b) \<notin> ev c0"
    using rel by (auto simp: delta_rel_def)
  then show ?thesis using new assms by (auto simp: admit_delta_def view_step_def delta_rel_def bm_wf_insert)
next
  case conf
  then show ?thesis using assms by (auto simp: admit_delta_def view_step_def delta_rel_def bm_wf_remove)
qed

lemma map_of_fold_insert:
  "bm_wf m \<Longrightarrow> bm_wf (fold (\<lambda>(i, pl) m. bm_insert i pl m) xs m)
     \<and> (bm_wf xs \<longrightarrow> map_of (fold (\<lambda>(i, pl) m. bm_insert i pl m) xs m) = map_of m ++ map_of xs)"
proof (induction xs arbitrary: m)
  case (Cons x xs)
  obtain i pl where x: "x = (i, pl)" by (cases x)
  have "map_of xs i = None" if "bm_wf (x # xs)" using that by (auto simp: x map_of_eq_None_iff)
  then show ?case using Cons.IH [of "bm_insert i pl m"] Cons.prems
    by (auto simp: x bm_wf_insert map_of_bm_insert map_add_def fun_eq_iff split: option.splits)
qed simp

lemma map_of_fold_remove:
  "bm_wf m \<Longrightarrow> bm_wf (fold bm_remove xs m) \<and> map_of (fold bm_remove xs m) = (\<lambda>i. if i \<in> set xs then None else map_of m i)"
  by (induction xs arbitrary: m) (auto simp: bm_wf_remove fun_eq_iff)

lemma set_fold_bs_insert: "set (fold bs_insert xs s) = set s \<union> set xs"
  by (induction xs arbitrary: s) auto

lemma delta_rel_merge:
  assumes one: "delta_rel c0 result c1" and two: "delta_rel c1 delta c2"
  shows "delta_rel c0 (delta_merge result delta) c2"
proof -
  have bm: "bm_wf (cd_added result)" "bm_wf (cd_added delta)" using assms by (simp_all add: delta_rel_def)
  note ins = map_of_fold_insert [OF bm(1), of "cd_added delta"]
  note rem = map_of_fold_remove [OF conjunct1 [OF ins], of "cd_removed delta"]
  have added: "map_of (cd_added (delta_merge result delta)) i
      = (if i \<in> set (cd_removed delta) then None else (map_of (cd_added result) ++ map_of (cd_added delta)) i)" for i
    using ins rem bm by (simp add: delta_merge_def Let_def)
  have removed: "set (cd_removed (delta_merge result delta)) = set (cd_removed result) \<union> set (cd_removed delta)"
    by (simp add: delta_merge_def Let_def set_fold_bs_insert)
  have m1: "bm_wf (cd_added (delta_merge result delta))" using rem by (simp add: delta_merge_def Let_def)
  have m2: "map_of (cd_added (delta_merge result delta)) i = None \<and> (\<exists>b. (i, b) \<in> ev c2)"
    if "i \<in> set (cd_removed result) \<union> set (cd_removed delta)" for i
  proof -
    have r: "\<forall>i\<in>set (cd_removed result). map_of (cd_added result) i = None \<and> (\<exists>b. (i, b) \<in> ev c1)" "ev c1 \<subseteq> ev c2"
      "\<forall>i\<in>set (cd_removed delta). \<exists>b. (i, b) \<in> ev c2"
      using one two by (simp_all add: delta_rel_def)
    moreover have "map_of (cd_added delta) i = None" if "i \<in> set (cd_removed result)"
      using that r(1) two by (cases "map_of (cd_added delta) i") (auto simp: delta_rel_def)
    moreover have "\<exists>b. (i, b) \<in> ev c2" using that r by blast
    ultimately show ?thesis using that unfolding added by (auto simp: map_add_def)
  qed
  have m3: "\<forall>b. (i, b) \<notin> ev c0" if "map_of (cd_added (delta_merge result delta)) i = Some pl" for i pl
    using that one two unfolding added by (auto simp: delta_rel_def map_add_Some_iff split: if_splits)
  have m4: "view c2 i = (if i \<in> set (cd_removed result) \<union> set (cd_removed delta) then None
      else case map_of (cd_added (delta_merge result delta)) i of Some pl \<Rightarrow> Some (val (fst pl) (snd pl)) | None \<Rightarrow> view c0 i)" for i
  proof -
    have "map_of (cd_added delta) i = None" if "i \<in> set (cd_removed result)"
      using that one two by (cases "map_of (cd_added delta) i") (auto simp: delta_rel_def)
    then show ?thesis
      using one two unfolding added by (auto simp: delta_rel_def map_add_def split: option.splits)
  qed
  have m5: "(i, b) \<in> ev c0 \<or> i \<in> set (cd_removed result) \<union> set (cd_removed delta) \<or> map_of (cd_added (delta_merge result delta)) i \<noteq> None"
    if "(i, b) \<in> ev c2" for i b
  proof -
    have "(i, b) \<in> ev c1 \<or> i \<in> set (cd_removed delta) \<or> map_of (cd_added delta) i \<noteq> None"
      using two that unfolding delta_rel_def by blast
    moreover have "(i, b) \<in> ev c1 \<Longrightarrow> (i, b) \<in> ev c0 \<or> i \<in> set (cd_removed result) \<or> map_of (cd_added result) i \<noteq> None"
      using one unfolding delta_rel_def by blast
    ultimately show ?thesis unfolding added map_add_def by (auto split: option.splits)
  qed
  have "ev c0 \<subseteq> ev c1" "ev c1 \<subseteq> ev c2" using one two by (simp_all add: delta_rel_def)
  then have m6: "ev c0 \<subseteq> ev c2" by simp
  show ?thesis
    unfolding delta_rel_def [of c0 "delta_merge result delta"] removed
    by (intro conjI m1 m6 allI ballI impI; (erule m3 [THEN spec] | rule m4 | rule m5 | rule m2 [THEN conjunct1] | rule m2 [THEN conjunct2]); assumption?)
qed

text \<open>Admitting a list of records that the directory holds at the locations the frontier derives.\<close>

lemma tail_admit_ok:
  assumes "inv (tl_chain t)" and "delta_rel c0 delta (tl_chain t)"
    and "\<forall>r\<in>set rs. tl_offset t + rr_data_offset r \<le> umax 64 \<and> length (rr_data r) \<le> umax 32
      \<and> holds_at crc d (rr_data r) \<lparr>loc_segment_seq = tl_segment t, loc_data_offset = tl_offset t + rr_data_offset r,
           loc_data_len = length (rr_data r), loc_checksum = rr_checksum r\<rparr>"
  shows "\<exists>t' delta'. tail_admit tc dk pc rs (t, delta) = (Inr (), t', delta') \<and> inv (tl_chain t')
    \<and> ev (tl_chain t') = ev (tl_chain t) \<union> evset dk pc (rr_data ` set rs) \<and> delta_rel c0 delta' (tl_chain t')"
  using assms
proof (induction rs arbitrary: t delta)
  case (Cons r rs)
  show ?case
  proof (cases "decode_op dk pc (rr_data r)")
    case (Inl e)
    let ?t = "t\<lparr>tl_chain := tc_record_undecodable tc (tl_chain t)\<rparr>"
    let ?d = "delta\<lparr>cd_work := (cd_work delta)\<lparr>tw_undecodable := sat_add 64 (tw_undecodable (cd_work delta)) 1\<rparr>\<rparr>"
    have "inv (tl_chain ?t)" "delta_rel c0 ?d (tl_chain ?t)"
      using Cons.prems undecodable delta_rel_same [of c0 delta "tl_chain t" "tl_chain ?t"] by (simp_all add: delta_rel_work)
    from Cons.IH [OF this] Cons.prems(3) show ?thesis using Inl undecodable by simp
  next
    case (Inr p)
    let ?loc = "\<lparr>loc_segment_seq = tl_segment t, loc_data_offset = tl_offset t + rr_data_offset r,
           loc_data_len = length (rr_data r), loc_checksum = rr_checksum r\<rparr>"
    let ?d = "delta\<lparr>cd_work := (cd_work delta)\<lparr>tw_records_decoded := sat_add 64 (tw_records_decoded (cd_work delta)) 1\<rparr>\<rparr>"
    let ?a = "verdict (ev (tl_chain t)) (op_id p) (rr_data r)"
    have r: "tl_offset t + rr_data_offset r \<le> umax 64" "length (rr_data r) \<le> umax 32" "holds_at crc d (rr_data r) ?loc"
      using Cons.prems(3) by simp_all
    obtain c' where c': "tc_admit_record tc p (rr_data r) ?loc (tl_chain t) = (Inr ?a, c')" "inv c'"
      "ev c' = insert (op_id p, rr_data r) (ev (tl_chain t))" "view c' = view_step ?a (op_id p) (val p ?loc) (view (tl_chain t))"
      using admit [OF Cons.prems(1) r(3) Inr] by blast
    have len: "u32_try_from (length (rr_data r)) = Some (word_of_nat (length (rr_data r)))"
      "unat (word_of_nat (length (rr_data r)) :: u32) = length (rr_data r)"
      using r(2) by (simp_all add: u32_try_from_def unat_word_of_nat_u32)
    have "delta_rel c0 ?d (tl_chain t)" using Cons.prems(2) by (simp add: delta_rel_work)
    from delta_rel_admit [OF this c'(3,4)] have rel: "delta_rel c0 (admit_delta ?a p ?loc ?d) c'" .
    have step: "tail_admit tc dk pc (r # rs) (t, delta) = tail_admit tc dk pc rs (t\<lparr>tl_chain := c'\<rparr>, admit_delta ?a p ?loc ?d)"
      using Inr r(1) len c'(1) by (simp add: checked_add_def Let_def)
    have "\<exists>t' delta'. tail_admit tc dk pc rs (t\<lparr>tl_chain := c'\<rparr>, admit_delta ?a p ?loc ?d) = (Inr (), t', delta') \<and> inv (tl_chain t')
        \<and> ev (tl_chain t') = ev c' \<union> evset dk pc (rr_data ` set rs) \<and> delta_rel c0 delta' (tl_chain t')"
      using Cons.IH [of "t\<lparr>tl_chain := c'\<rparr>" "admit_delta ?a p ?loc ?d"] c'(2) rel Cons.prems(3) by simp
    then show ?thesis unfolding step using Inr c'(3) by simp
  qed
qed simp

text \<open>A frontier: the corpus has admitted exactly the records up to the position of the tail.\<close>

definition frontier :: "chain_fs \<Rightarrow> nat \<Rightarrow> 'c tail \<Rightarrow> bool" where
  "frontier fs n t \<longleftrightarrow> tail_at crc d fs n t \<and> inv (tl_chain t)
     \<and> ev (tl_chain t) = evset dk pc (snd ` set (recs_upto crc d (tl_segment t) (tl_offset t)))"

lemma located_holds:
  assumes "located crc (take m (drop off content)) (RecordItem r)" and "map_of (dk_files d) (segment_name q) = Some content"
    and "off \<le> length content" and "length content \<le> umax 64"
  shows "off + rr_data_offset r \<le> umax 64 \<and> length (rr_data r) \<le> umax 32
    \<and> holds_at crc d (rr_data r) \<lparr>loc_segment_seq = q, loc_data_offset = off + rr_data_offset r,
         loc_data_len = length (rr_data r), loc_checksum = rr_checksum r\<rparr>"
proof -
  let ?n = "length (rr_data r)" and ?o = "rr_data_offset r"
  have slice: "slice_get (take m (drop off content)) ?o (?o + ?n) = Some (rr_data r)" and le: "?n \<le> MAX_RECORD_BYTES"
    and ck: "case rr_checksum r of None \<Rightarrow> True | Some c \<Rightarrow> c = crc (rr_data r)"
    using assms(1) unfolding located_def scan_item.case by blast+
  have b: "?o + ?n \<le> length (take m (drop off content))" "rr_data r = take ?n (drop ?o (take m (drop off content)))"
    using slice by (auto simp: slice_get_Some)
  have "take ?n (drop ?o (take m (drop off content))) = take ?n (drop (off + ?o) content)"
  proof -
    have "?n \<le> m - ?o" using b(1) by auto
    then show ?thesis by (simp add: drop_take min_absorb1 add.commute)
  qed
  then have "slice_get content (off + ?o) (off + ?o + ?n) = Some (rr_data r)"
    using b assms(3) by (auto simp: slice_get_Some)
  then show ?thesis
    using assms(2-4) b(1) le ck by (auto simp: holds_at_def read_encoded_at_def MAX_RECORD_BYTES_def split: option.splits)
qed

lemma tail_scan_layout:
  assumes inv: "inv (tl_chain t)" and rel: "delta_rel c0 delta (tl_chain t)"
    and some: "map_of (dk_files d) (segment_name (tl_segment t)) = Some content" and small: "length content \<le> umax 64"
    and off: "tl_offset t \<le> length content" and lay: "seg_layout crc (take m (drop (tl_offset t) content)) fs rest"
  shows "\<exists>c' delta' page. tail_scan tc dk pc crc (take m (drop (tl_offset t) content)) (t, delta)
      = (Inr (length (raw_frames crc fs) < length (take m (drop (tl_offset t) content))),
         t\<lparr>tl_chain := c', tl_offset := tl_offset t + length (raw_frames crc fs), tl_page := page\<rparr>, delta')
    \<and> inv c' \<and> ev c' = ev (tl_chain t) \<union> evset dk pc (snd ` set (concat (map snd fs)))
    \<and> delta_rel c0 delta' c'"
proof -
  let ?bs = "take m (drop (tl_offset t) content)"
  obtain items rs sc where sc: "scan_rest crc (scanner_resume ?bs (tl_page t)) = (items, sc)"
    "ps_offset sc = length (raw_frames crc fs)"
    and rs: "scan_records items = Inr rs"
      "map (\<lambda>r. (rr_flags r, rr_data r)) rs = concat (map snd fs)" "\<forall>r\<in>set rs. located crc ?bs (RecordItem r)"
    using scan_layout [OF lay] by blast
  have "tl_offset t + rr_data_offset r \<le> umax 64 \<and> length (rr_data r) \<le> umax 32
      \<and> holds_at crc d (rr_data r) \<lparr>loc_segment_seq = tl_segment t, loc_data_offset = tl_offset t + rr_data_offset r,
           loc_data_len = length (rr_data r), loc_checksum = rr_checksum r\<rparr>" if "r \<in> set rs" for r
    using located_holds [OF _ some off small] rs(3) that by blast
  then have ok: "\<forall>r\<in>set rs. tl_offset t + rr_data_offset r \<le> umax 64 \<and> length (rr_data r) \<le> umax 32
      \<and> holds_at crc d (rr_data r) \<lparr>loc_segment_seq = tl_segment t, loc_data_offset = tl_offset t + rr_data_offset r,
           loc_data_len = length (rr_data r), loc_checksum = rr_checksum r\<rparr>" by blast
  from tail_admit_ok [OF inv rel ok] obtain t' delta' where adm: "tail_admit tc dk pc rs (t, delta) = (Inr (), t', delta')"
    "inv (tl_chain t')" "ev (tl_chain t') = ev (tl_chain t) \<union> evset dk pc (rr_data ` set rs)" "delta_rel c0 delta' (tl_chain t')"
    by blast
  have "t' = t\<lparr>tl_chain := tl_chain t'\<rparr>" using tail_admit_frame [OF adm(1)] by (intro tail.equality) simp_all
  moreover have "snd ` set (concat (map snd fs)) = rr_data ` set rs" unfolding rs(2) [symmetric] by (auto simp: image_iff)
  moreover have "length (raw_frames crc fs) \<le> length ?bs" using lay by (simp add: seg_layout_def)
  then have "tl_offset t + length (raw_frames crc fs) \<le> umax 64" using off small by auto
  ultimately have "tail_scan tc dk pc crc ?bs (t, delta) = (Inr (length (raw_frames crc fs) < length ?bs),
      t\<lparr>tl_chain := tl_chain t', tl_offset := tl_offset t + length (raw_frames crc fs), tl_page := ps_page_sequence sc\<rparr>, delta')"
    using sc rs(1) adm(1) tail_admit_frame [OF adm(1)] unfolding tail_scan_def by (simp add: checked_add_def)
  then show ?thesis using adm(2-4) \<open>snd ` set (concat (map snd fs)) = _\<close> by metis
qed

lemma recs_of_whole:
  assumes "seg_layout crc (take off bs) fs1 []" and "seg_layout crc (drop off bs) fs2 rest"
  shows "seg_layout crc bs (fs1 @ fs2) rest"
proof -
  have "bs = take off bs @ drop off bs" by simp
  then show ?thesis using assms unfolding seg_layout_def raw_frames_append by auto
qed

lemma one_read:
  assumes "seg_layout crc bs fs t"
  shows "\<exists>fs' t' gs. seg_layout crc (take MAX_FRAME_BYTES bs) fs' t' \<and> fs = fs' @ gs \<and> (fs \<noteq> [] \<longrightarrow> fs' \<noteq> [])"
proof (cases fs)
  case Nil
  then show ?thesis using seg_layout_take [OF assms] by blast
next
  case (Cons f fs0)
  then have "frame_ok (snd f)" using assms by (simp add: seg_layout_def)
  from seg_layout_take_first [OF assms [unfolded Cons] conjunct1 [OF raw_frame_fits [OF this]]]
  show ?thesis unfolding Cons by (metis append_Cons list.distinct(1))
qed

lemma raw_frames_pos: "\<forall>f\<in>set fs. frame_ok (snd f) \<Longrightarrow> fs \<noteq> [] \<Longrightarrow> 0 < length (raw_frames crc fs)"
  using raw_frame_fits by (cases fs) (auto simp: raw_frames_def)

lemma layout_advance:
  assumes l1: "seg_layout crc (take off bs) fs1 []" "off = length (raw_frames crc fs1)" "off \<le> length bs"
    and l2: "seg_layout crc (drop off bs) fs2 rest" and fs2: "fs2 = fs3 @ gs"
  defines "off' \<equiv> off + length (raw_frames crc fs3)"
  shows "recs_of crc (take off' bs) = concat (map snd fs1) @ concat (map snd fs3)"
    and "seg_layout crc (take off' bs) (fs1 @ fs3) []" and "seg_layout crc (drop off' bs) gs rest" and "off' \<le> length bs"
proof -
  have bs: "bs = raw_frames crc fs1 @ raw_frames crc fs3 @ raw_frames crc gs @ rest"
    using l1 l2 unfolding fs2 seg_layout_def raw_frames_append by (metis append.assoc append_Nil2 append_take_drop_id)
  have ok: "\<forall>f\<in>set (fs1 @ fs3). frame_ok (snd f)" "\<forall>f\<in>set gs. frame_ok (snd f)" "torn crc rest"
    using l1 l2 by (auto simp: seg_layout_def fs2)
  have cut: "take off' bs = raw_frames crc (fs1 @ fs3)" "drop off' bs = raw_frames crc gs @ rest"
    unfolding off'_def l1(2) bs by (simp_all add: raw_frames_append)
  show lay: "seg_layout crc (take off' bs) (fs1 @ fs3) []" and "seg_layout crc (drop off' bs) gs rest"
    using ok torn_empty by (simp_all add: seg_layout_def cut)
  show "recs_of crc (take off' bs) = concat (map snd fs1) @ concat (map snd fs3)" using recs_of_layout [OF lay] by simp
  show "off' \<le> length bs" unfolding off'_def l1(2) bs by simp
qed

text \<open>
  One turn at a frontier: it returns with an advanced frontier, or it returns at a frontier that
  has seen everything, or it goes on at the frontier of the next segment.
\<close>

lemma poll_segment_frontier:
  assumes f: "frontier fs n t" and d: "disk_inv crc d n" and n: "n \<le> umax 32"
    and small: "\<forall>i. length (seg_file d i) \<le> umax 64" and rel: "delta_rel c0 delta (tl_chain t)"
  shows "(\<exists>delta' t'. poll_segment tc dk pc crc fs t delta = Inl (Inr delta', t') \<and> frontier fs n t'
        \<and> observed_current fs t' \<and> delta_rel c0 delta' (tl_chain t')
        \<and> (tl_segment t' = tl_segment t \<and> tl_offset t' = tl_offset t \<longrightarrow> ev (tl_chain t') = evset dk pc (snd ` set (disk_recs crc d))))
    \<or> (\<exists>delta' t'. poll_segment tc dk pc crc fs t delta = Inr (t', delta') \<and> frontier fs n t' \<and> delta_rel c0 delta' (tl_chain t'))"
proof (cases "n = 0")
  case True
  then have none: "map_of (dk_files d) (segment_name (tl_segment t)) = None" and obs: "tl_observed t = None" "tl_segment t = 0"
    using f d disk_inv_file [OF d, of 0] by (auto simp: frontier_def tail_at_def)
  then have "poll_segment tc dk pc crc fs t delta = Inl (Inr delta, t)"
    using f by (simp add: poll_segment_def frontier_def tail_at_def Let_def)
  moreover have "ev (tl_chain t) = evset dk pc (snd ` set (disk_recs crc d))"
    using f True obs none visit_disk_inv(2) [OF d] by (simp add: frontier_def recs_upto_def file_bytes_def)
  moreover have "observed_current fs t" using obs by (simp add: observed_current_def)
  ultimately show ?thesis using f rel by blast
next
  case False
  let ?q = "tl_segment t" and ?off = "tl_offset t"
  let ?file = "seg_file d ?q"
  obtain fs1 fs2 rest where disk: "cf_disk fs = d" and inv: "inv (tl_chain t)" and q: "?q < n"
    and l1: "seg_layout crc (take ?off ?file) fs1 []" "?off = length (raw_frames crc fs1)" "?off \<le> length ?file"
    and l2: "seg_layout crc (drop ?off ?file) fs2 rest"
    and ev: "ev (tl_chain t) = evset dk pc (snd ` set (recs_upto crc d ?q ?off))"
    and val: "validate_frontier fs t (stamp_read fs (segment_name ?q)) = Inr ()"
    using f False by (auto simp: frontier_def tail_at_def)
  have some: "map_of (dk_files d) (segment_name ?q) = Some ?file"
    using disk_inv_file [OF d] disk_inv_bound [OF d q] q by simp
  have whole: "recs_of crc ?file = concat (map snd fs1) @ concat (map snd fs2)"
    using recs_of_layout [OF recs_of_whole [OF l1(1) l2]] by simp
  have before: "recs_of crc (take ?off ?file) = concat (map snd fs1)" using recs_of_layout [OF l1(1)] .
  let ?bytes = "take MAX_FRAME_BYTES (drop ?off ?file)"
  let ?d = "delta\<lparr>cd_work := (cd_work delta)\<lparr>tw_bytes_read := sat_add 64 (tw_bytes_read (cd_work delta)) (length ?bytes)\<rparr>\<rparr>"
  obtain fs3 rest3 gs where l3: "seg_layout crc ?bytes fs3 rest3" "fs2 = fs3 @ gs" "fs2 \<noteq> [] \<longrightarrow> fs3 \<noteq> []"
    using one_read [OF l2] by blast
  have rel': "delta_rel c0 ?d (tl_chain t)" using rel by (simp add: delta_rel_work)
  obtain c' delta' page where scan: "tail_scan tc dk pc crc ?bytes (t, ?d) = (Inr (length (raw_frames crc fs3) < length ?bytes),
      t\<lparr>tl_chain := c', tl_offset := ?off + length (raw_frames crc fs3), tl_page := page\<rparr>, delta')"
    "inv c'" "ev c' = ev (tl_chain t) \<union> evset dk pc (snd ` set (concat (map snd fs3)))" "delta_rel c0 delta' c'"
    using tail_scan_layout [OF inv rel' some _ l1(3) l3(1)] small by blast
  define current where "current = stamp_read fs (segment_name ?q)"
  define incomplete where "incomplete = (length (raw_frames crc fs3) < length ?bytes \<and> st_length current \<le> sat_add 64 ?off (length ?bytes))"
  define c2 where "c2 = (if tl_incomplete t \<noteq> incomplete then tc_record_tail_change tc incomplete c' else c')"
  define t2 where "t2 = t\<lparr>tl_chain := c2, tl_offset := ?off + length (raw_frames crc fs3), tl_page := page,
      tl_incomplete := incomplete, tl_observed := Some current\<rparr>"
  have t2: "tl_chain t2 = c2" "tl_segment t2 = ?q" "tl_offset t2 = ?off + length (raw_frames crc fs3)" "tl_observed t2 = Some current"
    by (simp_all add: t2_def)
  have oc: "observed_current fs t2" by (simp add: observed_current_def t2 current_def)
  have c2: "inv c2" "ev c2 = ev c'" "view c2 = view c'" using scan(2) tail_change by (simp_all add: c2_def)
  have rel2: "delta_rel c0 delta' c2" using delta_rel_same [OF scan(4) c2(2,3)] .
  have turn: "poll_segment tc dk pc crc fs t delta = (if ?off < tl_offset t2 then Inl (Inr delta', t2)
      else case checked_add 32 ?q 1 of None \<Rightarrow> Inl (Inl (invalid_data ''segment sequence exhausted''), t2)
        | Some q \<Rightarrow> if map_of (dk_files d) (segment_name q) = None then Inl (Inr delta', t2)
            else Inr (t2\<lparr>tl_sealed := bm_insert ?q current (tl_sealed t2), tl_segment := q, tl_offset := 0,
                  tl_page := None, tl_observed := None, tl_incomplete := False\<rparr>, delta'))"
  proof -
    let ?t1 = "t\<lparr>tl_chain := c', tl_offset := ?off + length (raw_frames crc fs3), tl_page := page\<rparr>"
    have t2: "?t1\<lparr>tl_chain := (if tl_incomplete ?t1 \<noteq> incomplete then tc_record_tail_change tc incomplete (tl_chain ?t1) else tl_chain ?t1),
        tl_incomplete := incomplete, tl_observed := Some current\<rparr> = t2"
      by (simp add: t2_def c2_def)
    have "poll_segment tc dk pc crc fs t delta = poll_finish tc fs t current (length ?bytes) (length (raw_frames crc fs3) < length ?bytes) ?t1 delta'"
      using some val scan(1) unfolding poll_segment_def disk Let_def current_def by simp
    then show ?thesis unfolding poll_finish_def Let_def incomplete_def [symmetric] t2 disk .
  qed
  have upto: "recs_upto crc d ?q (tl_offset t2) = recs_upto crc d ?q ?off @ concat (map snd fs3)"
    and l2': "seg_layout crc (take (tl_offset t2) ?file) (fs1 @ fs3) []" "seg_layout crc (drop (tl_offset t2) ?file) gs rest"
      "tl_offset t2 \<le> length ?file"
    using layout_advance [OF l1 l2 l3(2)] before by (simp_all add: t2(3) recs_upto_def)
  have "validate_frontier fs t2 current = Inr ()" by (simp add: validate_frontier_def t2(4) validate_successor_def)
  moreover have "ev c2 = evset dk pc (snd ` set (recs_upto crc d ?q (tl_offset t2)))"
    unfolding c2(2) scan(3) ev upto by (simp only: set_append image_Un evset_simps)
  moreover have "tl_offset t2 = length (raw_frames crc (fs1 @ fs3))" using l1(2) by (simp add: t2(3) raw_frames_append)
  ultimately have f2: "frontier fs n t2"
    using c2(1) disk q l2' unfolding frontier_def tail_at_def t2(1,2) current_def by blast
  show ?thesis
  proof (cases "fs3 = []")
    case False
    then have "?off < tl_offset t2" using l3(1) raw_frames_pos [of fs3] by (simp add: t2(3) seg_layout_def)
    then have "poll_segment tc dk pc crc fs t delta = Inl (Inr delta', t2)" using turn by simp
    then show ?thesis using f2 rel2 oc t2 \<open>?off < tl_offset t2\<close> by (intro disjI1 exI [of _ delta'] exI [of _ t2]) simp
  next
    case True
    then have fs2: "fs2 = []" using l3(3) by blast
    have step: "checked_add 32 ?q 1 = Some (Suc ?q)" using q n by (simp add: checked_add_def)
    have off: "tl_offset t2 = ?off" by (simp add: t2_def True raw_frames_def)
    have all: "recs_upto crc d ?q ?off = concat (map (\<lambda>i. recs_of crc (seg_file d i)) [0..<Suc ?q])"
      by (simp add: recs_upto_def before whole fs2)
    show ?thesis
    proof (cases "Suc ?q < n")
      case True
      have some': "map_of (dk_files d) (segment_name (Suc ?q)) \<noteq> None"
        using disk_inv_file [OF d] disk_inv_bound [OF d True] True by simp
      let ?t3 = "t2\<lparr>tl_sealed := bm_insert ?q current (tl_sealed t2), tl_segment := Suc ?q, tl_offset := 0,
                  tl_page := None, tl_observed := None, tl_incomplete := False\<rparr>"
      have "recs_upto crc d (Suc ?q) 0 = recs_upto crc d ?q ?off" unfolding all by (simp add: recs_upto_def)
      then have "ev c2 = evset dk pc (snd ` set (recs_upto crc d (Suc ?q) 0))" using c2(2) scan(3) ev \<open>fs3 = []\<close> by simp
      moreover have "\<exists>fs rest. seg_layout crc (seg_file d (Suc ?q)) fs rest" using d unfolding disk_inv_def by blast
      ultimately have "frontier fs n ?t3"
        using c2(1) disk True seg_layout_empty unfolding frontier_def tail_at_def
        by (auto simp: t2 validate_frontier_def raw_frames_def intro!: exI [of _ "[]"])
      moreover have "poll_segment tc dk pc crc fs t delta = Inr (?t3, delta')" using turn step off some' by simp
      ultimately show ?thesis using rel2 t2 by (intro disjI2 exI [of _ delta'] exI [of _ ?t3]) simp
    next
      case False
      then have n: "n = Suc ?q" using q by simp
      then have "map_of (dk_files d) (segment_name (Suc ?q)) = None"
        using disk_inv_file [OF d, of "Suc ?q"] \<open>n \<le> umax 32\<close> by simp
      moreover have "ev c2 = evset dk pc (snd ` set (disk_recs crc d))"
        using visit_disk_inv(2) [OF d] c2(2) scan(3) ev all n \<open>fs3 = []\<close> by simp
      moreover have "poll_segment tc dk pc crc fs t delta = Inl (Inr delta', t2)" using turn step off calculation(1) by simp
      ultimately show ?thesis using f2 rel2 oc t2 by (intro disjI1 exI [of _ delta'] exI [of _ t2]) simp
    qed
  qed
qed

definition caught_up :: "'c tail \<Rightarrow> bool" where
  "caught_up t \<longleftrightarrow> ev (tl_chain t) = evset dk pc (snd ` set (disk_recs crc d))"

lemma poll_frontier:
  assumes d: "disk_inv crc d n" "n \<le> umax 32" "\<forall>i. length (seg_file d i) \<le> umax 64"
  shows "frontier fs n t \<Longrightarrow> delta_rel c0 delta (tl_chain t) \<Longrightarrow>
    \<exists>delta' t'. poll_from tc dk pc crc fs t delta = (Inr delta', t') \<and> frontier fs n t' \<and> observed_current fs t' \<and> delta_rel c0 delta' (tl_chain t')
      \<and> (tl_segment t' = tl_segment t \<and> tl_offset t' = tl_offset t \<longrightarrow> caught_up t')"
proof (induction "umax 32 - tl_segment t" arbitrary: t delta rule: less_induct)
  case less
  from poll_segment_frontier [OF less.prems(1) d less.prems(2)] consider
    (return) delta' t' where "poll_segment tc dk pc crc fs t delta = Inl (Inr delta', t')" "frontier fs n t'" "observed_current fs t'"
      "delta_rel c0 delta' (tl_chain t')" "tl_segment t' = tl_segment t \<and> tl_offset t' = tl_offset t \<longrightarrow> caught_up t'"
  | (go_on) delta' t' where "poll_segment tc dk pc crc fs t delta = Inr (t', delta')" "frontier fs n t'" "delta_rel c0 delta' (tl_chain t')"
    unfolding caught_up_def by blast
  then show ?case
  proof cases
    case return
    then show ?thesis using poll_from.simps [of tc dk pc crc fs t delta] by simp
  next
    case go_on
    note seg = poll_segment_next [OF go_on(1)]
    have "umax 32 - tl_segment t' < umax 32 - tl_segment t" using seg by linarith
    from less.hyps [OF this go_on(2,3)] obtain delta2 t2 where
      p: "poll_from tc dk pc crc fs t' delta' = (Inr delta2, t2)" "frontier fs n t2" "observed_current fs t2" "delta_rel c0 delta2 (tl_chain t2)" by blast
    have "tl_segment t2 \<noteq> tl_segment t" using poll_progress [OF p(1)] seg by (auto simp: advanced_def)
    then show ?thesis using go_on(1) p poll_from.simps [of tc dk pc crc fs t delta] by simp
  qed
qed

lemma drain_frontier:
  assumes d: "disk_inv crc d n" "n \<le> umax 32" "\<forall>i. length (seg_file d i) \<le> umax 64"
  shows "frontier fs n t \<Longrightarrow> delta_rel c0 result (tl_chain t) \<Longrightarrow>
    \<exists>delta' t'. drain_from tc dk pc crc fs t result = (Inr delta', t') \<and> frontier fs n t' \<and> observed_current fs t' \<and> delta_rel c0 delta' (tl_chain t')
      \<and> caught_up t'"
proof (induction "(umax 32 - tl_segment t, length (file_bytes (cf_disk fs) (segment_name (tl_segment t))) - tl_offset t)"
    arbitrary: t result rule: wf_induct_rule [OF wf_lex_prod [OF wf_less wf_less]])
  case 1
  note IH = this(1) and fr = this(2) and rel = this(3)
  obtain delta t' where p: "poll_from tc dk pc crc fs t delta_default = (Inr delta, t')" "frontier fs n t'"
    "delta_rel (tl_chain t) delta (tl_chain t')" "observed_current fs t'" "tl_segment t' = tl_segment t \<and> tl_offset t' = tl_offset t \<longrightarrow> caught_up t'"
    using poll_frontier [OF d fr delta_rel_refl] by blast
  note rel' = delta_rel_merge [OF rel p(3)]
  show ?case
  proof (cases "tl_segment t' = tl_segment t \<and> tl_offset t' = tl_offset t")
    case True
    then show ?thesis using p rel' drain_from.simps [of tc dk pc crc fs t result] by (simp add: poll_def)
  next
    case False
    then have adv: "advanced fs t t'" using poll_progress [OF p(1)] by blast
    have step: "drain_from tc dk pc crc fs t result = drain_from tc dk pc crc fs t' (delta_merge result delta)"
      using p(1) False drain_from.simps [of tc dk pc crc fs t result] by (auto simp: poll_def)
    show ?thesis unfolding step by (rule IH [OF _ p(2) rel']) (use adv in \<open>auto simp: advanced_def\<close>)
  qed
qed

lemma frontier_empty:
  assumes "disk_inv crc d n" and "cf_disk fs = d"
  shows "frontier fs n (tail_empty tc root)"
proof -
  have "\<exists>fs rest. seg_layout crc (seg_file d 0) fs rest" using assms(1) unfolding disk_inv_def by blast
  then show ?thesis
    using assms(2) seg_layout_empty empty
    by (auto simp: frontier_def tail_at_def tail_empty_def recs_upto_def validate_frontier_def raw_frames_def intro!: exI [of _ "[]"])
qed

lemma drain_catches_up:
  assumes "disk_inv crc d n" "n \<le> umax 32" "\<forall>i. length (seg_file d i) \<le> umax 64" and "frontier fs n t"
  shows "\<exists>delta t'. drain tc dk pc crc fs t = (Inr delta, t') \<and> caught_up t' \<and> frontier fs n t' \<and> observed_current fs t'
    \<and> (\<forall>i\<in>set (cd_removed delta). map_of (cd_added delta) i = None)
    \<and> (\<forall>i. view (tl_chain t') i = (if i \<in> set (cd_removed delta) then None
         else case map_of (cd_added delta) i of Some pl \<Rightarrow> Some (val (fst pl) (snd pl)) | None \<Rightarrow> view (tl_chain t) i))
    \<and> delta_rel (tl_chain t) delta (tl_chain t')"
  using drain_frontier [OF assms delta_rel_refl] unfolding drain_def delta_rel_def [of "tl_chain t"] by blast

end

section \<open>The two corpora keep the contract\<close>

lemma chain_get_admit:
  assumes "chain_view P c"
  shows "chain_get (snd (admit p b loc c)) = view_step (verdict (evidence_rel (cc_evidence c)) (op_id p) b) (op_id p) p (chain_get c)"
proof -
  have "wf_op_set (cc_evidence c)" "bm_wf (cc_accepted c)" using assms by (simp_all add: chain_view_def)
  then show ?thesis
    by (cases "evidence_rel (cc_evidence c)" "op_id p" b rule: verdict_cases)
       (auto simp: admit_verdict chain_get_def view_step_def fun_eq_iff)
qed

interpretation ct: tail_corpus_laws canonical_corpus "\<lambda>c. evidence_rel (cc_evidence c)" chain_get "\<lambda>p _. p" "chain_view (\<lambda>_ _ _. True)" crc d dk pc
  for crc d dk pc
proof unfold_locales
  fix c b loc p
  assume inv: "chain_view (\<lambda>_ _ _. True) c"
  have wf: "wf_op_set (cc_evidence c)" using inv by (simp add: chain_view_def)
  show "\<exists>c'. tc_admit_record canonical_corpus p b loc c = (Inr (verdict (evidence_rel (cc_evidence c)) (op_id p) b), c')
      \<and> chain_view (\<lambda>_ _ _. True) c' \<and> evidence_rel (cc_evidence c') = insert (op_id p, b) (evidence_rel (cc_evidence c))
      \<and> chain_get c' = view_step (verdict (evidence_rel (cc_evidence c)) (op_id p) b) (op_id p) p (chain_get c)"
    using chain_view_admit [OF inv TrueI, where b = b and p = p] chain_get_admit [OF inv, of p b] admit_verdict [OF wf, of p b]
    by (intro exI [of _ "snd (admit p b (Some loc) c)"]) (simp add: canonical_corpus_def)
qed (auto simp: canonical_corpus_def chain_view_default chain_view_def record_undecodable_def record_tail_change_def
      chain_get_def fun_eq_iff chain_default_def sole_def)

text \<open>The indexed chain knows its evidence through the segments.\<close>

definition indexed_inv :: "(bytes \<Rightarrow> u32) \<Rightarrow> disk \<Rightarrow> indexed_chain \<Rightarrow> bool" where
  "indexed_inv crc d c \<longleftrightarrow> (\<forall>i. \<forall>l\<in>set (record_locations c i). \<exists>b. holds_at crc d b l)
     \<and> (\<forall>i. ic_entries c i = None \<longrightarrow> ic_conflicts c i = None)"

definition indexed_ev :: "(bytes \<Rightarrow> u32) \<Rightarrow> disk \<Rightarrow> indexed_chain \<Rightarrow> (op_id \<times> bytes) set" where
  "indexed_ev crc d c = {(i, b). \<exists>l\<in>set (record_locations c i). holds_at crc d b l}"

lemma indexed_inv_empty: "indexed_inv crc d indexed_empty"
  by (simp add: indexed_inv_def indexed_empty_def record_locations_def conflict_locations_def)

lemma holds_at_unique: "holds_at crc d b l \<Longrightarrow> holds_at crc d b' l \<Longrightarrow> b' = b"
  by (simp add: holds_at_def)

lemma find_bytes_holds:
  "\<forall>l\<in>set ls. \<exists>b. holds_at crc d b l \<Longrightarrow> find_bytes (read_encoded_at crc d) b ls = Inr (\<exists>l\<in>set ls. holds_at crc d b l)"
proof (induction ls)
  case (Cons l ls)
  then obtain b' where "holds_at crc d b' l" by auto
  then show ?case using Cons by (auto simp: holds_at_def)
qed simp

lemma indexed_entry:
  assumes "indexed_inv crc d c" and "ic_entries c i = Some e"
  shows "\<exists>b. (i, b) \<in> indexed_ev crc d c"
proof -
  have mem: "en_location e \<in> set (record_locations c i)" by (simp add: record_locations_def assms(2))
  then obtain b where "holds_at crc d b (en_location e)" using assms(1) unfolding indexed_inv_def by blast
  then show ?thesis using mem unfolding indexed_ev_def by blast
qed

lemma indexed_classify_verdict:
  assumes "indexed_inv crc d c"
  shows "indexed_classify crc d c i b = Inr (verdict (indexed_ev crc d c) i b)"
proof (cases "ic_entries c i")
  case None
  then show ?thesis using assms
    by (simp add: indexed_classify_def verdict_def indexed_ev_def indexed_inv_def record_locations_def conflict_locations_def)
next
  case (Some e)
  have locs: "en_location e # conflict_locations c i = record_locations c i" by (simp add: record_locations_def Some)
  have "\<exists>b. (i, b) \<in> indexed_ev crc d c" using indexed_entry [OF assms Some] .
  then show ?thesis
    using assms Some find_bytes_holds [of "record_locations c i" crc d b]
    by (auto simp: indexed_classify_def locs verdict_def indexed_inv_def indexed_ev_def)
qed

lemma indexed_evI:
  assumes inv: "indexed_inv crc d c" and h: "holds_at crc d b loc"
    and locs: "\<And>j. record_locations c' j = (if j = i then record_locations c i @ [loc] else record_locations c j)"
    and none: "\<And>j. ic_entries c' j = None \<Longrightarrow> ic_conflicts c' j = None"
  shows "indexed_inv crc d c'" and "indexed_ev crc d c' = insert (i, b) (indexed_ev crc d c)"
proof -
  have mem: "l \<in> set (record_locations c' j) \<longleftrightarrow> l \<in> set (record_locations c j) \<or> j = i \<and> l = loc" for l j
    unfolding locs by auto
  have "\<exists>b. holds_at crc d b l" if "l \<in> set (record_locations c' j)" for l j
    using that inv h by (cases "j = i \<and> l = loc") (auto simp: mem indexed_inv_def)
  then show "indexed_inv crc d c'" using none by (simp add: indexed_inv_def)
  have "(j, b') \<in> indexed_ev crc d c' \<longleftrightarrow> (j, b') \<in> indexed_ev crc d c \<or> j = i \<and> b' = b" for j b'
    using h holds_at_unique [OF h, of b'] by (auto simp: mem indexed_ev_def)
  then show "indexed_ev crc d c' = insert (i, b) (indexed_ev crc d c)" by auto
qed

lemma indexed_admit_step:
  fixes p :: op
  assumes inv: "indexed_inv crc d c" and h: "holds_at crc d b loc"
  defines "a \<equiv> verdict (indexed_ev crc d c) (op_id p) b"
  shows "\<exists>c'. indexed_admit crc d p b loc c = (Inr a, c') \<and> indexed_inv crc d c'
    \<and> indexed_ev crc d c' = insert (op_id p, b) (indexed_ev crc d c) \<and> indexed_get c' = view_step a (op_id p) p (indexed_get c)
    \<and> ic_stats c' = (ic_stats c)\<lparr>crs_records := sat_add 64 (crs_records (ic_stats c)) 1,
        crs_accepted := (case a of Accepted \<Rightarrow> sat_add 64 (crs_accepted (ic_stats c)) 1 | Duplicate \<Rightarrow> crs_accepted (ic_stats c)
          | Conflict \<Rightarrow> crs_accepted (ic_stats c) - (if indexed_get c (op_id p) \<noteq> None then 1 else 0)),
        crs_duplicates := (if a = Duplicate then sat_add 64 (crs_duplicates (ic_stats c)) 1 else crs_duplicates (ic_stats c)),
        crs_quarantined := (if a = Conflict then sat_add 64 (crs_quarantined (ic_stats c)) (if indexed_get c (op_id p) \<noteq> None then 2 else 1)
          else crs_quarantined (ic_stats c))\<rparr>"
proof -
  note cl = indexed_classify_verdict [OF inv, of "op_id p" b, folded a_def]
  show ?thesis
  proof (cases "indexed_ev crc d c" "op_id p" b rule: verdict_cases)
    case dup
    then show ?thesis using cl inv
      by (auto simp: indexed_admit_def a_def Let_def view_step_def indexed_inv_def indexed_ev_def record_locations_def conflict_locations_def
          indexed_get_def)
  next
    case new
    have none: "ic_entries c (op_id p) = None" "ic_conflicts c (op_id p) = None"
      using new(2) indexed_entry [OF inv] inv unfolding indexed_inv_def by (cases "ic_entries c (op_id p)"; blast)+
    let ?st = "(ic_stats c)\<lparr>crs_records := sat_add 64 (crs_records (ic_stats c)) 1, crs_accepted := sat_add 64 (crs_accepted (ic_stats c)) 1\<rparr>"
    let ?c = "c\<lparr>ic_stats := ?st, ic_entries := (ic_entries c)(op_id p \<mapsto> \<lparr>en_location = loc, en_accepted = Some p\<rparr>)\<rparr>"
    have "indexed_admit crc d p b loc c = (Inr a, ?c)" using cl new(3) by (simp add: indexed_admit_def a_def Let_def)
    moreover have "record_locations ?c j = (if j = op_id p then record_locations c (op_id p) @ [loc] else record_locations c j)" for j
      using none by (simp add: record_locations_def conflict_locations_def)
    moreover have "ic_entries ?c j = None \<Longrightarrow> ic_conflicts ?c j = None" for j
      using inv by (auto simp: indexed_inv_def split: if_splits)
    moreover have "indexed_get ?c = view_step a (op_id p) p (indexed_get c)" using new(3) by (auto simp: indexed_get_def view_step_def a_def)
    ultimately show ?thesis using indexed_evI [OF inv h, of ?c "op_id p"] new(3) by (intro exI [of _ ?c]) (simp add: a_def)
  next
    case conf
    obtain e where e: "ic_entries c (op_id p) = Some e"
      using conf(2) inv by (cases "ic_entries c (op_id p)") (auto simp: indexed_inv_def indexed_ev_def record_locations_def conflict_locations_def)
    have was: "indexed_get c (op_id p) = en_accepted e" by (simp add: indexed_get_def e)
    let ?n = "if en_accepted e \<noteq> None then 2 else 1"
    let ?st = "(ic_stats c)\<lparr>crs_records := sat_add 64 (crs_records (ic_stats c)) 1,
        crs_accepted := crs_accepted (ic_stats c) - (if en_accepted e \<noteq> None then 1 else 0),
        crs_quarantined := sat_add 64 (crs_quarantined (ic_stats c)) ?n\<rparr>"
    let ?c = "c\<lparr>ic_stats := ?st, ic_entries := (ic_entries c)(op_id p \<mapsto> e\<lparr>en_accepted := None\<rparr>),
        ic_conflicts := (ic_conflicts c)(op_id p \<mapsto> conflict_locations c (op_id p) @ [loc])\<rparr>"
    have "indexed_admit crc d p b loc c = (Inr a, ?c)"
      using cl conf(3) e by (simp add: indexed_admit_def a_def Let_def conflict_locations_def)
    moreover have "record_locations ?c j = (if j = op_id p then record_locations c (op_id p) @ [loc] else record_locations c j)" for j
      using e by (simp add: record_locations_def conflict_locations_def)
    moreover have "ic_entries ?c j = None \<Longrightarrow> ic_conflicts ?c j = None" for j
      using inv by (auto simp: indexed_inv_def split: if_splits)
    moreover have "indexed_get ?c = view_step a (op_id p) p (indexed_get c)" using conf(3) by (auto simp: indexed_get_def view_step_def a_def)
    ultimately show ?thesis using indexed_evI [OF inv h, of ?c "op_id p"] conf(3) was by (intro exI [of _ ?c]) (simp add: a_def)
  qed
qed

text \<open>
  The accepted operations with their locations. Every location reads back a record of its identity, an
  identity is accepted exactly when the evidence holds a single record of it, and that record decodes to
  the operation the index shares.
\<close>

definition indexed_view :: "indexed_chain \<Rightarrow> op_id \<rightharpoonup> op \<times> op_record_location" where
  "indexed_view c i = (case ic_entries c i of None \<Rightarrow> None | Some e \<Rightarrow> map_option (\<lambda>p. (p, en_location e)) (en_accepted e))"

definition indexed_ok :: "derive_key \<Rightarrow> postcard \<Rightarrow> (bytes \<Rightarrow> u32) \<Rightarrow> disk \<Rightarrow> indexed_chain \<Rightarrow> bool" where
  "indexed_ok dk pc crc d c \<longleftrightarrow> indexed_inv crc d c \<and> finite (dom (ic_entries c))
     \<and> (\<forall>(i, b)\<in>indexed_ev crc d c. \<exists>p. decode_op dk pc b = Inr p \<and> op_id p = i)
     \<and> (\<forall>i p. indexed_get c i = Some p \<longleftrightarrow> (\<exists>b. sole (indexed_ev crc d c) i b \<and> decode_op dk pc b = Inr p))"

lemma indexed_view_admit:
  "indexed_admit crc d p b loc c = (Inr a, c') \<Longrightarrow> indexed_view c' = view_step a (op_id p) (p, loc) (indexed_view c)
     \<and> dom (ic_entries c') \<subseteq> insert (op_id p) (dom (ic_entries c))"
  by (auto simp: indexed_admit_def Let_def view_step_def indexed_view_def fun_eq_iff split: sum.splits admission.splits option.splits)

lemma sole_insert:
  "sole (insert (i, b) R) j b' \<longleftrightarrow> (if j = i then b' = b \<and> (\<forall>c. (i, c) \<in> R \<longrightarrow> c = b) else sole R j b')"
proof (cases "j = i")
  case True
  then show ?thesis unfolding sole_iff by (metis insert_iff prod.inject)
qed (simp add: sole_def)

lemma indexed_ok_admit:
  assumes ok: "indexed_ok dk pc crc d c" and h: "holds_at crc d b loc" and dec: "decode_op dk pc b = Inr p"
  shows "\<exists>c'. indexed_admit crc d p b loc c = (Inr (verdict (indexed_ev crc d c) (op_id p) b), c') \<and> indexed_ok dk pc crc d c'
    \<and> indexed_ev crc d c' = insert (op_id p, b) (indexed_ev crc d c)
    \<and> indexed_view c' = view_step (verdict (indexed_ev crc d c) (op_id p) b) (op_id p) (p, loc) (indexed_view c)"
proof -
  let ?R = "indexed_ev crc d c" and ?i = "op_id p"
  let ?a = "verdict ?R ?i b"
  have inv: "indexed_inv crc d c" using ok by (simp add: indexed_ok_def)
  obtain c' where c': "indexed_admit crc d p b loc c = (Inr ?a, c')" "indexed_inv crc d c'" "indexed_ev crc d c' = insert (?i, b) ?R"
    "indexed_get c' = view_step ?a ?i p (indexed_get c)"
    using indexed_admit_step [OF inv h, of p] by blast
  have "finite (dom (ic_entries c'))"
    using conjunct2 [OF indexed_view_admit [OF c'(1)]] ok finite_subset by (fastforce simp: indexed_ok_def)
  moreover have "\<forall>(j, b')\<in>insert (?i, b) ?R. \<exists>q. decode_op dk pc b' = Inr q \<and> op_id q = j"
    using ok dec by (auto simp: indexed_ok_def)
  moreover have "indexed_get c' j = Some q \<longleftrightarrow> (\<exists>b'. sole (insert (?i, b) ?R) j b' \<and> decode_op dk pc b' = Inr q)" for j q
  proof -
    have old: "indexed_get c j = Some q \<longleftrightarrow> (\<exists>b'. sole ?R j b' \<and> decode_op dk pc b' = Inr q)" for j q
      using ok unfolding indexed_ok_def by blast
    show ?thesis
    proof (cases ?R ?i b rule: verdict_cases)
      case dup
      then have "insert (?i, b) ?R = ?R" by blast
      then show ?thesis using old dup by (simp add: c'(4) view_step_def)
    next
      case new
      then show ?thesis using old dec by (auto simp: c'(4) view_step_def sole_insert)
    next
      case conf
      then show ?thesis using old by (auto simp: c'(4) view_step_def sole_insert)
    qed
  qed
  ultimately have "indexed_ok dk pc crc d c'" using c'(2,3) by (simp add: indexed_ok_def)
  then show ?thesis using c' indexed_view_admit [OF c'(1)] by blast
qed

interpretation it: tail_corpus_laws "indexed_corpus crc d" "indexed_ev crc d" indexed_view Pair "indexed_ok dk pc crc d" crc d dk pc
  for crc d dk pc
proof unfold_locales
  fix c b loc p
  assume "indexed_ok dk pc crc d c" "holds_at crc d b loc" "decode_op dk pc b = Inr p"
  from indexed_ok_admit [OF this]
  show "\<exists>c'. tc_admit_record (indexed_corpus crc d) p b loc c = (Inr (verdict (indexed_ev crc d c) (op_id p) b), c')
      \<and> indexed_ok dk pc crc d c' \<and> indexed_ev crc d c' = insert (op_id p, b) (indexed_ev crc d c)
      \<and> indexed_view c' = view_step (verdict (indexed_ev crc d c) (op_id p) b) (op_id p) (p, loc) (indexed_view c)"
    by (auto simp: indexed_corpus_def)
next
  show "indexed_ok dk pc crc d (tc_empty (indexed_corpus crc d))"
    by (auto simp: indexed_corpus_def indexed_empty_def indexed_ok_def indexed_inv_def indexed_ev_def record_locations_def conflict_locations_def
        indexed_get_def sole_def)
next
  fix c assume "indexed_ok dk pc crc d c"
  then show "indexed_ok dk pc crc d (tc_record_undecodable (indexed_corpus crc d) c)"
    by (simp add: indexed_corpus_def indexed_undecodable_def indexed_ok_def indexed_inv_def indexed_ev_def record_locations_def
        conflict_locations_def indexed_get_def)
next
  fix c change assume "indexed_ok dk pc crc d c"
  then show "indexed_ok dk pc crc d (tc_record_tail_change (indexed_corpus crc d) change c)"
    by (simp add: indexed_corpus_def indexed_tail_change_def indexed_ok_def indexed_inv_def indexed_ev_def record_locations_def
        conflict_locations_def indexed_get_def)
qed (auto simp: indexed_corpus_def indexed_empty_def indexed_ev_def record_locations_def conflict_locations_def
      indexed_view_def indexed_undecodable_def indexed_tail_change_def fun_eq_iff)

section \<open>A directory that grows\<close>

text \<open>The frames of a segment are determined by its bytes, so a complete prefix can be cut off.\<close>

lemma seg_layout_cut:
  assumes "seg_layout crc (raw_frames crc fs1 @ x) fs t" and "\<forall>f\<in>set fs1. frame_ok (snd f)"
  shows "\<exists>fs2. seg_layout crc x fs2 t"
  using assms
proof (induction fs1 arbitrary: fs)
  case Nil
  then show ?case by (auto simp: raw_frames_def)
next
  case (Cons f fs1)
  let ?f = "raw_frame crc (fst f) (snd f)" and ?bs = "raw_frames crc (f # fs1) @ x"
  have bs: "?bs = ?f @ raw_frames crc fs1 @ x" by (simp add: raw_frames_def case_prod_beta)
  have whole: "scan_frame crc ?bs = Inr \<lparr>fr_sequence = fst f, fr_length = length ?f, fr_records = raw_body crc (snd f)\<rparr>"
    unfolding bs using Cons.prems(2) by (intro scan_frame_raw) simp
  show ?case
  proof (cases fs)
    case Nil
    then obtain sq rs k where "frame_ok rs" "k < length (raw_frame crc sq rs)" "?bs = take k (raw_frame crc sq rs)"
      using Cons.prems(1) by (auto simp: seg_layout_def torn_def raw_frames_def)
    then show ?thesis using whole scan_frame_prefix [of rs k crc sq] by simp
  next
    case (Cons g gs)
    let ?g = "raw_frame crc (fst g) (snd g)"
    have l: "frame_ok (snd g)" "\<forall>f\<in>set gs. frame_ok (snd f)" "torn crc t" "?bs = ?g @ raw_frames crc gs @ t"
      using Cons.prems(1) Cons by (auto simp: seg_layout_def raw_frames_def case_prod_beta)
    have "length ?g = length ?f" using whole scan_frame_raw [OF l(1), of crc "fst g" "raw_frames crc gs @ t"] unfolding l(4)
      by (metis frame_ref.ext_inject sum.inject(2))
    then have "raw_frames crc fs1 @ x = raw_frames crc gs @ t" using bs l(4) by (metis append_eq_append_conv)
    then have "seg_layout crc (raw_frames crc fs1 @ x) gs t" using l by (simp add: seg_layout_def)
    from Cons.IH [OF this] Cons.prems(2) show ?thesis by simp
  qed
qed

definition grown :: "chain_fs \<Rightarrow> chain_fs \<Rightarrow> nat \<Rightarrow> bool" where
  "grown fs0 fs1 n0 \<longleftrightarrow> (\<forall>i. prefix (seg_file (cf_disk fs0) i) (seg_file (cf_disk fs1) i)
     \<and> (map_of (dk_files (cf_disk fs0)) (segment_name i) \<noteq> None \<longrightarrow> map_of (dk_files (cf_disk fs1)) (segment_name i) \<noteq> None)
     \<and> (Suc i < n0 \<longrightarrow> seg_file (cf_disk fs1) i = seg_file (cf_disk fs0) i)
     \<and> validate_successor (stamp_read fs0 (segment_name i)) (stamp_read fs1 (segment_name i)) = Inr ())"

lemma tail_at_grown:
  assumes at: "tail_at crc (cf_disk fs0) fs0 n0 t" and oc: "observed_current fs0 t" and g: "grown fs0 fs1 n0"
    and d: "disk_inv crc (cf_disk fs1) n1" and n: "n0 \<le> n1"
  shows "tail_at crc (cf_disk fs1) fs1 n1 t"
    and "recs_upto crc (cf_disk fs1) (tl_segment t) (tl_offset t) = recs_upto crc (cf_disk fs0) (tl_segment t) (tl_offset t)"
proof -
  let ?q = "tl_segment t" and ?off = "tl_offset t" and ?d0 = "cf_disk fs0" and ?d1 = "cf_disk fs1"
  obtain fs where l: "seg_layout crc (take ?off (seg_file ?d0 ?q)) fs []" "?off = length (raw_frames crc fs)" "?off \<le> length (seg_file ?d0 ?q)"
    using at by (auto simp: tail_at_def)
  have pre: "prefix (seg_file ?d0 ?q) (seg_file ?d1 ?q)" using g by (simp add: grown_def)
  then have take: "take ?off (seg_file ?d1 ?q) = take ?off (seg_file ?d0 ?q)" "?off \<le> length (seg_file ?d1 ?q)"
    using l(3) by (auto simp: prefix_def)
  obtain gs u where whole: "seg_layout crc (seg_file ?d1 ?q) gs u" using d unfolding disk_inv_def by blast
  have "seg_file ?d1 ?q = raw_frames crc fs @ drop ?off (seg_file ?d1 ?q)"
    using l(1) take(1) append_take_drop_id [of ?off "seg_file ?d1 ?q"] by (simp add: seg_layout_def)
  with whole have "seg_layout crc (raw_frames crc fs @ drop ?off (seg_file ?d1 ?q)) gs u" by metis
  from seg_layout_cut [OF this] have "\<exists>fs2. seg_layout crc (drop ?off (seg_file ?d1 ?q)) fs2 u"
    using l(1) unfolding seg_layout_def [of _ _ fs] by blast
  moreover have "validate_frontier fs1 t (stamp_read fs1 (segment_name ?q)) = Inr ()"
    using oc g unfolding observed_current_def grown_def validate_frontier_def
    by (auto simp: validate_successor_def split: if_splits)
  moreover have "?q < n1 \<or> n1 = 0 \<and> ?q = 0 \<and> tl_observed t = None"
    using at n by (auto simp: tail_at_def)
  ultimately show "tail_at crc ?d1 fs1 n1 t" using l take unfolding tail_at_def by metis
  have "recs_of crc (seg_file ?d1 i) = recs_of crc (seg_file ?d0 i)" if "i < ?q" for i
    using that at g by (auto simp: tail_at_def grown_def)
  then have "map (\<lambda>i. recs_of crc (seg_file ?d1 i)) [0..<?q] = map (\<lambda>i. recs_of crc (seg_file ?d0 i)) [0..<?q]" by simp
  then show "recs_upto crc ?d1 ?q ?off = recs_upto crc ?d0 ?q ?off" by (simp only: recs_upto_def take(1))
qed

section \<open>Properties\<close>

lemma evset_evidence: "evset dk pc (snd ` set rs) = evidence_rel (evidence_of dk pc rs)"
  by (simp add: evset_def evidence_rel_of)

text \<open>Admission of a list of records to a corpus.\<close>

fun admit_all :: "'c tail_corpus \<Rightarrow> (op \<times> bytes \<times> op_record_location) list \<Rightarrow> 'c \<Rightarrow> (admission list) io_result \<times> 'c" where
  "admit_all tc [] c = (Inr [], c)"
| "admit_all tc ((p, b, loc) # xs) c = (case tc_admit_record tc p b loc c of
       (Inl e, c') \<Rightarrow> (Inl e, c')
     | (Inr a, c') \<Rightarrow> (case admit_all tc xs c' of
         (Inl e, c'') \<Rightarrow> (Inl e, c'') | (Inr ads, c'') \<Rightarrow> (Inr (a # ads), c'')))"

definition corpora_agree :: "(bytes \<Rightarrow> u32) \<Rightarrow> disk \<Rightarrow> canonical_chain \<Rightarrow> indexed_chain \<Rightarrow> bool" where
  "corpora_agree crc d cc ic \<longleftrightarrow> indexed_ev crc d ic = evidence_rel (cc_evidence cc) \<and> indexed_get ic = chain_get cc
     \<and> ic_stats ic = chain_stats cc"

lemma accepted_count: "bm_wf (cc_accepted c) \<Longrightarrow> length (cc_accepted c) = card (dom (chain_get c))"
proof -
  assume "bm_wf (cc_accepted c)"
  then have "length (cc_accepted c) = card (dom (map_of (cc_accepted c)))"
    unfolding dom_map_of_conv_image_fst by (metis distinct_card increasing_distinct length_map list.set_map)
  then show ?thesis by (simp add: chain_get_def dom_def)
qed

lemma corpora_agree_admit:
  assumes agree: "corpora_agree crc d cc ic" and view: "chain_view (\<lambda>_ _ _. True) cc" and inv: "indexed_inv crc d ic"
    and h: "holds_at crc d b loc" and small: "length (cc_accepted cc) < umax 64"
  shows "\<exists>a cc' ic'. tc_admit_record canonical_corpus p b loc cc = (Inr a, cc') \<and> tc_admit_record (indexed_corpus crc d) p b loc ic = (Inr a, ic')
    \<and> corpora_agree crc d cc' ic' \<and> chain_view (\<lambda>_ _ _. True) cc' \<and> indexed_inv crc d ic'
    \<and> length (cc_accepted cc') \<le> Suc (length (cc_accepted cc))"
proof -
  let ?R = "evidence_rel (cc_evidence cc)" and ?i = "op_id p"
  let ?a = "verdict ?R ?i b" and ?cc = "snd (admit p b (Some loc) cc)"
  have ev: "indexed_ev crc d ic = ?R" and get: "indexed_get ic = chain_get cc" and st: "ic_stats ic = chain_stats cc"
    using agree by (simp_all add: corpora_agree_def)
  have wf: "wf_op_set (cc_evidence cc)" and bm: "bm_wf (cc_accepted cc)"
    and acc: "map_of (cc_accepted cc) ?i \<noteq> None \<longleftrightarrow> (\<exists>b. sole ?R ?i b)"
    using view unfolding chain_view_def by blast+
  have fin: "finite (dom (chain_get cc))"
    by (rule finite_subset [OF _ finite_dom_map_of [of "cc_accepted cc"]]) (auto simp: chain_get_def)
  obtain ic' where ic: "indexed_admit crc d p b loc ic = (Inr ?a, ic')" "indexed_inv crc d ic'" "indexed_ev crc d ic' = insert (?i, b) ?R"
    "indexed_get ic' = view_step ?a (op_id p) p (chain_get cc)"
    and st': "ic_stats ic' = (chain_stats cc)\<lparr>crs_records := sat_add 64 (crs_records (chain_stats cc)) 1,
        crs_accepted := (case ?a of Accepted \<Rightarrow> sat_add 64 (crs_accepted (chain_stats cc)) 1 | Duplicate \<Rightarrow> crs_accepted (chain_stats cc)
          | Conflict \<Rightarrow> crs_accepted (chain_stats cc) - (if chain_get cc ?i \<noteq> None then 1 else 0)),
        crs_duplicates := (if ?a = Duplicate then sat_add 64 (crs_duplicates (chain_stats cc)) 1 else crs_duplicates (chain_stats cc)),
        crs_quarantined := (if ?a = Conflict then sat_add 64 (crs_quarantined (chain_stats cc)) (if chain_get cc ?i \<noteq> None then 2 else 1)
          else crs_quarantined (chain_stats cc))\<rparr>"
    using indexed_admit_step [OF inv h, of p] unfolding ev get st by blast
  have view': "chain_view (\<lambda>_ _ _. True) ?cc" and ev': "evidence_rel (cc_evidence ?cc) = insert (?i, b) ?R"
    using chain_view_admit [OF view TrueI] by blast+
  have get': "chain_get ?cc = view_step ?a (op_id p) p (chain_get cc)" using chain_get_admit [OF view] .
  have some: "chain_get cc ?i \<noteq> None \<longleftrightarrow> (\<exists>b. sole ?R ?i b)" using acc by (simp add: chain_get_def)
  have len: "length (cc_accepted ?cc) = (case ?a of Accepted \<Rightarrow> Suc (length (cc_accepted cc)) | Duplicate \<Rightarrow> length (cc_accepted cc)
      | Conflict \<Rightarrow> length (cc_accepted cc) - (if chain_get cc ?i \<noteq> None then 1 else 0))"
  proof -
    have "bm_wf (cc_accepted ?cc)" using view' by (simp add: chain_view_def)
    then show ?thesis
      unfolding accepted_count [OF bm] accepted_count [OF \<open>bm_wf (cc_accepted ?cc)\<close>] get'
      using fin some by (cases ?R ?i b rule: verdict_cases) (auto simp: view_step_def sole_def domIff dom_fun_upd)
  qed
  have "ic_stats ic' = chain_stats ?cc"
    unfolding st' using admit_verdict [OF wf, of p b "Some loc"] len small some
    by (cases ?a) (simp_all add: chain_stats_def sat_add_exact)
  then have "corpora_agree crc d ?cc ic'" using ic ev' get' by (simp add: corpora_agree_def)
  moreover have "length (cc_accepted ?cc) \<le> Suc (length (cc_accepted cc))" unfolding len by (cases ?a) simp_all
  moreover have "fst (admit p b (Some loc) cc) = ?a" using admit_verdict [OF wf] by simp
  ultimately show ?thesis
    using ic view' by (intro exI [of _ ?a] exI [of _ ?cc] exI [of _ ic']) (simp add: canonical_corpus_def indexed_corpus_def apfst_def map_prod_def case_prod_beta)
qed

lemma admit_all_agree:
  assumes "corpora_agree crc d cc ic" and "chain_view (\<lambda>_ _ _. True) cc" and "indexed_inv crc d ic"
    and "\<forall>(p, b, loc)\<in>set xs. holds_at crc d b loc" and "length (cc_accepted cc) + length xs \<le> umax 64"
  shows "\<exists>ads cc' ic'. admit_all canonical_corpus xs cc = (Inr ads, cc') \<and> admit_all (indexed_corpus crc d) xs ic = (Inr ads, ic')
    \<and> corpora_agree crc d cc' ic' \<and> indexed_inv crc d ic'"
  using assms
proof (induction xs arbitrary: cc ic)
  case (Cons x xs)
  obtain p b loc where x: "x = (p, b, loc)" by (cases x)
  obtain a cc1 ic1 where one: "tc_admit_record canonical_corpus p b loc cc = (Inr a, cc1)"
    "tc_admit_record (indexed_corpus crc d) p b loc ic = (Inr a, ic1)" "corpora_agree crc d cc1 ic1"
    "chain_view (\<lambda>_ _ _. True) cc1" "indexed_inv crc d ic1" "length (cc_accepted cc1) \<le> Suc (length (cc_accepted cc))"
    using corpora_agree_admit [OF Cons.prems(1-3), of b loc p] Cons.prems(4,5) by (auto simp: x)
  have "length (cc_accepted cc1) + length xs \<le> umax 64" using one(6) Cons.prems(5) by simp
  from Cons.IH [OF one(3-5) _ this] Cons.prems(4) obtain ads cc' ic' where
    "admit_all canonical_corpus xs cc1 = (Inr ads, cc')" "admit_all (indexed_corpus crc d) xs ic1 = (Inr ads, ic')"
    "corpora_agree crc d cc' ic'" "indexed_inv crc d ic'" by (auto simp: x)
  then show ?case using one(1,2) by (simp add: x)
qed simp

text \<open>
  C10. The indexed chain, which keeps no record bytes and reads them back from the segments, is
  equivalent to the canonical chain: on any sequence of records that the segments hold at their
  locations both answer the same admissions, accept the same operations, report the same
  statistics, and the indexed locations read back exactly the evidence.
\<close>

theorem indexed_equals_canonical:
  assumes "\<forall>(p, b, loc)\<in>set xs. holds_at crc d b loc" and "length xs \<le> umax 64"
  shows "\<exists>ads cc ic. admit_all canonical_corpus xs chain_default = (Inr ads, cc)
    \<and> admit_all (indexed_corpus crc d) xs indexed_empty = (Inr ads, ic)
    \<and> indexed_get ic = chain_get cc \<and> ic_stats ic = chain_stats cc
    \<and> (\<forall>i b. (i, b) \<in> evidence_rel (cc_evidence cc) \<longleftrightarrow> (\<exists>l\<in>set (record_locations ic i). holds_at crc d b l))"
proof -
  have "corpora_agree crc d chain_default indexed_empty"
    by (auto simp: corpora_agree_def indexed_ev_def chain_default_def indexed_empty_def record_locations_def conflict_locations_def
        indexed_get_def chain_get_def chain_stats_def stats_default_def fun_eq_iff)
  from admit_all_agree [OF this chain_view_default _ assms(1)] assms(2) indexed_inv_empty [of crc d]
  obtain ads cc ic where "admit_all canonical_corpus xs chain_default = (Inr ads, cc)"
    "admit_all (indexed_corpus crc d) xs indexed_empty = (Inr ads, ic)" "corpora_agree crc d cc ic"
    by (auto simp: chain_default_def)
  then show ?thesis by (fastforce simp: corpora_agree_def indexed_ev_def)
qed

definition two_variants :: "(op \<times> bytes \<times> op_record_location) list" where
  "two_variants = [(one_op, [7], \<lparr>loc_segment_seq = 0, loc_data_offset = 0, loc_data_len = 1, loc_checksum = None\<rparr>),
     (one_op, [8], \<lparr>loc_segment_seq = 0, loc_data_offset = 1, loc_data_len = 1, loc_checksum = Some 0\<rparr>)]"

definition two_bytes :: disk where
  "two_bytes = \<lparr>dk_files = [(segment_name 0, [7, 8])], dk_durable = (\<lambda>_. 0), dk_faults = [], dk_locked = False\<rparr>"

theorem indexed_equals_canonical_witness:
  "\<exists>cc ic. admit_all canonical_corpus two_variants chain_default = (Inr [Accepted, Conflict], cc)
     \<and> admit_all (indexed_corpus (\<lambda>_. 0) two_bytes) two_variants indexed_empty = (Inr [Accepted, Conflict], ic)
     \<and> indexed_get ic = chain_get cc \<and> ic_stats ic = chain_stats cc"
proof -
  have "\<forall>(p, b, loc)\<in>set two_variants. holds_at (\<lambda>_. 0) two_bytes b loc"
    by (simp add: two_variants_def two_bytes_def holds_at_def read_encoded_at_def slice_get_def MAX_RECORD_BYTES_def)
  from indexed_equals_canonical [OF this] obtain ads cc ic where r: "admit_all canonical_corpus two_variants chain_default = (Inr ads, cc)"
    "admit_all (indexed_corpus (\<lambda>_. 0) two_bytes) two_variants indexed_empty = (Inr ads, ic)" "indexed_get ic = chain_get cc"
    "ic_stats ic = chain_stats cc" by (auto simp: two_variants_def)
  moreover have "fst (admit_all canonical_corpus two_variants chain_default) = Inr [Accepted, Conflict]"
    by (simp add: two_variants_def canonical_corpus_def admit_def chain_default_def op_insert_def variants_def op_set_new_def Let_def)
  ultimately show ?thesis by auto
qed

text \<open>
  C5. Incremental reading is full reading: a tail opened on a chain and drained after the chain
  has grown, by appends to its last segment and by new segments, holds exactly the evidence of a
  full read of the grown chain, and the changes it reports, no identity being both added and
  removed, turn the accepted view it had into the one it has. Every drain ends and none of its polls fails.
\<close>

theorem tail_incremental_read:
  assumes d0: "disk_inv crc (cf_disk fs0) n0" and d1: "disk_inv crc (cf_disk fs1) n1" and g: "grown fs0 fs1 n0"
    and n: "n0 \<le> n1" "n1 \<le> umax 32" and small: "\<forall>i. length (seg_file (cf_disk fs1) i) \<le> umax 64"
  shows "\<exists>t delta t'. tail_open canonical_corpus dk pc crc fs0 root = Inr t
    \<and> evidence_rel (cc_evidence (tl_chain t)) = evidence_rel (evidence_of dk pc (disk_recs crc (cf_disk fs0)))
    \<and> drain canonical_corpus dk pc crc fs1 t = (Inr delta, t')
    \<and> evidence_rel (cc_evidence (tl_chain t')) = evidence_rel (evidence_of dk pc (disk_recs crc (cf_disk fs1)))
    \<and> (\<forall>i\<in>set (cd_removed delta). map_of (cd_added delta) i = None)
    \<and> (\<forall>i. chain_get (tl_chain t') i = (if i \<in> set (cd_removed delta) then None
         else case map_of (cd_added delta) i of Some pl \<Rightarrow> Some (fst pl) | None \<Rightarrow> chain_get (tl_chain t) i))"
proof -
  have "length (seg_file (cf_disk fs0) i) \<le> umax 64" for i
    using g small unfolding grown_def by (metis le_trans prefix_length_le)
  then have small0: "\<forall>i. length (seg_file (cf_disk fs0) i) \<le> umax 64" ..
  have n0: "n0 \<le> umax 32" using n by simp
  have start: "ct.frontier crc (cf_disk fs0) dk pc fs0 n0 (tail_empty canonical_corpus root)"
    by (rule ct.frontier_empty [OF d0 refl])
  obtain delta0 t where t: "drain canonical_corpus dk pc crc fs0 (tail_empty canonical_corpus root) = (Inr delta0, t)"
    "ct.caught_up crc (cf_disk fs0) dk pc t" "ct.frontier crc (cf_disk fs0) dk pc fs0 n0 t" "observed_current fs0 t"
    using ct.drain_catches_up [OF d0 n0 small0 start] by blast
  have open0: "tail_open canonical_corpus dk pc crc fs0 root = Inr t"
    using d0 t(1) by (simp add: tail_open_def disk_inv_def)
  have "tail_at crc (cf_disk fs0) fs0 n0 t" using t(3) by (simp add: ct.frontier_def)
  note grown = tail_at_grown [OF this t(4) g d1 n(1)]
  have "ct.frontier crc (cf_disk fs1) dk pc fs1 n1 t" using t(3) grown by (simp add: ct.frontier_def)
  from ct.drain_catches_up [OF d1 n(2) small this] t(2) open0 show ?thesis
    unfolding ct.caught_up_def evset_evidence by blast
qed

definition torn_fs :: "nat \<Rightarrow> chain_fs" where
  "torn_fs k = \<lparr>cf_disk = torn_disk k False, cf_identity = (\<lambda>_. (1, 1)), cf_modified = (\<lambda>_. 0), cf_lock_file = False,
     cf_settled = (\<lambda>_. \<lparr>st_identity = (1, 1), st_length = 0, st_modified = 0\<rparr>)\<rparr>"

theorem tail_incremental_read_witness:
  "\<exists>t delta t'. tail_open canonical_corpus (\<lambda>_ b. b) one_postcard (\<lambda>_. 0) (torn_fs 3) ''chain'' = Inr t
     \<and> drain canonical_corpus (\<lambda>_ b. b) one_postcard (\<lambda>_. 0) (torn_fs 5) t = (Inr delta, t')"
proof -
  have d: "disk_inv (\<lambda>_. 0) (cf_disk (torn_fs 3)) 1" "disk_inv (\<lambda>_. 0) (cf_disk (torn_fs 5)) 1"
    using torn_disk_inv [of 3 False] torn_disk_inv [of 5 False] by (simp_all add: torn_fs_def)
  have "prefix (seg_file (torn_disk 3 False) i) (seg_file (torn_disk 5 False) i)" for i
    using take_is_prefix [of 3 "take 5 (raw_frame (\<lambda>_. 0) 0 [])"] by (simp add: torn_disk_file)
  moreover have "validate_successor (stamp_read (torn_fs 3) (segment_name i)) (stamp_read (torn_fs 5) (segment_name i)) = Inr ()" for i
    unfolding stamp_read_def by (simp add: validate_successor_def torn_fs_def torn_disk_file length_raw_frame ec03_consts)
  moreover have "map_of (dk_files (torn_disk 3 False)) (segment_name i) \<noteq> None \<longrightarrow> map_of (dk_files (torn_disk 5 False)) (segment_name i) \<noteq> None" for i
    by (simp add: torn_disk_def)
  ultimately have "grown (torn_fs 3) (torn_fs 5) 1" by (simp add: grown_def torn_fs_def)
  moreover have "\<forall>i. length (seg_file (cf_disk (torn_fs 5)) i) \<le> umax 64"
    by (simp add: torn_fs_def torn_disk_file length_raw_frame ec03_consts)
  ultimately show ?thesis
    using tail_incremental_read [OF d, where dk = "\<lambda>_ b. b" and pc = one_postcard and root = "''chain''"] by auto
qed

end
