(* ===== verification/IndexState.thy ===== *)
theory IndexState
  imports IndexContent TailRead
begin

text \<open>
  The derived state of the chain index (\<open>editchain-index/src/state.rs\<close>): built from a replayed chain, or
  kept up to date by applying the changes of the append frontier. \<open>rd\<close> reads the operation at a location
  and \<open>rc\<close> one content identity. The identities and operations of an indexed chain are visited in identity
  order; the sources visit them in the order of a hash trie, on which no result depends.
\<close>

section \<open>State\<close>

type_synonym op_reader = "op_record_location \<Rightarrow> op io_result"

record index_state =
  is_version :: nat
  is_changes :: change_log
  is_tail :: "indexed_chain tail"
  is_records :: "(op_id, op_record_location) btree_map"
  is_identities :: "op_id btree_set"
  is_aliases :: "(op_id, op_id btree_set) btree_map"
  is_items :: "op_id btree_set"
  is_postings :: "(index_key \<times> op_id btree_set) list"
  is_content :: content_index

definition VERSION :: nat where "VERSION = 3"

definition index_invalid :: "string \<Rightarrow> io_error" where
  "index_invalid message = IoError InvalidData message"

definition chain_identities :: "indexed_chain \<Rightarrow> op_id list" where
  "chain_identities c = sorted_list_of_set (dom (ic_entries c))"

definition shared_ops :: "indexed_chain \<Rightarrow> op list" where
  "shared_ops c = List.map_filter (indexed_get c) (chain_identities c)"

section \<open>One operation\<close>

text \<open>\<open>entry(key).or_default().insert(value)\<close> of an ordered map of sets, and of a hash map of them.\<close>

definition multi_insert :: "'k::linorder \<Rightarrow> 'v::linorder \<Rightarrow> ('k, 'v btree_set) btree_map \<Rightarrow> ('k, 'v btree_set) btree_map" where
  "multi_insert k v m = bm_insert k (bs_insert v (case map_of m k of None \<Rightarrow> [] | Some s \<Rightarrow> s)) m"

definition posting_insert :: "op_id \<Rightarrow> index_key \<Rightarrow> (index_key \<times> op_id btree_set) list \<Rightarrow> (index_key \<times> op_id btree_set) list" where
  "posting_insert i key m = AList.update key (bs_insert i (case map_of m key of None \<Rightarrow> [] | Some s \<Rightarrow> s)) m"

definition posting_remove :: "op_id \<Rightarrow> index_key \<Rightarrow> (index_key \<times> op_id btree_set) list \<Rightarrow> (index_key \<times> op_id btree_set) list" where
  "posting_remove i key m = (case map_of m key of
       None \<Rightarrow> m
     | Some owners \<Rightarrow> let rest = bs_remove i owners in if rest = [] then AList.delete key m else AList.update key rest m)"

definition op_items :: "op \<Rightarrow> op_id list" where
  "op_items p = (case op_op_kind p of
       Activity r \<Rightarrow> item_op (item r) # map item_op (option_list (ActivityModel.session_id r)
         @ option_list (ActivityModel.turn_id r) @ option_list (author_id r))
     | _ \<Rightarrow> [])"

definition op_aliases :: "op \<Rightarrow> op_id list" where
  "op_aliases p = (case op_op_kind p of
       Activity r \<Rightarrow> (case legacy r of None \<Rightarrow> [] | Some l \<Rightarrow> lm_operation l # lm_folded l)
     | _ \<Rightarrow> [])"

definition state_remember :: "op \<Rightarrow> index_state \<Rightarrow> index_state" where
  "state_remember p st = st\<lparr>is_items := bs_extend (op_items p) (is_items st),
     is_aliases := fold (\<lambda>a. multi_insert a (op_id p)) (op_aliases p) (is_aliases st)\<rparr>"

fun add_references :: "blob_source \<Rightarrow> op_id \<Rightarrow> content_reference list \<Rightarrow> nat \<times> content_index \<Rightarrow> (nat \<times> content_index) io_result" where
  "add_references rc own [] rci = Inr rci"
| "add_references rc own (r # rs) rci = rbind (content_add rc r own rci) (add_references rc own rs)"

definition state_add :: "blob_source \<Rightarrow> op \<Rightarrow> op_record_location \<Rightarrow> nat \<times> index_state \<Rightarrow> (nat \<times> index_state) io_result" where
  "state_add rc p location rst =
     (let st = state_remember p (snd rst); refs = op_references p in
      rbind (add_references rc (op_id p) refs (fst rst, is_content st)) (\<lambda>(reads, content).
      Inr (reads, st\<lparr>is_content := content, is_postings := fold (posting_insert (op_id p)) (op_keys p refs) (is_postings st),
        is_records := bm_insert (op_id p) location (is_records st)\<rparr>)))"

definition state_remove :: "op \<Rightarrow> index_state \<Rightarrow> index_state" where
  "state_remove p st = (let refs = op_references p in
     st\<lparr>is_postings := fold (posting_remove (op_id p)) (op_keys p refs) (is_postings st),
        is_content := fold (\<lambda>r. content_remove r (op_id p)) refs (is_content st)\<rparr>)"

fun remember_locations :: "op_reader \<Rightarrow> op_record_location list \<Rightarrow> index_state \<Rightarrow> index_state io_result" where
  "remember_locations rd [] st = Inr st"
| "remember_locations rd (l # ls) st = rbind (rd l) (\<lambda>p. remember_locations rd ls (state_remember p st))"

fun remember_conflicts :: "op_reader \<Rightarrow> op_id list \<Rightarrow> index_state \<Rightarrow> index_state io_result" where
  "remember_conflicts rd [] st = Inr st"
| "remember_conflicts rd (i # is) st =
     rbind (remember_locations rd (record_locations (tl_chain (is_tail st)) i) st) (remember_conflicts rd is)"

section \<open>Building and applying\<close>

fun add_shared :: "blob_source \<Rightarrow> op list \<Rightarrow> nat \<times> index_state \<Rightarrow> (nat \<times> index_state) io_result" where
  "add_shared rc [] rst = Inr rst"
| "add_shared rc (p # ps) rst = (case record_locations (tl_chain (is_tail (snd rst))) (op_id p) of
       [] \<Rightarrow> Inl (index_invalid ''accepted operation has no record location'')
     | location # _ \<Rightarrow> rbind (state_add rc p location rst) (add_shared rc ps))"

text \<open>\<open>State::build\<close> over an opened tail; \<open>fresh\<close> is the generation of the journal.\<close>

definition state_empty :: "indexed_chain tail \<Rightarrow> index_state" where
  "state_empty t = \<lparr>is_version = VERSION, is_changes = change_log_default, is_tail = t, is_records = [], is_identities = [],
     is_aliases = [], is_items = [], is_postings = [], is_content = content_default\<rparr>"

definition state_build :: "op_reader \<Rightarrow> blob_source \<Rightarrow> string io_result \<Rightarrow> indexed_chain tail \<Rightarrow> index_state io_result" where
  "state_build rd rc fresh t =
     (let c = tl_chain t; st = (state_empty t)\<lparr>is_identities := bs_extend (chain_identities c) []\<rparr> in
      rbind (log_initialize fresh (is_changes st)) (\<lambda>(_, changes).
      rbind (add_shared rc (shared_ops c) (0, st\<lparr>is_changes := changes\<rparr>)) (\<lambda>(_, st1).
      remember_conflicts rd (filter (\<lambda>i. indexed_get c i = None) (chain_identities c)) st1)))"

fun remove_records :: "op_reader \<Rightarrow> op_id list \<Rightarrow> index_state \<Rightarrow> index_state io_result" where
  "remove_records rd [] st = Inr st"
| "remove_records rd (i # is) st = (case map_of (is_records st) i of
       None \<Rightarrow> remove_records rd is st
     | Some location \<Rightarrow> rbind (rd location) (\<lambda>p. remove_records rd is (state_remove p (st\<lparr>is_records := bm_remove i (is_records st)\<rparr>))))"

fun add_entries :: "blob_source \<Rightarrow> (op \<times> op_record_location) list \<Rightarrow> nat \<times> index_state \<Rightarrow> (nat \<times> index_state) io_result" where
  "add_entries rc [] rst = Inr rst"
| "add_entries rc ((p, location) # es) rst = rbind (state_add rc p location rst) (add_entries rc es)"

definition state_apply :: "op_reader \<Rightarrow> chain_delta \<Rightarrow> blob_source \<Rightarrow> nat \<times> index_state \<Rightarrow> (nat \<times> index_state \<times> op_id btree_set) io_result" where
  "state_apply rd delta rc rst =
     (let st = (snd rst)\<lparr>is_identities := bs_extend (map fst (cd_added delta)) (bs_extend (cd_removed delta) (is_identities (snd rst)))\<rparr> in
      rbind (remove_records rd (cd_removed delta) st) (\<lambda>st1.
      rbind (remember_conflicts rd (cd_removed delta) st1) (\<lambda>st2.
      rbind (content_refresh rc (fst rst, is_content st2)) (\<lambda>(reads, content, changed).
      rbind (add_entries rc (map snd (cd_added delta)) (reads, st2\<lparr>is_content := content\<rparr>)) (\<lambda>(reads', st3).
      Inr (reads', st3, changed))))))"

section \<open>Comparison\<close>

definition admission_matches :: "index_state \<Rightarrow> index_state \<Rightarrow> bool" where
  "admission_matches st expected \<longleftrightarrow>
     (let a = tl_chain (is_tail st); e = tl_chain (is_tail expected) in
      ic_stats a = ic_stats e \<and> length (chain_identities a) = length (chain_identities e)
      \<and> list_all (\<lambda>i. indexed_get a i = indexed_get e i \<and> record_locations a i = record_locations e i) (chain_identities e))"

definition state_matches :: "index_state \<Rightarrow> index_state \<Rightarrow> bool" where
  "state_matches st expected \<longleftrightarrow> is_version st = is_version expected \<and> is_items st = is_items expected
     \<and> length (is_aliases st) = length (is_aliases expected)
     \<and> list_all (\<lambda>(key, ids). map_of (is_aliases expected) key = Some ids) (is_aliases st)
     \<and> is_identities st = is_identities expected
     \<and> length (is_records st) = length (is_records expected) \<and> is_records st = is_records expected
     \<and> length (is_postings st) = length (is_postings expected)
     \<and> list_all (\<lambda>(key, ids). map_of (is_postings expected) key = Some ids) (is_postings st)
     \<and> content_matches (is_content st) (is_content expected) \<and> admission_matches st expected"

section \<open>Maps of sets\<close>

text \<open>What a map of sets holds: its pairs, with no empty or unsorted set.\<close>

definition multi_ok :: "('k \<rightharpoonup> 'v::linorder list) \<Rightarrow> bool" where
  "multi_ok f \<longleftrightarrow> (\<forall>k s. f k = Some s \<longrightarrow> s \<noteq> [] \<and> increasing s)"

definition pairs :: "('k \<rightharpoonup> 'v list) \<Rightarrow> ('k \<times> 'v) set" where
  "pairs f = {(k, v). \<exists>s. f k = Some s \<and> v \<in> set s}"

definition with_pair :: "'k \<Rightarrow> 'v::linorder \<Rightarrow> ('k \<rightharpoonup> 'v list) \<Rightarrow> 'k \<rightharpoonup> 'v list" where
  "with_pair k v f = f(k \<mapsto> bs_insert v (case f k of None \<Rightarrow> [] | Some s \<Rightarrow> s))"

definition without_pair :: "'k \<Rightarrow> 'v \<Rightarrow> ('k \<rightharpoonup> 'v list) \<Rightarrow> 'k \<rightharpoonup> 'v list" where
  "without_pair k v f = (case f k of None \<Rightarrow> f | Some s \<Rightarrow> if bs_remove v s = [] then f(k := None) else f(k \<mapsto> bs_remove v s))"

lemma multi_ext:
  assumes "multi_ok f" "multi_ok g" "pairs f = pairs g"
  shows "f = g"
proof
  fix k
  have mem: "(\<exists>s. f k = Some s \<and> v \<in> set s) \<longleftrightarrow> (\<exists>s. g k = Some s \<and> v \<in> set s)" for v
    using assms(3) unfolding pairs_def by (auto simp: set_eq_iff)
  have ok: "\<And>s. f k = Some s \<Longrightarrow> s \<noteq> [] \<and> increasing s" "\<And>s. g k = Some s \<Longrightarrow> s \<noteq> [] \<and> increasing s"
    using assms(1,2) unfolding multi_ok_def by blast+
  show "f k = g k"
  proof (cases "f k")
    case None
    then have "g k \<noteq> Some s" for s using mem [of "hd s"] ok(2) [of s] by auto
    then show ?thesis using None by (metis not_None_eq)
  next
    case (Some s)
    then obtain s' where s': "g k = Some s'" using mem [of "hd s"] ok(1) by force
    then have "set s = set s'" using mem Some by auto
    then show ?thesis using Some s' ok increasing_unique by metis
  qed
qed

lemma multi_empty [simp]: "multi_ok Map.empty" "pairs Map.empty = {}"
  by (simp_all add: multi_ok_def pairs_def)

lemma with_pair_ok: "multi_ok f \<Longrightarrow> multi_ok (with_pair k v f)"
proof -
  assume "multi_ok f"
  moreover have "bs_insert v s \<noteq> []" for s using set_bs_insert [of v s] by fastforce
  ultimately show ?thesis by (auto simp: multi_ok_def with_pair_def increasing_bs_insert split: option.splits)
qed

lemma pairs_with_pair [simp]: "pairs (with_pair k v f) = insert (k, v) (pairs f)"
  by (auto simp: pairs_def with_pair_def split: option.splits if_splits)

lemma without_pair_ok: "multi_ok f \<Longrightarrow> multi_ok (without_pair k v f)"
  by (auto simp: multi_ok_def without_pair_def increasing_bs_remove split: option.splits)

lemma pairs_without_pair [simp]: "pairs (without_pair k v f) = pairs f - {(k, v)}"
proof (cases "f k")
  case None
  then show ?thesis by (auto simp: pairs_def without_pair_def)
next
  case (Some s)
  have "bs_remove v s = [] \<longleftrightarrow> set s \<subseteq> {v}" using set_bs_remove [of v s] by (metis Diff_eq_empty_iff set_empty)
  then show ?thesis using Some by (auto simp: pairs_def without_pair_def split: if_splits)
qed

lemma map_of_multi_insert: "bm_wf m \<Longrightarrow> map_of (multi_insert k v m) = with_pair k v (map_of m) \<and> bm_wf (multi_insert k v m)"
  by (simp add: multi_insert_def with_pair_def map_of_bm_insert bm_wf_insert)

lemma map_of_posting_insert: "map_of (posting_insert i key m) = with_pair key i (map_of m)"
  by (simp add: posting_insert_def with_pair_def update_conv')

lemma map_of_posting_remove: "map_of (posting_remove i key m) = without_pair key i (map_of m)"
  by (auto simp: posting_remove_def without_pair_def update_conv' delete_conv' Let_def split: option.split)

lemma distinct_posting: "distinct (map fst m) \<Longrightarrow> distinct (map fst (posting_insert i key m))"
  "distinct (map fst m) \<Longrightarrow> distinct (map fst (posting_remove i key m))"
  by (auto simp: posting_insert_def posting_remove_def distinct_update distinct_delete Let_def split: option.split)

lemma fold_multi_insert:
  "bm_wf m \<Longrightarrow> multi_ok (map_of m) \<Longrightarrow> bm_wf (fold (\<lambda>a. multi_insert a i) as m) \<and> multi_ok (map_of (fold (\<lambda>a. multi_insert a i) as m))
     \<and> pairs (map_of (fold (\<lambda>a. multi_insert a i) as m)) = pairs (map_of m) \<union> set as \<times> {i}"
  by (induction as arbitrary: m) (auto simp: map_of_multi_insert with_pair_ok)

lemma fold_posting_insert:
  "distinct (map fst m) \<Longrightarrow> multi_ok (map_of m) \<Longrightarrow> distinct (map fst (fold (posting_insert i) ks m))
     \<and> multi_ok (map_of (fold (posting_insert i) ks m)) \<and> pairs (map_of (fold (posting_insert i) ks m)) = pairs (map_of m) \<union> set ks \<times> {i}"
  by (induction ks arbitrary: m) (auto simp: map_of_posting_insert with_pair_ok distinct_posting)

lemma fold_posting_remove:
  "distinct (map fst m) \<Longrightarrow> multi_ok (map_of m) \<Longrightarrow> distinct (map fst (fold (posting_remove i) ks m))
     \<and> multi_ok (map_of (fold (posting_remove i) ks m)) \<and> pairs (map_of (fold (posting_remove i) ks m)) = pairs (map_of m) - set ks \<times> {i}"
  by (induction ks arbitrary: m) (auto simp: map_of_posting_remove without_pair_ok distinct_posting)

section \<open>Content\<close>

definition owners :: "content_index \<Rightarrow> content_reference \<rightharpoonup> op_id list" where
  "owners ci r = map_option dp_owners (map_of (ci_entries ci) r)"

definition states :: "content_index \<Rightarrow> content_reference \<rightharpoonup> content_state" where
  "states ci r = map_option dp_state (map_of (ci_entries ci) r)"

text \<open>Owned references only, and the pending ones are those that were not available.\<close>

definition content_ok :: "content_index \<Rightarrow> bool" where
  "content_ok ci \<longleftrightarrow> distinct (map fst (ci_entries ci)) \<and> multi_ok (owners ci) \<and> distinct (ci_pending ci)
     \<and> (\<forall>r. r \<in> set (ci_pending ci) \<longleftrightarrow> (\<exists>x. states ci r = Some x \<and> x \<noteq> Available))"

text \<open>The recorded availability is what the source shows.\<close>

definition content_current :: "blob_source \<Rightarrow> content_index \<Rightarrow> bool" where
  "content_current rc ci \<longleftrightarrow> (\<forall>r x. states ci r = Some x \<longrightarrow> reference_state rc r = Inr x)"

lemma dom_owners_states: "owners ci r = None \<longleftrightarrow> states ci r = None"
  by (simp add: owners_def states_def)

lemma content_add_eq:
  assumes "content_add rc r own (n, ci) = Inr (n', ci')"
  shows "owners ci' = with_pair r own (owners ci)"
    and "\<exists>x. (states ci r = Some x \<or> states ci r = None \<and> reference_state rc r = Inr x) \<and> states ci' = (states ci)(r \<mapsto> x)
      \<and> ci_pending ci' = (if states ci r = None \<and> x \<noteq> Available then key_insert r (ci_pending ci) else ci_pending ci)"
    and "distinct (map fst (ci_entries ci)) \<Longrightarrow> distinct (map fst (ci_entries ci'))"
proof -
  have all: "owners ci' = with_pair r own (owners ci) \<and> (\<exists>x. (states ci r = Some x \<or> states ci r = None \<and> reference_state rc r = Inr x) \<and> states ci' = (states ci)(r \<mapsto> x)
      \<and> ci_pending ci' = (if states ci r = None \<and> x \<noteq> Available then key_insert r (ci_pending ci) else ci_pending ci))
    \<and> (distinct (map fst (ci_entries ci)) \<longrightarrow> distinct (map fst (ci_entries ci')))"
  proof (cases "map_of (ci_entries ci) r")
    case None
    then obtain x where x: "reference_state rc r = Inr x" using assms by (auto simp: content_add_def rbind_Inr_iff)
    have ci': "ci' = \<lparr>ci_entries = AList.update r \<lparr>dp_state = x, dp_owners = [own]\<rparr> (AList.update r \<lparr>dp_state = x, dp_owners = []\<rparr> (ci_entries ci)),
         ci_pending = (if x \<noteq> Available then key_insert r (ci_pending ci) else ci_pending ci)\<rparr>"
      using assms None x by (auto simp: content_add_def update_conv')
    show ?thesis using None x
      by (auto simp: ci' owners_def states_def with_pair_def update_conv' fun_eq_iff distinct_update)
  next
    case (Some e)
    then have ci': "ci' = ci\<lparr>ci_entries := AList.update r (e\<lparr>dp_owners := bs_insert own (dp_owners e)\<rparr>) (ci_entries ci)\<rparr>"
      using assms by (auto simp: content_add_def)
    show ?thesis using Some
      by (auto simp: ci' owners_def states_def with_pair_def update_conv' fun_eq_iff distinct_update)
  qed
  then show "owners ci' = with_pair r own (owners ci)"
    and "\<exists>x. (states ci r = Some x \<or> states ci r = None \<and> reference_state rc r = Inr x) \<and> states ci' = (states ci)(r \<mapsto> x)
      \<and> ci_pending ci' = (if states ci r = None \<and> x \<noteq> Available then key_insert r (ci_pending ci) else ci_pending ci)"
    and "distinct (map fst (ci_entries ci)) \<Longrightarrow> distinct (map fst (ci_entries ci'))" by blast+
qed

lemma content_add_ok:
  assumes ok: "content_ok ci" and add: "content_add rc r own (n, ci) = Inr (n', ci')"
  shows "content_ok ci' \<and> pairs (owners ci') = insert (r, own) (pairs (owners ci)) \<and> (content_current rc ci \<longrightarrow> content_current rc ci')"
proof -
  note eq = content_add_eq [OF add]
  obtain x where x: "states ci r = Some x \<or> states ci r = None \<and> reference_state rc r = Inr x" "states ci' = (states ci)(r \<mapsto> x)"
    "ci_pending ci' = (if states ci r = None \<and> x \<noteq> Available then key_insert r (ci_pending ci) else ci_pending ci)"
    using eq(2) by blast
  have pend: "r' \<in> set (ci_pending ci) \<longleftrightarrow> (\<exists>x. states ci r' = Some x \<and> x \<noteq> Available)" for r' using ok by (simp add: content_ok_def)
  have "content_ok ci'"
    unfolding content_ok_def eq(1) x(2,3)
    using ok x(1) pend eq(3) by (auto simp: content_ok_def with_pair_ok key_insert_def)
  moreover have "content_current rc ci \<longrightarrow> content_current rc ci'"
    using x(1) by (auto simp: content_current_def x(2))
  ultimately show ?thesis by (simp add: eq(1))
qed

lemma content_remove_ok:
  assumes ok: "content_ok ci"
  shows "content_ok (content_remove r own ci) \<and> pairs (owners (content_remove r own ci)) = pairs (owners ci) - {(r, own)}
    \<and> (content_current rc ci \<longrightarrow> content_current rc (content_remove r own ci))"
proof -
  let ?ci = "content_remove r own ci"
  have o: "owners ?ci = without_pair r own (owners ci)"
    by (auto simp: content_remove_def owners_def without_pair_def Let_def update_conv' delete_conv' fun_eq_iff split: option.splits)
  have s: "states ?ci r' = (if owners ?ci r' = None then None else states ci r')" for r'
    by (auto simp: content_remove_def owners_def states_def Let_def update_conv' delete_conv' split: option.splits)
  have p: "set (ci_pending ?ci) = {r' \<in> set (ci_pending ci). owners ?ci r' \<noteq> None \<or> owners ci r' = None}" "distinct (ci_pending ?ci)"
    using ok by (auto simp: content_remove_def owners_def Let_def update_conv' delete_conv' content_ok_def distinct_removeAll split: option.splits)
  have d: "distinct (map fst (ci_entries ?ci))"
    using ok by (auto simp: content_remove_def Let_def content_ok_def distinct_update distinct_delete split: option.split)
  have "content_ok ?ci"
    unfolding content_ok_def p(1) s using ok d p(2) dom_owners_states [of ci]
    by (auto simp: content_ok_def o without_pair_ok)
  moreover have "content_current rc ci \<longrightarrow> content_current rc ?ci" by (auto simp: content_current_def s split: if_splits)
  ultimately show ?thesis by (simp add: o)
qed

text \<open>Retrying: the owners stay, the retried states become current and the others stay.\<close>

lemma content_retry_eq:
  assumes "content_ok ci" and "content_retry rc rs (n, ci, ch) = Inr (n', ci', ch')" and "distinct rs" "set rs \<subseteq> set (ci_pending ci)"
  shows "content_ok ci' \<and> owners ci' = owners ci
    \<and> (\<forall>r. states ci' r = (if r \<in> set rs \<and> states ci r \<noteq> None then (case reference_state rc r of Inr x \<Rightarrow> Some x | Inl _ \<Rightarrow> None) else states ci r))
    \<and> (\<forall>r\<in>set rs. \<exists>x. reference_state rc r = Inr x)
    \<and> set ch' = set ch \<union> {i. \<exists>r\<in>set rs. states ci r \<noteq> None \<and> states ci r \<noteq> states ci' r \<and> (r, i) \<in> pairs (owners ci)}"
  using assms
proof (induction rs arbitrary: n ci ch)
  case (Cons r rs)
  obtain x where x: "reference_state rc r = Inr x" using Cons.prems(2) by (auto simp: rbind_Inr_iff)
  define ci1 where "ci1 = \<lparr>ci_entries = (case map_of (ci_entries ci) r of
       Some e \<Rightarrow> if dp_state e \<noteq> x then AList.update r (e\<lparr>dp_state := x\<rparr>) (ci_entries ci) else ci_entries ci | None \<Rightarrow> ci_entries ci),
     ci_pending = (if x = Available then removeAll r (ci_pending ci) else ci_pending ci)\<rparr>"
  define ch1 where "ch1 = (case map_of (ci_entries ci) r of
       Some e \<Rightarrow> if dp_state e \<noteq> x then bs_extend (dp_owners e) ch else ch | None \<Rightarrow> ch)"
  have step: "content_retry rc rs (sat_add 64 n 1, ci1, ch1) = Inr (n', ci', ch')"
    using Cons.prems(2) x by (auto simp: ci1_def ch1_def Let_def split: option.splits if_splits)
  have o: "owners ci1 = owners ci"
    by (auto simp: ci1_def owners_def update_conv' fun_eq_iff split: option.splits)
  have s: "states ci1 r' = (if r' = r \<and> states ci r \<noteq> None then Some x else states ci r')" for r'
    by (auto simp: ci1_def states_def update_conv' split: option.splits)
  have d: "distinct (map fst (ci_entries ci1))" "distinct (ci_pending ci1)"
    using Cons.prems(1) by (auto simp: ci1_def content_ok_def distinct_update distinct_removeAll split: option.split)
  have p: "set (ci_pending ci1) = {r' \<in> set (ci_pending ci). r' = r \<longrightarrow> x \<noteq> Available}" by (auto simp: ci1_def)
  have pend: "r' \<in> set (ci_pending ci) \<longleftrightarrow> (\<exists>y. states ci r' = Some y \<and> y \<noteq> Available)" for r'
    using Cons.prems(1) by (simp add: content_ok_def)
  have rp: "r \<in> set (ci_pending ci)" using Cons.prems(4) by simp
  then have ok: "content_ok ci1"
    using Cons.prems(1) d p pend unfolding content_ok_def o s by auto
  have c1: "set ch1 = set ch \<union> {i. states ci r \<noteq> Some x \<and> (r, i) \<in> pairs (owners ci)}"
    using rp pend [of r] by (auto simp: ch1_def pairs_def owners_def states_def split: option.splits)
  have "set rs \<subseteq> set (ci_pending ci1)" "r \<notin> set rs" using Cons.prems(3,4) by (auto simp: p)
  note ih = Cons.IH [OF ok step _ this(1)] and fresh = this(2)
  have st: "states ci' r' = (if r' \<in> set (r # rs) \<and> states ci r' \<noteq> None then (case reference_state rc r' of Inr x \<Rightarrow> Some x | Inl _ \<Rightarrow> None) else states ci r')" for r'
    using ih Cons.prems(3) fresh x by (auto simp: s)
  have some: "states ci r \<noteq> None" "states ci' r = Some x" using rp pend [of r] st [of r] x by auto
  have "set ch' = set ch \<union> {i. \<exists>r'\<in>set (r # rs). states ci r' \<noteq> None \<and> states ci r' \<noteq> states ci' r' \<and> (r', i) \<in> pairs (owners ci)}"
  proof -
    have "set ch' = set ch1 \<union> {i. \<exists>r'\<in>set rs. states ci1 r' \<noteq> None \<and> states ci1 r' \<noteq> states ci' r' \<and> (r', i) \<in> pairs (owners ci)}"
      using ih Cons.prems(3) o by simp
    moreover have "states ci1 r' = states ci r'" if "r' \<in> set rs" for r' using that fresh by (auto simp: s)
    ultimately show ?thesis using some unfolding c1 by auto
  qed
  moreover have "content_ok ci' \<and> owners ci' = owners ci \<and> (\<forall>r'\<in>set (r # rs). \<exists>x. reference_state rc r' = Inr x)"
    using ih Cons.prems(3) o x by simp
  ultimately show ?case using st by (intro conjI allI) blast+
qed auto

lemma content_refresh_ok:
  assumes ok: "content_ok ci" and run: "content_refresh rc (n, ci) = Inr (n', ci', ch)"
    and keep: "\<forall>r. states ci r = Some Available \<longrightarrow> reference_state rc r = Inr Available"
  shows "content_ok ci' \<and> owners ci' = owners ci \<and> content_current rc ci'
    \<and> (\<forall>i. i \<in> set ch \<longleftrightarrow> (\<exists>r. (r, i) \<in> pairs (owners ci) \<and> states ci r \<noteq> states ci' r))"
proof -
  have d: "distinct (ci_pending ci)" and pend: "\<And>r. r \<in> set (ci_pending ci) \<longleftrightarrow> (\<exists>x. states ci r = Some x \<and> x \<noteq> Available)"
    using ok by (simp_all add: content_ok_def)
  note eq = content_retry_eq [OF ok _ d subset_refl, of rc n "[]" n' ci' ch]
  have run': "content_retry rc (ci_pending ci) (n, ci, []) = Inr (n', ci', ch)" using run by (simp add: content_refresh_def)
  have st: "states ci' r = (if r \<in> set (ci_pending ci) \<and> states ci r \<noteq> None then (case reference_state rc r of Inr x \<Rightarrow> Some x | Inl _ \<Rightarrow> None) else states ci r)"
    and read: "r \<in> set (ci_pending ci) \<Longrightarrow> \<exists>x. reference_state rc r = Inr x" for r
    using eq [OF run'] by blast+
  have "reference_state rc r = Inr x" if "states ci' r = Some x" for r x
  proof (cases "r \<in> set (ci_pending ci)")
    case True
    then show ?thesis using that st [of r] read [of r] pend [of r] by auto
  next
    case False
    then have "states ci r = Some x" using that st [of r] by simp
    moreover from this have "x = Available" using False pend [of r] by auto
    ultimately show ?thesis using keep by simp
  qed
  then have "content_current rc ci'" by (simp add: content_current_def)
  moreover have "i \<in> set ch \<longleftrightarrow> (\<exists>r. (r, i) \<in> pairs (owners ci) \<and> states ci r \<noteq> states ci' r)" for i
  proof -
    have "i \<in> set ch \<longleftrightarrow> (\<exists>r\<in>set (ci_pending ci). states ci r \<noteq> None \<and> states ci r \<noteq> states ci' r \<and> (r, i) \<in> pairs (owners ci))"
      using eq [OF run'] by simp
    also have "\<dots> \<longleftrightarrow> (\<exists>r. (r, i) \<in> pairs (owners ci) \<and> states ci r \<noteq> states ci' r)"
      using st pend by (metis option.discI)
    finally show ?thesis .
  qed
  ultimately show ?thesis using eq [OF run'] by blast
qed

section \<open>What the tables hold\<close>

definition key_pairs :: "(op_id \<rightharpoonup> op \<times> op_record_location) \<Rightarrow> (index_key \<times> op_id) set" where
  "key_pairs v = {(k, i). \<exists>p l. v i = Some (p, l) \<and> k \<in> set (op_keys p (op_references p))}"

definition reference_pairs :: "(op_id \<rightharpoonup> op \<times> op_record_location) \<Rightarrow> (content_reference \<times> op_id) set" where
  "reference_pairs v = {(r, i). \<exists>p l. v i = Some (p, l) \<and> r \<in> set (op_references p)}"

text \<open>The tables of the accepted operations, and the tables that remember every variant.\<close>

definition tables :: "(op_id \<rightharpoonup> op \<times> op_record_location) \<Rightarrow> index_state \<Rightarrow> bool" where
  "tables v st \<longleftrightarrow> bm_wf (is_records st) \<and> (\<forall>i. map_of (is_records st) i = map_option snd (v i))
     \<and> distinct (map fst (is_postings st)) \<and> multi_ok (map_of (is_postings st)) \<and> pairs (map_of (is_postings st)) = key_pairs v
     \<and> content_ok (is_content st) \<and> pairs (owners (is_content st)) = reference_pairs v"

definition remembers :: "op set \<Rightarrow> index_state \<Rightarrow> bool" where
  "remembers Q st \<longleftrightarrow> increasing (is_items st) \<and> set (is_items st) = (\<Union>p\<in>Q. set (op_items p))
     \<and> bm_wf (is_aliases st) \<and> multi_ok (map_of (is_aliases st))
     \<and> pairs (map_of (is_aliases st)) = {(a, i). \<exists>p\<in>Q. i = op_id p \<and> a \<in> set (op_aliases p)}"

definition same_frame :: "index_state \<Rightarrow> index_state \<Rightarrow> bool" where
  "same_frame st st' \<longleftrightarrow> is_version st' = is_version st \<and> is_changes st' = is_changes st \<and> is_tail st' = is_tail st
     \<and> is_identities st' = is_identities st"

lemma same_frame_trans: "same_frame a b \<Longrightarrow> same_frame b c \<Longrightarrow> same_frame a c"
  by (simp add: same_frame_def)

lemma same_frame_refl [simp]: "same_frame a a"
  by (simp add: same_frame_def)

lemma remember_ok:
  assumes "remembers Q st"
  shows "remembers (insert p Q) (state_remember p st)" "same_frame st (state_remember p st)"
    "tables v (state_remember p st) = tables v st" "is_content (state_remember p st) = is_content st"
proof -
  have "bm_wf (is_aliases st)" "multi_ok (map_of (is_aliases st))" using assms by (simp_all add: remembers_def)
  note fold_multi_insert [OF this, of "op_id p" "op_aliases p"]
  then show "remembers (insert p Q) (state_remember p st)"
    using assms by (auto simp: remembers_def state_remember_def increasing_bs_extend)
qed (simp_all add: state_remember_def same_frame_def tables_def)

lemma key_pairs_upd:
  "v i = None \<Longrightarrow> key_pairs (v(i \<mapsto> (p, l))) = key_pairs v \<union> set (op_keys p (op_references p)) \<times> {i}"
  "v i = Some (p, l) \<Longrightarrow> key_pairs (v(i := None)) = key_pairs v - set (op_keys p (op_references p)) \<times> {i}"
  by (auto simp: key_pairs_def)

lemma reference_pairs_upd:
  "v i = None \<Longrightarrow> reference_pairs (v(i \<mapsto> (p, l))) = reference_pairs v \<union> set (op_references p) \<times> {i}"
  "v i = Some (p, l) \<Longrightarrow> reference_pairs (v(i := None)) = reference_pairs v - set (op_references p) \<times> {i}"
  by (auto simp: reference_pairs_def)

lemma add_references_ok:
  "content_ok ci \<Longrightarrow> add_references rc own rs (n, ci) = Inr (n', ci') \<Longrightarrow>
     content_ok ci' \<and> pairs (owners ci') = pairs (owners ci) \<union> set rs \<times> {own} \<and> (content_current rc ci \<longrightarrow> content_current rc ci')"
proof (induction rs arbitrary: n ci)
  case (Cons r rs)
  obtain n1 ci1 where one: "content_add rc r own (n, ci) = Inr (n1, ci1)" and rest: "add_references rc own rs (n1, ci1) = Inr (n', ci')"
    using Cons.prems(2) by (auto simp: rbind_Inr_iff)
  note a = content_add_ok [OF Cons.prems(1) one]
  show ?case using Cons.IH [OF _ rest] a by auto
qed simp

lemma state_add_ok:
  assumes "remembers Q st" "tables v st" "v (op_id p) = None" and "state_add rc p l (n, st) = Inr (n', st')"
  shows "remembers (insert p Q) st' \<and> tables (v(op_id p \<mapsto> (p, l))) st' \<and> same_frame st st'
    \<and> (content_current rc (is_content st) \<longrightarrow> content_current rc (is_content st'))"
proof -
  let ?st = "state_remember p st"
  note r = remember_ok [OF assms(1), where p = p]
  obtain ci where add: "add_references rc (op_id p) (op_references p) (n, is_content st) = Inr (n', ci)"
    and st': "st' = ?st\<lparr>is_content := ci, is_postings := fold (posting_insert (op_id p)) (op_keys p (op_references p)) (is_postings st),
      is_records := bm_insert (op_id p) l (is_records st)\<rparr>"
    using assms(4) r(4) by (auto simp: state_add_def rbind_Inr_iff Let_def) (simp add: state_remember_def)
  have t: "bm_wf (is_records st)" "distinct (map fst (is_postings st))" "multi_ok (map_of (is_postings st))" "content_ok (is_content st)"
    using assms(2) by (simp_all add: tables_def)
  note a = add_references_ok [OF t(4) add] and f = fold_posting_insert [OF t(2,3), of "op_id p" "op_keys p (op_references p)"]
  have "tables (v(op_id p \<mapsto> (p, l))) st'"
    using assms(2,3) a f key_pairs_upd(1) [of v "op_id p" p l] reference_pairs_upd(1) [of v "op_id p" p l]
    by (simp add: tables_def st' bm_wf_insert)
  moreover have "remembers (insert p Q) st'" "same_frame st st'" using r by (simp_all add: st' remembers_def same_frame_def)
  ultimately show ?thesis using a by (simp add: st')
qed

lemma state_remove_ok:
  assumes "tables v st" "v i = Some (p, l)" "op_id p = i"
  shows "tables (v(i := None)) (state_remove p (st\<lparr>is_records := bm_remove i (is_records st)\<rparr>))"
proof -
  have fold: "content_ok ci \<Longrightarrow> content_ok (fold (\<lambda>r. content_remove r i) rs ci)
      \<and> pairs (owners (fold (\<lambda>r. content_remove r i) rs ci)) = pairs (owners ci) - set rs \<times> {i}" for rs ci
    by (induction rs arbitrary: ci) (auto simp: content_remove_ok)
  have t: "distinct (map fst (is_postings st))" "multi_ok (map_of (is_postings st))" "content_ok (is_content st)"
    using assms(1) by (simp_all add: tables_def)
  show ?thesis
    using assms fold [OF t(3), of "op_references p"] fold_posting_remove [OF t(1,2), of i "op_keys p (op_references p)"]
      key_pairs_upd(2) [of v i p l] reference_pairs_upd(2) [of v i p l]
    by (simp add: tables_def state_remove_def Let_def bm_wf_remove)
qed

section \<open>Sequences of operations\<close>

definition variant_ops :: "derive_key \<Rightarrow> postcard \<Rightarrow> (op_id \<times> bytes) set \<Rightarrow> op_id \<Rightarrow> op set" where
  "variant_ops dk pc R i = {p. \<exists>b. (i, b) \<in> R \<and> decode_op dk pc b = Inr p}"

text \<open>The locations of a chain read back exactly the variants of its evidence.\<close>

definition reader_ok :: "derive_key \<Rightarrow> postcard \<Rightarrow> op_reader \<Rightarrow> indexed_chain \<Rightarrow> (op_id \<times> bytes) set \<Rightarrow> bool" where
  "reader_ok dk pc rd c R \<longleftrightarrow> (\<forall>i. (\<forall>l\<in>set (record_locations c i). \<exists>p. rd l = Inr p)
     \<and> {p. \<exists>l\<in>set (record_locations c i). rd l = Inr p} = variant_ops dk pc R i)"

lemma remember_locations_ok:
  "remembers Q st \<Longrightarrow> \<forall>l\<in>set ls. \<exists>p. rd l = Inr p \<Longrightarrow> \<exists>st'. remember_locations rd ls st = Inr st'
     \<and> remembers (Q \<union> {p. \<exists>l\<in>set ls. rd l = Inr p}) st' \<and> same_frame st st' \<and> (\<forall>v. tables v st' = tables v st) \<and> is_content st' = is_content st"
proof (induction ls arbitrary: Q st)
  case (Cons l ls)
  then obtain p where p: "rd l = Inr p" by auto
  note r = remember_ok [OF Cons.prems(1), where p = p]
  have "insert p Q \<union> {p. \<exists>l\<in>set ls. rd l = Inr p} = Q \<union> {p. \<exists>l\<in>set (l # ls). rd l = Inr p}" using p by auto
  then show ?case using Cons.IH [OF r(1)] Cons.prems(2) p r same_frame_trans by fastforce
qed auto

lemma remember_conflicts_ok:
  "remembers Q st \<Longrightarrow> reader_ok dk pc rd (tl_chain (is_tail st)) R \<Longrightarrow> \<exists>st'. remember_conflicts rd is st = Inr st'
     \<and> remembers (Q \<union> (\<Union>i\<in>set is. variant_ops dk pc R i)) st' \<and> same_frame st st' \<and> (\<forall>v. tables v st' = tables v st) \<and> is_content st' = is_content st"
proof (induction "is" arbitrary: Q st)
  case (Cons i "is")
  obtain st1 where one: "remember_locations rd (record_locations (tl_chain (is_tail st)) i) st = Inr st1"
    "remembers (Q \<union> variant_ops dk pc R i) st1" "same_frame st st1" "\<forall>v. tables v st1 = tables v st" "is_content st1 = is_content st"
  proof -
    have locs: "\<forall>l\<in>set (record_locations (tl_chain (is_tail st)) i). \<exists>p. rd l = Inr p"
      "{p. \<exists>l\<in>set (record_locations (tl_chain (is_tail st)) i). rd l = Inr p} = variant_ops dk pc R i"
      using Cons.prems(2) by (simp_all add: reader_ok_def)
    show ?thesis using remember_locations_ok [OF Cons.prems(1) locs(1)] that unfolding locs(2) by blast
  qed
  have "reader_ok dk pc rd (tl_chain (is_tail st1)) R" using Cons.prems(2) one(3) by (simp add: same_frame_def)
  from Cons.IH [OF one(2) this] show ?case using one same_frame_trans by (fastforce simp: Un_assoc)
qed auto

lemma states_fold_remove: "states (fold (\<lambda>r. content_remove r own) rs ci) r' = Some x \<Longrightarrow> states ci r' = Some x"
proof (induction rs arbitrary: ci)
  case (Cons r rs)
  then have "states (content_remove r own ci) r' = Some x" by simp
  then show ?case
    by (cases "map_of (ci_entries ci) r"; cases "r' = r") (auto simp: content_remove_def states_def Let_def update_conv' delete_conv' split: if_splits)
qed simp

lemma remove_records_ok:
  "tables v st \<Longrightarrow> \<forall>i p l. v i = Some (p, l) \<longrightarrow> op_id p = i \<and> rd l = Inr p \<Longrightarrow> \<exists>st'. remove_records rd is st = Inr st'
     \<and> tables (v |` (- set is)) st' \<and> same_frame st st' \<and> (\<forall>Q. remembers Q st' = remembers Q st)
     \<and> (\<forall>r x. states (is_content st') r = Some x \<longrightarrow> states (is_content st) r = Some x)"
proof (induction "is" arbitrary: v st)
  case Nil
  have "v |` (- {}) = v" by (simp add: restrict_map_def)
  then show ?case using Nil by simp
next
  case (Cons i "is")
  have rest: "v |` (- set (i # is)) = (v(i := None)) |` (- set is)" by (auto simp: restrict_map_def fun_eq_iff)
  show ?case
  proof (cases "v i")
    case None
    then have "map_of (is_records st) i = None" "v(i := None) = v" using Cons.prems(1) by (auto simp: tables_def)
    then show ?thesis using Cons.IH [OF Cons.prems] unfolding rest by simp
  next
    case (Some pl)
    obtain p l where pl: "v i = Some (p, l)" "op_id p = i" "rd l = Inr p" using Cons.prems(2) Some by (cases pl) auto
    let ?st = "state_remove p (st\<lparr>is_records := bm_remove i (is_records st)\<rparr>)"
    have "map_of (is_records st) i = Some l" using Cons.prems(1) pl by (simp add: tables_def)
    then have step: "remove_records rd (i # is) st = remove_records rd is ?st" using pl by simp
    have frame: "same_frame st ?st" "\<forall>Q. remembers Q ?st = remembers Q st"
      by (simp_all add: state_remove_def Let_def same_frame_def remembers_def)
    have sub: "states (is_content ?st) r = Some x \<longrightarrow> states (is_content st) r = Some x" for r x
      using states_fold_remove [of i "op_references p" "is_content st" r x] pl(2) by (simp add: state_remove_def Let_def)
    have "\<forall>j q m. (v(i := None)) j = Some (q, m) \<longrightarrow> op_id q = j \<and> rd m = Inr q" using Cons.prems(2) by auto
    from Cons.IH [OF state_remove_ok [OF Cons.prems(1) pl(1,2)] this] show ?thesis
      unfolding step rest using frame sub same_frame_trans by blast
  qed
qed

lemma add_entries_ok:
  assumes "remembers Q st" "tables v st" "distinct (map (\<lambda>e. op_id (fst e)) es)" "\<forall>e\<in>set es. v (op_id (fst e)) = None"
    and "add_entries rc es (n, st) = Inr (n', st')"
  shows "remembers (Q \<union> fst ` set es) st' \<and> tables (v ++ map_of (map (\<lambda>e. (op_id (fst e), e)) es)) st' \<and> same_frame st st'
    \<and> (content_current rc (is_content st) \<longrightarrow> content_current rc (is_content st'))"
  using assms
proof (induction es arbitrary: Q st v n)
  case (Cons e es)
  obtain p l where e: "e = (p, l)" by fastforce
  obtain n1 st1 where one: "state_add rc p l (n, st) = Inr (n1, st1)" and rest: "add_entries rc es (n1, st1) = Inr (n', st')"
    using Cons.prems(5) by (auto simp: e rbind_Inr_iff)
  have none: "v (op_id p) = None" using Cons.prems(4) by (simp add: e)
  note a = state_add_ok [OF Cons.prems(1,2) none one]
  have "op_id p \<notin> dom (map_of (map (\<lambda>e. (op_id (fst e), e)) es))"
    using Cons.prems(3) by (simp add: e dom_map_of_conv_image_fst image_image)
  then have upd: "v(op_id p \<mapsto> (p, l)) ++ map_of (map (\<lambda>e. (op_id (fst e), e)) es) = v ++ map_of (map (\<lambda>e. (op_id (fst e), e)) (e # es))"
    by (simp add: e map_add_upd map_add_upd_left)
  have "\<forall>e'\<in>set es. (v(op_id p \<mapsto> (p, l))) (op_id (fst e')) = None"
    using Cons.prems(3,4) by (force simp: e image_iff)
  note ih = Cons.IH [OF conjunct1 [OF a] conjunct1 [OF conjunct2 [OF a]] _ this rest, unfolded upd]
  have "insert p Q \<union> fst ` set es = Q \<union> fst ` set (e # es)" by (auto simp: e)
  moreover have "distinct (map (\<lambda>e. op_id (fst e)) es)" using Cons.prems(3) by simp
  ultimately show ?case using ih a same_frame_trans [of st st1 st'] by metis
qed simp

section \<open>No failure without an error of the blob source\<close>

text \<open>Adding and retrying contents fail only with the error of a content they read.\<close>

lemma reference_state_error: "reference_state rc r = Inl e \<Longrightarrow> rc (rf_id r) = Inl e"
  by (cases "rc (rf_id r)")
     (auto simp: reference_state_def reference_resolve_def read_blob_default_def split: option.splits)

lemma content_add_error: "content_add rc r own x = Inl e \<Longrightarrow> reference_state rc r = Inl e"
  by (cases x; cases "reference_state rc r") (auto simp: content_add_def split: if_splits)

lemma add_references_error: "add_references rc own rs x = Inl e \<Longrightarrow> \<exists>r\<in>set rs. reference_state rc r = Inl e"
proof (induction rs arbitrary: x)
  case (Cons r rs)
  then show ?case using content_add_error [of rc r own x e] by (cases "content_add rc r own x") auto
qed simp

lemma state_add_error: "state_add rc p l x = Inl e \<Longrightarrow> \<exists>r\<in>set (op_references p). reference_state rc r = Inl e"
  using add_references_error [of rc "op_id p" "op_references p" "(fst x, is_content (state_remember p (snd x)))" e]
  by (cases "add_references rc (op_id p) (op_references p) (fst x, is_content (state_remember p (snd x)))")
     (auto simp: state_add_def Let_def)

lemma add_entries_error:
  "add_entries rc es x = Inl e \<Longrightarrow> \<exists>p\<in>fst ` set es. \<exists>r\<in>set (op_references p). reference_state rc r = Inl e"
proof (induction es arbitrary: x)
  case (Cons en es)
  obtain p l where en: "en = (p, l)" by fastforce
  then show ?case using Cons state_add_error [of rc p l x e] by (cases "state_add rc p l x") auto
qed simp

lemma content_retry_error: "content_retry rc rs acc = Inl e \<Longrightarrow> \<exists>r\<in>set rs. reference_state rc r = Inl e"
proof (induction rs arbitrary: acc)
  case (Cons r rs)
  obtain n ci ch where acc: "acc = (n, ci, ch)" by (cases acc)
  then show ?case using Cons by (cases "reference_state rc r") (auto simp: Let_def split: option.splits prod.splits)
qed auto

section \<open>The index of a chain\<close>

text \<open>A state that indexes a chain with evidence \<open>R\<close> and accepted operations \<open>v\<close>.\<close>

definition index_ok :: "derive_key \<Rightarrow> postcard \<Rightarrow> (op_id \<times> bytes) set \<Rightarrow> (op_id \<rightharpoonup> op \<times> op_record_location) \<Rightarrow> index_state \<Rightarrow> bool" where
  "index_ok dk pc R v st \<longleftrightarrow> is_version st = VERSION \<and> increasing (is_identities st) \<and> set (is_identities st) = fst ` R
     \<and> remembers (\<Union>i. variant_ops dk pc R i) st \<and> tables v st"

text \<open>What the index uses of a chain: accepted operations are the only variants of their identities.\<close>

definition view_ok :: "derive_key \<Rightarrow> postcard \<Rightarrow> op_reader \<Rightarrow> (op_id \<times> bytes) set \<Rightarrow> (op_id \<rightharpoonup> op \<times> op_record_location) \<Rightarrow> bool" where
  "view_ok dk pc rd R v \<longleftrightarrow> (\<forall>i p l. v i = Some (p, l) \<longrightarrow> op_id p = i \<and> rd l = Inr p \<and> variant_ops dk pc R i = {p})"

definition delta_ok :: "(op_id \<times> bytes) set \<Rightarrow> (op_id \<rightharpoonup> op \<times> op_record_location) \<Rightarrow> chain_delta
    \<Rightarrow> (op_id \<times> bytes) set \<Rightarrow> (op_id \<rightharpoonup> op \<times> op_record_location) \<Rightarrow> bool" where
  "delta_ok R v delta R' v' \<longleftrightarrow> bm_wf (cd_added delta) \<and> R \<subseteq> R'
     \<and> (\<forall>i\<in>set (cd_removed delta). map_of (cd_added delta) i = None \<and> (\<exists>b. (i, b) \<in> R'))
     \<and> (\<forall>i pl. map_of (cd_added delta) i = Some pl \<longrightarrow> (\<forall>b. (i, b) \<notin> R))
     \<and> (\<forall>i. v' i = (if i \<in> set (cd_removed delta) then None
          else case map_of (cd_added delta) i of Some pl \<Rightarrow> Some pl | None \<Rightarrow> v i))
     \<and> (\<forall>i b. (i, b) \<in> R' \<longrightarrow> (i, b) \<in> R \<or> i \<in> set (cd_removed delta) \<or> map_of (cd_added delta) i \<noteq> None)"

lemma variant_evidence: "p \<in> variant_ops dk pc R i \<Longrightarrow> i \<in> fst ` R"
  by (force simp: variant_ops_def)

lemma delta_ids:
  assumes "delta_ok R v delta R' v'" and "view_ok dk pc rd R' v'"
  shows "fst ` R' = fst ` R \<union> set (cd_removed delta) \<union> fst ` set (cd_added delta)"
proof -
  have added: "i \<in> fst ` R'" if "map_of (cd_added delta) i = Some pl" for i pl
  proof -
    have "v' i = Some pl" using assms(1) that unfolding delta_ok_def by (metis option.case(2) option.discI)
    then have "fst pl \<in> variant_ops dk pc R' i" using assms(2) unfolding view_ok_def by (metis insertI1 prod.collapse)
    then show ?thesis by (rule variant_evidence)
  qed
  have wf: "bm_wf (cd_added delta)" using assms(1) by (simp add: delta_ok_def)
  have dom: "i \<in> fst ` set (cd_added delta) \<longleftrightarrow> (\<exists>pl. map_of (cd_added delta) i = Some pl)" for i
    using map_of_eq_None_iff [of "cd_added delta" i] by auto
  show ?thesis
  proof (intro equalityI subsetI)
    fix i assume "i \<in> fst ` R'"
    then obtain b where "(i, b) \<in> R'" by force
    then have "(i, b) \<in> R \<or> i \<in> set (cd_removed delta) \<or> map_of (cd_added delta) i \<noteq> None" using assms(1) unfolding delta_ok_def by blast
    then show "i \<in> fst ` R \<union> set (cd_removed delta) \<union> fst ` set (cd_added delta)" using dom [of i] by force
  next
    fix i assume "i \<in> fst ` R \<union> set (cd_removed delta) \<union> fst ` set (cd_added delta)"
    then consider "i \<in> fst ` R" | "i \<in> set (cd_removed delta)" | pl where "map_of (cd_added delta) i = Some pl" using dom [of i] by blast
    then show "i \<in> fst ` R'"
    proof cases
      case 1
      then show ?thesis using assms(1) unfolding delta_ok_def by blast
    next
      case 2
      then have "\<exists>b. (i, b) \<in> R'" using assms(1) unfolding delta_ok_def by blast
      then show ?thesis by force
    qed (rule added)
  qed
qed

lemma delta_variants:
  assumes d: "delta_ok R v delta R' v'" and vo: "view_ok dk pc rd R' v'"
  shows "(\<Union>i. variant_ops dk pc R i) \<union> (\<Union>i\<in>set (cd_removed delta). variant_ops dk pc R' i) \<union> fst ` snd ` set (cd_added delta)
    = (\<Union>i. variant_ops dk pc R' i)"
proof -
  have wf: "bm_wf (cd_added delta)" using d by (simp add: delta_ok_def)
  have view: "v' i = Some pl" if "(i, pl) \<in> set (cd_added delta)" for i pl
  proof -
    have "map_of (cd_added delta) i = Some pl" using that wf by (simp add: map_of_increasing_iff)
    then show ?thesis using d unfolding delta_ok_def by (metis option.case(2) option.discI)
  qed
  have one: "variant_ops dk pc R' i = {fst pl}" if "(i, pl) \<in> set (cd_added delta)" for i pl
    using view [OF that] vo unfolding view_ok_def by (metis prod.collapse)
  have mono: "variant_ops dk pc R i \<subseteq> variant_ops dk pc R' i" for i using d by (auto simp: variant_ops_def delta_ok_def)
  show ?thesis
  proof (intro equalityI subsetI)
    fix p assume "p \<in> (\<Union>i. variant_ops dk pc R' i)"
    then obtain i b where b: "(i, b) \<in> R'" "decode_op dk pc b = Inr p" by (auto simp: variant_ops_def)
    then consider "(i, b) \<in> R" | "i \<in> set (cd_removed delta)" | pl where "(i, pl) \<in> set (cd_added delta)"
      using d unfolding delta_ok_def by (metis map_of_SomeD not_None_eq)
    then show "p \<in> (\<Union>i. variant_ops dk pc R i) \<union> (\<Union>i\<in>set (cd_removed delta). variant_ops dk pc R' i) \<union> fst ` snd ` set (cd_added delta)"
    proof cases
      case (3 pl)
      have "p \<in> variant_ops dk pc R' i" using b by (auto simp: variant_ops_def)
      then have "p = fst (snd (i, pl))" using one [OF 3] by simp
      then show ?thesis using 3 by blast
    qed (use b in \<open>auto simp: variant_ops_def\<close>)
  next
    fix p assume "p \<in> (\<Union>i. variant_ops dk pc R i) \<union> (\<Union>i\<in>set (cd_removed delta). variant_ops dk pc R' i) \<union> fst ` snd ` set (cd_added delta)"
    then consider "p \<in> (\<Union>i. variant_ops dk pc R' i)" | i pl where "(i, pl) \<in> set (cd_added delta)" "p = fst pl"
      using mono by fastforce
    then show "p \<in> (\<Union>i. variant_ops dk pc R' i)" using one by cases blast+
  qed
qed

end
