(* ===== verification/IndexRefresh.thy ===== *)
theory IndexRefresh
  imports IndexState
begin

text \<open>
  Applying the changes of the append frontier keeps the index of the chain, building gives it, and a chain has
  only one index: the lemmas behind incremental refresh, and what of them holds while the directory grows.
\<close>

section \<open>Applying changes\<close>

lemma apply_ok:
  assumes ok: "index_ok dk pc R v st" and old: "view_ok dk pc rd R v" and new: "view_ok dk pc rd R' v'"
    and rd: "reader_ok dk pc rd (tl_chain (is_tail st)) R'" and d: "delta_ok R v delta R' v'"
    and read: "\<And>e r. state_apply rd delta rc (n, st) = Inl e \<Longrightarrow> reference_state rc r \<noteq> Inl e"
    and keep: "\<forall>r. states (is_content st) r = Some Available \<longrightarrow> reference_state rc r = Inr Available"
  shows "\<exists>n' st' ch. state_apply rd delta rc (n, st) = Inr (n', st', ch) \<and> index_ok dk pc R' v' st' \<and> content_current rc (is_content st')
    \<and> is_tail st' = is_tail st \<and> is_changes st' = is_changes st"
proof -
  let ?st0 = "st\<lparr>is_identities := bs_extend (map fst (cd_added delta)) (bs_extend (cd_removed delta) (is_identities st))\<rparr>"
  have t0: "tables v ?st0" "remembers (\<Union>i. variant_ops dk pc R i) ?st0"
    using ok by (simp_all add: index_ok_def tables_def remembers_def)
  obtain st1 where st1: "remove_records rd (cd_removed delta) ?st0 = Inr st1" "tables (v |` (- set (cd_removed delta))) st1"
    "same_frame ?st0 st1" "remembers (\<Union>i. variant_ops dk pc R i) st1"
    "\<forall>r x. states (is_content st1) r = Some x \<longrightarrow> states (is_content st) r = Some x"
    using remove_records_ok [OF t0(1), of rd "cd_removed delta"] old t0(2) by (auto simp: view_ok_def)
  have "reader_ok dk pc rd (tl_chain (is_tail st1)) R'" using rd st1(3) by (simp add: same_frame_def)
  from remember_conflicts_ok [OF st1(4) this, of "cd_removed delta"] obtain st2 where
    st2: "remember_conflicts rd (cd_removed delta) st1 = Inr st2"
      "remembers ((\<Union>i. variant_ops dk pc R i) \<union> (\<Union>i\<in>set (cd_removed delta). variant_ops dk pc R' i)) st2"
      "same_frame st1 st2" "tables (v |` (- set (cd_removed delta))) st2" "is_content st2 = is_content st1"
    using st1(2) by blast
  have ran: "state_apply rd delta rc (n, st) = rbind (content_refresh rc (n, is_content st2)) (\<lambda>(reads, content, changed).
      rbind (add_entries rc (map snd (cd_added delta)) (reads, st2\<lparr>is_content := content\<rparr>)) (\<lambda>(reads', st3). Inr (reads', st3, changed)))"
    using st1(1) st2(1) by (simp add: state_apply_def Let_def)
  obtain n1 ci ch where ref: "content_refresh rc (n, is_content st2) = Inr (n1, ci, ch)"
  proof (cases "content_refresh rc (n, is_content st2)")
    case (Inl e)
    then obtain r where "reference_state rc r = Inl e" using content_retry_error unfolding content_refresh_def by blast
    then show ?thesis using read [of e r] ran Inl by simp
  qed (metis prod_cases3)
  have "content_ok (is_content st2)" using st2(4) by (simp add: tables_def)
  from content_refresh_ok [OF this ref] keep st1(5) st2(5) have
    ci: "content_ok ci" "owners ci = owners (is_content st2)" "content_current rc ci" by auto
  let ?st3 = "st2\<lparr>is_content := ci\<rparr>"
  have st3: "tables (v |` (- set (cd_removed delta))) ?st3"
    "remembers ((\<Union>i. variant_ops dk pc R i) \<union> (\<Union>i\<in>set (cd_removed delta). variant_ops dk pc R' i)) ?st3"
    using st2(2,4) ci by (simp_all add: tables_def remembers_def)
  let ?es = "map snd (cd_added delta)"
  obtain n2 st4 where add: "add_entries rc ?es (n1, ?st3) = Inr (n2, st4)"
  proof (cases "add_entries rc ?es (n1, ?st3)")
    case (Inl e)
    then obtain r where "reference_state rc r = Inl e" using add_entries_error by blast
    then show ?thesis using read [of e r] ran ref Inl by simp
  qed fastforce
  have wf: "bm_wf (cd_added delta)" using d by (simp add: delta_ok_def)
  have entry: "v' i = Some pl" "op_id (fst pl) = i" "v i = None" if "(i, pl) \<in> set (cd_added delta)" for i pl
  proof -
    have m: "map_of (cd_added delta) i = Some pl" using that wf by (simp add: map_of_increasing_iff)
    then show v': "v' i = Some pl" using d unfolding delta_ok_def by (metis option.case(2) option.discI)
    then show "op_id (fst pl) = i" using new unfolding view_ok_def by (metis prod.collapse)
    have "variant_ops dk pc R i = {}" using d m by (auto simp: delta_ok_def variant_ops_def)
    then show "v i = None" using old unfolding view_ok_def by (metis insert_not_empty not_None_eq prod.collapse)
  qed
  have ids: "map (\<lambda>e. (op_id (fst e), e)) ?es = cd_added delta"
    unfolding map_map by (rule map_idI) (use entry(2) in auto)
  have keys: "map (\<lambda>e. op_id (fst e)) ?es = map fst (cd_added delta)"
    using entry(2) by auto
  have "distinct (map (\<lambda>e. op_id (fst e)) ?es)" unfolding keys using wf by (rule increasing_distinct)
  moreover have "\<forall>e\<in>set ?es. (v |` (- set (cd_removed delta))) (op_id (fst e)) = None"
    using entry by (auto simp: restrict_map_def)
  ultimately have st4: "remembers ((\<Union>i. variant_ops dk pc R i) \<union> (\<Union>i\<in>set (cd_removed delta). variant_ops dk pc R' i) \<union> fst ` set ?es) st4"
    "tables (v |` (- set (cd_removed delta)) ++ map_of (cd_added delta)) st4" "same_frame ?st3 st4" "content_current rc (is_content st4)"
    using add_entries_ok [OF st3(2,1) _ _ add] ci(3) unfolding ids by auto
  have "v |` (- set (cd_removed delta)) ++ map_of (cd_added delta) = v'"
    using d by (auto simp: delta_ok_def restrict_map_def map_add_def fun_eq_iff split: option.splits)
  moreover have "remembers (\<Union>i. variant_ops dk pc R' i) st4"
    using st4(1) delta_variants [OF d new] by simp
  moreover have "is_identities st4 = is_identities ?st0" "is_version st4 = is_version st" "is_tail st4 = is_tail st" "is_changes st4 = is_changes st"
    using st1(3) st2(3) st4(3) by (simp_all add: same_frame_def)
  moreover have "increasing (is_identities ?st0)" "set (is_identities ?st0) = fst ` R'"
    using ok delta_ids [OF d new] by (auto simp: index_ok_def increasing_bs_extend)
  moreover have "is_version st = VERSION" using ok by (simp add: index_ok_def)
  ultimately have "index_ok dk pc R' v' st4" using st4(2) by (simp add: index_ok_def)
  moreover have "state_apply rd delta rc (n, st) = Inr (n2, st4, ch)"
    using ran ref add by simp
  ultimately show ?thesis using st4(4) \<open>is_tail st4 = is_tail st\<close> \<open>is_changes st4 = is_changes st\<close> by blast
qed

text \<open>The chain of an indexed tail gives the reader and the view the index relies on.\<close>

lemma indexed_view_get: "indexed_view c i = Some (p, l) \<Longrightarrow> indexed_get c i = Some p \<and> (\<exists>ls. record_locations c i = l # ls)"
  by (auto simp: indexed_view_def indexed_get_def record_locations_def split: option.splits)

lemma read_op_holds: "holds_at crc d b l \<Longrightarrow> decode_op dk pc b = Inr p \<Longrightarrow> read_op_at dk pc crc d l = Inr p"
  by (simp add: holds_at_def read_op_at_def)

lemma indexed_reader_ok:
  assumes "indexed_ok dk pc crc d c"
  shows "reader_ok dk pc (read_op_at dk pc crc d) c (indexed_ev crc d c)"
proof -
  have loc: "\<exists>b p. holds_at crc d b l \<and> (i, b) \<in> indexed_ev crc d c \<and> decode_op dk pc b = Inr p \<and> read_op_at dk pc crc d l = Inr p"
    if l: "l \<in> set (record_locations c i)" for i l
  proof -
    obtain b where b: "holds_at crc d b l" using assms l unfolding indexed_ok_def indexed_inv_def by blast
    then have ev: "(i, b) \<in> indexed_ev crc d c" using l by (auto simp: indexed_ev_def)
    then obtain p where "decode_op dk pc b = Inr p" using assms unfolding indexed_ok_def by blast
    then show ?thesis using b ev read_op_holds by blast
  qed
  have "p \<in> variant_ops dk pc (indexed_ev crc d c) i \<longleftrightarrow> (\<exists>l\<in>set (record_locations c i). read_op_at dk pc crc d l = Inr p)" for i p
  proof
    assume "p \<in> variant_ops dk pc (indexed_ev crc d c) i"
    then show "\<exists>l\<in>set (record_locations c i). read_op_at dk pc crc d l = Inr p"
      using read_op_holds by (fastforce simp: variant_ops_def indexed_ev_def)
  next
    assume "\<exists>l\<in>set (record_locations c i). read_op_at dk pc crc d l = Inr p"
    then show "p \<in> variant_ops dk pc (indexed_ev crc d c) i"
      using loc unfolding variant_ops_def by (metis (mono_tags, lifting) mem_Collect_eq sum.inject(2))
  qed
  then show ?thesis using loc unfolding reader_ok_def by blast
qed

lemma indexed_view_ok:
  assumes ok: "indexed_ok dk pc crc d c"
  shows "view_ok dk pc (read_op_at dk pc crc d) (indexed_ev crc d c) (indexed_view c)"
  unfolding view_ok_def
proof (intro allI impI)
  fix i p l
  assume "indexed_view c i = Some (p, l)"
  then have "indexed_get c i = Some p" and l: "l \<in> set (record_locations c i)" using indexed_view_get by fastforce+
  then obtain b where b: "sole (indexed_ev crc d c) i b" "decode_op dk pc b = Inr p" using ok unfolding indexed_ok_def by blast
  then have ev: "(i, c') \<in> indexed_ev crc d c \<longleftrightarrow> c' = b" for c' by (simp add: sole_iff)
  have "op_id p = i" using ok b(2) ev [of b] unfolding indexed_ok_def by fastforce
  moreover have "variant_ops dk pc (indexed_ev crc d c) i = {p}" using b(2) by (auto simp: variant_ops_def ev)
  moreover have "read_op_at dk pc crc d l = Inr p"
  proof -
    obtain b' where "holds_at crc d b' l" using ok l unfolding indexed_ok_def indexed_inv_def by blast
    moreover from this have "b' = b" using l ev [of b'] by (auto simp: indexed_ev_def)
    ultimately show ?thesis using b(2) read_op_holds by blast
  qed
  ultimately show "op_id p = i \<and> read_op_at dk pc crc d l = Inr p \<and> variant_ops dk pc (indexed_ev crc d c) i = {p}" by simp
qed

lemma indexed_delta_ok:
  "it.delta_rel crc d c0 delta c \<Longrightarrow> delta_ok (indexed_ev crc d c0) (indexed_view c0) delta (indexed_ev crc d c) (indexed_view c)"
  by (simp add: it.delta_rel_def delta_ok_def) (simp split: option.split)

lemma state_add_tail: "state_add rc p l rst = Inr (n', st') \<Longrightarrow> is_tail st' = is_tail (snd rst)"
  by (auto simp: state_add_def Let_def rbind_Inr_iff state_remember_def)

lemma add_shared_entries:
  "\<forall>p\<in>set ps. record_locations (tl_chain (is_tail (snd rst))) (op_id p) \<noteq> [] \<Longrightarrow>
     add_shared rc ps rst = add_entries rc (map (\<lambda>p. (p, hd (record_locations (tl_chain (is_tail (snd rst))) (op_id p)))) ps) rst"
proof (induction ps arbitrary: rst)
  case (Cons p ps)
  then obtain l ls where l: "record_locations (tl_chain (is_tail (snd rst))) (op_id p) = l # ls" by (auto simp: neq_Nil_conv)
  show ?case
  proof (cases "state_add rc p l rst")
    case (Inr rst')
    then have "is_tail (snd rst') = is_tail (snd rst)" using state_add_tail by (metis prod.collapse)
    then show ?thesis using Cons l Inr by simp
  qed (simp add: l)
qed simp

lemma indexed_ids:
  assumes "indexed_ok dk pc crc d c"
  shows "fst ` indexed_ev crc d c = dom (ic_entries c)" and "set (chain_identities c) = dom (ic_entries c)" and "distinct (chain_identities c)"
proof -
  have inv: "indexed_inv crc d c" and fin: "finite (dom (ic_entries c))" using assms by (simp_all add: indexed_ok_def)
  show "set (chain_identities c) = dom (ic_entries c)" "distinct (chain_identities c)" using fin by (simp_all add: chain_identities_def)
  show "fst ` indexed_ev crc d c = dom (ic_entries c)"
  proof (intro equalityI subsetI)
    fix i assume "i \<in> fst ` indexed_ev crc d c"
    then obtain l where "l \<in> set (record_locations c i)" by (auto simp: indexed_ev_def)
    then show "i \<in> dom (ic_entries c)"
      using inv by (cases "ic_entries c i") (auto simp: record_locations_def conflict_locations_def indexed_inv_def)
  next
    fix i assume "i \<in> dom (ic_entries c)"
    then obtain b where "(i, b) \<in> indexed_ev crc d c" using indexed_entry [OF inv] by blast
    then show "i \<in> fst ` indexed_ev crc d c" by force
  qed
qed

lemma option_ext: "(\<And>x. a = Some x \<longleftrightarrow> b = Some x) \<Longrightarrow> a = b"
  by (metis not_None_eq)

lemma build_ok:
  assumes ok: "indexed_ok dk pc crc d (tl_chain t)"
    and read: "\<And>e i p r. state_build (read_op_at dk pc crc d) rc (Inr g) t = Inl e \<Longrightarrow> indexed_get (tl_chain t) i = Some p
      \<Longrightarrow> r \<in> set (op_references p) \<Longrightarrow> reference_state rc r \<noteq> Inl e"
  shows "\<exists>st. state_build (read_op_at dk pc crc d) rc (Inr g) t = Inr st
    \<and> index_ok dk pc (indexed_ev crc d (tl_chain t)) (indexed_view (tl_chain t)) st \<and> content_current rc (is_content st) \<and> is_tail st = t
    \<and> iv_position (cl_revision (is_changes st)) = 0"
proof -
  let ?c = "tl_chain t" and ?rd = "read_op_at dk pc crc d"
  let ?R = "indexed_ev crc d ?c" and ?v = "indexed_view ?c"
  note ids = indexed_ids [OF ok] and vo = indexed_view_ok [OF ok] and ro = indexed_reader_ok [OF ok]
  obtain b changes where init: "log_initialize (Inr g) change_log_default = Inr (b, changes)" "iv_position (cl_revision changes) = 0"
    by (simp add: log_initialize_def change_log_default_def revision_default_def)
  let ?st = "(state_empty t)\<lparr>is_identities := bs_extend (chain_identities ?c) [], is_changes := changes\<rparr>"
  have get: "(\<exists>l. ?v i = Some (p, l) \<and> hd (record_locations ?c i) = l \<and> record_locations ?c i \<noteq> []) \<longleftrightarrow> indexed_get ?c i = Some p" for i p
    by (auto simp: indexed_view_def indexed_get_def record_locations_def split: option.splits)
  have id: "op_id p = i" if "indexed_get ?c i = Some p" for i p
    using get [of i p] that vo unfolding view_ok_def by blast
  have ops: "p \<in> set (shared_ops ?c) \<longleftrightarrow> indexed_get ?c (op_id p) = Some p" for p
  proof -
    have "i \<in> set (chain_identities ?c)" if "indexed_get ?c i = Some p" for i
      using that ids(2) by (auto simp: indexed_get_def split: bind_splits)
    then show ?thesis using id by (auto simp: shared_ops_def set_map_filter_iff)
  qed
  let ?es = "map (\<lambda>p. (p, hd (record_locations ?c (op_id p)))) (shared_ops ?c)"
  have none: "tables Map.empty ?st" "remembers {} ?st"
    by (simp_all add: tables_def remembers_def state_empty_def key_pairs_def reference_pairs_def content_default_def content_ok_def
        owners_def [abs_def] states_def)
  have "distinct (map op_id (List.map_filter (indexed_get ?c) xs))" if "distinct xs" for xs
    using that id by (induction xs) (fastforce simp: List.map_filter_simps set_map_filter_iff split: option.splits)+
  then have dist: "distinct (map (\<lambda>e. op_id (fst e)) ?es)" using ids(3) by (simp add: shared_ops_def comp_def)
  have "\<forall>p\<in>set (shared_ops ?c). record_locations ?c (op_id p) \<noteq> []" using ops get by blast
  then have shared: "add_shared rc (shared_ops ?c) (0, ?st) = add_entries rc ?es (0, ?st)"
    using add_shared_entries [of "shared_ops ?c" "(0, ?st)" rc] by (simp add: state_empty_def)
  obtain n st1 where add: "add_entries rc ?es (0, ?st) = Inr (n, st1)"
  proof (cases "add_entries rc ?es (0, ?st)")
    case (Inl e)
    then obtain p r where pr: "p \<in> set (shared_ops ?c)" "r \<in> set (op_references p)" "reference_state rc r = Inl e"
      using add_entries_error [OF Inl] by (auto simp: image_iff)
    have "state_build ?rd rc (Inr g) t = Inl e"
      using init(1) shared Inl by (simp add: state_build_def Let_def state_empty_def)
    then show ?thesis using read [of e "op_id p" p r] pr ops by blast
  qed fastforce
  note st1 = add_entries_ok [OF none(2,1) dist _ add]
  have view: "map_of (map (\<lambda>e. (op_id (fst e), e)) ?es) = ?v"
  proof
    fix i
    have keys: "distinct (map fst (map (\<lambda>e. (op_id (fst e), e)) ?es))" using dist by (simp add: comp_def)
    have "(i, (p, l)) \<in> set (map (\<lambda>e. (op_id (fst e), e)) ?es) \<longleftrightarrow> ?v i = Some (p, l)" for p l
    proof -
      have "(i, (p, l)) \<in> set (map (\<lambda>e. (op_id (fst e), e)) ?es)
          \<longleftrightarrow> p \<in> set (shared_ops ?c) \<and> i = op_id p \<and> l = hd (record_locations ?c (op_id p))" by auto
      also have "\<dots> \<longleftrightarrow> indexed_get ?c i = Some p \<and> l = hd (record_locations ?c i)" using ops [of p] id [of i p] by metis
      also have "\<dots> \<longleftrightarrow> ?v i = Some (p, l)" using get [of i p] indexed_view_get [of ?c i p l] by fastforce
      finally show ?thesis .
    qed
    then have "map_of (map (\<lambda>e. (op_id (fst e), e)) ?es) i = Some pl \<longleftrightarrow> ?v i = Some pl" for pl
      using map_of_eq_Some_iff [OF keys] by (cases pl) simp
    then show "map_of (map (\<lambda>e. (op_id (fst e), e)) ?es) i = ?v i" by (rule option_ext)
  qed
  have one: "remembers (set (shared_ops ?c)) st1" "tables ?v st1" "same_frame ?st st1" "content_current rc (is_content st1)"
    using st1 unfolding view by (auto simp: image_image content_current_def state_empty_def content_default_def states_def)
  have tail: "is_tail st1 = t" using one(3) by (simp add: same_frame_def state_empty_def)
  let ?q = "filter (\<lambda>i. indexed_get ?c i = None) (chain_identities ?c)"
  obtain st2 where two: "remember_conflicts ?rd ?q st1 = Inr st2" "remembers (set (shared_ops ?c) \<union> (\<Union>i\<in>set ?q. variant_ops dk pc ?R i)) st2"
    "same_frame st1 st2" "tables ?v st2" "is_content st2 = is_content st1"
    using remember_conflicts_ok [OF one(1), of dk pc ?rd ?R ?q] ro tail one(2) by auto
  have "set (shared_ops ?c) \<union> (\<Union>i\<in>set ?q. variant_ops dk pc ?R i) = (\<Union>i. variant_ops dk pc ?R i)"
  proof (intro equalityI subsetI)
    fix p assume "p \<in> set (shared_ops ?c) \<union> (\<Union>i\<in>set ?q. variant_ops dk pc ?R i)"
    then show "p \<in> (\<Union>i. variant_ops dk pc ?R i)" using ops get vo unfolding view_ok_def by fastforce
  next
    fix p assume "p \<in> (\<Union>i. variant_ops dk pc ?R i)"
    then obtain i where i: "p \<in> variant_ops dk pc ?R i" by blast
    show "p \<in> set (shared_ops ?c) \<union> (\<Union>i\<in>set ?q. variant_ops dk pc ?R i)"
    proof (cases "indexed_get ?c i")
      case None
      then show ?thesis using i variant_evidence [OF i] ids(1,2) by auto
    next
      case (Some q)
      then have "variant_ops dk pc ?R i = {q}" using get [of i q] vo unfolding view_ok_def by blast
      then show ?thesis using i ops id [OF Some] Some by auto
    qed
  qed
  moreover have "is_identities st2 = bs_extend (chain_identities ?c) []" "is_version st2 = VERSION"
    using one(3) two(3) by (simp_all add: same_frame_def state_empty_def)
  ultimately have "index_ok dk pc ?R ?v st2"
    using two ids by (simp add: index_ok_def increasing_bs_extend)
  moreover have "add_shared rc (shared_ops ?c) (0, ?st) = Inr (n, st1)" using shared add by simp
  then have "state_build ?rd rc (Inr g) t = Inr st2"
    using init(1) two(1) by (simp add: state_build_def Let_def state_empty_def)
  ultimately show ?thesis using one(3,4) two(3,5) tail init(2) by (auto simp: same_frame_def)
qed

text \<open>Two states that index the same chain are the same, up to the order of their hash maps.\<close>

lemma map_of_same_length:
  assumes "distinct (map fst xs)" "distinct (map fst ys)" "dom (map_of xs) = dom (map_of ys)"
  shows "length xs = length ys"
proof -
  have "fst ` set xs = fst ` set ys" using assms(3) by (simp add: dom_map_of_conv_image_fst)
  then show ?thesis using assms(1,2) by (metis distinct_card length_map list.set_map)
qed

lemma content_states_unique:
  assumes a: "content_ok a" "content_current rc a" and b: "content_ok b" "content_current rc b" and same: "pairs (owners a) = pairs (owners b)"
  shows "owners a = owners b" and "states a = states b"
proof -
  show own: "owners a = owners b" using multi_ext a(1) b(1) same by (auto simp: content_ok_def)
  show "states a = states b"
  proof (intro ext option_ext)
    fix r x
    have "states a r = None \<longleftrightarrow> states b r = None" using own dom_owners_states by metis
    then show "states a r = Some x \<longleftrightarrow> states b r = Some x"
      using a(2) b(2) unfolding content_current_def by (metis option.exhaust sum.inject(2))
  qed
qed

lemma content_matches_ok:
  assumes a: "content_ok a" "content_current rc a" and b: "content_ok b" "content_current rc b" and same: "pairs (owners a) = pairs (owners b)"
  shows "content_matches a b"
proof -
  note own = content_states_unique(1) [OF assms] and st = content_states_unique(2) [OF assms]
  have entry: "map_of (ci_entries b) r = Some e" if "map_of (ci_entries a) r = Some e" for r e
  proof -
    have "states b r = Some (dp_state e)" "owners b r = Some (dp_owners e)"
      using that by (simp_all flip: st own) (simp_all add: states_def owners_def)
    then show ?thesis by (auto simp: states_def owners_def)
  qed
  have mem: "map_of (ci_entries a) r = Some e" if "(r, e) \<in> set (ci_entries a)" for r e
    using that a(1) by (simp add: content_ok_def)
  have dom: "dom (map_of (ci_entries a)) = dom (map_of (ci_entries b))"
  proof -
    have "dom (map_of (ci_entries ci)) = dom (states ci)" for ci by (auto simp: states_def)
    then show ?thesis by (simp add: st)
  qed
  have pend: "set (ci_pending a) = set (ci_pending b)" using a(1) b(1) st by (auto simp: content_ok_def)
  have "length (ci_entries a) = length (ci_entries b)" using map_of_same_length dom a(1) b(1) by (auto simp: content_ok_def)
  moreover have "length (ci_pending a) = length (ci_pending b)"
    using pend a(1) b(1) unfolding content_ok_def by (metis distinct_card)
  moreover have "list_all (\<lambda>r. r \<in> set (ci_pending b)) (ci_pending a)" using pend by (simp add: list_all_iff)
  moreover have "list_all (\<lambda>(r, e). case map_of (ci_entries b) r of None \<Rightarrow> False
      | Some e' \<Rightarrow> dp_state e = dp_state e' \<and> dp_owners e = dp_owners e') (ci_entries a)"
    using entry mem by (fastforce simp: list_all_iff)
  ultimately show ?thesis by (simp add: content_matches_def)
qed

lemma same_ops_pairs:
  assumes "\<forall>i. map_option fst (v i) = map_option fst (w i)"
  shows "key_pairs v = key_pairs w" and "reference_pairs v = reference_pairs w"
proof -
  have "(\<exists>l. v i = Some (p, l)) \<longleftrightarrow> (\<exists>l. w i = Some (p, l))" for i p
    using assms [rule_format, of i] by (cases "v i"; cases "w i") auto
  then show "key_pairs v = key_pairs w" "reference_pairs v = reference_pairs w"
    unfolding key_pairs_def reference_pairs_def by blast+
qed

lemma index_same_ops:
  assumes a: "index_ok dk pc R v a" "content_current rc (is_content a)" and b: "index_ok dk pc R w b" "content_current rc (is_content b)"
    and same: "\<forall>i. map_option fst (v i) = map_option fst (w i)"
  shows "is_version a = is_version b" "is_items a = is_items b" "is_aliases a = is_aliases b" "is_identities a = is_identities b"
    "map fst (is_records a) = map fst (is_records b)" "map_of (is_postings a) = map_of (is_postings b)"
    "states (is_content a) = states (is_content b)" "content_matches (is_content a) (is_content b)"
proof -
  have t: "tables v a" "tables w b" and r: "remembers (\<Union>i. variant_ops dk pc R i) a" "remembers (\<Union>i. variant_ops dk pc R i) b"
    and i: "increasing (is_identities a)" "increasing (is_identities b)" "set (is_identities a) = set (is_identities b)"
    using a b by (simp_all add: index_ok_def)
  show "is_version a = is_version b" using a b by (simp add: index_ok_def)
  show "is_identities a = is_identities b" using i by (rule increasing_unique)
  show "is_items a = is_items b" using r by (auto simp: remembers_def intro: increasing_unique)
  have "map_of (is_aliases a) = map_of (is_aliases b)" using r by (intro multi_ext) (simp_all add: remembers_def)
  then show "is_aliases a = is_aliases b" using r by (auto simp: remembers_def intro: bm_ext)
  have "map_of (is_records a) i = None \<longleftrightarrow> map_of (is_records b) i = None" for i
    using t same [rule_format, of i] by (auto simp: tables_def)
  then have "set (map fst (is_records a)) = set (map fst (is_records b))"
    unfolding map_of_eq_None_iff by (auto simp: set_eq_iff)
  then show "map fst (is_records a) = map fst (is_records b)" using t by (auto simp: tables_def intro: increasing_unique)
  show "map_of (is_postings a) = map_of (is_postings b)" using t same_ops_pairs [OF same] by (intro multi_ext) (simp_all add: tables_def)
  have own: "pairs (owners (is_content a)) = pairs (owners (is_content b))" using t same_ops_pairs [OF same] by (simp add: tables_def)
  then show "content_matches (is_content a) (is_content b)"
    using t a(2) b(2) by (intro content_matches_ok [where rc = rc]) (simp_all add: tables_def)
  show "states (is_content a) = states (is_content b)"
    using t a(2) b(2) own by (intro content_states_unique [where rc = rc]) (simp_all add: tables_def)
qed

lemma index_unique:
  assumes a: "index_ok dk pc R v a" "content_current rc (is_content a)" and b: "index_ok dk pc R v b" "content_current rc (is_content b)"
    and adm: "admission_matches a b"
  shows "state_matches a b"
proof -
  note same = index_same_ops [OF a b, simplified]
  have t: "tables v a" "tables v b" and r: "remembers (\<Union>i. variant_ops dk pc R i) b" using a b by (simp_all add: index_ok_def)
  have "map_of (is_records a) = map_of (is_records b)" using t by (auto simp: tables_def)
  then have rec: "is_records a = is_records b" using t by (auto simp: tables_def intro: bm_ext)
  have dist: "distinct (map fst (is_postings a))" "distinct (map fst (is_postings b))" using t by (simp_all add: tables_def)
  have "length (is_postings a) = length (is_postings b)" using map_of_same_length [OF dist] same(6) by simp
  moreover have "list_all (\<lambda>(key, ids). map_of (is_postings b) key = Some ids) (is_postings a)"
    using dist(1) by (auto simp: list_all_iff simp flip: same(6))
  moreover have "list_all (\<lambda>(key, ids). map_of (is_aliases b) key = Some ids) (is_aliases a)"
    using r by (auto simp: same(3) list_all_iff map_of_increasing_iff remembers_def)
  ultimately show ?thesis using same rec adm by (simp add: state_matches_def)
qed

lemma admission_same: "tl_chain (is_tail a) = tl_chain (is_tail b) \<Longrightarrow> admission_matches a b"
  by (simp add: admission_matches_def list_all_iff Let_def)

text \<open>An indexed chain stays valid while its directory grows.\<close>

lemma holds_at_grown:
  assumes h: "holds_at crc (cf_disk fs0) b l" and g: "grown fs0 fs1 n0"
  shows "holds_at crc (cf_disk fs1) b l"
proof -
  let ?n = "segment_name (loc_segment_seq l)"
  have ok: "loc_data_len l \<le> MAX_RECORD_BYTES" using h by (auto simp: holds_at_def read_encoded_at_def split: if_splits)
  then obtain bs where bs: "map_of (dk_files (cf_disk fs0)) ?n = Some bs"
    and sl: "slice_get bs (loc_data_offset l) (loc_data_offset l + loc_data_len l) = Some b"
    using h by (auto simp: holds_at_def read_encoded_at_def rbind_Inr_iff ok_or_def split: if_splits option.splits)
  then obtain bs' where bs': "map_of (dk_files (cf_disk fs1)) ?n = Some bs'" using g by (auto simp: grown_def)
  have "prefix bs bs'" using g bs bs' unfolding grown_def file_bytes_def by (metis option.case(2))
  then have "slice_get bs' (loc_data_offset l) (loc_data_offset l + loc_data_len l) = Some b"
    using sl by (auto simp: prefix_def slice_get_def split: if_splits)
  then show ?thesis using h ok bs bs' sl by (simp add: holds_at_def read_encoded_at_def)
qed

lemma indexed_grown:
  assumes ok: "indexed_ok dk pc crc (cf_disk fs0) c" and g: "grown fs0 fs1 n0"
  shows "indexed_ev crc (cf_disk fs1) c = indexed_ev crc (cf_disk fs0) c" and "indexed_ok dk pc crc (cf_disk fs1) c"
proof -
  have inv: "\<forall>i. \<forall>l\<in>set (record_locations c i). \<exists>b. holds_at crc (cf_disk fs0) b l" using ok by (simp add: indexed_ok_def indexed_inv_def)
  have "holds_at crc (cf_disk fs1) b l \<longleftrightarrow> holds_at crc (cf_disk fs0) b l" if "l \<in> set (record_locations c i)" for i b l
    using inv that holds_at_grown [OF _ g] holds_at_unique by metis
  then show ev: "indexed_ev crc (cf_disk fs1) c = indexed_ev crc (cf_disk fs0) c" by (auto simp: indexed_ev_def)
  have "indexed_inv crc (cf_disk fs1) c"
    using ok holds_at_grown [OF _ g] unfolding indexed_ok_def indexed_inv_def by metis
  then show "indexed_ok dk pc crc (cf_disk fs1) c" using ok unfolding indexed_ok_def ev by simp
qed

end
