(* ===== verification/Checkpoint.thy ===== *)
theory Checkpoint
  imports EC_Prelude "HOL-Library.Sublist"
begin

text \<open>
  Checkpoint storage of the derived indexes (\<open>editchain-index-pages/src/storage.rs\<close>): serialized pages appended to
  one file through a buffered writer, and a small root file, replaced atomically, with the address of the
  published state. A value is written as one page here: the pages nested in a value (\<open>page.rs\<close>) are written by
  its serializer, which is a parameter, as are the encoding of addresses and BLAKE3.

  Every operation of the operating system consumes one entry of \<open>kd_faults\<close>: a success, or an error that comes
  after some of the effect. Reading does not fail. The prefix of the page file that survives a crash is
  \<open>kd_synced\<close>, and \<open>kd_old\<close> lists the roots, besides the present one, that a crash may bring back because
  the directory was not synced since they were replaced.
\<close>

section \<open>The checkpoint directory\<close>

record ckpt_disk =
  kd_pages :: bytes
  kd_synced :: nat
  kd_next :: "bytes option"
  kd_root :: "bytes option"
  kd_old :: "bytes option list"
  kd_faults :: "(nat \<times> io_error) option list"
  kd_locked :: bool

definition disk_call :: "(ckpt_disk \<Rightarrow> ckpt_disk) \<Rightarrow> (nat \<Rightarrow> ckpt_disk \<Rightarrow> ckpt_disk) \<Rightarrow> ckpt_disk \<Rightarrow> unit io_result \<times> ckpt_disk" where
  "disk_call ok partial d = (case kd_faults d of
       [] \<Rightarrow> (Inr (), ok d)
     | None # fs \<Rightarrow> (Inr (), ok (d\<lparr>kd_faults := fs\<rparr>))
     | Some (k, e) # fs \<Rightarrow> (Inl e, partial k (d\<lparr>kd_faults := fs\<rparr>)))"

definition plain_call :: "ckpt_disk \<Rightarrow> unit io_result \<times> ckpt_disk" where
  "plain_call = disk_call (\<lambda>d. d) (\<lambda>_ d. d)"

definition page_append :: "bytes \<Rightarrow> ckpt_disk \<Rightarrow> unit io_result \<times> ckpt_disk" where
  "page_append bs = disk_call (\<lambda>d. d\<lparr>kd_pages := kd_pages d @ bs\<rparr>) (\<lambda>k d. d\<lparr>kd_pages := kd_pages d @ take k bs\<rparr>)"

definition page_sync :: "ckpt_disk \<Rightarrow> unit io_result \<times> ckpt_disk" where
  "page_sync = disk_call (\<lambda>d. d\<lparr>kd_synced := length (kd_pages d)\<rparr>) (\<lambda>_ d. d)"

definition next_create :: "ckpt_disk \<Rightarrow> unit io_result \<times> ckpt_disk" where
  "next_create = disk_call (\<lambda>d. d\<lparr>kd_next := Some []\<rparr>) (\<lambda>_ d. d)"

definition next_write :: "bytes \<Rightarrow> ckpt_disk \<Rightarrow> unit io_result \<times> ckpt_disk" where
  "next_write bs = disk_call (\<lambda>d. d\<lparr>kd_next := Some bs\<rparr>) (\<lambda>k d. d\<lparr>kd_next := Some (take k bs)\<rparr>)"

definition next_move :: "ckpt_disk \<Rightarrow> ckpt_disk" where
  "next_move d = d\<lparr>kd_root := kd_next d, kd_next := None, kd_old := kd_root d # kd_old d\<rparr>"

definition next_rename :: "ckpt_disk \<Rightarrow> unit io_result \<times> ckpt_disk" where
  "next_rename = disk_call next_move (\<lambda>k d. if k = 0 then d else next_move d)"

definition root_sync :: "ckpt_disk \<Rightarrow> unit io_result \<times> ckpt_disk" where
  "root_sync = disk_call (\<lambda>d. d\<lparr>kd_old := []\<rparr>) (\<lambda>_ d. d)"

section \<open>Storage\<close>

record address =
  ad_offset :: nat
  ad_length :: nat
  ad_digest :: bytes

record 'a cbor =
  cb_ser :: "'a \<Rightarrow> bytes io_result"
  cb_de :: "bytes \<Rightarrow> 'a option"
  cb_address_ser :: "address \<Rightarrow> bytes"
  cb_address_de :: "bytes \<Rightarrow> address option"
  cb_hash :: "bytes \<Rightarrow> bytes"

record storage =
  so_disk :: ckpt_disk
  so_buffer :: bytes
  so_end :: nat

definition WRITER_CAPACITY :: nat where "WRITER_CAPACITY = 256 * 1024"
definition MAX_PAGE_BYTES :: nat where "MAX_PAGE_BYTES = 256 * 1024 * 1024"

definition on_disk :: "(ckpt_disk \<Rightarrow> unit io_result \<times> ckpt_disk) \<Rightarrow> storage \<Rightarrow> unit io_result \<times> storage" where
  "on_disk f s = (case f (so_disk s) of (r, d) \<Rightarrow> (r, s\<lparr>so_disk := d\<rparr>))"

text \<open>\<open>BufWriter\<close>: a failed flush keeps the bytes that did not reach the file.\<close>

definition writer_flush :: "storage \<Rightarrow> unit io_result \<times> storage" where
  "writer_flush s = (if so_buffer s = [] then (Inr (), s)
     else case kd_faults (so_disk s) of
       Some (k, e) # _ \<Rightarrow> (Inl e, s\<lparr>so_disk := snd (page_append (so_buffer s) (so_disk s)), so_buffer := drop k (so_buffer s)\<rparr>)
     | _ \<Rightarrow> (Inr (), s\<lparr>so_disk := snd (page_append (so_buffer s) (so_disk s)), so_buffer := []\<rparr>))"

definition writer_write_all :: "bytes \<Rightarrow> storage \<Rightarrow> unit io_result \<times> storage" where
  "writer_write_all bs s =
     (if length bs < WRITER_CAPACITY - length (so_buffer s) then (Inr (), s\<lparr>so_buffer := so_buffer s @ bs\<rparr>)
      else sbind (if WRITER_CAPACITY - length (so_buffer s) < length bs then writer_flush s else (Inr (), s)) (\<lambda>_ s1.
        if WRITER_CAPACITY \<le> length bs then on_disk (page_append bs) s1
        else (Inr (), s1\<lparr>so_buffer := so_buffer s1 @ bs\<rparr>)))"

definition storage_open :: "ckpt_disk \<Rightarrow> storage io_result \<times> ckpt_disk" where
  "storage_open d =
     sbind (plain_call d) (\<lambda>_ d1. sbind (plain_call d1) (\<lambda>_ d2.
     if kd_locked d2 then (Inl (IoError WouldBlock ''lock''), d2)
     else sbind (plain_call d2) (\<lambda>_ d3. sbind (plain_call d3) (\<lambda>_ d4.
       let d5 = d4\<lparr>kd_locked := True\<rparr> in
       (Inr \<lparr>so_disk = d5, so_buffer = [], so_end = length (kd_pages d5)\<rparr>, d5)))))"

text \<open>Dropping a handle flushes what is buffered, best effort, and then releases the lock.\<close>

definition storage_drop :: "storage \<Rightarrow> ckpt_disk" where
  "storage_drop s = (so_disk (snd (writer_flush s)))\<lparr>kd_locked := False\<rparr>"

definition storage_write :: "'a cbor \<Rightarrow> 'a \<Rightarrow> storage \<Rightarrow> address io_result \<times> storage" where
  "storage_write cb x s = (case cb_ser cb x of
       Inl e \<Rightarrow> (Inl e, s)
     | Inr bs \<Rightarrow> sbind (writer_write_all bs s) (\<lambda>_ s1.
         case checked_add 64 (so_end s1) (length bs) of
           None \<Rightarrow> (Inl (IoError Other ''index address exhausted''), s1)
         | Some e \<Rightarrow> (Inr \<lparr>ad_offset = so_end s1, ad_length = length bs, ad_digest = cb_hash cb bs\<rparr>, s1\<lparr>so_end := e\<rparr>)))"

definition storage_read :: "'a cbor \<Rightarrow> address \<Rightarrow> storage \<Rightarrow> 'a io_result" where
  "storage_read cb a s =
     (if MAX_PAGE_BYTES < ad_length a
         \<or> (case checked_add 64 (ad_offset a) (ad_length a) of None \<Rightarrow> True | Some e \<Rightarrow> so_end s < e)
      then Inl (IoError InvalidData ''invalid index page extent'')
      else rbind (ok_or (IoError UnexpectedEof ''failed to fill whole buffer'')
             (slice_get (kd_pages (so_disk s)) (ad_offset a) (ad_offset a + ad_length a))) (\<lambda>bs.
        if cb_hash cb bs \<noteq> ad_digest a then Inl (IoError InvalidData ''index page checksum mismatch'')
        else ok_or (IoError InvalidData ''page'') (cb_de cb bs)))"

definition storage_load :: "'a cbor \<Rightarrow> storage \<Rightarrow> 'a io_result" where
  "storage_load cb s =
     rbind (ok_or (IoError NotFound ''root'') (kd_root (so_disk s))) (\<lambda>bs.
     rbind (ok_or (IoError InvalidData ''root'') (cb_address_de cb bs)) (\<lambda>a. storage_read cb a s))"

definition storage_commit :: "'a cbor \<Rightarrow> 'a \<Rightarrow> storage \<Rightarrow> 'a io_result \<times> storage" where
  "storage_commit cb x s =
     sbind (storage_write cb x s) (\<lambda>a s1.
     sbind (writer_flush s1) (\<lambda>_ s2.
     sbind (on_disk page_sync s2) (\<lambda>_ s3.
     sbind (on_disk next_create s3) (\<lambda>_ s4.
     sbind (on_disk (next_write (cb_address_ser cb a)) s4) (\<lambda>_ s5.
     sbind (on_disk plain_call s5) (\<lambda>_ s6.
     sbind (on_disk next_rename s6) (\<lambda>_ s7.
     sbind (on_disk plain_call s7) (\<lambda>_ s8.
     sbind (on_disk root_sync s8) (\<lambda>_ s9. (storage_read cb a s9, s9))))))))))"

definition storage_unload :: "'a cbor \<Rightarrow> 'a \<Rightarrow> storage \<Rightarrow> 'a io_result \<times> storage" where
  "storage_unload cb x s = (case cb_ser cb x of
       Inl e \<Rightarrow> (Inl e, s)
     | Inr bs \<Rightarrow> sbind (writer_flush s) (\<lambda>_ s1. (ok_or (IoError Other ''page'') (cb_de cb bs), s1)))"

section \<open>Reasoning about sequences of operations\<close>

text \<open>From \<open>P\<close>, success leads to \<open>Q\<close> with the result and an error to \<open>E\<close>.\<close>

definition hoare :: "('s \<Rightarrow> bool) \<Rightarrow> ('s \<Rightarrow> 'x io_result \<times> 's) \<Rightarrow> ('x \<Rightarrow> 's \<Rightarrow> bool) \<Rightarrow> ('s \<Rightarrow> bool) \<Rightarrow> bool" where
  "hoare P f Q E \<longleftrightarrow> (\<forall>s. P s \<longrightarrow> (case f s of (Inr x, s') \<Rightarrow> Q x s' | (Inl e, s') \<Rightarrow> E s'))"

lemma hoare_sbind:
  assumes "hoare P f Q E" and g: "\<And>x. hoare (Q x) (g x) R E"
  shows "hoare P (\<lambda>s. sbind (f s) g) R E"
  unfolding hoare_def
proof (intro allI impI)
  fix s assume "P s"
  then have f: "case f s of (Inr x, s') \<Rightarrow> Q x s' | (Inl e, s') \<Rightarrow> E s'" using assms(1) by (simp add: hoare_def)
  obtain r s1 where r: "f s = (r, s1)" by fastforce
  show "case sbind (f s) g of (Inr x, s') \<Rightarrow> R x s' | (Inl e, s') \<Rightarrow> E s'"
  proof (cases r)
    case (Inr x)
    then have "Q x s1" using f r by simp
    then show ?thesis using g [of x] r Inr by (simp add: hoare_def sbind_def)
  qed (use f r in \<open>simp add: sbind_def\<close>)
qed

lemma hoare_weaken: "hoare P f Q E \<Longrightarrow> (\<And>s. P' s \<Longrightarrow> P s) \<Longrightarrow> (\<And>x s. Q x s \<Longrightarrow> Q' x s) \<Longrightarrow> (\<And>s. E s \<Longrightarrow> E' s) \<Longrightarrow> hoare P' f Q' E'"
  by (fastforce simp: hoare_def split: prod.splits sum.splits)

lemma hoareD: "hoare P f Q E \<Longrightarrow> P s \<Longrightarrow> f s = (r, s') \<Longrightarrow> (case r of Inr x \<Rightarrow> Q x s' | Inl _ \<Rightarrow> E s')"
  by (auto simp: hoare_def split: sum.splits prod.splits)

lemma disk_call_cases:
  obtains fs where "disk_call ok partial d = (Inr (), ok (d\<lparr>kd_faults := fs\<rparr>))" "kd_faults d = [] \<Longrightarrow> fs = []"
    | k e fs where "disk_call ok partial d = (Inl e, partial k (d\<lparr>kd_faults := fs\<rparr>))" "kd_faults d \<noteq> []"
proof (cases "kd_faults d")
  case Nil
  then have same: "d\<lparr>kd_faults := []\<rparr> = d" by (cases d) simp
  have "disk_call ok partial d = (Inr (), ok (d\<lparr>kd_faults := []\<rparr>))" unfolding same using Nil by (simp add: disk_call_def)
  then show ?thesis using that(1) by blast
next
  case (Cons f fs)
  then show ?thesis using that by (cases f) (auto simp: disk_call_def)
qed

lemma hoare_call:
  assumes "\<And>s fs. P s \<Longrightarrow> (kd_faults (so_disk s) = [] \<Longrightarrow> fs = []) \<Longrightarrow> Q () (s\<lparr>so_disk := ok ((so_disk s)\<lparr>kd_faults := fs\<rparr>)\<rparr>)"
    and "\<And>s fs k. P s \<Longrightarrow> kd_faults (so_disk s) \<noteq> [] \<Longrightarrow> E (s\<lparr>so_disk := partial k ((so_disk s)\<lparr>kd_faults := fs\<rparr>)\<rparr>)"
  shows "hoare P (on_disk (disk_call ok partial)) Q E"
  unfolding hoare_def
proof (intro allI impI)
  fix s assume "P s"
  then show "case on_disk (disk_call ok partial) s of (Inr x, s') \<Rightarrow> Q x s' | (Inl e, s') \<Rightarrow> E s'"
    by (cases rule: disk_call_cases [of ok partial "so_disk s"]) (auto simp: on_disk_def assms)
qed

section \<open>What a root shows\<close>

definition root_shows :: "'a cbor \<Rightarrow> ckpt_disk \<Rightarrow> bytes option \<Rightarrow> 'a option \<Rightarrow> bool" where
  "root_shows cb d root w \<longleftrightarrow> (case root of
       None \<Rightarrow> w = None
     | Some bs \<Rightarrow> (\<exists>a page x. cb_address_de cb bs = Some a \<and> ad_length a \<le> MAX_PAGE_BYTES \<and> ad_offset a + ad_length a \<le> umax 64
         \<and> slice_get (take (kd_synced d) (kd_pages d)) (ad_offset a) (ad_offset a + ad_length a) = Some page
         \<and> cb_hash cb page = ad_digest a \<and> cb_de cb page = Some x \<and> w = Some x))"

text \<open>Every root a reader may find, now or after a crash, shows one of the values.\<close>

definition ckpt_ok :: "'a cbor \<Rightarrow> 'a option set \<Rightarrow> ckpt_disk \<Rightarrow> bool" where
  "ckpt_ok cb V d \<longleftrightarrow> kd_synced d \<le> length (kd_pages d) \<and> (\<forall>root\<in>insert (kd_root d) (set (kd_old d)). \<exists>w\<in>V. root_shows cb d root w)"

text \<open>A crash: the synced pages survive, followed by anything; the root is one that may come back.\<close>

definition ckpt_crash :: "ckpt_disk \<Rightarrow> ckpt_disk \<Rightarrow> bool" where
  "ckpt_crash d d' \<longleftrightarrow> (\<exists>rest. kd_pages d' = take (kd_synced d) (kd_pages d) @ rest) \<and> kd_synced d' = kd_synced d
     \<and> kd_root d' \<in> insert (kd_root d) (set (kd_old d)) \<and> set (kd_old d') \<subseteq> insert (kd_root d) (set (kd_old d)) \<and> \<not> kd_locked d'"

lemma shows_grow:
  assumes "root_shows cb d root w" and "kd_synced d \<le> length (kd_pages d)"
    and "prefix (take (kd_synced d) (kd_pages d)) (take (kd_synced d') (kd_pages d'))"
  shows "root_shows cb d' root w"
proof -
  let ?a = "take (kd_synced d) (kd_pages d)" and ?b = "take (kd_synced d') (kd_pages d')"
  obtain zs where zs: "?b = ?a @ zs" using assms(3) by (auto simp: prefix_def)
  have "slice_get (?a @ zs) i j = Some page" if "slice_get ?a i j = Some page" for i j page
    using that slice_get_append_left [of j ?a zs i] by (auto simp: slice_get_def split: if_splits)
  then have "slice_get ?b i j = Some page" if "slice_get ?a i j = Some page" for i j page
    unfolding zs using that by blast
  then show ?thesis using assms(1) unfolding root_shows_def by (cases root) (simp, simp, blast)
qed

lemma ckpt_ok_grow:
  assumes "ckpt_ok cb V d" and "prefix (take (kd_synced d) (kd_pages d)) (take (kd_synced d') (kd_pages d'))"
    and "kd_synced d' \<le> length (kd_pages d')" and "insert (kd_root d') (set (kd_old d')) \<subseteq> insert (kd_root d) (set (kd_old d))"
  shows "ckpt_ok cb V d'"
proof -
  have "\<exists>w\<in>V. root_shows cb d' root w" if "root \<in> insert (kd_root d') (set (kd_old d'))" for root
  proof -
    have "root \<in> insert (kd_root d) (set (kd_old d))" using that assms(4) by blast
    then obtain w where "w \<in> V" "root_shows cb d root w" using assms(1) by (auto simp: ckpt_ok_def)
    then show ?thesis using shows_grow [OF _ _ assms(2)] assms(1) unfolding ckpt_ok_def by blast
  qed
  then show ?thesis using assms(3) by (simp add: ckpt_ok_def)
qed

lemma crash_ok: "ckpt_ok cb V d \<Longrightarrow> ckpt_crash d d' \<Longrightarrow> ckpt_ok cb V d'"
  by (rule ckpt_ok_grow) (auto simp: ckpt_crash_def ckpt_ok_def)

lemma load_shows:
  assumes "root_shows cb d (kd_root d) w" and "kd_synced d \<le> length (kd_pages d)" and "so_disk s = d" and "so_end s = length (kd_pages d)"
  shows "storage_load cb s = (case w of Some x \<Rightarrow> Inr x | None \<Rightarrow> Inl (IoError NotFound ''root''))"
proof (cases "kd_root d")
  case None
  then show ?thesis using assms by (simp add: root_shows_def storage_load_def)
next
  case (Some bs)
  then obtain a page x where a: "cb_address_de cb bs = Some a" "ad_length a \<le> MAX_PAGE_BYTES" "ad_offset a + ad_length a \<le> umax 64"
    "slice_get (take (kd_synced d) (kd_pages d)) (ad_offset a) (ad_offset a + ad_length a) = Some page"
    "cb_hash cb page = ad_digest a" "cb_de cb page = Some x" "w = Some x"
    using assms(1) by (auto simp: root_shows_def)
  have "slice_get (kd_pages d) (ad_offset a) (ad_offset a + ad_length a) = Some page \<and> ad_offset a + ad_length a \<le> length (kd_pages d)"
    using a(4) assms(2) by (auto simp: slice_get_def drop_take split: if_splits)
  then show ?thesis using a assms Some by (simp add: storage_load_def storage_read_def checked_add_def)
qed

section \<open>Publishing\<close>

text \<open>
  The page of the new value is written, behind the buffer if need be; \<open>F\<close> says that no operation fails.
\<close>

definition page_at :: "bool \<Rightarrow> 'a cbor \<Rightarrow> 'a option set \<Rightarrow> 'a \<Rightarrow> address \<Rightarrow> storage \<Rightarrow> bool" where
  "page_at F cb V w a s \<longleftrightarrow> ckpt_ok cb V (so_disk s) \<and> (F \<longrightarrow> kd_faults (so_disk s) = [])
     \<and> so_end s = length (kd_pages (so_disk s)) + length (so_buffer s) \<and> ad_length a \<le> MAX_PAGE_BYTES \<and> ad_offset a + ad_length a \<le> umax 64
     \<and> (\<exists>bs. slice_get (kd_pages (so_disk s) @ so_buffer s) (ad_offset a) (ad_offset a + ad_length a) = Some bs
          \<and> cb_hash cb bs = ad_digest a \<and> cb_de cb bs = Some w)"

definition safe :: "bool \<Rightarrow> 'a cbor \<Rightarrow> 'a option set \<Rightarrow> storage \<Rightarrow> bool" where
  "safe F cb V s \<longleftrightarrow> ckpt_ok cb V (so_disk s) \<and> \<not> F"

definition ready :: "bool \<Rightarrow> 'a cbor \<Rightarrow> 'a option set \<Rightarrow> storage \<Rightarrow> bool" where
  "ready F cb V s \<longleftrightarrow> ckpt_ok cb V (so_disk s) \<and> (F \<longrightarrow> kd_faults (so_disk s) = [])
     \<and> so_end s = length (kd_pages (so_disk s)) + length (so_buffer s)"

lemma ckpt_ok_append: "ckpt_ok cb V d \<Longrightarrow> ckpt_ok cb V (d\<lparr>kd_faults := fs, kd_pages := kd_pages d @ bs\<rparr>)"
  by (rule ckpt_ok_grow) (auto simp: ckpt_ok_def)

lemma ckpt_ok_append':  "ckpt_ok cb V d \<Longrightarrow> ckpt_ok cb V (d\<lparr>kd_pages := kd_pages d @ bs\<rparr>)"
  by (rule ckpt_ok_grow) (auto simp: ckpt_ok_def)

lemma ckpt_ok_faults: "ckpt_ok cb V d \<Longrightarrow> ckpt_ok cb V (d\<lparr>kd_faults := fs\<rparr>)"
  by (rule ckpt_ok_grow) (auto simp: ckpt_ok_def)

text \<open>Writing and flushing move bytes from the buffer to the end of the file.\<close>

lemma writer_flush_moves:
  "hoare (\<lambda>s. ready F cb V s \<and> kd_pages (so_disk s) @ so_buffer s = bs) writer_flush
     (\<lambda>_ s. ready F cb V s \<and> kd_pages (so_disk s) = bs \<and> so_buffer s = []) (safe F cb V)"
  unfolding hoare_def
proof (intro allI impI)
  fix s assume s: "ready F cb V s \<and> kd_pages (so_disk s) @ so_buffer s = bs"
  show "case writer_flush s of (Inr x, s') \<Rightarrow> ready F cb V s' \<and> kd_pages (so_disk s') = bs \<and> so_buffer s' = [] | (Inl e, s') \<Rightarrow> safe F cb V s'"
  proof (cases "so_buffer s = []")
    case False
    have ok: "ckpt_ok cb V (so_disk s)" using s by (simp add: ready_def)
    show ?thesis
    proof (cases "kd_faults (so_disk s)")
      case Nil
      then show ?thesis using ckpt_ok_append' [OF ok] s False by (auto simp: writer_flush_def page_append_def disk_call_def ready_def)
    next
      case (Cons f fs)
      then show ?thesis using ckpt_ok_append [OF ok] s False
        by (cases f) (auto simp: writer_flush_def page_append_def disk_call_def ready_def safe_def)
    qed
  qed (use s in \<open>simp add: writer_flush_def\<close>)
qed

lemma writer_write_moves:
  "hoare (\<lambda>s. ready F cb V s \<and> kd_pages (so_disk s) @ so_buffer s = old) (writer_write_all bs)
     (\<lambda>_ s. ckpt_ok cb V (so_disk s) \<and> (F \<longrightarrow> kd_faults (so_disk s) = []) \<and> so_end s = length old
        \<and> kd_pages (so_disk s) @ so_buffer s = old @ bs) (safe F cb V)"
    (is "hoare ?P _ ?Q ?E")
proof -
  let ?flush = "\<lambda>s. if WRITER_CAPACITY - length (so_buffer s) < length bs then writer_flush s else (Inr (), s)"
  let ?tail = "\<lambda>_ s. if WRITER_CAPACITY \<le> length bs then on_disk (page_append bs) s else (Inr (), s\<lparr>so_buffer := so_buffer s @ bs\<rparr>)"
  have one: "hoare ?P ?flush (\<lambda>_ s. ?P s \<and> (WRITER_CAPACITY \<le> length bs \<longrightarrow> so_buffer s = [])) ?E"
    unfolding hoare_def
  proof (intro allI impI)
    fix s assume s: "?P s"
    have "case writer_flush s of (Inr x, s') \<Rightarrow> ready F cb V s' \<and> kd_pages (so_disk s') = old \<and> so_buffer s' = [] | (Inl e, s') \<Rightarrow> safe F cb V s'"
      using writer_flush_moves [of F cb V old] s by (simp add: hoare_def)
    moreover have "so_buffer s = []" if "\<not> WRITER_CAPACITY - length (so_buffer s) < length bs" "WRITER_CAPACITY \<le> length bs"
    proof -
      have "WRITER_CAPACITY - length (so_buffer s) \<ge> WRITER_CAPACITY" using that by linarith
      then have "length (so_buffer s) = 0" unfolding WRITER_CAPACITY_def by linarith
      then show ?thesis by simp
    qed
    ultimately show "case ?flush s of (Inr x, s') \<Rightarrow> ?P s' \<and> (WRITER_CAPACITY \<le> length bs \<longrightarrow> so_buffer s' = []) | (Inl e, s') \<Rightarrow> ?E s'"
      using s by (auto split: prod.splits sum.splits)
  qed
  have two: "hoare (\<lambda>s. ?P s \<and> (WRITER_CAPACITY \<le> length bs \<longrightarrow> so_buffer s = [])) (?tail x) ?Q ?E" for x
  proof (cases "WRITER_CAPACITY \<le> length bs")
    case True
    have "hoare (\<lambda>s. ?P s \<and> so_buffer s = []) (on_disk (page_append bs)) ?Q ?E"
      unfolding page_append_def by (rule hoare_call) (auto simp: ready_def safe_def ckpt_ok_append)
    then show ?thesis using True by simp
  qed (auto simp: hoare_def ready_def)
  have direct: "hoare (\<lambda>s. ?P s) (\<lambda>s. (Inr (), s\<lparr>so_buffer := so_buffer s @ bs\<rparr>)) ?Q ?E" by (auto simp: hoare_def ready_def)
  have cold: "hoare ?P (\<lambda>s. sbind (?flush s) ?tail) ?Q ?E" by (rule hoare_sbind [OF one two])
  show ?thesis
    unfolding hoare_def
  proof (intro allI impI)
    fix s assume s: "?P s"
    show "case writer_write_all bs s of (Inr x, s') \<Rightarrow> ?Q x s' | (Inl e, s') \<Rightarrow> ?E s'"
    proof (cases "length bs < WRITER_CAPACITY - length (so_buffer s)")
      case True
      then show ?thesis using direct [unfolded hoare_def, rule_format, OF s] by (simp add: writer_write_all_def)
    next
      case False
      then show ?thesis using cold [unfolded hoare_def, rule_format, OF s] by (simp add: writer_write_all_def)
    qed
  qed
qed

lemma write_page:
  assumes w: "cb_ser cb w = Inr bs" "cb_de cb bs = Some w" and len: "length bs \<le> MAX_PAGE_BYTES"
  shows "hoare (\<lambda>s. ready F cb V s \<and> so_end s + length bs \<le> umax 64) (storage_write cb w) (page_at F cb V w) (safe F cb V)"
  unfolding hoare_def
proof (intro allI impI)
  fix s assume s: "ready F cb V s \<and> so_end s + length bs \<le> umax 64"
  let ?old = "kd_pages (so_disk s) @ so_buffer s"
  obtain r s1 where r: "writer_write_all bs s = (r, s1)" by fastforce
  have moved: "case r of Inr x \<Rightarrow> ckpt_ok cb V (so_disk s1) \<and> (F \<longrightarrow> kd_faults (so_disk s1) = []) \<and> so_end s1 = length ?old
      \<and> kd_pages (so_disk s1) @ so_buffer s1 = ?old @ bs | Inl _ \<Rightarrow> safe F cb V s1"
    using hoareD [OF writer_write_moves [of F cb V ?old bs] _ r] s by simp
  show "case storage_write cb w s of (Inr x, s') \<Rightarrow> page_at F cb V w x s' | (Inl e, s') \<Rightarrow> safe F cb V s'"
  proof (cases r)
    case (Inr u)
    let ?s = "s1\<lparr>so_end := length ?old + length bs\<rparr>" and ?a = "\<lparr>ad_offset = length ?old, ad_length = length bs, ad_digest = cb_hash cb bs\<rparr>"
    have s1: "ckpt_ok cb V (so_disk s1)" "F \<longrightarrow> kd_faults (so_disk s1) = []" "so_end s1 = length ?old"
      and all: "kd_pages (so_disk s1) @ so_buffer s1 = ?old @ bs" using moved Inr by simp_all
    have fit: "length ?old + length bs \<le> umax 64" using s by (simp add: ready_def)
    then have "storage_write cb w s = (Inr ?a, ?s)"
      using r Inr w s1 by (simp add: storage_write_def sbind_def checked_add_def)
    moreover have "length (kd_pages (so_disk s1)) + length (so_buffer s1) = length ?old + length bs"
      using arg_cong [OF all, of length] by simp
    moreover have "slice_get (kd_pages (so_disk s1) @ so_buffer s1) (length ?old) (length ?old + length bs) = Some bs"
      unfolding all by (simp add: slice_get_def)
    ultimately show ?thesis using s1 fit w len by (simp add: page_at_def)
  qed (use moved r w in \<open>simp add: storage_write_def sbind_def\<close>)
qed

lemma flush_page: "hoare (page_at F cb V w a) writer_flush (\<lambda>_ s. page_at F cb V w a s \<and> so_buffer s = []) (safe F cb V)"
  unfolding hoare_def
proof (intro allI impI)
  fix s assume s: "page_at F cb V w a s"
  obtain r s1 where r: "writer_flush s = (r, s1)" by fastforce
  have "ready F cb V s" using s by (simp add: page_at_def ready_def)
  from hoareD [OF writer_flush_moves [of F cb V "kd_pages (so_disk s) @ so_buffer s"] _ r] this s
  show "case writer_flush s of (Inr x, s') \<Rightarrow> page_at F cb V w a s' \<and> so_buffer s' = [] | (Inl e, s') \<Rightarrow> safe F cb V s'"
    by (cases r) (auto simp: r page_at_def ready_def)
qed

text \<open>From the synced page to the durable root.\<close>

definition page_synced :: "bool \<Rightarrow> 'a cbor \<Rightarrow> 'a option set \<Rightarrow> 'a \<Rightarrow> address \<Rightarrow> storage \<Rightarrow> bool" where
  "page_synced F cb V w a s \<longleftrightarrow> page_at F cb V w a s \<and> so_buffer s = [] \<and> kd_synced (so_disk s) = length (kd_pages (so_disk s))"

lemma sync_page: "hoare (\<lambda>s. page_at F cb V w a s \<and> so_buffer s = []) (on_disk page_sync) (\<lambda>_. page_synced F cb V w a) (safe F cb V)"
  unfolding page_sync_def
proof (rule hoare_call)
  fix s :: storage and fs :: "(nat \<times> io_error) option list"
  assume s: "page_at F cb V w a s \<and> so_buffer s = []" and fs: "kd_faults (so_disk s) = [] \<Longrightarrow> fs = []"
  have "ckpt_ok cb V (so_disk s)" using s by (simp add: page_at_def)
  then have "ckpt_ok cb V ((so_disk s)\<lparr>kd_faults := fs, kd_synced := length (kd_pages (so_disk s))\<rparr>)"
    by (rule ckpt_ok_grow) (auto simp: take_is_prefix)
  then show "page_synced F cb V w a (s\<lparr>so_disk := (so_disk s)\<lparr>kd_faults := fs\<rparr>
      \<lparr>kd_synced := length (kd_pages ((so_disk s)\<lparr>kd_faults := fs\<rparr>))\<rparr>\<rparr>)"
    using s fs by (auto simp: page_synced_def page_at_def)
qed (auto simp: page_at_def safe_def ckpt_ok_faults)

lemma synced_same:
  assumes "page_synced F cb V w a s" and "kd_pages d = kd_pages (so_disk s)" "kd_synced d = kd_synced (so_disk s)"
    "kd_root d = kd_root (so_disk s)" "kd_old d = kd_old (so_disk s)" and "F \<Longrightarrow> kd_faults d = []"
  shows "page_synced F cb V w a (s\<lparr>so_disk := d\<rparr>)"
proof -
  have "ckpt_ok cb V (so_disk s)" using assms(1) by (simp add: page_synced_def page_at_def)
  then have "ckpt_ok cb V d" by (rule ckpt_ok_grow) (use assms in \<open>auto simp: page_synced_def\<close>)
  then show ?thesis using assms by (auto simp: page_synced_def page_at_def)
qed

lemma safe_same:
  assumes "page_synced F cb V w a s" "kd_faults (so_disk s) \<noteq> []" and "kd_pages d = kd_pages (so_disk s)" "kd_synced d = kd_synced (so_disk s)"
    "kd_root d = kd_root (so_disk s)" "kd_old d = kd_old (so_disk s)"
  shows "safe F cb V (s\<lparr>so_disk := d\<rparr>)"
proof -
  have ok: "ckpt_ok cb V (so_disk s)" "\<not> F" using assms(1,2) by (auto simp: page_synced_def page_at_def)
  then have "ckpt_ok cb V d" by - (erule ckpt_ok_grow; use assms in \<open>auto simp: page_synced_def\<close>)
  then show ?thesis using ok by (simp add: safe_def)
qed

lemma page_synced_faults: "page_synced F cb V w a s \<Longrightarrow> F \<Longrightarrow> kd_faults (so_disk s) = []"
  by (simp add: page_synced_def page_at_def)

lemma sync_next:
  "hoare (page_synced F cb V w a) (on_disk next_create) (\<lambda>_. page_synced F cb V w a) (safe F cb V)"
  "hoare (page_synced F cb V w a) (on_disk (next_write bs)) (\<lambda>_ s. page_synced F cb V w a s \<and> kd_next (so_disk s) = Some bs) (safe F cb V)"
  "hoare (\<lambda>s. page_synced F cb V w a s \<and> kd_next (so_disk s) = Some bs) (on_disk plain_call)
     (\<lambda>_ s. page_synced F cb V w a s \<and> kd_next (so_disk s) = Some bs) (safe F cb V)"
  unfolding next_create_def next_write_def plain_call_def
  by (rule hoare_call; (auto intro: safe_same)?; auto intro!: synced_same dest: page_synced_faults)+

text \<open>The synced page at the root shows the new value.\<close>

definition page_root :: "bool \<Rightarrow> 'a cbor \<Rightarrow> 'a option set \<Rightarrow> 'a \<Rightarrow> address \<Rightarrow> storage \<Rightarrow> bool" where
  "page_root F cb V w a s \<longleftrightarrow> page_synced F cb V w a s \<and> root_shows cb (so_disk s) (kd_root (so_disk s)) (Some w)"

lemma move_root:
  assumes s: "page_synced F cb V w a s" "kd_next (so_disk s) = Some (cb_address_ser cb a)" and a: "cb_address_de cb (cb_address_ser cb a) = Some a"
    and fs: "F \<Longrightarrow> fs = []"
  shows "page_root F cb (insert (Some w) V) w a (s\<lparr>so_disk := next_move ((so_disk s)\<lparr>kd_faults := fs\<rparr>)\<rparr>)"
proof -
  let ?d = "next_move ((so_disk s)\<lparr>kd_faults := fs\<rparr>)"
  have old: "ckpt_ok cb V (so_disk s)" using s(1) by (simp add: page_synced_def page_at_def)
  have now: "root_shows cb ?d (kd_root ?d) (Some w)"
    using s a by (auto simp: root_shows_def next_move_def page_synced_def page_at_def)
  have "\<exists>w'\<in>insert (Some w) V. root_shows cb ?d root w'" if "root \<in> insert (kd_root (so_disk s)) (set (kd_old (so_disk s)))" for root
    using old that shows_grow [of cb "so_disk s" root _ ?d] unfolding ckpt_ok_def by (fastforce simp: next_move_def)
  then have "ckpt_ok cb (insert (Some w) V) ?d" using now old by (auto simp: ckpt_ok_def next_move_def)
  then show ?thesis using s fs now by (auto simp: page_root_def page_synced_def page_at_def next_move_def)
qed

lemma rename_root:
  assumes a: "cb_address_de cb (cb_address_ser cb a) = Some a"
  shows "hoare (\<lambda>s. page_synced F cb V w a s \<and> kd_next (so_disk s) = Some (cb_address_ser cb a)) (on_disk next_rename)
    (\<lambda>_. page_root F cb (insert (Some w) V) w a) (safe F cb (insert (Some w) V))"
  unfolding next_rename_def
proof (rule hoare_call)
  fix s :: storage and fs :: "(nat \<times> io_error) option list" and k :: nat
  assume s: "page_synced F cb V w a s \<and> kd_next (so_disk s) = Some (cb_address_ser cb a)"
  then have faults: "F \<Longrightarrow> kd_faults (so_disk s) = []" by (simp add: page_synced_def page_at_def)
  show "page_root F cb (insert (Some w) V) w a (s\<lparr>so_disk := next_move ((so_disk s)\<lparr>kd_faults := fs\<rparr>)\<rparr>)"
    if "kd_faults (so_disk s) = [] \<Longrightarrow> fs = []"
    using move_root [OF conjunct1 [OF s] conjunct2 [OF s] a] that faults by blast
  assume "kd_faults (so_disk s) \<noteq> []"
  then have F: "\<not> F" using faults by blast
  then have "page_root F cb (insert (Some w) V) w a (s\<lparr>so_disk := next_move ((so_disk s)\<lparr>kd_faults := fs\<rparr>)\<rparr>)"
    using move_root [OF conjunct1 [OF s] conjunct2 [OF s] a] by blast
  moreover have "ckpt_ok cb (insert (Some w) V) ((so_disk s)\<lparr>kd_faults := fs\<rparr>)"
    using s by (intro ckpt_ok_faults) (auto simp: page_synced_def page_at_def ckpt_ok_def)
  ultimately show "safe F cb (insert (Some w) V) (s\<lparr>so_disk := if k = 0 then (so_disk s)\<lparr>kd_faults := fs\<rparr> else next_move ((so_disk s)\<lparr>kd_faults := fs\<rparr>)\<rparr>)"
    using F by (simp add: safe_def page_root_def page_synced_def page_at_def)
qed

lemma root_same:
  assumes "page_root F cb V w a s" and "kd_pages d = kd_pages (so_disk s)" "kd_synced d = kd_synced (so_disk s)"
    "kd_root d = kd_root (so_disk s)" "kd_old d = kd_old (so_disk s)" and "F \<Longrightarrow> kd_faults d = []"
  shows "page_root F cb V w a (s\<lparr>so_disk := d\<rparr>)"
proof -
  have "root_shows cb d root x = root_shows cb (so_disk s) root x" for root x by (simp only: root_shows_def assms)
  then show ?thesis using assms synced_same [of F cb V w a s d] by (simp add: page_root_def)
qed

lemma sync_root:
  "hoare (page_root F cb V w a) (on_disk plain_call) (\<lambda>_. page_root F cb V w a) (safe F cb V)"
  "hoare (page_root F cb V w a) (on_disk root_sync) (\<lambda>_ s. page_root F cb {Some w} w a s \<and> kd_old (so_disk s) = []) (safe F cb V)"
proof -
  show "hoare (page_root F cb V w a) (on_disk plain_call) (\<lambda>_. page_root F cb V w a) (safe F cb V)"
    unfolding plain_call_def
  proof (rule hoare_call)
    fix s :: storage and fs :: "(nat \<times> io_error) option list"
    assume s: "page_root F cb V w a s"
    then have "page_synced F cb V w a s" by (simp add: page_root_def)
    then show "safe F cb V (s\<lparr>so_disk := (so_disk s)\<lparr>kd_faults := fs\<rparr>\<rparr>)" if "kd_faults (so_disk s) \<noteq> []"
      using that by (auto intro: safe_same)
    show "page_root F cb V w a (s\<lparr>so_disk := (so_disk s)\<lparr>kd_faults := fs\<rparr>\<rparr>)" if "kd_faults (so_disk s) = [] \<Longrightarrow> fs = []"
      using root_same [OF s] that page_synced_faults [OF \<open>page_synced F cb V w a s\<close>] by simp
  qed
  have "page_root F cb {Some w} w a (s\<lparr>so_disk := (so_disk s)\<lparr>kd_faults := fs, kd_old := []\<rparr>\<rparr>)"
    if "page_root F cb V w a s" "kd_faults (so_disk s) = [] \<Longrightarrow> fs = []" for s fs
  proof -
    have "root_shows cb ((so_disk s)\<lparr>kd_faults := fs, kd_old := []\<rparr>) root x = root_shows cb (so_disk s) root x" for root x
      by (simp add: root_shows_def split: option.split)
    then show ?thesis using that by (auto simp: page_root_def page_synced_def page_at_def ckpt_ok_def)
  qed
  then show "hoare (page_root F cb V w a) (on_disk root_sync) (\<lambda>_ s. page_root F cb {Some w} w a s \<and> kd_old (so_disk s) = []) (safe F cb V)"
    unfolding root_sync_def
    by (intro hoare_call) (auto intro: safe_same simp: page_root_def)
qed

lemma hoare_error: "hoare P f Q E \<Longrightarrow> (\<And>s. E s \<Longrightarrow> E' s) \<Longrightarrow> hoare P f Q E'"
  by (fastforce simp: hoare_def split: prod.splits sum.splits)

lemma safe_more: "safe F cb V s \<Longrightarrow> safe F cb (insert w V) s"
  by (auto simp: safe_def ckpt_ok_def)

lemma commit_publishes:
  assumes w: "cb_ser cb w = Inr bs" "cb_de cb bs = Some w" and len: "length bs \<le> MAX_PAGE_BYTES"
    and addr: "\<And>a. cb_address_de cb (cb_address_ser cb a) = Some a"
  shows "hoare (\<lambda>s. ready F cb V s \<and> so_end s + length bs \<le> umax 64) (storage_commit cb w)
    (\<lambda>u s. u = w \<and> ckpt_ok cb {Some w} (so_disk s) \<and> ready F cb {Some w} s) (safe F cb (insert (Some w) V))"
proof -
  let ?E = "safe F cb (insert (Some w) V)"
  have final: "hoare (\<lambda>s. page_root F cb {Some w} w a s \<and> kd_old (so_disk s) = []) (\<lambda>s. (storage_read cb a s, s))
      (\<lambda>u s. u = w \<and> ckpt_ok cb {Some w} (so_disk s) \<and> ready F cb {Some w} s) ?E" for a
    unfolding hoare_def page_root_def page_synced_def page_at_def
    by (auto simp: storage_read_def checked_add_def ready_def) (auto simp: slice_get_def split: if_splits)
  show ?thesis
    unfolding storage_commit_def
    by (rule hoare_sbind, rule hoare_error, rule write_page [OF w len], erule safe_more,
        rule hoare_sbind, rule hoare_error, rule flush_page, erule safe_more,
        rule hoare_sbind, rule hoare_error, rule sync_page, erule safe_more,
        rule hoare_sbind, rule hoare_error, rule sync_next(1), erule safe_more,
        rule hoare_sbind, rule hoare_error, rule sync_next(2), erule safe_more,
        rule hoare_sbind, rule hoare_error, rule sync_next(3), erule safe_more,
        rule hoare_sbind, rule rename_root [OF addr], rule hoare_sbind, rule sync_root(1), rule hoare_sbind, rule sync_root(2), rule final)
qed

lemma writer_end: "writer_flush s = (r, s') \<Longrightarrow> so_end s' = so_end s" "writer_write_all bs s = (r, s') \<Longrightarrow> so_end s' = so_end s"
proof -
  have flush: "so_end (snd (writer_flush s)) = so_end s" for s by (auto simp: writer_flush_def split: list.split option.split)
  then show "writer_flush s = (r, s') \<Longrightarrow> so_end s' = so_end s" by (metis snd_conv)
  have "so_end s1 = so_end s" if "writer_flush s = (u, s1)" for u s1 using flush [of s] that by simp
  then show "writer_write_all bs s = (r, s') \<Longrightarrow> so_end s' = so_end s"
    by (auto simp: writer_write_all_def sbind_def on_disk_def split: if_splits prod.splits sum.splits)
qed

section \<open>The contract of a checkpoint\<close>

text \<open>
  What a client that owns a checkpoint relies on: \<open>shown v s\<close> says that the handle is intact and its checkpoint
  holds \<open>v\<close>. Loading gives the value back, and a successful commit returns the value it was given and shows it from then on.
\<close>

locale checkpoint_laws =
  fixes commit :: "'a \<Rightarrow> 's \<Rightarrow> 'a io_result \<times> 's" and load :: "'s \<Rightarrow> 'a io_result" and shown :: "'a \<Rightarrow> 's \<Rightarrow> bool"
  assumes commit_ok: "shown v s \<Longrightarrow> commit w s = (Inr u, s') \<Longrightarrow> u = w \<and> shown w s'"
    and load_ok: "shown v s \<Longrightarrow> load s = Inr v"
begin

fun commit_all :: "'a list \<Rightarrow> 's \<Rightarrow> unit io_result \<times> 's" where
  "commit_all [] s = (Inr (), s)"
| "commit_all (w # ws) s = sbind (commit w s) (\<lambda>_. commit_all ws)"

lemma last_commit_loads: "shown v s \<Longrightarrow> commit_all ws s = (Inr (), s') \<Longrightarrow> load s' = Inr (last (v # ws))"
proof (induction ws arbitrary: v s)
  case Nil
  then show ?case using load_ok by simp
next
  case (Cons w ws)
  obtain u s1 where one: "commit w s = (Inr u, s1)" "commit_all ws s1 = (Inr (), s')"
    using Cons.prems(2) by (auto simp: sbind_def split: prod.splits sum.splits)
  then show ?case using Cons.IH commit_ok [OF Cons.prems(1) one(1)] by auto
qed

end

text \<open>Serialization round trips, for the values that serialize at all.\<close>

definition codec_ok :: "'a cbor \<Rightarrow> bool" where
  "codec_ok cb \<longleftrightarrow> (\<forall>x bs. cb_ser cb x = Inr bs \<longrightarrow> cb_de cb bs = Some x) \<and> (\<forall>a. cb_address_de cb (cb_address_ser cb a) = Some a)"

lemma load_ready:
  assumes "ready False cb {Some v} s"
  shows "storage_load cb s = Inr v"
proof -
  let ?d = "so_disk s"
  have d: "kd_synced ?d \<le> length (kd_pages ?d)" "root_shows cb ?d (kd_root ?d) (Some v)" and e: "length (kd_pages ?d) \<le> so_end s"
    using assms by (simp_all add: ready_def ckpt_ok_def)
  then obtain bs a page where a: "kd_root ?d = Some bs" "cb_address_de cb bs = Some a" "ad_length a \<le> MAX_PAGE_BYTES" "ad_offset a + ad_length a \<le> umax 64"
    "slice_get (take (kd_synced ?d) (kd_pages ?d)) (ad_offset a) (ad_offset a + ad_length a) = Some page" "cb_hash cb page = ad_digest a"
    "cb_de cb page = Some v"
    by (auto simp: root_shows_def split: option.splits)
  have "slice_get (kd_pages ?d) (ad_offset a) (ad_offset a + ad_length a) = Some page \<and> ad_offset a + ad_length a \<le> length (kd_pages ?d)"
    using a(5) d(1) by (auto simp: slice_get_def drop_take split: if_splits)
  then show ?thesis using a e by (simp add: storage_load_def storage_read_def checked_add_def)
qed

lemma commit_returns:
  assumes codec: "codec_ok cb" and s: "ready False cb V s" and run: "storage_commit cb w s = (Inr u, s')"
  shows "u = w \<and> ready False cb {Some w} s'"
proof -
  obtain a s1 where a: "storage_write cb w s = (Inr a, s1)"
    using run by (auto simp: storage_commit_def sbind_def split: prod.splits sum.splits)
  then obtain bs where bs: "cb_ser cb w = Inr bs" and len: "ad_length a = length bs" and fit: "so_end s + length bs \<le> umax 64"
    using writer_end(2) by (auto simp: storage_write_def sbind_def checked_add_Some split: sum.splits prod.splits option.splits)
  have "storage_read cb a s' = Inr u" using run a by (auto simp: storage_commit_def sbind_def split: prod.splits sum.splits)
  then have small: "length bs \<le> MAX_PAGE_BYTES" using len by (auto simp: storage_read_def split: if_splits)
  have de: "cb_de cb bs = Some w" and addr: "\<And>a. cb_address_de cb (cb_address_ser cb a) = Some a"
    using codec bs by (simp_all add: codec_ok_def)
  from hoareD [OF commit_publishes [OF bs de small addr, of False V] _ run] s fit show ?thesis by simp
qed

interpretation ck: checkpoint_laws "storage_commit cb" "storage_load cb" "\<lambda>v s. codec_ok cb \<and> ready False cb {Some v} s"
  for cb :: "'a cbor"
  by unfold_locales (simp_all add: load_ready, metis commit_returns)

section \<open>Properties\<close>

definition loaded :: "'a option \<Rightarrow> 'a io_result" where
  "loaded w = (case w of Some x \<Rightarrow> Inr x | None \<Rightarrow> Inl (IoError NotFound ''root''))"

lemma plain_call_inr: "plain_call d = (Inr u, d') \<Longrightarrow> \<exists>fs. d' = d\<lparr>kd_faults := fs\<rparr>"
  unfolding plain_call_def by (cases rule: disk_call_cases [of "\<lambda>d. d" "\<lambda>_ d. d" d]) auto

lemma open_fresh:
  assumes "storage_open d = (Inr t, d')"
  shows "\<exists>fs. so_disk t = d\<lparr>kd_faults := fs, kd_locked := True\<rparr>" "so_end t = length (kd_pages (so_disk t))" "so_buffer t = []"
  using assms by (auto simp: storage_open_def sbind_def Let_def dest!: plain_call_inr split: prod.splits sum.splits if_splits)

lemma ckpt_ok_load:
  assumes ok: "ckpt_ok cb V d" and t: "storage_open d = (Inr t, d')"
  shows "\<exists>w\<in>V. storage_load cb t = loaded w"
proof -
  obtain fs where fs: "so_disk t = d\<lparr>kd_faults := fs, kd_locked := True\<rparr>" using open_fresh(1) [OF t] by blast
  have "ckpt_ok cb V (so_disk t)" unfolding fs using ok by (rule ckpt_ok_grow) (use ok in \<open>auto simp: ckpt_ok_def\<close>)
  then obtain w where w: "w \<in> V" "root_shows cb (so_disk t) (kd_root (so_disk t)) w" "kd_synced (so_disk t) \<le> length (kd_pages (so_disk t))"
    by (auto simp: ckpt_ok_def)
  then show ?thesis using load_shows [OF w(2,3) refl open_fresh(2) [OF t]] unfolding loaded_def by blast
qed

text \<open>
  C7. Publishing a checkpoint is atomic and durable. Hypotheses: the handle is in step with its page file,
  the value serializes to a page of at most 256 MiB that deserializes to it, offsets fit 64 bits, and page
  addresses round-trip. Then whatever operation of the operating system
  fails and whatever a later crash loses of the files that were not synced, reopening the checkpoint
  loads the new value once the commit has returned it, and the old or the new value, never a torn or missing
  one, when the commit has failed. Without a failing operation the commit returns the new value.
\<close>

theorem checkpoint_commit_atomic:
  assumes "ckpt_ok cb {v} (so_disk s)" and "so_end s = length (kd_pages (so_disk s)) + length (so_buffer s)"
    and w: "cb_ser cb w = Inr bs" "cb_de cb bs = Some w" "length bs \<le> MAX_PAGE_BYTES" and fit: "so_end s + length bs \<le> umax 64"
    and addr: "\<And>a. cb_address_de cb (cb_address_ser cb a) = Some a"
    and commit: "storage_commit cb w s = (r, s')" and crash: "ckpt_crash (so_disk s') d" and opened: "storage_open d = (Inr t, d')"
  shows "(kd_faults (so_disk s) = [] \<longrightarrow> r = Inr w) \<and> (\<forall>u. r = Inr u \<longrightarrow> u = w \<and> storage_load cb t = Inr w)
    \<and> (\<forall>e. r = Inl e \<longrightarrow> storage_load cb t \<in> {loaded v, Inr w})"
proof -
  let ?F = "kd_faults (so_disk s) = []"
  have "ready ?F cb {v} s" using assms(1,2) by (simp add: ready_def)
  then have *: "case r of Inr u \<Rightarrow> u = w \<and> ckpt_ok cb {Some w} (so_disk s') \<and> ready ?F cb {Some w} s' | Inl _ \<Rightarrow> safe ?F cb {Some w, v} s'"
    using hoareD [OF commit_publishes [OF w addr, where F = ?F and V = "{v}"] _ commit] fit by blast
  show ?thesis
  proof (cases r)
    case (Inl e)
    then have safe: "ckpt_ok cb {Some w, v} (so_disk s')" "\<not> ?F" using * by (simp_all add: safe_def)
    then show ?thesis using ckpt_ok_load [OF crash_ok [OF safe(1) crash] opened] Inl by (auto simp: loaded_def)
  next
    case (Inr u)
    then have ok: "ckpt_ok cb {Some w} (so_disk s')" "u = w" using * by simp_all
    then show ?thesis using ckpt_ok_load [OF crash_ok [OF ok(1) crash] opened] Inr by (auto simp: loaded_def)
  qed
qed

definition unary_address :: "address \<Rightarrow> bytes" where
  "unary_address a = replicate (ad_offset a) 0 @ 1 # replicate (ad_length a) 0 @ 1 # ad_digest a"

definition parse_unary :: "bytes \<Rightarrow> address option" where
  "parse_unary bs = (let rest = tl (dropWhile (\<lambda>b. b = 0) bs) in
     Some \<lparr>ad_offset = length (takeWhile (\<lambda>b. b = 0) bs), ad_length = length (takeWhile (\<lambda>b. b = 0) rest), ad_digest = tl (dropWhile (\<lambda>b. b = 0) rest)\<rparr>)"

definition plain_cbor :: "bytes cbor" where
  "plain_cbor = \<lparr>cb_ser = Inr, cb_de = Some, cb_address_ser = unary_address, cb_address_de = parse_unary, cb_hash = (\<lambda>bs. bs)\<rparr>"

definition empty_ckpt :: "(nat \<times> io_error) option list \<Rightarrow> ckpt_disk" where
  "empty_ckpt faults = \<lparr>kd_pages = [9], kd_synced = 0, kd_next = None, kd_root = None, kd_old = [], kd_faults = faults, kd_locked = False\<rparr>"

lemma parse_unary: "parse_unary (unary_address a) = Some a"
proof -
  have "takeWhile (\<lambda>b. b = 0) (replicate n 0 @ (1 :: u8) # xs) = replicate n 0" "dropWhile (\<lambda>b. b = 0) (replicate n 0 @ (1 :: u8) # xs) = 1 # xs" for n xs
    by (induction n) simp_all
  then show ?thesis by (cases a) (simp add: parse_unary_def unary_address_def Let_def)
qed

theorem checkpoint_commit_atomic_witness:
  "\<exists>s' t d'. storage_commit plain_cbor [7] \<lparr>so_disk = empty_ckpt [], so_buffer = [], so_end = 1\<rparr> = (Inr [7], s')
     \<and> storage_open ((so_disk s')\<lparr>kd_pages := [9, 7, 3, 3], kd_locked := False\<rparr>) = (Inr t, d') \<and> storage_load plain_cbor t = Inr [7]"
proof -
  let ?s = "\<lparr>so_disk = empty_ckpt [], so_buffer = [], so_end = 1\<rparr>"
  let ?done = "\<lparr>kd_pages = [9, 7], kd_synced = 2, kd_next = None, kd_root = Some (unary_address \<lparr>ad_offset = 1, ad_length = 1, ad_digest = [7]\<rparr>),
    kd_old = [], kd_faults = [], kd_locked = False\<rparr>"
  let ?d = "?done\<lparr>kd_pages := [9, 7, 3, 3], kd_locked := False\<rparr>"
  have commit: "storage_commit plain_cbor [7] ?s = (Inr [7], \<lparr>so_disk = ?done, so_buffer = [], so_end = 2\<rparr>)"
    by (simp add: storage_commit_def storage_write_def plain_cbor_def writer_write_all_def WRITER_CAPACITY_def sbind_def checked_add_def
        writer_flush_def page_append_def disk_call_def empty_ckpt_def on_disk_def page_sync_def next_create_def next_write_def plain_call_def
        next_rename_def next_move_def root_sync_def storage_read_def MAX_PAGE_BYTES_def slice_get_def)
  have opened: "storage_open ?d = (Inr \<lparr>so_disk = ?d\<lparr>kd_locked := True\<rparr>, so_buffer = [], so_end = 4\<rparr>, ?d\<lparr>kd_locked := True\<rparr>)"
    by (simp add: storage_open_def plain_call_def disk_call_def sbind_def Let_def)
  have ok: "ckpt_ok plain_cbor {None} (so_disk ?s)" by (simp add: ckpt_ok_def root_shows_def empty_ckpt_def)
  have crash: "ckpt_crash (so_disk \<lparr>so_disk = ?done, so_buffer = [], so_end = 2\<rparr>) ?d" by (simp add: ckpt_crash_def)
  have "storage_load plain_cbor \<lparr>so_disk = ?d\<lparr>kd_locked := True\<rparr>, so_buffer = [], so_end = 4\<rparr> = Inr [7]"
    using checkpoint_commit_atomic [OF ok _ _ _ _ _ _ commit crash opened, of "[7]"]
    by (simp add: plain_cbor_def parse_unary empty_ckpt_def MAX_PAGE_BYTES_def)
  then show ?thesis using commit opened by auto
qed

end
