(* ===== verification/ChainIndex.thy ===== *)
theory ChainIndex
  imports IndexRefresh Checkpoint
begin

text \<open>
  The chain index (\<open>editchain-index/src/chain.rs\<close>, \<open>integrity.rs\<close>): queries over the derived state of the last
  successful refresh, refresh and rebuild behind a published checkpoint, and the integrity check against a
  full replay. \<open>fs\<close> is the chain directory an operation reads, \<open>rc\<close> its blobs, \<open>cb\<close> the serialization of
  states and \<open>fresh\<close> the generation a new journal gets. Derived pages are read without failures here
  (\<open>boundary\<close> turns a damaged page into an error of the whole operation).
\<close>

section \<open>The handle\<close>

record chain_index =
  xi_root :: string
  xi_storage :: storage
  xi_state :: index_state
  xi_needs_reopen :: bool

record index_work =
  iw_records :: tail_work
  iw_content_reads :: nat

record index_delta =
  id_added :: "op_id btree_set"
  id_removed :: "op_id btree_set"
  id_content_changed :: "op_id btree_set"
  id_work :: index_work

record record_variant =
  rv_location :: op_record_location
  rv_encoded :: bytes

section \<open>Queries\<close>

definition index_stats :: "index_state \<Rightarrow> chain_read_stats" where
  "index_stats st = ic_stats (tl_chain (is_tail st))"

definition index_get :: "index_state \<Rightarrow> op_id \<Rightarrow> op option" where
  "index_get st = indexed_get (tl_chain (is_tail st))"

definition in_bounds :: "id_query \<Rightarrow> op_id \<Rightarrow> bool" where
  "in_bounds q i \<longleftrightarrow> fst (id_query_bounds q) \<le> i \<and> i \<le> snd (id_query_bounds q)"

definition id_candidates :: "index_state \<Rightarrow> id_query \<Rightarrow> op_id list" where
  "id_candidates st q =
     (let candidates = bs_extend (take 2 (filter (in_bounds q) (is_identities st))) [] in
      take 2 (bs_extend (map fst (take 2 (filter (\<lambda>(i, _). in_bounds q i) (is_aliases st)))) candidates))"

definition alias_candidates :: "index_state \<Rightarrow> op_id \<Rightarrow> op_id list" where
  "alias_candidates st i = (case map_of (is_aliases st) i of None \<Rightarrow> [] | Some ids \<Rightarrow> take 2 ids)"

definition retains_id :: "index_state \<Rightarrow> op_id \<Rightarrow> bool" where
  "retains_id st i = (i \<in> set (is_identities st))"

definition item_candidates :: "index_state \<Rightarrow> id_query \<Rightarrow> op_id list" where
  "item_candidates st q = take 2 (filter (in_bounds q) (is_items st))"

fun short_from :: "derive_key \<Rightarrow> index_state \<Rightarrow> op_id \<Rightarrow> nat list \<Rightarrow> string" where
  "short_from dk st i [] = op_display i"
| "short_from dk st i (len # lens) =
     (if length (op_display i) < len then op_display i
      else case id_query_parse dk (take len (op_display i)) of
        None \<Rightarrow> op_display i
      | Some q \<Rightarrow> if id_candidates st q = [i] then take len (op_display i) else short_from dk st i lens)"

definition short_id :: "derive_key \<Rightarrow> index_state \<Rightarrow> op_id \<Rightarrow> string" where
  "short_id dk st i = short_from dk st i [12..<64]"

definition follows :: "op_id option \<Rightarrow> op_id \<Rightarrow> bool" where
  "follows after i \<longleftrightarrow> (case after of None \<Rightarrow> True | Some a \<Rightarrow> a < i)"

definition operations :: "index_state \<Rightarrow> op_id option \<Rightarrow> nat \<Rightarrow> op_id list" where
  "operations st after limit = map fst (take limit (filter (\<lambda>(i, _). follows after i) (is_records st)))"

definition lookup :: "index_state \<Rightarrow> index_key \<Rightarrow> op_id option \<Rightarrow> nat \<Rightarrow> op_id list" where
  "lookup st key after limit = (case map_of (is_postings st) key of
       None \<Rightarrow> [] | Some ids \<Rightarrow> take limit (filter (follows after) ids))"

definition index_content :: "index_state \<Rightarrow> op_id \<Rightarrow> content_status list option io_result" where
  "index_content st i = (case index_get st i of
       None \<Rightarrow> Inr None
     | Some p \<Rightarrow> rbind (traverse (\<lambda>r. ok_or (index_invalid ''missing indexed content dependency'') (content_status_of (is_content st) r))
         (op_references p)) (\<lambda>statuses. Inr (Some statuses)))"

definition record_variants :: "(bytes \<Rightarrow> u32) \<Rightarrow> chain_fs \<Rightarrow> index_state \<Rightarrow> op_id \<Rightarrow> record_variant list io_result" where
  "record_variants crc fs st i = traverse (\<lambda>l. rbind (read_encoded_at crc (cf_disk fs) l) (\<lambda>bs. Inr \<lparr>rv_location = l, rv_encoded = bs\<rparr>))
     (record_locations (tl_chain (is_tail st)) i)"

definition changes_since :: "chain_index \<Rightarrow> index_revision \<Rightarrow> nat \<Rightarrow> index_changes option io_result" where
  "changes_since x after limit = log_since after limit (is_changes (xi_state x))"

section \<open>Refresh and rebuild\<close>

text \<open>\<open>State::build\<close>: replay the chain, then derive its state.\<close>

definition build_at :: "derive_key \<Rightarrow> postcard \<Rightarrow> (bytes \<Rightarrow> u32) \<Rightarrow> chain_fs \<Rightarrow> blob_source \<Rightarrow> string io_result \<Rightarrow> string \<Rightarrow> index_state io_result" where
  "build_at dk pc crc fs rc fresh root = rbind (tail_open (indexed_corpus crc (cf_disk fs)) dk pc crc fs root)
     (state_build (read_op_at dk pc crc (cf_disk fs)) rc fresh)"

definition check_writable :: "chain_index \<Rightarrow> unit io_result" where
  "check_writable x = (if xi_needs_reopen x
     then Inl (IoError Other ''reopen the chain index after a failed checkpoint publication'') else Inr ())"

definition publish :: "index_state cbor \<Rightarrow> index_state \<Rightarrow> chain_index \<Rightarrow> unit io_result \<times> chain_index" where
  "publish cb st x =
     (let x1 = x\<lparr>xi_needs_reopen := True\<rparr> in
      case storage_commit cb st (xi_storage x1) of
        (Inl e, s) \<Rightarrow> (Inl e, x1\<lparr>xi_storage := s\<rparr>)
      | (Inr st', s) \<Rightarrow> (Inr (), x1\<lparr>xi_storage := s, xi_state := st', xi_needs_reopen := False\<rparr>))"

definition journal :: "chain_delta \<Rightarrow> op_id list \<Rightarrow> (op_id \<times> index_change_kind) list" where
  "journal delta content_changed = map (\<lambda>i. (i, AddedChange)) (map fst (cd_added delta))
     @ map (\<lambda>i. (i, RemovedChange)) (cd_removed delta) @ map (\<lambda>i. (i, ContentChange)) content_changed"

definition next_state :: "derive_key \<Rightarrow> postcard \<Rightarrow> (bytes \<Rightarrow> u32) \<Rightarrow> chain_fs \<Rightarrow> blob_source \<Rightarrow> index_state
    \<Rightarrow> (chain_delta \<times> nat \<times> index_state \<times> op_id list) io_result" where
  "next_state dk pc crc fs rc st = (case drain (indexed_corpus crc (cf_disk fs)) dk pc crc fs (is_tail st) of
       (Inl e, _) \<Rightarrow> Inl e
     | (Inr delta, t) \<Rightarrow>
         rbind (state_apply (read_op_at dk pc crc (cf_disk fs)) delta rc (0, st\<lparr>is_tail := t\<rparr>)) (\<lambda>(reads, st1, changed).
         let content_changed = filter (\<lambda>i. map_of (cd_added delta) i = None \<and> i \<notin> set (cd_removed delta)) changed in
         rbind (append_all (journal delta content_changed) (is_changes st1)) (\<lambda>l.
         Inr (delta, reads, st1\<lparr>is_changes := l\<rparr>, content_changed))))"

definition refresh :: "index_state cbor \<Rightarrow> derive_key \<Rightarrow> postcard \<Rightarrow> (bytes \<Rightarrow> u32) \<Rightarrow> chain_fs \<Rightarrow> blob_source \<Rightarrow> chain_index
    \<Rightarrow> index_delta io_result \<times> chain_index" where
  "refresh cb dk pc crc fs rc x = (case check_writable x of
       Inl e \<Rightarrow> (Inl e, x)
     | Inr _ \<Rightarrow> (case next_state dk pc crc fs rc (xi_state x) of
         Inl e \<Rightarrow> (Inl e, x)
       | Inr (delta, reads, st, content_changed) \<Rightarrow>
           sbind (if 0 < tw_bytes_read (cd_work delta) \<or> content_changed \<noteq> [] then publish cb st x else (Inr (), x)) (\<lambda>_ x1.
             (Inr \<lparr>id_added = map fst (cd_added delta), id_removed = cd_removed delta, id_content_changed = content_changed,
                  id_work = \<lparr>iw_records = cd_work delta, iw_content_reads = reads\<rparr>\<rparr>, x1))))"

definition rebuild :: "index_state cbor \<Rightarrow> derive_key \<Rightarrow> postcard \<Rightarrow> (bytes \<Rightarrow> u32) \<Rightarrow> chain_fs \<Rightarrow> blob_source \<Rightarrow> string io_result \<Rightarrow> chain_index
    \<Rightarrow> chain_read_stats io_result \<times> chain_index" where
  "rebuild cb dk pc crc fs rc fresh x = (case check_writable x of
       Inl e \<Rightarrow> (Inl e, x)
     | Inr _ \<Rightarrow> (case build_at dk pc crc fs rc fresh (xi_root x) of
         Inl e \<Rightarrow> (Inl e, x)
       | Inr st \<Rightarrow> sbind (publish cb st x) (\<lambda>_ x1. (Inr (index_stats (xi_state x1)), x1))))"

section \<open>Opening\<close>

text \<open>The saved state, unless there is none or a rebuild was asked for; then the state to start from.\<close>

definition open_saved :: "index_state cbor \<Rightarrow> bool \<Rightarrow> storage \<Rightarrow> index_state option io_result" where
  "open_saved cb resuming s = (if \<not> resuming then Inr None
     else case storage_load cb s of
       Inr st \<Rightarrow> Inr (Some st)
     | Inl e \<Rightarrow> if io_error_kind e = NotFound then Inr None else Inl e)"

definition open_state :: "index_state cbor \<Rightarrow> derive_key \<Rightarrow> postcard \<Rightarrow> (bytes \<Rightarrow> u32) \<Rightarrow> chain_fs \<Rightarrow> blob_source \<Rightarrow> string io_result \<Rightarrow> string
    \<Rightarrow> index_state option \<Rightarrow> storage \<Rightarrow> index_state io_result \<times> storage" where
  "open_state cb dk pc crc fs rc fresh root saved s = (case saved of
       Some st \<Rightarrow>
         if is_version st \<noteq> VERSION then (Inl (index_invalid ''unsupported chain index schema; rebuild required''), s)
         else (case resume fs root (is_tail st) of
           Inl e \<Rightarrow> (Inl e, s)
         | Inr _ \<Rightarrow> (case log_initialize fresh (is_changes st) of
             Inl e \<Rightarrow> (Inl e, s)
           | Inr (initialized, l) \<Rightarrow>
               if initialized then storage_commit cb (st\<lparr>is_changes := l\<rparr>) s else (Inr (st\<lparr>is_changes := l\<rparr>), s)))
     | None \<Rightarrow> (case build_at dk pc crc fs rc fresh root of
         Inl e \<Rightarrow> (Inl e, s)
       | Inr st \<Rightarrow> storage_commit cb st s))"

definition open_index :: "index_state cbor \<Rightarrow> derive_key \<Rightarrow> postcard \<Rightarrow> (bytes \<Rightarrow> u32) \<Rightarrow> chain_fs \<Rightarrow> blob_source \<Rightarrow> string io_result \<Rightarrow> string
    \<Rightarrow> bool \<Rightarrow> ckpt_disk \<Rightarrow> chain_index io_result \<times> ckpt_disk" where
  "open_index cb dk pc crc fs rc fresh root resuming d =
     sbind (storage_open d) (\<lambda>s _.
     case open_saved cb resuming s of
       Inl e \<Rightarrow> (Inl e, storage_drop s)
     | Inr saved \<Rightarrow> (case open_state cb dk pc crc fs rc fresh root saved s of
         (Inl e, s1) \<Rightarrow> (Inl e, storage_drop s1)
       | (Inr st, s1) \<Rightarrow> (case refresh cb dk pc crc fs rc \<lparr>xi_root = root, xi_storage = s1, xi_state = st, xi_needs_reopen = False\<rparr> of
           (Inl e, x) \<Rightarrow> (Inl e, storage_drop (xi_storage x))
         | (Inr _, x) \<Rightarrow> (Inr x, so_disk (xi_storage x)))))"

section \<open>Integrity\<close>







section \<open>Reading nothing reports nothing\<close>

definition quiet :: "chain_delta \<Rightarrow> bool" where
  "quiet delta \<longleftrightarrow> (tw_bytes_read (cd_work delta) = 0 \<longrightarrow> cd_added delta = [] \<and> cd_removed delta = [])"

lemma admit_delta_work [simp]: "cd_work (admit_delta a p l delta) = cd_work delta"
  by (cases a) (simp_all add: admit_delta_def)

lemma tail_admit_bytes:
  "tail_admit tc dk pc rs (t, delta) = (r, t', delta') \<Longrightarrow> tw_bytes_read (cd_work delta') = tw_bytes_read (cd_work delta)"
  by (induction tc dk pc rs "(t, delta)" arbitrary: t delta rule: tail_admit.induct)
     (fastforce split: sum.splits option.splits prod.splits simp: Let_def)+

lemma tail_scan_quiet:
  assumes "tail_scan tc dk pc crc bs (t, delta) = (r, t', delta')"
  shows "tw_bytes_read (cd_work delta') = tw_bytes_read (cd_work delta)" and "bs = [] \<Longrightarrow> delta' = delta"
proof -
  obtain items sc where sc: "scan_rest crc (scanner_resume bs (tl_page t)) = (items, sc)" by fastforce
  have "tw_bytes_read (cd_work delta') = tw_bytes_read (cd_work delta) \<and> (bs = [] \<longrightarrow> delta' = delta)"
  proof (cases "scan_records items")
    case (Inl e)
    then show ?thesis using assms sc by (simp add: tail_scan_def)
  next
    case (Inr rs)
    obtain r1 t1 d1 where adm: "tail_admit tc dk pc rs (t, delta) = (r1, t1, d1)" by (metis prod_cases3)
    have "delta' = d1" using assms sc Inr adm by (auto simp: tail_scan_def split: sum.splits option.splits)
    moreover have "items = []" if "bs = []"
      using sc that scan_rest.simps [of crc "scanner_resume [] (tl_page t)"] by (simp add: scanner_resume_def scanner_next_def)
    ultimately show ?thesis using tail_admit_bytes [OF adm] adm Inr by auto
  qed
  then show "tw_bytes_read (cd_work delta') = tw_bytes_read (cd_work delta)" and "bs = [] \<Longrightarrow> delta' = delta" by blast+
qed

lemma poll_segment_quiet:
  assumes q: "quiet delta"
  shows "poll_segment tc dk pc crc fs t delta = Inl (Inr delta', t') \<Longrightarrow> quiet delta'"
    and "poll_segment tc dk pc crc fs t delta = Inr (t', delta') \<Longrightarrow> quiet delta'"
proof -
  have "quiet delta'" if "poll_segment tc dk pc crc fs t delta = Inl (Inr delta', t') \<or> poll_segment tc dk pc crc fs t delta = Inr (t', delta')"
  proof (cases "map_of (dk_files (cf_disk fs)) (segment_name (tl_segment t))")
    case None
    then show ?thesis using that q by (auto simp: poll_segment_def Let_def split: if_splits)
  next
    case (Some content)
    let ?bytes = "take MAX_FRAME_BYTES (drop (tl_offset t) content)"
    let ?d = "delta\<lparr>cd_work := (cd_work delta)\<lparr>tw_bytes_read := sat_add 64 (tw_bytes_read (cd_work delta)) (length ?bytes)\<rparr>\<rparr>"
    obtain r1 t1 d1 where scan: "tail_scan tc dk pc crc ?bytes (t, ?d) = (r1, t1, d1)" by (metis prod_cases3)
    have "quiet d1"
    proof (cases "?bytes = []")
      case True
      then have "d1 = ?d" using tail_scan_quiet(2) [OF scan] by simp
      then show ?thesis using True q by (auto simp: quiet_def sat_add_def split: if_splits)
    next
      case False
      then have "0 < length ?bytes" by simp
      then have "tw_bytes_read (cd_work ?d) \<noteq> 0" by (simp add: sat_add_def min_def)
      then show ?thesis using tail_scan_quiet(1) [OF scan] unfolding quiet_def by (metis)
    qed
    moreover have "delta' = delta \<or> delta' = d1"
      using that Some scan unfolding poll_segment_def poll_finish_def Let_def
      by (auto split: sum.splits option.splits if_splits)
    ultimately show ?thesis using q by blast
  qed
  then show "poll_segment tc dk pc crc fs t delta = Inl (Inr delta', t') \<Longrightarrow> quiet delta'"
    and "poll_segment tc dk pc crc fs t delta = Inr (t', delta') \<Longrightarrow> quiet delta'" by blast+
qed

lemma poll_quiet: "quiet delta \<Longrightarrow> poll_from tc dk pc crc fs t delta = (Inr delta', t') \<Longrightarrow> quiet delta'"
proof (induction tc dk pc crc fs t delta rule: poll_from.induct)
  case (1 tc dk pc crc fs t delta)
  show ?case
  proof (cases "poll_segment tc dk pc crc fs t delta")
    case (Inl res)
    then show ?thesis using "1.prems" poll_segment_quiet(1) poll_from.simps [of tc dk pc crc fs t delta] by (cases res) simp
  next
    case (Inr td)
    obtain t1 d1 where td: "td = (t1, d1)" by (cases td)
    have "poll_from tc dk pc crc fs t1 d1 = (Inr delta', t')"
      using "1.prems" Inr td poll_from.simps [of tc dk pc crc fs t delta] by simp
    then show ?thesis using "1.IH" [OF Inr td [symmetric]] poll_segment_quiet(2) [OF "1.prems"(1) Inr [unfolded td]] by blast
  qed
qed

lemma quiet_merge: "quiet result \<Longrightarrow> quiet delta \<Longrightarrow> quiet (delta_merge result delta)"
  by (auto simp: quiet_def delta_merge_def Let_def sat_add_def)

lemma drain_quiet: "quiet result \<Longrightarrow> drain_from tc dk pc crc fs t result = (Inr delta', t') \<Longrightarrow> quiet delta'"
proof (induction tc dk pc crc fs t result rule: drain_from.induct)
  case (1 tc dk pc crc fs t result)
  obtain r t1 where p: "poll tc dk pc crc fs t = (r, t1)" by fastforce
  show ?case
  proof (cases r)
    case (Inl e)
    then show ?thesis using "1.prems" p drain_from.simps [of tc dk pc crc fs t result] by simp
  next
    case (Inr delta)
    have "quiet delta" using poll_quiet [of delta_default tc dk pc crc fs t delta t1] p Inr
      by (simp add: poll_def quiet_def delta_default_def)
    then have m: "quiet (delta_merge result delta)" using "1.prems"(1) quiet_merge by blast
    show ?thesis
    proof (cases "tl_segment t1 = tl_segment t \<and> tl_offset t1 = tl_offset t")
      case True
      then show ?thesis using "1.prems"(2) m p Inr drain_from.simps [of tc dk pc crc fs t result] by simp
    next
      case False
      then have "drain_from tc dk pc crc fs t1 (delta_merge result delta) = (Inr delta', t')"
        using "1.prems"(2) p Inr drain_from.simps [of tc dk pc crc fs t result] by auto
      then show ?thesis using "1.IH" [OF p [symmetric] Inr False m] by blast
    qed
  qed
qed

lemma apply_quiet:
  assumes "cd_added delta = []" "cd_removed delta = []" and ok: "content_ok (is_content st)"
    and keep: "\<forall>r. states (is_content st) r = Some Available \<longrightarrow> reference_state rc r = Inr Available"
    and run: "state_apply rd delta rc (n, st) = Inr (n', st', [])"
  shows "states (is_content st') = states (is_content st)"
proof
  fix r
  obtain ci where ref: "content_refresh rc (n, is_content st) = Inr (n', ci, [])" "is_content st' = ci"
    using run assms(1,2) by (auto simp: state_apply_def rbind_Inr_iff)
  note new = content_refresh_ok [OF ok ref(1) keep]
  show "states (is_content st') r = states (is_content st) r"
  proof (cases "owners (is_content st) r")
    case None
    then have "states (is_content st) r = None" "states ci r = None" using new dom_owners_states by metis+
    then show ?thesis using ref(2) by simp
  next
    case (Some s)
    then obtain i where "i \<in> set s" using ok unfolding content_ok_def multi_ok_def by (metis ex_in_conv set_empty)
    then have "(r, i) \<in> pairs (owners (is_content st))" using Some by (auto simp: pairs_def)
    then show ?thesis using new ref(2) by auto
  qed
qed

section \<open>Equal answers\<close>

text \<open>Two states that answer every query alike.\<close>

definition same_answers :: "derive_key \<Rightarrow> (bytes \<Rightarrow> u32) \<Rightarrow> chain_fs \<Rightarrow> index_state \<Rightarrow> index_state \<Rightarrow> bool" where
  "same_answers dk crc fs a b \<longleftrightarrow> index_get a = index_get b \<and> id_candidates a = id_candidates b \<and> alias_candidates a = alias_candidates b
     \<and> retains_id a = retains_id b \<and> item_candidates a = item_candidates b \<and> short_id dk a = short_id dk b
     \<and> operations a = operations b \<and> lookup a = lookup b \<and> index_content a = index_content b
     \<and> (\<forall>i. \<exists>xs ys. record_variants crc fs a i = Inr xs \<and> record_variants crc fs b i = Inr ys \<and> rv_encoded ` set xs = rv_encoded ` set ys)"

text \<open>The state indexes the chain its tail has read.\<close>

definition index_holds :: "derive_key \<Rightarrow> postcard \<Rightarrow> (bytes \<Rightarrow> u32) \<Rightarrow> chain_fs \<Rightarrow> (op_id \<times> bytes) set \<Rightarrow> index_state \<Rightarrow> bool" where
  "index_holds dk pc crc fs R st \<longleftrightarrow> indexed_ok dk pc crc (cf_disk fs) (tl_chain (is_tail st)) \<and> indexed_ev crc (cf_disk fs) (tl_chain (is_tail st)) = R
     \<and> index_ok dk pc R (indexed_view (tl_chain (is_tail st))) st"

lemma index_get_evidence:
  "index_holds dk pc crc fs R st \<Longrightarrow> index_get st i = Some p \<longleftrightarrow> (\<exists>b. sole R i b \<and> decode_op dk pc b = Inr p)"
  unfolding index_holds_def indexed_ok_def index_get_def by blast

lemma indexed_view_fst: "map_option fst (indexed_view c i) = indexed_get c i"
  by (auto simp: indexed_view_def indexed_get_def option.map_comp comp_def option.map_ident split: option.split)

lemma short_from_cong: "id_candidates a = id_candidates b \<Longrightarrow> short_from dk a i lens = short_from dk b i lens"
  by (induction lens) (simp_all split: option.split)

lemma record_variants_evidence:
  assumes "index_holds dk pc crc fs R st"
  shows "\<exists>xs. record_variants crc fs st i = Inr xs \<and> rv_encoded ` set xs = {b. (i, b) \<in> R}"
proof -
  let ?ls = "record_locations (tl_chain (is_tail st)) i"
  have inv: "\<forall>l\<in>set ?ls. \<exists>b. holds_at crc (cf_disk fs) b l" and R: "R = indexed_ev crc (cf_disk fs) (tl_chain (is_tail st))"
    using assms by (simp_all add: index_holds_def indexed_ok_def indexed_inv_def)
  have "\<exists>xs. traverse (\<lambda>l. rbind (read_encoded_at crc (cf_disk fs) l) (\<lambda>bs. Inr \<lparr>rv_location = l, rv_encoded = bs\<rparr>)) ls = Inr xs
      \<and> rv_encoded ` set xs = {b. \<exists>l\<in>set ls. holds_at crc (cf_disk fs) b l}"
    if "\<forall>l\<in>set ls. \<exists>b. holds_at crc (cf_disk fs) b l" for ls
    using that
  proof (induction ls)
    case (Cons l ls)
    then obtain b xs where b: "holds_at crc (cf_disk fs) b l"
      and xs: "traverse (\<lambda>l. rbind (read_encoded_at crc (cf_disk fs) l) (\<lambda>bs. Inr \<lparr>rv_location = l, rv_encoded = bs\<rparr>)) ls = Inr xs"
        "rv_encoded ` set xs = {b. \<exists>l\<in>set ls. holds_at crc (cf_disk fs) b l}" by auto
    have "holds_at crc (cf_disk fs) b' l \<longleftrightarrow> b' = b" for b' using b holds_at_unique by blast
    then have "{b'. \<exists>m\<in>set (l # ls). holds_at crc (cf_disk fs) b' m} = insert b (rv_encoded ` set xs)" unfolding xs(2) by auto
    moreover have "read_encoded_at crc (cf_disk fs) l = Inr b" using b by (simp add: holds_at_def)
    ultimately show ?case using xs(1) by (intro exI [of _ "\<lparr>rv_location = l, rv_encoded = b\<rparr> # xs"]) simp
  qed simp
  from this [OF inv] show ?thesis unfolding record_variants_def R indexed_ev_def by simp
qed

lemma answers_from_tables:
  assumes get: "index_get a = index_get b" and eqs: "is_items a = is_items b" "is_aliases a = is_aliases b" "is_identities a = is_identities b"
      "map fst (is_records a) = map fst (is_records b)" "map_of (is_postings a) = map_of (is_postings b)"
      "states (is_content a) = states (is_content b)"
    and variants: "\<And>i. \<exists>xs ys. record_variants crc fs a i = Inr xs \<and> record_variants crc fs b i = Inr ys \<and> rv_encoded ` set xs = rv_encoded ` set ys"
  shows "same_answers dk crc fs a b"
proof -
  have cand: "id_candidates a = id_candidates b" by (simp add: id_candidates_def fun_eq_iff eqs)
  have "map fst (take limit (filter (\<lambda>(i, _). follows after i) m)) = take limit (filter (follows after) (map fst m))"
    for m :: "(op_id \<times> op_record_location) list" and after limit
    by (simp add: take_map filter_map comp_def case_prod_unfold)
  then have "operations a = operations b" by (simp add: operations_def fun_eq_iff eqs)
  moreover have "content_status_of (is_content a) r = content_status_of (is_content b) r" for r
  proof -
    have "content_status_of ci r = map_option (\<lambda>x. \<lparr>cs_reference = r, cs_state = x\<rparr>) (states ci r)" for ci
      by (simp add: content_status_of_def states_def option.map_comp comp_def)
    then show ?thesis by (simp add: eqs)
  qed
  then have status: "content_status_of (is_content a) = content_status_of (is_content b)" ..
  have "index_content a = index_content b" unfolding index_content_def [abs_def] get status ..
  moreover have "short_id dk a = short_id dk b"
    unfolding short_id_def [abs_def] short_from_cong [OF cand] ..
  ultimately show ?thesis
    using get cand variants
    by (simp add: same_answers_def alias_candidates_def retains_id_def item_candidates_def lookup_def fun_eq_iff eqs)
qed

lemma same_answersI:
  assumes a: "index_holds dk pc crc fs R a" "content_current rc (is_content a)" and b: "index_holds dk pc crc fs R b" "content_current rc (is_content b)"
  shows "same_answers dk crc fs a b"
proof -
  have get: "index_get a = index_get b"
    by (intro ext option_ext) (simp add: index_get_evidence [OF a(1)] index_get_evidence [OF b(1)])
  then have "\<forall>i. map_option fst (indexed_view (tl_chain (is_tail a)) i) = map_option fst (indexed_view (tl_chain (is_tail b)) i)"
    by (simp add: indexed_view_fst index_get_def)
  note same = index_same_ops [OF _ a(2) _ b(2) this, of dk pc R]
  have ok: "index_ok dk pc R (indexed_view (tl_chain (is_tail a))) a" "index_ok dk pc R (indexed_view (tl_chain (is_tail b))) b"
    using a b by (simp_all add: index_holds_def)
  have "\<exists>xs ys. record_variants crc fs a i = Inr xs \<and> record_variants crc fs b i = Inr ys \<and> rv_encoded ` set xs = rv_encoded ` set ys" for i
    using record_variants_evidence [OF a(1), of i] record_variants_evidence [OF b(1), of i] by auto
  then show ?thesis by (rule answers_from_tables [OF get same(2-7) [OF ok]])
qed

section \<open>Refreshing\<close>

text \<open>
  A handle that is live on a directory: it may write, its checkpoint shows its state, its tail stands at a
  frontier of the directory and its state indexes what the tail has read.
\<close>

definition index_live :: "index_state cbor \<Rightarrow> derive_key \<Rightarrow> postcard \<Rightarrow> (bytes \<Rightarrow> u32) \<Rightarrow> chain_fs \<Rightarrow> nat \<Rightarrow> chain_index \<Rightarrow> bool" where
  "index_live cb dk pc crc fs n x \<longleftrightarrow> \<not> xi_needs_reopen x \<and> ready False cb {Some (xi_state x)} (xi_storage x)
     \<and> it.frontier crc (cf_disk fs) dk pc fs n (is_tail (xi_state x)) \<and> observed_current fs (is_tail (xi_state x))
     \<and> index_holds dk pc crc fs (indexed_ev crc (cf_disk fs) (tl_chain (is_tail (xi_state x)))) (xi_state x)"

text \<open>
  A directory that grew, and contents that were recorded as available still are: content files are written once,
  and a refresh does not read an available content again. A content that was missing or damaged may be in any
  state now, and reading it may fail.
\<close>

definition grows :: "(bytes \<Rightarrow> u32) \<Rightarrow> chain_fs \<Rightarrow> nat \<Rightarrow> chain_fs \<Rightarrow> nat \<Rightarrow> bool" where
  "grows crc fs0 n0 fs1 n1 \<longleftrightarrow> disk_inv crc (cf_disk fs1) n1 \<and> grown fs0 fs1 n0 \<and> n0 \<le> n1 \<and> n1 \<le> umax 32
     \<and> (\<forall>i. length (seg_file (cf_disk fs1) i) \<le> umax 64)"

definition contents_kept :: "blob_source \<Rightarrow> index_state \<Rightarrow> bool" where
  "contents_kept rc st \<longleftrightarrow> (\<forall>r. states (is_content st) r = Some Available \<longrightarrow> reference_state rc r = Inr Available)"

text \<open>The evidence of a full read of the directory.\<close>

definition full_evidence :: "derive_key \<Rightarrow> postcard \<Rightarrow> (bytes \<Rightarrow> u32) \<Rightarrow> chain_fs \<Rightarrow> (op_id \<times> bytes) set" where
  "full_evidence dk pc crc fs = evset dk pc (snd ` set (disk_recs crc (cf_disk fs)))"

lemma drain_apply:
  assumes fr: "it.frontier crc (cf_disk fs0) dk pc fs0 n0 (is_tail st)" and oc: "observed_current fs0 (is_tail st)"
    and holds: "index_holds dk pc crc fs0 (indexed_ev crc (cf_disk fs0) (tl_chain (is_tail st))) st"
    and g: "grows crc fs0 n0 fs1 n1" and kept: "contents_kept rc st"
  obtains (fault) e i where "next_state dk pc crc fs1 rc st = Inl e" "rc i = Inl e"
  | (ok) delta t reads st1 changed where
    "drain (indexed_corpus crc (cf_disk fs1)) dk pc crc fs1 (is_tail st) = (Inr delta, t)" "quiet delta"
    "state_apply (read_op_at dk pc crc (cf_disk fs1)) delta rc (0, st\<lparr>is_tail := t\<rparr>) = Inr (reads, st1, changed)"
    "is_tail st1 = t" "is_changes st1 = is_changes st" "it.frontier crc (cf_disk fs1) dk pc fs1 n1 t" "observed_current fs1 t"
    "index_holds dk pc crc fs1 (full_evidence dk pc crc fs1) st1" "content_current rc (is_content st1)"
    "it.delta_rel crc (cf_disk fs1) (tl_chain (is_tail st)) delta (tl_chain t)"
    "index_holds dk pc crc fs1 (indexed_ev crc (cf_disk fs1) (tl_chain (is_tail st))) st"
proof -
  let ?d0 = "cf_disk fs0" and ?d1 = "cf_disk fs1" and ?c = "tl_chain (is_tail st)"
  have d1: "disk_inv crc ?d1 n1" and gr: "grown fs0 fs1 n0" and n: "n0 \<le> n1" "n1 \<le> umax 32"
    and small: "\<forall>i. length (seg_file ?d1 i) \<le> umax 64" using g by (simp_all add: grows_def)
  have ok0: "indexed_ok dk pc crc ?d0 ?c" and st: "index_ok dk pc (indexed_ev crc ?d0 ?c) (indexed_view ?c) st"
    using holds by (simp_all add: index_holds_def)
  note same = indexed_grown [OF ok0 gr]
  have at: "tail_at crc ?d0 fs0 n0 (is_tail st)" using fr by (simp add: it.frontier_def)
  note moved = tail_at_grown [OF at oc gr d1 n(1)]
  have fr1: "it.frontier crc ?d1 dk pc fs1 n1 (is_tail st)"
    using fr moved same by (simp add: it.frontier_def)
  obtain delta t where dr: "drain (indexed_corpus crc ?d1) dk pc crc fs1 (is_tail st) = (Inr delta, t)" "it.caught_up crc ?d1 dk pc t"
    "it.frontier crc ?d1 dk pc fs1 n1 t" "observed_current fs1 t" "it.delta_rel crc ?d1 ?c delta (tl_chain t)"
    using it.drain_catches_up [OF d1 n(2) small fr1] by blast
  have "quiet delta_default" by (simp add: quiet_def delta_default_def)
  then have q: "quiet delta" using drain_quiet dr(1) unfolding drain_def by blast
  have ok1: "indexed_ok dk pc crc ?d1 (tl_chain t)" using dr(3) by (simp add: it.frontier_def)
  have st': "index_ok dk pc (indexed_ev crc ?d1 ?c) (indexed_view ?c) (st\<lparr>is_tail := t\<rparr>)"
    using st same(1) by (simp add: index_ok_def tables_def remembers_def)
  have keep: "\<forall>r. states (is_content (st\<lparr>is_tail := t\<rparr>)) r = Some Available \<longrightarrow> reference_state rc r = Inr Available"
    using kept by (simp add: contents_kept_def)
  have reader: "reader_ok dk pc (read_op_at dk pc crc ?d1) (tl_chain (is_tail (st\<lparr>is_tail := t\<rparr>))) (indexed_ev crc ?d1 (tl_chain t))"
    using indexed_reader_ok [OF ok1] by simp
  note applied = apply_ok [OF st' indexed_view_ok [OF same(2)] indexed_view_ok [OF ok1] reader indexed_delta_ok [OF dr(5)] _ keep, where n = 0]
  show thesis
  proof (cases "\<exists>e r. state_apply (read_op_at dk pc crc ?d1) delta rc (0, st\<lparr>is_tail := t\<rparr>) = Inl e \<and> reference_state rc r = Inl e")
    case True
    then obtain e r where er: "state_apply (read_op_at dk pc crc ?d1) delta rc (0, st\<lparr>is_tail := t\<rparr>) = Inl e" "reference_state rc r = Inl e"
      by blast
    show thesis by (rule fault [OF _ reference_state_error [OF er(2)]]) (simp add: next_state_def dr(1) er(1))
  next
    case False
    obtain reads st1 changed where ap: "state_apply (read_op_at dk pc crc ?d1) delta rc (0, st\<lparr>is_tail := t\<rparr>) = Inr (reads, st1, changed)"
      "index_ok dk pc (indexed_ev crc ?d1 (tl_chain t)) (indexed_view (tl_chain t)) st1" "content_current rc (is_content st1)"
      "is_tail st1 = t" "is_changes st1 = is_changes st"
      using applied False by auto
    have "index_holds dk pc crc fs1 (full_evidence dk pc crc fs1) st1"
      using ap ok1 dr(2) by (simp add: index_holds_def full_evidence_def it.caught_up_def)
    moreover have "index_holds dk pc crc fs1 (indexed_ev crc ?d1 ?c) st"
      using st same by (simp add: index_holds_def)
    ultimately show thesis using ok [OF dr(1) q ap(1,4,5) dr(3,4)] ap(3) dr(5) by blast
  qed
qed

text \<open>A rebuild fails only with the error of a content that an accepted operation refers to.\<close>

definition accepted :: "derive_key \<Rightarrow> postcard \<Rightarrow> (op_id \<times> bytes) set \<Rightarrow> op \<Rightarrow> bool" where
  "accepted dk pc R p \<longleftrightarrow> (\<exists>i b. sole R i b \<and> decode_op dk pc b = Inr p)"

lemma build_at_reads:
  assumes d: "disk_inv crc (cf_disk fs) n" "n \<le> umax 32" "\<forall>i. length (seg_file (cf_disk fs) i) \<le> umax 64"
    and read: "\<And>e p r. build_at dk pc crc fs rc (Inr g) root = Inl e \<Longrightarrow> accepted dk pc (full_evidence dk pc crc fs) p
      \<Longrightarrow> r \<in> set (op_references p) \<Longrightarrow> reference_state rc r \<noteq> Inl e"
  shows "\<exists>st. build_at dk pc crc fs rc (Inr g) root = Inr st \<and> index_holds dk pc crc fs (full_evidence dk pc crc fs) st
    \<and> content_current rc (is_content st) \<and> it.frontier crc (cf_disk fs) dk pc fs n (is_tail st) \<and> observed_current fs (is_tail st)
    \<and> iv_position (cl_revision (is_changes st)) = 0"
proof -
  let ?tc = "indexed_corpus crc (cf_disk fs)"
  have start: "it.frontier crc (cf_disk fs) dk pc fs n (tail_empty ?tc root)" by (rule it.frontier_empty [OF d(1) refl])
  obtain delta t where t: "drain ?tc dk pc crc fs (tail_empty ?tc root) = (Inr delta, t)" "it.caught_up crc (cf_disk fs) dk pc t"
    "it.frontier crc (cf_disk fs) dk pc fs n t" "observed_current fs t"
    using it.drain_catches_up [OF d start] by blast
  have opened: "tail_open ?tc dk pc crc fs root = Inr t" using d(1) t(1) by (simp add: tail_open_def disk_inv_def)
  have ok: "indexed_ok dk pc crc (cf_disk fs) (tl_chain t)" using t(3) by (simp add: it.frontier_def)
  have ev: "indexed_ev crc (cf_disk fs) (tl_chain t) = full_evidence dk pc crc fs"
    using t(2) by (simp add: full_evidence_def it.caught_up_def)
  have read': "reference_state rc r \<noteq> Inl e" if "state_build (read_op_at dk pc crc (cf_disk fs)) rc (Inr g) t = Inl e"
    "indexed_get (tl_chain t) i = Some p" "r \<in> set (op_references p)" for e i p r
  proof (rule read [OF _ _ that(3)])
    show "build_at dk pc crc fs rc (Inr g) root = Inl e" using that(1) opened by (simp add: build_at_def)
    show "accepted dk pc (full_evidence dk pc crc fs) p"
      using that(2) ok unfolding accepted_def ev [symmetric] indexed_ok_def by blast
  qed
  obtain st where st: "state_build (read_op_at dk pc crc (cf_disk fs)) rc (Inr g) t = Inr st"
    "index_ok dk pc (indexed_ev crc (cf_disk fs) (tl_chain t)) (indexed_view (tl_chain t)) st" "content_current rc (is_content st)" "is_tail st = t"
    "iv_position (cl_revision (is_changes st)) = 0"
    using build_ok [where rc = rc and g = g, OF ok] read' by blast
  have "index_holds dk pc crc fs (full_evidence dk pc crc fs) st"
    using st ok ev by (simp add: index_holds_def)
  then show ?thesis using st t opened by (simp add: build_at_def)
qed

lemma build_at_error:
  assumes d: "disk_inv crc (cf_disk fs) n" "n \<le> umax 32" "\<forall>i. length (seg_file (cf_disk fs) i) \<le> umax 64"
    and fail: "build_at dk pc crc fs rc (Inr g) root = Inl e"
  shows "\<exists>i. rc i = Inl e"
proof (rule ccontr)
  assume no: "\<not> (\<exists>i. rc i = Inl e)"
  have "reference_state rc r \<noteq> Inl e'" if "build_at dk pc crc fs rc (Inr g) root = Inl e'" for e' r
    using that fail no reference_state_error [of rc r e] by auto
  then show False using build_at_reads [OF d, where rc = rc and dk = dk and pc = pc and g = g and root = root] fail by auto
qed

lemma build_at_ok:
  assumes d: "disk_inv crc (cf_disk fs) n" "n \<le> umax 32" "\<forall>i. length (seg_file (cf_disk fs) i) \<le> umax 64" and total: "\<forall>i. \<exists>x. rc i = Inr x"
  shows "\<exists>st. build_at dk pc crc fs rc (Inr g) root = Inr st \<and> index_holds dk pc crc fs (full_evidence dk pc crc fs) st
    \<and> content_current rc (is_content st) \<and> it.frontier crc (cf_disk fs) dk pc fs n (is_tail st) \<and> observed_current fs (is_tail st)
    \<and> iv_position (cl_revision (is_changes st)) = 0"
proof (rule build_at_reads [OF d])
  fix e p r
  show "reference_state rc r \<noteq> Inl e"
  proof
    assume "reference_state rc r = Inl e"
    then have "rc (rf_id r) = Inl e" by (rule reference_state_error)
    then show False using total by (metis sum.distinct(1))
  qed
qed

text \<open>Every content an accepted operation refers to is recorded in a current index, hence readable.\<close>

lemma accepted_readable:
  assumes h: "index_holds dk pc crc fs R st" and cur: "content_current rc (is_content st)"
    and p: "accepted dk pc R p" and r: "r \<in> set (op_references p)"
  shows "\<exists>x. reference_state rc r = Inr x"
proof -
  obtain i where "index_get st i = Some p" using p index_get_evidence [OF h] by (auto simp: accepted_def)
  then obtain l where "indexed_view (tl_chain (is_tail st)) i = Some (p, l)"
    using indexed_view_fst [of "tl_chain (is_tail st)" i] by (auto simp: index_get_def)
  then have "(r, i) \<in> reference_pairs (indexed_view (tl_chain (is_tail st)))" using r by (auto simp: reference_pairs_def)
  then have "(r, i) \<in> pairs (owners (is_content st))" using h by (simp add: index_holds_def index_ok_def tables_def)
  then have "owners (is_content st) r \<noteq> None" by (auto simp: pairs_def)
  then show ?thesis using cur dom_owners_states [of "is_content st" r] by (auto simp: content_current_def)
qed

lemma append_all_error: "append_all xs l = Inl e \<Longrightarrow> e = IoError Other ''index revision exhausted''"
proof (induction xs arbitrary: l)
  case (Cons x xs)
  then show ?case
    by (cases x) (auto simp: log_append_def checked_add_def ok_or_def split: if_splits)
qed simp

text \<open>A refresh that publishes nothing has nothing to publish.\<close>

lemma unpublished_same:
  assumes rel: "it.delta_rel crc d c delta c'" and none: "cd_added delta = []" "cd_removed delta = []"
  shows "indexed_ev crc d c' = indexed_ev crc d c" and "indexed_view c' = indexed_view c"
  using rel none by (auto simp: it.delta_rel_def fun_eq_iff)

lemma delta_get:
  assumes rel: "it.delta_rel crc d c delta c'" and "indexed_get c' i \<noteq> indexed_get c i"
  shows "i \<in> set (map fst (cd_added delta)) \<union> set (cd_removed delta)"
proof (rule ccontr)
  assume not: "i \<notin> set (map fst (cd_added delta)) \<union> set (cd_removed delta)"
  then have "map_of (cd_added delta) i = None" by (simp add: map_of_eq_None_iff)
  then have "indexed_view c' i = indexed_view c i" using rel not by (simp add: it.delta_rel_def)
  then show False using assms(2) by (metis indexed_view_fst)
qed

text \<open>A refresh that publishes nothing leaves a state that is current already.\<close>

lemma unpublished_current:
  assumes holds: "index_holds dk pc crc fs (indexed_ev crc d (tl_chain (is_tail st))) st" and kept: "contents_kept rc st"
    and none: "cd_added delta = []" "cd_removed delta = []"
    and run: "state_apply rd delta rc (0, st\<lparr>is_tail := t\<rparr>) = Inr (reads, st1, [])" and cur: "content_current rc (is_content st1)"
  shows "content_current rc (is_content st)"
proof -
  have "content_ok (is_content st)" using holds by (simp add: index_holds_def index_ok_def tables_def)
  then have "states (is_content st1) = states (is_content st)"
    using apply_quiet [OF none _ _ run] kept by (simp add: contents_kept_def)
  then show ?thesis using cur by (simp add: content_current_def)
qed

text \<open>A rebuild answers as any current index of the same evidence does.\<close>

lemma rebuilt_answers:
  assumes g: "grows crc fs0 n0 fs n" and h: "index_holds dk pc crc fs (full_evidence dk pc crc fs) st"
    and cur: "content_current rc (is_content st)"
  shows "\<exists>rebuilt. build_at dk pc crc fs rc (Inr gen) root = Inr rebuilt \<and> same_answers dk crc fs st rebuilt"
proof -
  have d: "disk_inv crc (cf_disk fs) n" "n \<le> umax 32" "\<forall>i. length (seg_file (cf_disk fs) i) \<le> umax 64"
    using g by (simp_all add: grows_def)
  have "reference_state rc r \<noteq> Inl e" if "accepted dk pc (full_evidence dk pc crc fs) p" "r \<in> set (op_references p)" for e p r
    using accepted_readable [OF h cur that] by auto
  then obtain rebuilt where "build_at dk pc crc fs rc (Inr gen) root = Inr rebuilt"
    "index_holds dk pc crc fs (full_evidence dk pc crc fs) rebuilt" "content_current rc (is_content rebuilt)"
    using build_at_reads [OF d, where rc = rc and dk = dk and pc = pc and g = gen and root = root] by blast
  then show ?thesis using same_answersI [OF h cur] by blast
qed

text \<open>
  C6. Incremental refresh is a rebuild. Hypotheses: the handle was live on the chain directory, the directory has
  only grown since, contents recorded as available can still be read (\<open>contents_kept\<close>), and the serialization of
  states round-trips; reading any other content may fail. Then a refresh that returns leaves a state that answers
  as one rebuilt from a full replay of the directory, which succeeds: the same operations, identity, alias, item and
  short-identity lookups, postings and content status, and for an identity the same set of retained variants
  (their order and locations are not compared, nor are the statistics of the replay). It names every operation whose
  acceptance it changed, and the handle is live on the grown directory, or nothing was to be published. A refresh
  fails only with the error of a content it could not read, with an exhausted journal of changes, or when its checkpoint
  cannot be published; the readable state is kept, in the first two cases the whole handle is, and after a failed
  publication it refuses to write until it is reopened. A rebuild, too, fails only with the error of a content.
\<close>

theorem index_refresh_equals_rebuild:
  assumes live: "index_live cb dk pc crc fs0 n0 x" and g: "grows crc fs0 n0 fs1 n1" and kept: "contents_kept rc (xi_state x)"
    and codec: "codec_ok cb" and run: "refresh cb dk pc crc fs1 rc x = (r, x')"
  shows "(\<forall>delta. r = Inr delta \<longrightarrow>
        (\<exists>rebuilt. build_at dk pc crc fs1 rc (Inr gen) (xi_root x) = Inr rebuilt \<and> same_answers dk crc fs1 (xi_state x') rebuilt)
        \<and> (x' = x \<or> index_live cb dk pc crc fs1 n1 x')
        \<and> (\<forall>i. index_get (xi_state x') i \<noteq> index_get (xi_state x) i \<longrightarrow> i \<in> set (id_added delta) \<union> set (id_removed delta)))
    \<and> (\<forall>e. r = Inl e \<longrightarrow> xi_state x' = xi_state x
        \<and> (x' = x \<and> (e = IoError Other ''index revision exhausted'' \<or> (\<exists>i. rc i = Inl e))
           \<or> xi_needs_reopen x' \<and> (\<exists>st. storage_commit cb st (xi_storage x) = (Inl e, xi_storage x'))))
    \<and> (\<forall>e. build_at dk pc crc fs1 rc (Inr gen) (xi_root x) = Inl e \<longrightarrow> (\<exists>i. rc i = Inl e))"
proof -
  let ?st = "xi_state x" and ?d1 = "cf_disk fs1"
  have lv: "\<not> xi_needs_reopen x" "ready False cb {Some ?st} (xi_storage x)" "it.frontier crc (cf_disk fs0) dk pc fs0 n0 (is_tail ?st)"
    "observed_current fs0 (is_tail ?st)" "index_holds dk pc crc fs0 (indexed_ev crc (cf_disk fs0) (tl_chain (is_tail ?st))) ?st"
    using live by (simp_all add: index_live_def)
  have writable: "check_writable x = Inr ()" using lv(1) by (simp add: check_writable_def)
  have rebuild_fails: "\<forall>e. build_at dk pc crc fs1 rc (Inr gen) (xi_root x) = Inl e \<longrightarrow> (\<exists>i. rc i = Inl e)"
    using build_at_error g unfolding grows_def by blast
  from lv(3-5) g kept show ?thesis
  proof (cases rule: drain_apply)
    case (fault e i)
    then have "r = Inl e" "x' = x" using run writable by (simp_all add: refresh_def)
    then show ?thesis using fault(2) rebuild_fails by blast
  next
    case (ok delta t reads st1 changed)
    note ap = ok
    define cc where "cc = filter (\<lambda>i. map_of (cd_added delta) i = None \<and> i \<notin> set (cd_removed delta)) changed"
    show ?thesis
    proof (cases "append_all (journal delta cc) (is_changes st1)")
      case (Inl e)
      then have "next_state dk pc crc fs1 rc ?st = Inl e" using ap(1,3) by (simp add: next_state_def cc_def)
      then have "r = Inl e" "x' = x" using run writable by (simp_all add: refresh_def)
      then show ?thesis using rebuild_fails append_all_error [OF Inl] by blast
    next
      case (Inr l)
      let ?next = "st1\<lparr>is_changes := l\<rparr>"
      have "next_state dk pc crc fs1 rc ?st = Inr (delta, reads, ?next, cc)" using ap(1,3) Inr by (simp add: next_state_def cc_def)
      note step = run [unfolded refresh_def writable, simplified, unfolded this, simplified]
      have holds: "index_holds dk pc crc fs1 (full_evidence dk pc crc fs1) ?next"
        using ap(8) by (simp add: index_holds_def index_ok_def tables_def remembers_def)
      show ?thesis
      proof (cases "0 < tw_bytes_read (cd_work delta) \<or> cc \<noteq> []")
        case False
        then have quiet: "cd_added delta = []" "cd_removed delta = []" "changed = []" using ap(2) by (auto simp: quiet_def cc_def)
        have x': "x' = x" and r: "r = Inr (case r of Inr dl \<Rightarrow> dl)" using step False by (auto simp: sbind_def)
        have full: "full_evidence dk pc crc fs1 = indexed_ev crc ?d1 (tl_chain (is_tail ?st))"
          using ap(4,8) unpublished_same(1) [OF ap(10) quiet(1,2)] by (simp add: index_holds_def)
        have "content_current rc (is_content ?st)"
          by (rule unpublished_current [OF lv(5) kept quiet(1,2) ap(3) [unfolded quiet(3)] ap(9)])
        from rebuilt_answers [OF g ap(11) [folded full] this] show ?thesis
          using rebuild_fails x' r by (metis sum.distinct(1))
      next
        case True
        obtain rr s where commit: "storage_commit cb ?next (xi_storage x) = (rr, s)" by fastforce
        show ?thesis
        proof (cases rr)
          case (Inl e)
          then have "r = Inl e" "x' = x\<lparr>xi_needs_reopen := True, xi_storage := s\<rparr>"
            using step True commit by (auto simp: publish_def sbind_def)
          then show ?thesis using rebuild_fails commit Inl by auto
        next
          case (Inr u)
          have u: "u = ?next" "ready False cb {Some ?next} s"
            using ck.commit_ok [OF _ commit [unfolded Inr]] codec lv(2) by auto
          have x': "x' = x\<lparr>xi_storage := s, xi_state := ?next, xi_needs_reopen := False\<rparr>"
            and r: "r = Inr \<lparr>id_added = map fst (cd_added delta), id_removed = cd_removed delta, id_content_changed = cc,
              id_work = \<lparr>iw_records = cd_work delta, iw_content_reads = reads\<rparr>\<rparr>"
            using step True commit Inr u(1) by (auto simp: publish_def sbind_def)
          have "\<exists>rebuilt. build_at dk pc crc fs1 rc (Inr gen) (xi_root x) = Inr rebuilt \<and> same_answers dk crc fs1 (xi_state x') rebuilt"
            using rebuilt_answers [OF g holds] ap(9) x' by simp
          moreover have "index_live cb dk pc crc fs1 n1 x'"
            using u holds ap(4,6,7) x' by (simp add: index_live_def index_holds_def)
          moreover have "i \<in> set (map fst (cd_added delta)) \<union> set (cd_removed delta)" if "index_get (xi_state x') i \<noteq> index_get ?st i" for i
            using delta_get [OF ap(10), of i] that ap(4) x' by (simp add: index_get_def)
          ultimately show ?thesis using rebuild_fails r by auto
        qed
      qed
    qed
  qed
qed

text \<open>A chain of one segment, before and after the first record arrives, and a checkpoint of the first state.\<close>

definition one_bytes :: bytes where "one_bytes = RECORD_MAGIC @ [1, 7]"

definition one_fs :: "bool \<Rightarrow> chain_fs" where
  "one_fs arrived = \<lparr>cf_disk = \<lparr>dk_files = [(segment_name 0, if arrived then raw_frame (\<lambda>_. 0) 0 [(0, one_bytes)] else [])],
     dk_durable = (\<lambda>_. 0), dk_faults = [], dk_locked = False\<rparr>, cf_identity = (\<lambda>_. (1, 1)), cf_modified = (\<lambda>_. 0), cf_lock_file = False,
     cf_settled = (\<lambda>_. \<lparr>st_identity = (1, 1), st_length = 0, st_modified = 0\<rparr>)\<rparr>"

definition two_states :: "index_state \<Rightarrow> index_state \<Rightarrow> index_state cbor" where
  "two_states a b = \<lparr>cb_ser = (\<lambda>st. if st = b then Inr [2] else if st = a then Inr [1] else Inl (IoError Other ''state'')),
     cb_de = (\<lambda>bs. if bs = [2] then Some b else if bs = [1] then Some a else None),
     cb_address_ser = unary_address, cb_address_de = parse_unary, cb_hash = (\<lambda>bs. bs)\<rparr>"

definition one_checkpoint :: storage where
  "one_checkpoint = \<lparr>so_disk = \<lparr>kd_pages = [1], kd_synced = 1, kd_next = None,
     kd_root = Some (unary_address \<lparr>ad_offset = 0, ad_length = 1, ad_digest = [1]\<rparr>), kd_old = [], kd_faults = [], kd_locked = True\<rparr>,
     so_buffer = [], so_end = 1\<rparr>"

lemma one_fs_file: "seg_file (cf_disk (one_fs a)) i = (if a \<and> i = 0 then raw_frame (\<lambda>_. 0) 0 [(0, one_bytes)] else [])"
  by (simp add: one_fs_def file_bytes_def)

lemma one_frame: "frame_ok [(0, one_bytes)]"
  by (simp add: frame_ok_def ec03_consts one_bytes_def RECORD_MAGIC_def str_bytes_def)

lemma one_fs_inv: "disk_inv (\<lambda>_. 0) (cf_disk (one_fs a)) 1"
proof -
  have "seg_layout (\<lambda>_. 0) (raw_frame (\<lambda>_. 0) 0 [(0, one_bytes)]) [(0, [(0, one_bytes)])] []"
    using seg_layout_append(1) [OF seg_layout_empty one_frame, of "\<lambda>_. 0" 0] by simp
  moreover have "segment_sequences (cf_disk (one_fs a)) = Inr [0..<1]"
    using strip_segment_name [of 0] parse_segment_number [of 0 "umax 32"] by (simp add: segment_sequences_def one_fs_def)
  ultimately show ?thesis unfolding disk_inv_def one_fs_file using seg_layout_empty by (auto simp: one_fs_def)
qed

lemma one_fs_recs: "disk_recs (\<lambda>_. 0) (cf_disk (one_fs a)) = (if a then [(0, one_bytes)] else [])"
proof -
  have "recs_of (\<lambda>_. 0) (raw_frame (\<lambda>_. 0) 0 [(0, one_bytes)]) = [(0, one_bytes)]"
    using recs_of_layout [OF seg_layout_append(1) [OF seg_layout_empty one_frame]] by fastforce
  then show ?thesis using visit_disk_inv(2) [OF one_fs_inv [of a]] by (simp add: one_fs_file)
qed

lemma one_fs_evidence:
  "full_evidence (\<lambda>_ b. b) one_postcard (\<lambda>_. 0) (one_fs a) = (if a then {(op_id one_op, one_bytes)} else {})"
  using decode_one_op by (simp add: full_evidence_def one_fs_recs one_bytes_def)

lemma one_fs_grows: "grows (\<lambda>_. 0) (one_fs False) 1 (one_fs True) 1"
proof -
  have small: "length (raw_frame (\<lambda>_. 0) 0 [(0, one_bytes)]) \<le> umax 64" "0 < length (raw_frame (\<lambda>_. 0) 0 [(0, one_bytes)])"
    using raw_frame_fits [OF one_frame, of "\<lambda>_. 0" 0] by (simp_all add: ec03_consts)
  have "validate_successor (stamp_read (one_fs False) (segment_name i)) (stamp_read (one_fs True) (segment_name i)) = Inr ()" for i
    unfolding stamp_read_def using small(2) by (simp add: validate_successor_def one_fs_file) (simp add: one_fs_def)
  moreover have "map_of (dk_files (cf_disk (one_fs False))) (segment_name i) \<noteq> None \<longrightarrow> map_of (dk_files (cf_disk (one_fs True))) (segment_name i) \<noteq> None" for i
    by (simp add: one_fs_def)
  ultimately show ?thesis using one_fs_inv small by (simp add: grows_def grown_def one_fs_file)
qed

lemma append_all_total: "iv_position (cl_revision l) + length xs \<le> umax 64 \<Longrightarrow> \<exists>l'. append_all xs l = Inr l'"
proof (induction xs arbitrary: l)
  case (Cons x xs)
  obtain i k where x: "x = (i, k)" by fastforce
  have "\<exists>l1. log_append i k l = Inr l1 \<and> iv_position (cl_revision l1) = Suc (iv_position (cl_revision l))"
    using Cons.prems by (simp add: log_append_def checked_add_def)
  then show ?case using Cons by (auto simp: x)
qed simp

text \<open>The first record is added, and nothing else changes.\<close>

lemma one_delta:
  assumes holds: "index_holds (\<lambda>_ b. b) one_postcard (\<lambda>_. 0) (one_fs True) (full_evidence (\<lambda>_ b. b) one_postcard (\<lambda>_. 0) (one_fs True)) st1"
    and rel: "it.delta_rel (\<lambda>_. 0) (cf_disk (one_fs True)) c delta (tl_chain (is_tail st1))"
  shows "cd_removed delta = []" and "length (cd_added delta) \<le> 1" and "index_get st1 (op_id one_op) = Some one_op"
proof -
  let ?i = "op_id one_op" and ?ev = "indexed_ev (\<lambda>_. 0) (cf_disk (one_fs True)) (tl_chain (is_tail st1))"
  have ev: "?ev = {(?i, one_bytes)}" using holds by (simp add: index_holds_def one_fs_evidence)
  have get: "index_get st1 j = Some p \<longleftrightarrow> j = ?i \<and> p = one_op" for j p
  proof -
    have "sole {(?i, one_bytes)} j b \<longleftrightarrow> j = ?i \<and> b = one_bytes" for b by (auto simp: sole_def)
    then show ?thesis using index_get_evidence [OF holds, of j p] decode_one_op by (auto simp: one_fs_evidence one_bytes_def)
  qed
  then show here: "index_get st1 ?i = Some one_op" by simp
  have view: "indexed_view (tl_chain (is_tail st1)) j = None \<longleftrightarrow> j \<noteq> ?i" for j
    using get [of j] indexed_view_fst [of "tl_chain (is_tail st1)" j] unfolding index_get_def by (metis option.map_disc_iff not_None_eq)
  have "j \<notin> set (cd_removed delta)" for j
  proof
    assume j: "j \<in> set (cd_removed delta)"
    then obtain b where "(j, b) \<in> ?ev" using rel unfolding it.delta_rel_def by blast
    then have "j = ?i" using ev by simp
    moreover have "indexed_view (tl_chain (is_tail st1)) j = None" using rel j by (simp add: it.delta_rel_def)
    ultimately show False using view by simp
  qed
  then show rem: "cd_removed delta = []" by (metis ex_in_conv set_empty)
  have wf: "bm_wf (cd_added delta)" using rel by (simp add: it.delta_rel_def)
  have "j = ?i" if mem: "j \<in> fst ` set (cd_added delta)" for j
  proof -
    obtain pl where "map_of (cd_added delta) j = Some pl" using mem map_of_eq_None_iff [of "cd_added delta" j] by fastforce
    then have "indexed_view (tl_chain (is_tail st1)) j = Some pl" using rel rem by (simp add: it.delta_rel_def)
    then show ?thesis using view [of j] by auto
  qed
  then have "card (set (map fst (cd_added delta))) \<le> card {?i}" by (intro card_mono) auto
  then show "length (cd_added delta) \<le> 1" using distinct_card [OF increasing_distinct [OF wf]] by simp
qed

lemma no_content:
  assumes "index_holds dk pc crc fs {} st"
  shows "states (is_content st) r = None" and "ci_pending (is_content st) = []"
proof -
  have none: "indexed_view (tl_chain (is_tail st)) i = None" for i
  proof -
    have "index_get st i = None" using index_get_evidence [OF assms, of i] by (auto simp: sole_iff intro: option_ext)
    then show ?thesis using indexed_view_fst [of "tl_chain (is_tail st)" i] by (simp add: index_get_def)
  qed
  have t: "content_ok (is_content st)" "pairs (owners (is_content st)) = {}"
    using assms none by (simp_all add: index_holds_def index_ok_def tables_def reference_pairs_def)
  then have "owners (is_content st) = Map.empty" by (intro multi_ext) (simp_all add: content_ok_def)
  then have s: "states (is_content st) r = None" for r using dom_owners_states by (metis)
  then show "states (is_content st) r = None" .
  have "set (ci_pending (is_content st)) = {}" using t(1) s unfolding content_ok_def by force
  then show "ci_pending (is_content st) = []" by simp
qed

lemma two_states_codec:
  "cb_ser (two_states a b) st = Inr bs \<Longrightarrow> cb_de (two_states a b) bs = Some st"
  "cb_address_de (two_states a b) (cb_address_ser (two_states a b) ad) = Some ad"
  "codec_ok (two_states a b)"
  by (auto simp: two_states_def parse_unary codec_ok_def split: if_splits)

lemma one_checkpoint_ready: "ready F (two_states a b) {Some a} one_checkpoint"
  by (simp add: ready_def ckpt_ok_def root_shows_def one_checkpoint_def two_states_def parse_unary MAX_PAGE_BYTES_def slice_get_def)

lemma one_commit: "\<exists>s'. storage_commit (two_states a b) b one_checkpoint = (Inr b, s')"
proof -
  obtain r s' where c: "storage_commit (two_states a b) b one_checkpoint = (r, s')" by fastforce
  have ser: "cb_ser (two_states a b) b = Inr [2]" by (simp add: two_states_def)
  have "case r of Inr u \<Rightarrow> u = b | Inl _ \<Rightarrow> False"
    using hoareD [OF commit_publishes [OF ser two_states_codec(1) [OF ser] _ two_states_codec(2), of True "{Some a}"] _ c]
      one_checkpoint_ready [of True a b]
    by (cases r) (simp_all add: MAX_PAGE_BYTES_def one_checkpoint_def safe_def)
  then show ?thesis using c by (cases r) auto
qed

theorem index_refresh_equals_rebuild_witness:
  "\<exists>cb x delta x'. refresh cb (\<lambda>_ b. b) one_postcard (\<lambda>_. 0) (one_fs True) (\<lambda>_. Inr MissingBlob) x = (Inr delta, x')
     \<and> index_get (xi_state x) (op_id one_op) = None \<and> index_get (xi_state x') (op_id one_op) = Some one_op
     \<and> op_id one_op \<in> set (id_added delta) \<union> set (id_removed delta)
     \<and> (x' = x \<or> index_live cb (\<lambda>_ b. b) one_postcard (\<lambda>_. 0) (one_fs True) 1 x')"
proof -
  let ?dk = "\<lambda>_ b. b" and ?pc = one_postcard and ?crc = "\<lambda>_. 0" and ?rc = "\<lambda>_. Inr MissingBlob" and ?i = "op_id one_op"
  have small: "\<forall>i. length (seg_file (cf_disk (one_fs a)) i) \<le> umax 64" for a
    using raw_frame_fits [OF one_frame, of ?crc 0] by (simp add: one_fs_file ec03_consts)
  have total: "\<forall>i. \<exists>x. ?rc i = Inr x" by simp
  have build: "\<exists>st. build_at ?dk ?pc ?crc (one_fs a) ?rc (Inr ''g'') ''chain'' = Inr st \<and> index_holds ?dk ?pc ?crc (one_fs a) (full_evidence ?dk ?pc ?crc (one_fs a)) st
      \<and> content_current ?rc (is_content st) \<and> it.frontier ?crc (cf_disk (one_fs a)) ?dk ?pc (one_fs a) 1 (is_tail st) \<and> observed_current (one_fs a) (is_tail st)
      \<and> iv_position (cl_revision (is_changes st)) = 0" for a
    by (rule build_at_ok [OF one_fs_inv _ small total]) simp
  obtain st0 where st0: "index_holds ?dk ?pc ?crc (one_fs False) {} st0" "it.frontier ?crc (cf_disk (one_fs False)) ?dk ?pc (one_fs False) 1 (is_tail st0)"
    "observed_current (one_fs False) (is_tail st0)" "iv_position (cl_revision (is_changes st0)) = 0"
    using build [of False] by (auto simp: one_fs_evidence)
  have ev0: "indexed_ev ?crc (cf_disk (one_fs False)) (tl_chain (is_tail st0)) = {}" using st0(1) by (simp add: index_holds_def)
  note holds0 = st0(1) [folded ev0]
  have kept: "contents_kept ?rc st0" using no_content(1) [OF st0(1)] by (simp add: contents_kept_def)
  obtain delta t reads st1 changed where ap:
    "drain (indexed_corpus ?crc (cf_disk (one_fs True))) ?dk ?pc ?crc (one_fs True) (is_tail st0) = (Inr delta, t)"
    "state_apply (read_op_at ?dk ?pc ?crc (cf_disk (one_fs True))) delta ?rc (0, st0\<lparr>is_tail := t\<rparr>) = Inr (reads, st1, changed)"
    "is_tail st1 = t" "is_changes st1 = is_changes st0"
    "index_holds ?dk ?pc ?crc (one_fs True) (full_evidence ?dk ?pc ?crc (one_fs True)) st1"
    "it.delta_rel ?crc (cf_disk (one_fs True)) (tl_chain (is_tail st0)) delta (tl_chain t)"
    by (rule drain_apply [OF st0(2,3) holds0 one_fs_grows kept]) (simp, blast)
  note one = one_delta [OF ap(5) ap(6) [folded ap(3)]]
  have ch: "changed = []"
    using ap(2) one(1) no_content(2) [OF st0(1)] by (auto simp: state_apply_def rbind_Inr_iff content_refresh_def)
  then obtain l where l: "append_all (journal delta []) (is_changes st1) = Inr l"
    using append_all_total [of "is_changes st1" "journal delta []"] st0(4) ap(4) one(1,2) by (auto simp: journal_def)
  let ?next = "st1\<lparr>is_changes := l\<rparr>"
  let ?cb = "two_states st0 ?next"
  define x where "x = \<lparr>xi_root = ''chain'', xi_storage = one_checkpoint, xi_state = st0, xi_needs_reopen = False\<rparr>"
  have live: "index_live ?cb ?dk ?pc ?crc (one_fs False) 1 x"
    using one_checkpoint_ready st0(2,3) holds0 by (simp add: index_live_def x_def)
  have "next_state ?dk ?pc ?crc (one_fs True) ?rc (xi_state x) = Inr (delta, reads, ?next, [])"
    using ap(1,2) ch l by (simp add: next_state_def x_def)
  moreover obtain x1 where "publish ?cb ?next x = (Inr (), x1)"
    using one_commit [of st0 ?next] by (auto simp: publish_def x_def)
  moreover have "check_writable x = Inr ()" by (simp add: check_writable_def x_def)
  ultimately obtain dl x' where run: "refresh ?cb ?dk ?pc ?crc (one_fs True) ?rc x = (Inr dl, x')"
    by (cases "0 < tw_bytes_read (cd_work delta)") (simp_all add: refresh_def sbind_def)
  have kept': "contents_kept ?rc (xi_state x)" using kept by (simp add: x_def)
  from conjunct1 [OF index_refresh_equals_rebuild [OF live one_fs_grows kept' two_states_codec(3) run, of "''g''"]]
  obtain rebuilt where rb: "build_at ?dk ?pc ?crc (one_fs True) ?rc (Inr ''g'') ''chain'' = Inr rebuilt"
    "same_answers ?dk ?crc (one_fs True) (xi_state x') rebuilt" "x' = x \<or> index_live ?cb ?dk ?pc ?crc (one_fs True) 1 x'"
    "\<forall>i. index_get (xi_state x') i \<noteq> index_get (xi_state x) i \<longrightarrow> i \<in> set (id_added dl) \<union> set (id_removed dl)"
    by (auto simp: x_def)
  have "index_holds ?dk ?pc ?crc (one_fs True) (full_evidence ?dk ?pc ?crc (one_fs True)) rebuilt"
    using build [of True] rb(1) by auto
  then have get: "index_get (xi_state x') ?i = Some one_op"
    using one_delta(3) [OF _ it.delta_rel_refl] rb(2) by (auto simp: same_answers_def)
  moreover have "index_get (xi_state x) ?i = None"
    using index_get_evidence [OF st0(1), of ?i] by (auto simp: x_def sole_iff intro: option_ext)
  moreover from this get rb(4) have "?i \<in> set (id_added dl) \<union> set (id_removed dl)" by auto
  ultimately show ?thesis using run rb(3) by blast
qed


section \<open>The integrity check is sound\<close>













end
