(* ===== verification/Spec2Isabelle.thy ===== *)
theory Spec2Isabelle
  imports Ids Ordered HashTrie Replay StoreReplica ChainIndex
begin

text \<open>
  A verification development of EditChain, the append-only record of editing activity under \<open>src/crates\<close>.

  \<^bold>\<open>The program.\<close> An \<^emph>\<open>operation\<close> is an envelope around one recorded event. Operations are encoded to
  bytes, packed into checksummed frames and appended to numbered segment files; large contents are
  stored beside them as content-addressed blobs. The exact bytes of a record are evidence: a second byte
  representation of an identity never replaces the first but quarantines the identity. Readers replay
  the segments, or keep a tail that reads only what was appended since. A derived index answers queries
  from a checkpoint and can always be rebuilt. Replicas exchange inventories, records and contents over an
  authenticated stream and acknowledge only what is durable.

  \<^bold>\<open>Shared theories.\<close> \<open>EC_Prelude\<close>: fixed-width integers, little-endian fields, slices, results and the sequencing of
  fallible computations (\<open>rbind\<close>, \<open>sbind\<close>, \<open>traverse\<close>). \<open>Containers\<close>: ordered maps and sets as increasing
  lists, with the interfaces \<open>map_spec\<close> and \<open>ordered_map_spec\<close> that three implementations interpret.

  \<^bold>\<open>Core\<close> (\<open>editchain-core\<close>).
  \<^item> \<open>Ids\<close> (\<open>ids.rs\<close>, \<open>id_query.rs\<close>): identities, their text and prefix queries; the bounds of a query are exactly its
    prefix, texts round trip, and one documented parser is shown to accept too much.
  \<^item> \<open>Admission\<close> (\<open>admission.rs\<close>): the grow-only evidence set; merging is a join and conflicts stay quarantined.
  \<^item> \<open>OpModel\<close> (\<open>op.rs\<close>, \<open>payload.rs\<close>, \<open>git.rs\<close> and others), \<open>ActivityModel\<close> and \<open>ActivityOps\<close> (\<open>activity/\<close>): the data of an
    operation, validation, the envelope of a record and the renaming of exactly its physical references.
  \<^item> \<open>Replay\<close> (\<open>activity/replay.rs\<close>): reconstruction of streamed content; it ends, is exact, chooses a justified
    head and does not depend on the order of delivery.
  \<^item> \<open>Compat\<close> (\<open>legacy.rs\<close>, \<open>activity/compatibility.rs\<close>, \<open>activity/display.rs\<close>): older generations are read, upgraded and rendered soundly.

  \<^bold>\<open>Storage\<close> (\<open>editchain-store\<close>).
  \<^item> \<open>Ec03\<close>, \<open>Scan\<close> (\<open>format/ec03.rs\<close>, \<open>scan.rs\<close>, \<open>page.rs\<close>): frames decode exactly when they were encoded, a torn tail is
    recognised, and scanning arbitrary bytes is safe. \<open>RecordCodec\<close> (\<open>format/frame.rs\<close>): records round trip and
    rewriting old records keeps their operation; which unreadable bytes are not kept is stated exactly.
  \<^item> \<open>Log\<close> (\<open>log.rs\<close>): the interface \<open>append_log_laws\<close> of a log and batched admission over it. \<open>Segment\<close> (\<open>segment.rs\<close>,
    \<open>visit.rs\<close>): segments as such a log. \<open>SegmentLog\<close> interprets the interface, shows that acknowledged records are
    durable and that a writer recovers after a crash.
  \<^item> \<open>Reader\<close> (\<open>reader.rs\<close>): a chain read depends only on the set of records. \<open>Tail\<close>, \<open>TailRead\<close> (\<open>tail.rs\<close>, \<open>indexed.rs\<close>): the
    append frontier; the interface \<open>tail_corpus_laws\<close> of a corpus is interpreted by the canonical and the indexed
    chain, draining catches up with the directory and reports exactly the changes.
  \<^item> \<open>Blob\<close> (\<open>blob.rs\<close>, \<open>blob_adapter.rs\<close>, \<open>durable.rs\<close>): publication through temporary files; the interface
    \<open>blob_storage_laws\<close> is interpreted by it.

  \<^bold>\<open>Index\<close> (\<open>editchain-index-pages\<close>, \<open>editchain-index\<close>).
  \<^item> \<open>RankTree\<close>, \<open>Ordered\<close>, \<open>HashTrie\<close> (\<open>rank.rs\<close>, \<open>ordered.rs\<close>, \<open>map.rs\<close>): the collections refine maps and stay balanced,
    and a range cursor refines a double-ended queue of the entries in range.
  \<^item> \<open>Checkpoint\<close> (\<open>storage.rs\<close>): pages and the atomically replaced root; a commit is atomic and durable, and the
    interface \<open>checkpoint_laws\<close> is interpreted by it.
  \<^item> \<open>IndexContent\<close> (\<open>references.rs\<close>, \<open>keys.rs\<close>, \<open>content.rs\<close>, \<open>changes.rs\<close>), \<open>IndexState\<close> and \<open>IndexRefresh\<close> (\<open>state.rs\<close>): the derived
    state, what its tables hold, and that a chain has one index however it was reached; the journal of changes
    loses nothing silently. \<open>ChainIndex\<close> (\<open>chain.rs\<close>, \<open>integrity.rs\<close>): queries, refresh, rebuild, opening and the integrity
    check; a refresh answers as a rebuild does or fails with the error of a content, the journal or the checkpoint, and
    a passed check is a proof.

  \<^bold>\<open>Replication\<close> (\<open>editchain-sync\<close>).
  \<^item> \<open>Wire\<close> (\<open>wire.rs\<close>): frames decode whatever the fragmentation, in bounded space. \<open>InventoryOrder\<close> (\<open>inventory.rs\<close>): parents come
    first. \<open>SyncStorage\<close> (\<open>storage.rs\<close>, \<open>content.rs\<close>, snapshots of \<open>replica.rs\<close>): the interface \<open>replication_laws\<close>.
    \<open>ObjectTransfer\<close> (\<open>transfer.rs\<close>, \<open>progress.rs\<close>): transfers are exact. \<open>SyncSession\<close> (\<open>session.rs\<close>): the state machine of a session.
  \<^item> \<open>StoreReplica\<close> (\<open>adapter.rs\<close>): storage for a session over any log and blob storage; the interface of the two gives
    the one of the session (a sublocale) and is interpreted by segments and blob directory together, so that
    a session acknowledges only what is durable there.

  \<^bold>\<open>How code is modelled.\<close> Structs are records, enums datatypes, machine integers words or natural numbers with the
  checked, saturating or wrapping operation the source uses written out. Errors are values of a sum type and
  every operation that changes state returns the state also when it fails. Mutable files are explicit:
  a directory holds bytes, the part of them that survives a crash, and a list of outcomes for the coming calls,
  so theorems quantify over all failures. Hash maps are lists of distinct keys or functions; no result depends on
  their order. Functions outside the sources are parameters: BLAKE3 and its key derivation (\<open>b3\<close>, \<open>dk\<close>), the CRC
  (\<open>crc\<close>), the postcard and CBOR serializers (\<open>pc\<close>, \<open>mp\<close>, \<open>cb\<close>), the bytes a key feeds to its hasher, the resolver of blocks,
  the process identifier, the clock text of a journal generation and the blob source of an index (\<open>rc\<close>).
  Theorems that rely on such a function name what they assume, usually that decoding inverts encoding.

  \<^bold>\<open>Loops.\<close> All loops are total functions. Scanning, polling, draining, replaying and visiting inventories end by
  measures on the bytes, segments or records left. Two drivers that iterate a component, one that pages through the
  journal and one that runs a transfer, take a number of rounds, and the theorems say how many are enough.

  \<^bold>\<open>Limits of the model.\<close> One poll of a tail sees one snapshot of the directory, and a refresh of the index reads one
  snapshot; writers act between operations. Reading files does not fail except where a component's theory
  models it. Writers exclude each other by a lock flag; waiting for a lock by polling the clock is left out. Pages
  nested in a checkpointed value are written by its serializer.

  \<^bold>\<open>Not modelled.\<close> The lazy pages (\<open>page.rs\<close>), which are transparent to the collections; the migration of a store on disk
  (\<open>migration.rs\<close>), whose record conversion is modelled; the replica ledger on disk and its JSON manifests (\<open>replica.rs\<close> but for
  snapshots, \<open>evidence.rs\<close>, \<open>scope.rs\<close>); sockets, processes, handshakes and keys (\<open>endpoint.rs\<close>, \<open>identity.rs\<close>, \<open>ipc.rs\<close>,
  \<open>membership.rs\<close>, \<open>secure.rs\<close>); the engine's assembly of JSON answers, the Git adapter and the command line; and the
  serde implementations, which the data formats drive.
\<close>

end
